(* ===== verification/Prelude.thy ===== *)
theory Prelude imports Main "HOL-Library.Sublist" begin

text \<open>
  What the components share: names for the model's types, JavaScript's string operations
  (\<open>startsWith\<close>, \<open>endsWith\<close>, \<open>includes\<close>, \<open>indexOf\<close>, \<open>slice\<close>) on lists, decimal
  printing, optional minima and maxima, and the operations a SQL statement performs on a table
  held as a list of rows. The facts about them are simp rules or members of the collections
  \<open>js_string\<close> and \<open>table_simps\<close>.

  A string is a list of characters. The code only compares, searches and cuts strings at ASCII
  characters, which commutes with the encoding; where a result depends on UTF-16 code units
  (clipping an error message) the model uses 16-bit words instead.
\<close>

named_theorems js_string \<open>characterisations of the string operations\<close>
named_theorems table_simps \<open>effect of table operations on lookups\<close>

type_synonym did = string
type_synonym cid = string
type_synonym uri = string

subsection \<open>Strings\<close>

abbreviation startsWith :: "'a list \<Rightarrow> 'a list \<Rightarrow> bool" where
  "startsWith s p \<equiv> prefix p s"

abbreviation endsWith :: "'a list \<Rightarrow> 'a list \<Rightarrow> bool" where
  "endsWith s p \<equiv> suffix p s"

fun js_includes :: "'a list \<Rightarrow> 'a list \<Rightarrow> bool" where
  "js_includes [] p \<longleftrightarrow> p = []"
| "js_includes (c # cs) p \<longleftrightarrow> prefix p (c # cs) \<or> js_includes cs p"

lemma includes_iff [js_string]: "js_includes s p \<longleftrightarrow> (\<exists>a b. s = a @ p @ b)"
proof (induction s)
  case Nil
  then show ?case by simp
next
  case (Cons c cs)
  show ?case
  proof
    assume "js_includes (c # cs) p"
    then consider "prefix p (c # cs)" | "js_includes cs p" by auto
    then show "\<exists>a b. c # cs = a @ p @ b"
    proof cases
      case 1
      then obtain b where "c # cs = [] @ p @ b" by (auto simp: prefix_def)
      then show ?thesis by blast
    next
      case 2
      with Cons.IH obtain a b where "c # cs = (c # a) @ p @ b" by auto
      then show ?thesis by blast
    qed
  next
    assume "\<exists>a b. c # cs = a @ p @ b"
    then obtain a b where ab: "c # cs = a @ p @ b" by blast
    show "js_includes (c # cs) p"
    proof (cases a)
      case Nil
      with ab have "prefix p (c # cs)" by simp
      then show ?thesis by simp
    next
      case (Cons x xs)
      with ab have "cs = xs @ p @ b" by simp
      with Cons.IH show ?thesis by auto
    qed
  qed
qed

text \<open>\<open>s.indexOf(c)\<close> for a one-character string; \<open>None\<close> is -1.\<close>

fun indexOf :: "'a \<Rightarrow> 'a list \<Rightarrow> nat option" where
  "indexOf c [] = None"
| "indexOf c (x # xs) = (if x = c then Some 0 else map_option Suc (indexOf c xs))"

lemma indexOf_None [js_string]: "indexOf c s = None \<longleftrightarrow> c \<notin> set s"
  by (induction s) auto

lemma indexOf_Some [js_string]:
  "indexOf c s = Some n \<longleftrightarrow> n < length s \<and> s ! n = c \<and> c \<notin> set (take n s)"
proof (induction s arbitrary: n)
  case Nil
  then show ?case by simp
next
  case (Cons x xs)
  then show ?case by (cases n) auto
qed

lemma indexOf_split:
  "c \<notin> set a \<Longrightarrow> indexOf c (a @ c # b) = Some (length a)"
  by (induction a) auto

lemma indexOf_SomeD:
  assumes "indexOf c s = Some n"
  obtains a b where "s = a @ c # b" and "length a = n" and "c \<notin> set a"
proof -
  from assms have "n < length s" "s ! n = c" "c \<notin> set (take n s)"
    by (auto simp: indexOf_Some)
  then have "s = take n s @ c # drop (Suc n) s" "length (take n s) = n"
    by (auto simp: id_take_nth_drop)
  with that \<open>c \<notin> set (take n s)\<close> show thesis by blast
qed

text \<open>Decimal printing of a natural number, as a template literal does it.\<close>

fun dec :: "nat \<Rightarrow> string" where
  "dec n = (if n < 10 then [char_of (48 + n)] else dec (n div 10) @ [char_of (48 + n mod 10)])"

declare dec.simps [simp del]

subsection \<open>Optional minima and maxima\<close>

fun opt_min :: "int option \<Rightarrow> int \<Rightarrow> int option" where
  "opt_min None x = Some x"
| "opt_min (Some y) x = Some (min y x)"

fun opt_max :: "int option \<Rightarrow> int \<Rightarrow> int option" where
  "opt_max None x = Some x"
| "opt_max (Some y) x = Some (max y x)"

definition is_least :: "int set \<Rightarrow> int option \<Rightarrow> bool" where
  "is_least A m \<longleftrightarrow> (case m of None \<Rightarrow> A = {} | Some x \<Rightarrow> x \<in> A \<and> (\<forall>y \<in> A. x \<le> y))"

definition is_greatest :: "int set \<Rightarrow> int option \<Rightarrow> bool" where
  "is_greatest A m \<longleftrightarrow> (case m of None \<Rightarrow> A = {} | Some x \<Rightarrow> x \<in> A \<and> (\<forall>y \<in> A. y \<le> x))"

lemma is_least_empty [simp]: "is_least {} m \<longleftrightarrow> m = None"
  by (cases m) (auto simp: is_least_def)

lemma is_greatest_empty [simp]: "is_greatest {} m \<longleftrightarrow> m = None"
  by (cases m) (auto simp: is_greatest_def)

lemma is_least_insert: "is_least A m \<Longrightarrow> is_least (insert x A) (opt_min m x)"
  by (cases m) (auto simp: is_least_def min_def)

lemma is_greatest_insert: "is_greatest A m \<Longrightarrow> is_greatest (insert x A) (opt_max m x)"
  by (cases m) (auto simp: is_greatest_def max_def)

lemma is_least_unique: "is_least A m \<Longrightarrow> is_least A n \<Longrightarrow> m = n"
  by (cases m; cases n) (auto simp: is_least_def intro: antisym)

end
