(* ===== verification/Capability.thy ===== *)
theory Capability imports Prelude begin

text \<open>
  \<open>packages/ucan/src/capabilities/capability.ts\<close>: \<open>defineCapability\<close> and the derivation rule
  it gives ucanto, which decides whether a claimed capability is covered by the one delegated one
  link above it.
\<close>

datatype derive_error = DeriveError string

text \<open>
  The options the rule reads. \<open>'nb\<close> is the type of the caveats the schema yields; the
  \<open>derives\<close> callback returns \<open>None\<close> for \<open>{ ok: {} }\<close>. An absent option is \<open>None\<close>.
\<close>

record 'nb define_options =
  opt_can :: string
  opt_protocol :: "string option"
  opt_supportWildcards :: "bool option"
  opt_derives :: "(uri \<times> 'nb \<Rightarrow> uri \<times> 'nb \<Rightarrow> derive_error option) option"

text \<open>The capability definition handed to ucanto.\<close>

record 'nb capability_def =
  cap_can :: string
  cap_protocol :: string
  cap_derives :: "uri \<times> 'nb \<Rightarrow> uri \<times> 'nb \<Rightarrow> derive_error option"

definition quoted :: "uri \<Rightarrow> string" where
  "quoted u = CHR 0x27 # u @ [CHR 0x27]"

definition not_covered :: "uri \<Rightarrow> uri \<Rightarrow> derive_error" where
  "not_covered c d = DeriveError (''Resource '' @ quoted c @ '' not covered by '' @ quoted d)"

definition not_matching :: "uri \<Rightarrow> uri \<Rightarrow> derive_error" where
  "not_matching c d = DeriveError (''Resource '' @ quoted c @ '' does not match '' @ quoted d)"

text \<open>The resource part of the rule: \<open>None\<close> when the claimed URI is covered.\<close>

definition resource_error :: "bool \<Rightarrow> uri \<Rightarrow> uri \<Rightarrow> derive_error option" where
  "resource_error supportWildcards claimedUri delegatedUri =
    (if claimedUri \<noteq> delegatedUri then
       if supportWildcards then
         if endsWith delegatedUri ''/*'' then
           if \<not> startsWith claimedUri (butlast delegatedUri)
           then Some (not_covered claimedUri delegatedUri) else None
         else if endsWith delegatedUri '':*'' then
           if \<not> startsWith claimedUri (butlast delegatedUri)
           then Some (not_covered claimedUri delegatedUri) else None
         else Some (not_matching claimedUri delegatedUri)
       else Some (not_matching claimedUri delegatedUri)
     else None)"

definition defineCapability :: "'nb define_options \<Rightarrow> 'nb capability_def" where
  "defineCapability options =
    (let protocol = (case opt_protocol options of None \<Rightarrow> ''urn:'' | Some p \<Rightarrow> p);
         supportWildcards = (case opt_supportWildcards options of None \<Rightarrow> True | Some b \<Rightarrow> b)
     in \<lparr> cap_can = opt_can options,
          cap_protocol = protocol,
          cap_derives = (\<lambda>(claimedUri, claimedNb) (delegatedUri, delegatedNb).
            case resource_error supportWildcards claimedUri delegatedUri of
              Some e \<Rightarrow> Some e
            | None \<Rightarrow> (case opt_derives options of
                  Some f \<Rightarrow> f (claimedUri, claimedNb) (delegatedUri, delegatedNb)
                | None \<Rightarrow> None)) \<rparr>)"

subsection \<open>What coverage means\<close>

text \<open>
  The abstract reading of a resource: a URI ending in \<open>/*\<close> or \<open>:*\<close> grants everything that
  begins with what precedes the star, any other URI only itself.
\<close>

definition is_wildcard :: "uri \<Rightarrow> bool" where
  "is_wildcard u \<longleftrightarrow> endsWith u ''/*'' \<or> endsWith u '':*''"

definition grants :: "uri \<Rightarrow> uri set" where
  "grants d = {c. c = d \<or> is_wildcard d \<and> prefix (butlast d) c}"

lemma resource_error_None:
  "resource_error True c d = None \<longleftrightarrow> c \<in> grants d"
  by (auto simp: resource_error_def grants_def is_wildcard_def)

lemma resource_error_exact:
  "resource_error False c d = None \<longleftrightarrow> c = d"
  by (simp add: resource_error_def)

lemma is_wildcard_split:
  "is_wildcard d \<longleftrightarrow> (\<exists>p sep. d = p @ [sep, CHR ''*''] \<and> (sep = CHR ''/'' \<or> sep = CHR '':''))"
  by (auto simp: is_wildcard_def suffix_def)

lemma grants_self [simp]: "d \<in> grants d"
  by (simp add: grants_def)

lemma grants_mono:
  assumes "c \<in> grants d"
  shows "grants c \<subseteq> grants d"
proof (cases "c = d")
  case True
  then show ?thesis by simp
next
  case False
  with assms have w: "is_wildcard d" and pre: "prefix (butlast d) c"
    by (auto simp: grants_def)
  from w obtain p sep where d: "d = p @ [sep, CHR ''*'']" and sep: "sep = CHR ''/'' \<or> sep = CHR '':''"
    by (auto simp: is_wildcard_split)
  from d have bd: "butlast d = p @ [sep]" by (simp add: butlast_append)
  show ?thesis
  proof
    fix x assume "x \<in> grants c"
    then consider "x = c" | "is_wildcard c" "prefix (butlast c) x" by (auto simp: grants_def)
    then show "x \<in> grants d"
    proof cases
      case 1
      with assms show ?thesis by simp
    next
      case 2
      then obtain q where c: "c = butlast c @ [CHR ''*'']"
        by (auto simp: is_wildcard_split butlast_append)
      have "prefix (p @ [sep]) (butlast c)"
      proof -
        from pre bd c have "prefix (p @ [sep]) (butlast c @ [CHR ''*''])" by metis
        moreover have "p @ [sep] \<noteq> butlast c @ [CHR ''*'']" using sep by auto
        ultimately show ?thesis by (auto simp: prefix_snoc)
      qed
      with 2 have "prefix (butlast d) x" using bd prefix_order.trans by metis
      with w show ?thesis by (simp add: grants_def)
    qed
  qed
qed

text \<open>A claimed URI other than the delegated one continues it after a separator.\<close>

lemma grants_boundary:
  assumes "c \<in> grants d" and "c \<noteq> d"
  shows "\<exists>p sep rest. d = p @ [sep, CHR ''*''] \<and> c = p @ [sep] @ rest
    \<and> (sep = CHR ''/'' \<or> sep = CHR '':'')"
  using assms by (auto simp: grants_def is_wildcard_split butlast_append prefix_def)

subsection \<open>Chains of re-delegation\<close>

text \<open>
  A chain lists the resources from the invocation (first) to the root (last), each derived from
  the next by the rule.
\<close>

fun derivable_chain :: "'nb capability_def \<Rightarrow> (uri \<times> 'nb) list \<Rightarrow> bool" where
  "derivable_chain def (c # d # rest) \<longleftrightarrow> cap_derives def c d = None \<and> derivable_chain def (d # rest)"
| "derivable_chain def _ \<longleftrightarrow> True"

lemma defineCapability_derives:
  "cap_derives (defineCapability opts) c d = None \<Longrightarrow>
     (if opt_supportWildcards opts = Some False then fst c = fst d else fst c \<in> grants (fst d))"
  by (cases c; cases d; cases "opt_supportWildcards opts")
    (auto simp: defineCapability_def Let_def resource_error_None resource_error_exact
      split: option.splits if_splits)

text \<open>
  C7. Attenuation is transitive: along any chain of delegations that ucanto accepts link by
  link, what the invocation claims lies within what the root delegated. With wildcard support off
  the resource is the root's own.
\<close>

theorem derivable_chain_attenuates:
  assumes "derivable_chain (defineCapability opts) chain" and "chain \<noteq> []"
  shows "grants (fst (hd chain)) \<subseteq> grants (fst (last chain))
    \<and> (opt_supportWildcards opts = Some False \<longrightarrow> fst (hd chain) = fst (last chain))"
  using assms
proof (induction "defineCapability opts" chain rule: derivable_chain.induct)
  case (1 c d rest)
  then have ih: "grants (fst d) \<subseteq> grants (fst (last (d # rest)))
      \<and> (opt_supportWildcards opts = Some False \<longrightarrow> fst d = fst (last (d # rest)))"
    and step: "cap_derives (defineCapability opts) c d = None"
    by auto
  from defineCapability_derives [OF step] have "fst c \<in> grants (fst d)"
    and "opt_supportWildcards opts = Some False \<longrightarrow> fst c = fst d"
    by (auto split: if_splits)
  with ih grants_mono [of "fst c" "fst d"] show ?case by auto
qed auto

theorem derivable_chain_attenuates_witness:
  "grants ''ixo:fs/a/b'' \<subseteq> grants ''ixo:*''"
proof -
  let ?opts = "\<lparr>opt_can = ''fs/read'', opt_protocol = Some ''ixo:'', opt_supportWildcards = None,
    opt_derives = None :: (uri \<times> unit \<Rightarrow> uri \<times> unit \<Rightarrow> derive_error option) option\<rparr>"
  let ?chain = "[(''ixo:fs/a/b'', ()), (''ixo:fs/a/*'', ()), (''ixo:fs/*'', ()), (''ixo:*'', ())]"
  have "derivable_chain (defineCapability ?opts) ?chain" by code_simp
  from derivable_chain_attenuates [OF this] show ?thesis by simp
qed

end
