(* ===== verification/Resource_Issuer.thy ===== *)
theory Resource_Issuer imports Prelude begin

text \<open>
  \<open>resourceNamesIssuer\<close> of \<open>packages/ucan/src/validator/validator.ts\<close>: whether a resource URI
  names a DID as its authority, so that the DID may issue capabilities on it without any
  delegation. The executable definition follows the code's early returns; \<open>names_issuer\<close> is the
  same test on a decomposition of the URI, \<open>resource_owner\<close> the rule of the comment above it: the one
  DID a resource belongs to, computed without the issuer.
\<close>

definition resourceNamesIssuer :: "uri \<Rightarrow> did \<Rightarrow> bool" where
  "resourceNamesIssuer resource issuer =
    (if issuer = [] then False
     else if resource = issuer then True
     else if startsWith resource ''did:'' then False
     else if js_includes resource ''?'' \<or> js_includes resource ''#'' then False
     else case indexOf CHR '':'' resource of
       None \<Rightarrow> False
     | Some schemeEnd \<Rightarrow>
       (let rest = drop (Suc schemeEnd) resource;
            slash = indexOf CHR ''/'' rest;
            authority = (case slash of None \<Rightarrow> rest | Some n \<Rightarrow> take n rest)
        in if authority = [] then False
           else if authority = issuer then True
           else if startsWith authority ''did:'' then False
           else if endsWith authority (CHR '':'' # issuer) then True
           else if js_includes authority '':did:'' then False
           else case slash of
             None \<Rightarrow> False
           | Some n \<Rightarrow>
             (let path = drop (Suc n) rest;
                  firstSegment = (case indexOf CHR ''/'' path of None \<Rightarrow> path | Some m \<Rightarrow> take m path)
              in firstSegment = issuer)))"

subsection \<open>The test on a decomposed URI\<close>

text \<open>\<open>scheme:authority\<close>, then nothing or a path beginning with a slash.\<close>

definition uri_parts :: "uri \<Rightarrow> uri \<Rightarrow> uri \<Rightarrow> uri \<Rightarrow> bool" where
  "uri_parts r scheme authority tail \<longleftrightarrow>
     r = scheme @ CHR '':'' # authority @ tail \<and> CHR '':'' \<notin> set scheme
     \<and> CHR ''/'' \<notin> set authority \<and> (tail = [] \<or> hd tail = CHR ''/'')"

definition is_did :: "string \<Rightarrow> bool" where
  "is_did s \<longleftrightarrow> prefix ''did:'' s"

definition mentions_did :: "string \<Rightarrow> bool" where
  "mentions_did s \<longleftrightarrow> (\<exists>a b. s = a @ '':did:'' @ b)"

definition first_segment :: "uri \<Rightarrow> uri \<Rightarrow> bool" where
  "first_segment tail seg \<longleftrightarrow>
     (\<exists>more. tail = CHR ''/'' # seg @ more \<and> CHR ''/'' \<notin> set seg \<and> (more = [] \<or> hd more = CHR ''/''))"

definition authority_names :: "uri \<Rightarrow> uri \<Rightarrow> did \<Rightarrow> bool" where
  "authority_names authority tail issuer \<longleftrightarrow> authority \<noteq> [] \<and>
     (authority = issuer
      \<or> \<not> is_did authority
        \<and> (suffix (CHR '':'' # issuer) authority
           \<or> \<not> mentions_did authority \<and> first_segment tail issuer))"

definition names_issuer :: "uri \<Rightarrow> did \<Rightarrow> bool" where
  "names_issuer r i \<longleftrightarrow> i \<noteq> [] \<and>
     (r = i
      \<or> \<not> is_did r \<and> CHR ''?'' \<notin> set r \<and> CHR ''#'' \<notin> set r
        \<and> (\<exists>scheme authority tail. uri_parts r scheme authority tail \<and> authority_names authority tail i))"

lemma includes_single [simp]: "js_includes s [c] \<longleftrightarrow> c \<in> set s"
  by (auto simp: js_string in_set_conv_decomp)

lemma split_at_first:
  "(case indexOf c s of None \<Rightarrow> s | Some n \<Rightarrow> take n s) = takeWhile (\<lambda>x. x \<noteq> c) s"
  by (induction s) (auto split: option.splits)

lemma drop_at_first:
  "indexOf c s = Some n \<Longrightarrow> dropWhile (\<lambda>x. x \<noteq> c) s = c # drop (Suc n) s"
  by (induction s arbitrary: n) auto

lemma takeWhile_dropWhile_unique:
  assumes "a @ t = takeWhile (\<lambda>x. x \<noteq> c) s @ dropWhile (\<lambda>x. x \<noteq> c) s" "c \<notin> set a" "t = [] \<or> hd t = c"
  shows "a = takeWhile (\<lambda>x. x \<noteq> c) s \<and> t = dropWhile (\<lambda>x. x \<noteq> c) s"
proof -
  from assms(1) have s: "s = a @ t" by simp
  from assms(2) have *: "\<forall>x \<in> set a. x \<noteq> c" by auto
  show ?thesis
  proof (cases t)
    case Nil
    with s * have "takeWhile (\<lambda>x. x \<noteq> c) s = a" "dropWhile (\<lambda>x. x \<noteq> c) s = []"
      by (auto simp: takeWhile_eq_all_conv dropWhile_eq_Nil_conv)
    with Nil show ?thesis by (simp del: dropWhile_eq_Nil_conv)
  next
    case (Cons y ys)
    with assms(3) have "y = c" by simp
    with s * Cons show ?thesis by (simp add: takeWhile_append2 dropWhile_append2)
  qed
qed

lemma first_segment_conv:
  "first_segment tail seg \<longleftrightarrow>
     (\<exists>path. tail = CHR ''/'' # path \<and> takeWhile (\<lambda>x. x \<noteq> CHR ''/'') path = seg)"
proof
  assume "first_segment tail seg"
  then obtain more where t: "tail = CHR ''/'' # seg @ more" and s: "CHR ''/'' \<notin> set seg"
    and m: "more = [] \<or> hd more = CHR ''/''" by (auto simp: first_segment_def)
  from takeWhile_dropWhile_unique [of seg more "CHR ''/''" "seg @ more"] s m
  show "\<exists>path. tail = CHR ''/'' # path \<and> takeWhile (\<lambda>x. x \<noteq> CHR ''/'') path = seg"
    using t by auto
next
  assume "\<exists>path. tail = CHR ''/'' # path \<and> takeWhile (\<lambda>x. x \<noteq> CHR ''/'') path = seg"
  then obtain path where t: "tail = CHR ''/'' # path" "seg = takeWhile (\<lambda>x. x \<noteq> CHR ''/'') path"
    by auto
  have "dropWhile (\<lambda>x. x \<noteq> CHR ''/'') path = [] \<or> hd (dropWhile (\<lambda>x. x \<noteq> CHR ''/'') path) = CHR ''/''"
    using hd_dropWhile [of "\<lambda>x. x \<noteq> CHR ''/''" path] by auto
  moreover have "CHR ''/'' \<notin> set seg" using t set_takeWhileD by fastforce
  moreover have "tail = CHR ''/'' # seg @ dropWhile (\<lambda>x. x \<noteq> CHR ''/'') path" using t by simp
  ultimately show "first_segment tail seg" unfolding first_segment_def by blast
qed

lemma uri_parts_exists:
  assumes "indexOf CHR '':'' r = Some n"
  defines "rest \<equiv> drop (Suc n) r"
  shows "uri_parts r scheme authority tail \<longleftrightarrow>
    scheme = take n r \<and> authority = takeWhile (\<lambda>x. x \<noteq> CHR ''/'') rest
      \<and> tail = dropWhile (\<lambda>x. x \<noteq> CHR ''/'') rest" (is "?L \<longleftrightarrow> ?R")
proof
  assume ?R
  moreover have "r = take n r @ CHR '':'' # rest" "CHR '':'' \<notin> set (take n r)"
    using assms id_take_nth_drop [of n r] by (auto simp: js_string)
  moreover have "dropWhile (\<lambda>x. x \<noteq> CHR ''/'') rest = []
      \<or> hd (dropWhile (\<lambda>x. x \<noteq> CHR ''/'') rest) = CHR ''/''"
    using hd_dropWhile [of "\<lambda>x. x \<noteq> CHR ''/''" rest] by auto
  ultimately show ?L
    unfolding uri_parts_def using set_takeWhileD by fastforce
next
  assume ?L
  then have r: "r = scheme @ CHR '':'' # authority @ tail" and s: "CHR '':'' \<notin> set scheme"
    and a: "CHR ''/'' \<notin> set authority" and t: "tail = [] \<or> hd tail = CHR ''/''"
    by (auto simp: uri_parts_def)
  from indexOf_split [OF s] r have "indexOf CHR '':'' r = Some (length scheme)" by simp
  with assms have n: "n = length scheme" by simp
  with r have "scheme = take n r" "rest = authority @ tail" by (simp_all add: rest_def)
  moreover from takeWhile_dropWhile_unique [of authority tail "CHR ''/''" rest] a t this(2)
  have "authority = takeWhile (\<lambda>x. x \<noteq> CHR ''/'') rest \<and> tail = dropWhile (\<lambda>x. x \<noteq> CHR ''/'') rest"
    by simp
  ultimately show ?R by simp
qed

lemma uri_parts_colon: "uri_parts r scheme authority tail \<Longrightarrow> indexOf CHR '':'' r \<noteq> None"
  by (auto simp: uri_parts_def js_string)

lemma path_check:
  "(case indexOf CHR ''/'' rest of
      None \<Rightarrow> False
    | Some n \<Rightarrow> (case indexOf CHR ''/'' (drop (Suc n) rest) of
        None \<Rightarrow> drop (Suc n) rest | Some m \<Rightarrow> take m (drop (Suc n) rest)) = i)
   \<longleftrightarrow> first_segment (dropWhile (\<lambda>x. x \<noteq> CHR ''/'') rest) i"
proof (cases "indexOf CHR ''/'' rest")
  case None
  then have "dropWhile (\<lambda>x. x \<noteq> CHR ''/'') rest = []"
    by (auto simp: js_string dropWhile_eq_Nil_conv)
  with None show ?thesis by (simp add: first_segment_conv del: dropWhile_eq_Nil_conv)
next
  case (Some n)
  with drop_at_first [OF Some] show ?thesis by (simp add: first_segment_conv split_at_first)
qed

text \<open>
  The check on a decomposed URI: the issuer is the whole resource, the authority, a colon-separated
  suffix of a non-DID authority, or the first path segment under an authority that mentions no DID.
\<close>

lemma resourceNamesIssuer_spec: "resourceNamesIssuer r i = names_issuer r i"
proof (cases "indexOf CHR '':'' r")
  case None
  then have "\<not> uri_parts r s a t" for s a t using uri_parts_colon by blast
  with None show ?thesis
    by (auto simp: resourceNamesIssuer_def names_issuer_def)
next
  case (Some n)
  let ?rest = "drop (Suc n) r"
  let ?auth = "takeWhile (\<lambda>x. x \<noteq> CHR ''/'') ?rest"
  let ?tail = "dropWhile (\<lambda>x. x \<noteq> CHR ''/'') ?rest"
  have names: "(\<exists>s a t. uri_parts r s a t \<and> authority_names a t i) \<longleftrightarrow> authority_names ?auth ?tail i"
    using uri_parts_exists [OF Some] by auto
  have did: "js_includes ?auth '':did:'' = mentions_did ?auth"
    unfolding mentions_did_def by (rule includes_iff)
  show ?thesis
    unfolding resourceNamesIssuer_def names_issuer_def names Some option.case Let_def
      split_at_first path_check [unfolded split_at_first] did includes_single
    unfolding authority_names_def is_did_def
    by argo
qed

subsection \<open>The owner of a resource\<close>

text \<open>The rule of the comment: whose resource it is. First the DID inside a named authority, the longest one.\<close>

fun inner_did :: "string \<Rightarrow> did option" where
  "inner_did [] = None"
| "inner_did (c # s) = (if c = CHR '':'' \<and> is_did s then Some s else inner_did s)"

definition authority_and_path :: "uri \<Rightarrow> (uri \<times> uri) option" where
  "authority_and_path r = (case indexOf CHR '':'' r of None \<Rightarrow> None
     | Some n \<Rightarrow> Some (takeWhile (\<lambda>x. x \<noteq> CHR ''/'') (drop (Suc n) r), dropWhile (\<lambda>x. x \<noteq> CHR ''/'') (drop (Suc n) r)))"

text \<open>The DID a named authority contains, as in \<open>ixo:tenant:did:key:z6Mk\<close>.\<close>

definition tenant_did :: "uri \<Rightarrow> did option" where
  "tenant_did r = (if is_did r \<or> CHR ''?'' \<in> set r \<or> CHR ''#'' \<in> set r then None
     else case authority_and_path r of None \<Rightarrow> None
       | Some (authority, _) \<Rightarrow> if is_did authority then None else inner_did authority)"

text \<open>
  The owner: a resource that is a DID belongs to it; one with a query or a fragment to nobody; otherwise it
  is the authority if that is a DID, else the DID the authority contains, else the first path segment.
\<close>

definition resource_owner :: "uri \<Rightarrow> did option" where
  "resource_owner r = (if is_did r then Some r
     else if CHR ''?'' \<in> set r \<or> CHR ''#'' \<in> set r then None
     else case authority_and_path r of None \<Rightarrow> None
       | Some (authority, path) \<Rightarrow>
           if authority = [] then None
           else if is_did authority then Some authority
           else case inner_did authority of
             Some d \<Rightarrow> Some d
           | None \<Rightarrow> (let segment = takeWhile (\<lambda>x. x \<noteq> CHR ''/'') (tl path) in if is_did segment then Some segment else None))"

lemma suffix_mentions_did:
  "suffix (CHR '':'' # i) a \<Longrightarrow> is_did i \<Longrightarrow> mentions_did a"
  by (auto simp: suffix_def is_did_def prefix_def mentions_did_def)

lemma inner_did_mentions: "inner_did s = None \<longleftrightarrow> \<not> mentions_did s"
proof (induction s)
  case (Cons c s)
  have "mentions_did (c # s) \<longleftrightarrow> c = CHR '':'' \<and> is_did s \<or> mentions_did s"
    by (auto simp: mentions_did_def is_did_def prefix_def Cons_eq_append_conv)
  with Cons show ?case by auto
qed (simp add: mentions_did_def)

lemma inner_did_suffix: "inner_did s = Some d \<Longrightarrow> suffix (CHR '':'' # d) s \<and> is_did d"
  by (induction s) (auto split: if_splits intro: suffix_ConsI)

lemma inner_did_longest:
  assumes "suffix (CHR '':'' # i) s" "is_did i" "inner_did s = Some d"
  shows "d = i \<or> suffix (CHR '':'' # i) d"
  using assms by (induction s) (auto simp: suffix_Cons split: if_splits)

lemma parts_of_uri: "(\<exists>scheme. uri_parts r scheme a t) \<longleftrightarrow> authority_and_path r = Some (a, t)"
proof (cases "indexOf CHR '':'' r")
  case None
  then show ?thesis using uri_parts_colon by (fastforce simp: authority_and_path_def)
next
  case (Some n)
  then show ?thesis using uri_parts_exists [OF Some] by (auto simp: authority_and_path_def)
qed

lemma segment_of_path:
  assumes "authority_and_path r = Some (a, t)" "is_did i"
  shows "first_segment t i \<longleftrightarrow> takeWhile (\<lambda>x. x \<noteq> CHR ''/'') (tl t) = i"
proof -
  from assms(1) obtain scheme where "uri_parts r scheme a t" using parts_of_uri by blast
  then have "t = [] \<or> (\<exists>path. t = CHR ''/'' # path)" by (cases t) (auto simp: uri_parts_def)
  then show ?thesis using assms(2) by (auto simp: first_segment_conv is_did_def)
qed

text \<open>
  C8. A DID may issue on a resource without a delegation exactly when the resource is its own by the rule of
  the comment, apart from one case: under a named authority that contains a DID, every DID that is a
  colon-separated tail of that one is accepted as well. In particular the owner always is, nobody is
  on a resource without an owner, and outside such authorities it is the owner alone.
\<close>

theorem resourceNamesIssuer_owner:
  assumes "is_did i"
  shows "resourceNamesIssuer r i \<longleftrightarrow>
    resource_owner r = Some i \<or> (\<exists>d. tenant_did r = Some d \<and> suffix (CHR '':'' # i) d)"
proof -
  have i: "i \<noteq> []" using assms by (auto simp: is_did_def)
  consider "is_did r" | "\<not> is_did r" "CHR ''?'' \<in> set r \<or> CHR ''#'' \<in> set r \<or> authority_and_path r = None"
    | a t where "\<not> is_did r" "CHR ''?'' \<notin> set r" "CHR ''#'' \<notin> set r" "authority_and_path r = Some (a, t)"
    by fastforce
  then show ?thesis
  proof cases
    case 1
    then show ?thesis using i by (auto simp: resourceNamesIssuer_spec names_issuer_def resource_owner_def tenant_did_def)
  next
    case 2
    have "\<nexists>scheme a t. uri_parts r scheme a t" if "authority_and_path r = None" using parts_of_uri [of r] that by simp
    then show ?thesis using 2 assms
      by (auto simp: resourceNamesIssuer_spec names_issuer_def resource_owner_def tenant_did_def)
  next
    case (3 a t)
    have "(\<exists>scheme authority tail. uri_parts r scheme authority tail \<and> authority_names authority tail i) \<longleftrightarrow> authority_names a t i"
      using parts_of_uri [of r] 3(4) by (metis option.inject prod.inject)
    moreover have "r \<noteq> i" using 3(1) assms by blast
    ultimately have n: "names_issuer r i \<longleftrightarrow> authority_names a t i" using 3 i by (simp add: names_issuer_def)
    note seg = segment_of_path [OF 3(4) assms]
    show ?thesis
    proof (cases "inner_did a")
      case None
      then have "\<not> mentions_did a" "\<not> suffix (CHR '':'' # i) a"
        using inner_did_mentions suffix_mentions_did assms by blast+
      then show ?thesis using 3 None assms i seg
        by (auto simp: resourceNamesIssuer_spec n authority_names_def resource_owner_def tenant_did_def Let_def)
    next
      case (Some d)
      have "suffix (CHR '':'' # i) a \<longleftrightarrow> d = i \<or> suffix (CHR '':'' # i) d"
        using inner_did_longest [OF _ assms Some] inner_did_suffix [OF Some] suffix_order.trans [of "CHR '':'' # i" d a]
        by (auto dest: suffix_ConsD)
      moreover have "a \<noteq> []" "mentions_did a" using Some inner_did_mentions [of a] by auto
      ultimately show ?thesis using 3 Some assms i
        by (auto simp: resourceNamesIssuer_spec n authority_names_def resource_owner_def tenant_did_def)
    qed
  qed
qed

text \<open>The filesystem of a DID is its own; the comment's example of a folder shared with it is nobody's.\<close>

lemma resourceNamesIssuer_owner_witness:
  "is_did ''did:key:z6Mk'' \<and> resource_owner ''ixo:filesystem/did:key:z6Mk/files'' = Some ''did:key:z6Mk''
   \<and> resourceNamesIssuer ''ixo:filesystem/did:key:z6Mk/files'' ''did:key:z6Mk''
   \<and> \<not> resourceNamesIssuer ''ixo:filesystem/alice/did:key:z6Mk'' ''did:key:z6Mk''"
proof -
  have d: "is_did ''did:key:z6Mk''" by code_simp
  have "resource_owner ''ixo:filesystem/did:key:z6Mk/files'' = Some ''did:key:z6Mk''" by code_simp
  moreover have "resource_owner ''ixo:filesystem/alice/did:key:z6Mk'' = None" "tenant_did ''ixo:filesystem/alice/did:key:z6Mk'' = None"
    by code_simp+
  ultimately show ?thesis using d resourceNamesIssuer_owner [OF d] by simp
qed

subsection \<open>Who can be named\<close>

lemma uri_parts_unique:
  "uri_parts r s a t \<Longrightarrow> uri_parts r s' a' t' \<Longrightarrow> a = a' \<and> t = t'"
  using uri_parts_colon uri_parts_exists by (metis not_None_eq)

lemma first_segment_unique: "first_segment t i \<Longrightarrow> first_segment t j \<Longrightarrow> i = j"
  by (auto simp: first_segment_conv)

lemma authority_names_nested:
  assumes "authority_names a t i" "authority_names a t j" "is_did i" "is_did j" "i \<noteq> j"
  shows "suffix (CHR '':'' # i) j \<or> suffix (CHR '':'' # j) i"
proof -
  from assms have "\<not> is_did a" by (auto simp: authority_names_def)
  with assms have "suffix (CHR '':'' # i) a" "suffix (CHR '':'' # j) a"
    using suffix_mentions_did first_segment_unique by (auto simp: authority_names_def)
  with \<open>i \<noteq> j\<close> show ?thesis
    using suffix_same_cases [of "CHR '':'' # i" a "CHR '':'' # j"]
    by (auto simp: suffix_Cons)
qed

text \<open>
  C9. Two different DIDs can self-issue on the same resource only when one of them is a
  colon-separated tail of the other: no third DID is ever named, and two DIDs of which neither
  continues the other are never both accepted.
\<close>

theorem named_issuers_nested:
  assumes "resourceNamesIssuer r i" and "resourceNamesIssuer r j"
    and "is_did i" and "is_did j" and "i \<noteq> j"
  shows "suffix (CHR '':'' # i) j \<or> suffix (CHR '':'' # j) i"
proof -
  from assms(1,2) have n: "names_issuer r i" "names_issuer r j"
    by (simp_all add: resourceNamesIssuer_spec)
  with assms(3-5) have "\<not> is_did r" by (auto simp: names_issuer_def)
  with n assms(3,4) obtain s a t s' a' t' where "uri_parts r s a t" "authority_names a t i"
    "uri_parts r s' a' t'" "authority_names a' t' j" by (auto simp: names_issuer_def)
  with uri_parts_unique assms(3-5) show ?thesis using authority_names_nested by metis
qed

text \<open>
  Such a pair exists: under a named authority a \<open>did:web\<close> that contains another DID does not
  keep the resource to itself. The comment excludes a DID that is "part of a longer segment", but
  \<open>ixo:tenant:did:web:alice.com:did:key:zBob\<close> lets Bob's key self-issue on it as well.
\<close>

lemma named_issuers_ambiguous:
  "\<exists>r alice bob. is_did alice \<and> is_did bob \<and> alice \<noteq> bob
     \<and> resourceNamesIssuer r alice \<and> resourceNamesIssuer r bob"
proof -
  have "is_did ''did:web:alice.com:did:key:zBob'' \<and> is_did ''did:key:zBob''
    \<and> ''did:web:alice.com:did:key:zBob'' \<noteq> ''did:key:zBob''
    \<and> resourceNamesIssuer ''ixo:tenant:did:web:alice.com:did:key:zBob'' ''did:web:alice.com:did:key:zBob''
    \<and> resourceNamesIssuer ''ixo:tenant:did:web:alice.com:did:key:zBob'' ''did:key:zBob''"
    by code_simp
  then show ?thesis by blast
qed

text \<open>The same pair at the resource of the counterexample is the witness for nesting.\<close>

lemma named_issuers_nested_witness:
  "suffix (CHR '':'' # ''did:web:alice.com:did:key:zBob'') ''did:key:zBob''
   \<or> suffix (CHR '':'' # ''did:key:zBob'') ''did:web:alice.com:did:key:zBob''"
proof (rule named_issuers_nested)
  show "resourceNamesIssuer ''ixo:tenant:did:web:alice.com:did:key:zBob'' ''did:web:alice.com:did:key:zBob''"
    by code_simp
  show "resourceNamesIssuer ''ixo:tenant:did:web:alice.com:did:key:zBob'' ''did:key:zBob''"
    by code_simp
  show "is_did ''did:web:alice.com:did:key:zBob''" by code_simp
  show "is_did ''did:key:zBob''" by code_simp
  show "''did:web:alice.com:did:key:zBob'' \<noteq> ''did:key:zBob''" by simp
qed

end
