(* ===== verification/Proof_Chain.thy ===== *)
theory Proof_Chain imports Prelude "HOL-Library.Extended_Nat" begin

text \<open>
  The proof tree of a UCAN token and what \<open>packages/ucan/src/validator/validator.ts\<close> reads off it
  before and after verification: the bounds on its shape, the search for the universal resource,
  the effective validity window, and the chain's DIDs and CIDs.

  A tree is what ucanto's \<open>Delegation.extract\<close> yields: a materialised delegation or a bare CID link
  is a \<open>Node\<close> (the link of a bare CID has no issuer, audience or capabilities), anything that is
  no object is \<open>NonObject\<close>.
\<close>

subsection \<open>Tokens\<close>

record cap =
  can :: string
  with_uri :: uri
  nb :: "(string \<times> string) list"

datatype cap_entry = NotRecord | CapRecord (the_cap: cap)

datatype time_field = NoNumber | NonFinite | At int

record link =
  link_cid :: "cid option"
  link_issuer :: "did option"
  link_audience :: "did option"
  link_capabilities :: "cap_entry list"
  link_expiration :: time_field
  link_notBefore :: time_field
  link_facts :: "string list"

datatype node = NonObject | Node link "node list"

fun node_links :: "node \<Rightarrow> link list" where
  "node_links NonObject = []"
| "node_links (Node n ps) = [n]"

fun nodeCid :: "node \<Rightarrow> cid option" where
  "nodeCid NonObject = None"
| "nodeCid (Node n ps) = link_cid n"

text \<open>All nodes of a tree, parents before their proofs, one entry per visit.\<close>

fun subnodes :: "node \<Rightarrow> node list" where
  "subnodes NonObject = []"
| "subnodes (Node n ps) = Node n ps # concat (map subnodes ps)"

lemma subnodes_trans: "x \<in> set (subnodes y) \<Longrightarrow> y \<in> set (subnodes t) \<Longrightarrow> x \<in> set (subnodes t)"
  by (induction t rule: subnodes.induct) auto

lemma subnodes_size: "x \<in> set (subnodes t) \<Longrightarrow> size x \<le> size t"
proof (induction t rule: subnodes.induct)
  case (2 n ps)
  then consider "x = Node n ps" | p where "p \<in> set ps" "x \<in> set (subnodes p)" by auto
  then show ?case
  proof cases
    case 2
    with "2.IH" have "size x \<le> size p" by blast
    moreover from \<open>p \<in> set ps\<close> have "size p < size (Node n ps)"
      by (simp add: less_Suc_eq_le size_list_estimation')
    ultimately show ?thesis by simp
  qed simp
qed simp

lemma subnodes_proofs:
  "Node n ps \<in> set (subnodes t) \<Longrightarrow> p \<in> set ps \<Longrightarrow> set (subnodes p) \<subseteq> set (subnodes t)"
proof
  fix x assume t: "Node n ps \<in> set (subnodes t)" and "p \<in> set ps" and "x \<in> set (subnodes p)"
  then have "x \<in> set (subnodes (Node n ps))" by auto
  then show "x \<in> set (subnodes t)" using t by (rule subnodes_trans)
qed

lemma proof_size: "p \<in> set ps \<Longrightarrow> size p < size (Node n ps)"
  by (simp add: less_Suc_eq_le size_list_estimation')

subsection \<open>Bounds on the shape\<close>

record limits =
  maxDepth :: nat
  maxNodes :: nat
  maxProofsPerLink :: nat
  maxCapabilitiesPerLink :: nat
  maxIssuers :: nat
  maxWork :: nat

definition DEFAULT_PROOF_CHAIN_LIMITS :: limits where
  "DEFAULT_PROOF_CHAIN_LIMITS = \<lparr>maxDepth = 10, maxNodes = 64, maxProofsPerLink = 16,
     maxCapabilitiesPerLink = 32, maxIssuers = 16, maxWork = 256\<rparr>"

text \<open>A configured value: an integer, or anything else with its printed form.\<close>

datatype num_arg = IntArg int | OtherArg string

fun show_num :: "num_arg \<Rightarrow> string" where
  "show_num (IntArg i) = (if i < 0 then CHR ''-'' # dec (nat (- i)) else dec (nat i))"
| "show_num (OtherArg s) = s"

fun positiveInteger :: "num_arg \<Rightarrow> string \<Rightarrow> string + nat" where
  "positiveInteger v name =
    (case v of
       IntArg i \<Rightarrow> if i < 1 then Inl (name @ '' must be a positive integer, got '' @ show_num v)
                  else Inr (nat i)
     | OtherArg _ \<Rightarrow> Inl (name @ '' must be a positive integer, got '' @ show_num v))"

record partial_limits =
  pl_maxDepth :: "num_arg option"
  pl_maxNodes :: "num_arg option"
  pl_maxProofsPerLink :: "num_arg option"
  pl_maxCapabilitiesPerLink :: "num_arg option"
  pl_maxIssuers :: "num_arg option"
  pl_maxWork :: "num_arg option"

datatype limits_option = LimitsFalse | LimitsUndefined | LimitsPartial partial_limits

text \<open>One iteration of the loop over the keys: an undefined value keeps the default.\<close>

definition set_limit ::
  "num_arg option \<Rightarrow> string \<Rightarrow> (nat \<Rightarrow> limits \<Rightarrow> limits) \<Rightarrow> string + limits \<Rightarrow> string + limits" where
  "set_limit value key upd acc =
    (case acc of Inl e \<Rightarrow> Inl e
     | Inr limits \<Rightarrow> (case value of None \<Rightarrow> Inr limits
         | Some v \<Rightarrow> (case positiveInteger v (''proofChainLimits.'' @ key) of
               Inl e \<Rightarrow> Inl e | Inr k \<Rightarrow> Inr (upd k limits))))"

fun resolveProofChainLimits :: "limits_option \<Rightarrow> string + limits option" where
  "resolveProofChainLimits LimitsFalse = Inr None"
| "resolveProofChainLimits LimitsUndefined = Inr (Some DEFAULT_PROOF_CHAIN_LIMITS)"
| "resolveProofChainLimits (LimitsPartial p) =
    map_sum id Some
      (set_limit (pl_maxWork p) ''maxWork'' (\<lambda>k l. l\<lparr>maxWork := k\<rparr>)
      (set_limit (pl_maxIssuers p) ''maxIssuers'' (\<lambda>k l. l\<lparr>maxIssuers := k\<rparr>)
      (set_limit (pl_maxCapabilitiesPerLink p) ''maxCapabilitiesPerLink''
        (\<lambda>k l. l\<lparr>maxCapabilitiesPerLink := k\<rparr>)
      (set_limit (pl_maxProofsPerLink p) ''maxProofsPerLink'' (\<lambda>k l. l\<lparr>maxProofsPerLink := k\<rparr>)
      (set_limit (pl_maxNodes p) ''maxNodes'' (\<lambda>k l. l\<lparr>maxNodes := k\<rparr>)
      (set_limit (pl_maxDepth p) ''maxDepth'' (\<lambda>k l. l\<lparr>maxDepth := k\<rparr>)
        (Inr DEFAULT_PROOF_CHAIN_LIMITS)))))))"

datatype shape_reason =
    TooDeep nat | TooManyNodes nat | TooManyIssuers nat
  | TooManyCapabilities nat | TooManyProofs nat | TooMuchWork nat

fun reason_text :: "shape_reason \<Rightarrow> string" where
  "reason_text (TooDeep n) = ''Proof chain is deeper than '' @ dec n @ '' links''"
| "reason_text (TooManyNodes n) = ''Proof chain has more than '' @ dec n @ '' nodes''"
| "reason_text (TooManyIssuers n) = ''Proof chain involves more than '' @ dec n @ '' issuers''"
| "reason_text (TooManyCapabilities n) =
     ''A delegation carries more than '' @ dec n @ '' capabilities''"
| "reason_text (TooManyProofs n) = ''A delegation carries more than '' @ dec n @ '' proofs''"
| "reason_text (TooMuchWork n) =
     ''Proof chain needs more than '' @ dec n @ '' units of verification work''"

record walk_state =
  visits :: nat
  issuers :: "did set"
  reason :: "shape_reason option"

definition fail :: "shape_reason \<Rightarrow> walk_state \<Rightarrow> enat \<times> walk_state" where
  "fail why s = (\<infinity>, case reason s of None \<Rightarrow> s\<lparr>reason := Some why\<rparr> | Some _ \<Rightarrow> s)"

fun walk :: "limits \<Rightarrow> node \<Rightarrow> nat \<Rightarrow> walk_state \<Rightarrow> enat \<times> walk_state"
  and walk_proofs :: "limits \<Rightarrow> node list \<Rightarrow> nat \<Rightarrow> enat \<Rightarrow> walk_state \<Rightarrow> enat \<times> walk_state" where
  "walk L NonObject depth s = (1, s)"
| "walk L (Node n proofs) depth s =
    (if depth > maxDepth L then fail (TooDeep (maxDepth L)) s
     else let s1 = s\<lparr>visits := visits s + 1\<rparr> in
     if visits s1 > maxNodes L then fail (TooManyNodes (maxNodes L)) s1
     else let s2 = (case link_issuer n of None \<Rightarrow> s1
                    | Some i \<Rightarrow> s1\<lparr>issuers := insert i (issuers s1)\<rparr>) in
     if card (issuers s2) > maxIssuers L then fail (TooManyIssuers (maxIssuers L)) s2
     else let capabilities = length (link_capabilities n) in
     if capabilities > maxCapabilitiesPerLink L
     then fail (TooManyCapabilities (maxCapabilitiesPerLink L)) s2
     else if length proofs > maxProofsPerLink L
     then fail (TooManyProofs (maxProofsPerLink L)) s2
     else let (below, s3) = walk_proofs L proofs (depth + 1) 0 s2;
              work = enat (max 1 capabilities) * (1 + below) in
     if work > enat (maxWork L) then fail (TooMuchWork (maxWork L)) s3
     else (work, s3))"
| "walk_proofs L [] depth below s = (below, s)"
| "walk_proofs L (p # ps) depth below s =
    (let (w, s') = walk L p depth s; below' = below + w
     in if below' > enat (maxWork L) then (below', s') else walk_proofs L ps depth below' s')"

definition proofChainShapeError :: "node \<Rightarrow> limits \<Rightarrow> shape_reason option" where
  "proofChainShapeError token L =
     reason (snd (walk L token 0 \<lparr>visits = 0, issuers = {}, reason = None\<rparr>))"

text \<open>What the bounds mean, on the whole tree.\<close>

fun height :: "node \<Rightarrow> nat" where
  "height NonObject = 0"
| "height (Node n ps) = Suc (fold max (map height ps) 0)"

fun work :: "node \<Rightarrow> nat" where
  "work NonObject = 1"
| "work (Node n ps) = max 1 (length (link_capabilities n)) * (1 + sum_list (map work ps))"

definition issuer_set :: "node \<Rightarrow> did set" where
  "issuer_set t = {i. \<exists>n ps. Node n ps \<in> set (subnodes t) \<and> link_issuer n = Some i}"

fun links_ok :: "limits \<Rightarrow> node \<Rightarrow> bool" where
  "links_ok L NonObject \<longleftrightarrow> True"
| "links_ok L (Node n ps) \<longleftrightarrow> length (link_capabilities n) \<le> maxCapabilitiesPerLink L
     \<and> length ps \<le> maxProofsPerLink L \<and> (\<forall>p \<in> set ps. links_ok L p)"

definition within_limits :: "limits \<Rightarrow> node \<Rightarrow> bool" where
  "within_limits L t \<longleftrightarrow> height t \<le> Suc (maxDepth L) \<and> length (subnodes t) \<le> maxNodes L
     \<and> card (issuer_set t) \<le> maxIssuers L \<and> links_ok L t
     \<and> (t \<noteq> NonObject \<longrightarrow> work t \<le> maxWork L)"

lemma fold_max_le: "fold max xs a \<le> (b::nat) \<longleftrightarrow> a \<le> b \<and> (\<forall>x \<in> set xs. x \<le> b)"
  by (induction xs arbitrary: a) auto

lemma height_Node_le:
  "height (Node n ps) + d \<le> Suc m \<longleftrightarrow>
     d \<le> m \<and> (\<forall>p \<in> set ps. p = NonObject \<or> height p + Suc d \<le> Suc m)"
proof -
  have "height (Node n ps) + d \<le> Suc m \<longleftrightarrow> d \<le> m \<and> fold max (map height ps) 0 \<le> m - d"
    by auto
  also have "\<dots> \<longleftrightarrow> d \<le> m \<and> (\<forall>p \<in> set ps. height p \<le> m - d)"
    by (simp add: fold_max_le)
  also have "\<dots> \<longleftrightarrow> d \<le> m \<and> (\<forall>p \<in> set ps. p = NonObject \<or> height p + Suc d \<le> Suc m)"
    by (auto; force)
  finally show ?thesis .
qed

lemma issuer_set_simps [simp]:
  "issuer_set NonObject = {}"
  "issuer_set (Node n ps) = set_option (link_issuer n) \<union> (\<Union>p \<in> set ps. issuer_set p)"
  by (auto simp: issuer_set_def)

lemma finite_issuer_set [simp]: "finite (issuer_set t)"
  by (induction t rule: subnodes.induct) auto

text \<open>The tree fits the bounds when the walk reaches it at depth \<open>d\<close> in state \<open>s\<close>.\<close>

definition fits :: "limits \<Rightarrow> node \<Rightarrow> nat \<Rightarrow> walk_state \<Rightarrow> bool" where
  "fits L t d s \<longleftrightarrow> (t = NonObject \<or> height t + d \<le> Suc (maxDepth L))
     \<and> visits s + length (subnodes t) \<le> maxNodes L
     \<and> card (issuers s \<union> issuer_set t) \<le> maxIssuers L \<and> links_ok L t
     \<and> (t = NonObject \<or> work t \<le> maxWork L)"

definition fits_list :: "limits \<Rightarrow> node list \<Rightarrow> nat \<Rightarrow> nat \<Rightarrow> walk_state \<Rightarrow> bool" where
  "fits_list L ps d b s \<longleftrightarrow> (\<forall>p \<in> set ps. p = NonObject \<or> height p + d \<le> Suc (maxDepth L))
     \<and> visits s + length (concat (map subnodes ps)) \<le> maxNodes L
     \<and> card (issuers s \<union> (\<Union>p \<in> set ps. issuer_set p)) \<le> maxIssuers L
     \<and> (\<forall>p \<in> set ps. links_ok L p) \<and> b + sum_list (map work ps) \<le> maxWork L"

definition walked :: "node list \<Rightarrow> did set \<Rightarrow> walk_state \<Rightarrow> walk_state" where
  "walked ns is s = s\<lparr>visits := visits s + length ns, issuers := issuers s \<union> is\<rparr>"

definition walking :: "limits \<Rightarrow> walk_state \<Rightarrow> bool" where
  "walking L s \<longleftrightarrow> reason s = None \<and> visits s \<le> maxNodes L
     \<and> finite (issuers s) \<and> card (issuers s) \<le> maxIssuers L"

lemma fail_fails [simp]: "fst (fail why s) = \<infinity>" "reason (snd (fail why s)) \<noteq> None"
  by (auto simp: fail_def split: option.splits)

lemma fits_Node:
  assumes "d \<le> maxDepth L" and "length (link_capabilities n) \<le> maxCapabilitiesPerLink L"
    and "length ps \<le> maxProofsPerLink L"
    and "s2 = walked [Node n ps] (set_option (link_issuer n)) s"
  shows "fits L (Node n ps) d s \<longleftrightarrow>
    fits_list L ps (d + 1) 0 s2 \<and> work (Node n ps) \<le> maxWork L"
proof -
  have "sum_list (map work ps) \<le> work (Node n ps)"
    by (simp add: trans_le_add2 max_def)
  with assms show ?thesis
    by (auto simp: fits_def fits_list_def height_Node_le walked_def Un_assoc simp del: height.simps)
qed

lemma fits_Cons:
  "walking L s \<Longrightarrow>
   fits_list L (p # ps) d b s \<longleftrightarrow> fits L p d s \<and> b + work p \<le> maxWork L
     \<and> fits_list L ps d (b + work p) (walked (subnodes p) (issuer_set p) s)"
proof -
  assume w: "walking L s"
  let ?A = "issuers s \<union> issuer_set p" and ?B = "\<Union>q \<in> set ps. issuer_set q"
  from w have "card ?A \<le> card (?A \<union> ?B)"
    by (intro card_mono) (auto simp: walking_def)
  then have c: "card (?A \<union> ?B) \<le> maxIssuers L \<longleftrightarrow>
      card ?A \<le> maxIssuers L \<and> card (?A \<union> ?B) \<le> maxIssuers L" by linarith
  have v: "visits s + (a + b) \<le> maxNodes L \<longleftrightarrow> visits s + a \<le> maxNodes L \<and> visits s + a + b \<le> maxNodes L"
    for a b by linarith
  have k: "b + (x + y) \<le> maxWork L \<longleftrightarrow> x \<le> maxWork L \<and> b + x \<le> maxWork L \<and> b + x + y \<le> maxWork L"
    for x y by linarith
  have n: "(p = NonObject \<or> work p \<le> maxWork L) \<and> b + work p \<le> maxWork L \<longleftrightarrow> b + work p \<le> maxWork L"
    by linarith
  show ?thesis
    unfolding fits_def fits_list_def walked_def list.set ball_simps list.map concat.simps length_append
      sum_list.Cons UN_insert Un_assoc [symmetric] k v
    using c n by auto
qed

lemma walking_walked: "walking L s \<Longrightarrow> fits L p d s \<Longrightarrow> walking L (walked (subnodes p) (issuer_set p) s)"
  by (auto simp: walking_def walked_def fits_def)

lemma walk_cases:
  "walking L s \<Longrightarrow> (if fits L t d s then walk L t d s = (enat (work t), walked (subnodes t) (issuer_set t) s)
     else fst (walk L t d s) = \<infinity> \<and> reason (snd (walk L t d s)) \<noteq> None)"
  and walk_proofs_cases:
  "walking L s \<Longrightarrow> below = enat b \<Longrightarrow> b \<le> maxWork L \<Longrightarrow>
     (if fits_list L ps d b s
      then walk_proofs L ps d below s = (enat (b + sum_list (map work ps)),
             walked (concat (map subnodes ps)) (\<Union>p \<in> set ps. issuer_set p) s)
      else enat (maxWork L) < fst (walk_proofs L ps d below s))"
proof (induction L t d s and L ps d below s arbitrary: and b rule: walk_walk_proofs.induct)
  case (1 L d s)
  then show ?case by (simp add: fits_def walking_def walked_def one_enat_def)
next
  case (2 L n ps d s)
  let ?s1 = "s\<lparr>visits := visits s + 1\<rparr>"
  let ?s2 = "walked [Node n ps] (set_option (link_issuer n)) s"
  have s2: "(case link_issuer n of None \<Rightarrow> ?s1 | Some i \<Rightarrow> ?s1\<lparr>issuers := insert i (issuers ?s1)\<rparr>) = ?s2"
    by (auto simp: walked_def split: option.splits)
  show ?case
  proof (cases "d \<le> maxDepth L \<and> visits s + 1 \<le> maxNodes L \<and> card (issuers ?s2) \<le> maxIssuers L
      \<and> length (link_capabilities n) \<le> maxCapabilitiesPerLink L \<and> length ps \<le> maxProofsPerLink L")
    case False
    have "card (issuers ?s2) \<le> card (issuers s \<union> issuer_set (Node n ps))"
      using 2(2) by (intro card_mono) (auto simp: walked_def walking_def)
    with False have "\<not> fits L (Node n ps) d s"
      by (auto simp: fits_def height_Node_le simp del: height.simps)
    moreover have "\<exists>why s'. walk L (Node n ps) d s = fail why s'"
    proof -
      have v: "visits ?s1 = visits s + 1" by simp
      from False consider
          "\<not> d \<le> maxDepth L"
        | "d \<le> maxDepth L" "\<not> visits s + 1 \<le> maxNodes L"
        | "d \<le> maxDepth L" "visits s + 1 \<le> maxNodes L" "\<not> card (issuers ?s2) \<le> maxIssuers L"
        | "d \<le> maxDepth L" "visits s + 1 \<le> maxNodes L" "card (issuers ?s2) \<le> maxIssuers L"
          "\<not> length (link_capabilities n) \<le> maxCapabilitiesPerLink L"
        | "d \<le> maxDepth L" "visits s + 1 \<le> maxNodes L" "card (issuers ?s2) \<le> maxIssuers L"
          "length (link_capabilities n) \<le> maxCapabilitiesPerLink L" "\<not> length ps \<le> maxProofsPerLink L"
        by blast
      then show ?thesis
        unfolding walk.simps Let_def s2 v not_less [symmetric] by cases (simp_all only: if_True if_False not_not; blast)+
    qed
    ultimately show ?thesis using fail_fails by metis
  next
    case True
    then have w2: "walking L ?s2" using 2(2) by (simp add: walking_def walked_def)
    from True w2 have ih: "if fits_list L ps (d + 1) 0 ?s2
      then walk_proofs L ps (d + 1) 0 ?s2 = (enat (sum_list (map work ps)),
             walked (concat (map subnodes ps)) (\<Union>p \<in> set ps. issuer_set p) ?s2)
      else enat (maxWork L) < fst (walk_proofs L ps (d + 1) 0 ?s2)"
      using 2(1) [of ?s1 ?s2 "length (link_capabilities n)" 0] by (simp add: s2 zero_enat_def [symmetric] cong: if_cong)
    have w: "walk L (Node n ps) d s =
      (let (below, s3) = walk_proofs L ps (d + 1) 0 ?s2;
           work = enat (max 1 (length (link_capabilities n))) * (1 + below)
       in if work > enat (maxWork L) then fail (TooMuchWork (maxWork L)) s3 else (work, s3))"
      using True unfolding walk.simps Let_def s2 by simp
    show ?thesis
    proof (cases "fits_list L ps (d + 1) 0 ?s2")
      case fl: True
      with ih w have "walk L (Node n ps) d s =
        (if maxWork L < work (Node n ps) then fail (TooMuchWork (maxWork L))
            (walked (concat (map subnodes ps)) (\<Union>p \<in> set ps. issuer_set p) ?s2)
         else (enat (work (Node n ps)), walked (concat (map subnodes ps)) (\<Union>p \<in> set ps. issuer_set p) ?s2))"
        by (simp add: one_enat_def)
      moreover have "walked (concat (map subnodes ps)) (\<Union>p \<in> set ps. issuer_set p) ?s2
        = walked (subnodes (Node n ps)) (issuer_set (Node n ps)) s"
        by (simp add: walked_def Un_assoc)
      ultimately show ?thesis
        using fits_Node [of d L n ps ?s2 s] True fl by simp
    next
      case fl: False
      obtain below s3 where b: "walk_proofs L ps (d + 1) 0 ?s2 = (below, s3)" by fastforce
      with fl ih have "enat (maxWork L) < below" by simp
      moreover have "below \<le> enat (max 1 (length (link_capabilities n))) * (1 + below)"
      proof -
        obtain k where "max 1 (length (link_capabilities n)) = Suc k"
          by (cases "max 1 (length (link_capabilities n))") auto
        then show ?thesis by (cases below) (simp_all add: one_enat_def)
      qed
      ultimately have "enat (maxWork L) < enat (max 1 (length (link_capabilities n))) * (1 + below)"
        by (rule less_le_trans)
      with w b have "walk L (Node n ps) d s = fail (TooMuchWork (maxWork L)) s3"
        by (simp add: Let_def)
      moreover have "\<not> fits L (Node n ps) d s"
        using fits_Node [of d L n ps ?s2 s] True fl by simp
      ultimately show ?thesis by simp
    qed
  qed
next
  case (3 L d below s)
  then show ?case by (simp add: fits_list_def walking_def walked_def)
next
  case (4 L p ps d below s)
  show ?case
  proof (cases "fits L p d s")
    case True
    with 4 have wp: "walk L p d s = (enat (work p), walked (subnodes p) (issuer_set p) s)"
      by (simp split: if_splits)
    have w': "walking L (walked (subnodes p) (issuer_set p) s)"
      using 4(3) True by (rule walking_walked)
    show ?thesis
    proof (cases "b + work p \<le> maxWork L")
      case bw: True
      let ?s' = "walked (subnodes p) (issuer_set p) s"
      have "if fits_list L ps d (b + work p) ?s'
        then walk_proofs L ps d (enat (b + work p)) ?s' = (enat (b + work p + sum_list (map work ps)),
               walked (concat (map subnodes ps)) (\<Union>p \<in> set ps. issuer_set p) ?s')
        else enat (maxWork L) < fst (walk_proofs L ps d (enat (b + work p)) ?s')"
        using 4(2) [OF refl wp [symmetric] _ _ w', of "enat (b + work p)" "b + work p"] 4(4) bw wp
        by simp
      moreover have "walk_proofs L (p # ps) d below s = walk_proofs L ps d (enat (b + work p)) ?s'"
        using wp bw 4(4) by simp
      moreover have "walked (concat (map subnodes ps)) (\<Union>p \<in> set ps. issuer_set p) ?s'
        = walked (concat (map subnodes (p # ps))) (\<Union>p \<in> set (p # ps). issuer_set p) s"
        by (simp add: walked_def Un_assoc)
      ultimately show ?thesis using fits_Cons [OF 4(3)] True bw by (simp add: add.assoc)
    next
      case False
      with wp 4(4) show ?thesis using fits_Cons [OF 4(3)] by simp
    qed
  next
    case False
    with 4(1) [OF 4(3)] have "fst (walk L p d s) = \<infinity>" by simp
    then show ?thesis using False fits_Cons [OF 4(3)] by (cases "walk L p d s") simp
  qed
qed

text \<open>
  C10. The shape check accepts a token exactly when its whole proof tree is within the configured
  bounds, whatever order the early exits come in: depth, nodes counted once per visit, distinct
  issuers, capabilities and proofs per link, and the work ucanto may do.
\<close>

theorem proofChainShapeError_iff: "proofChainShapeError t L = None \<longleftrightarrow> within_limits L t"
proof -
  let ?s0 = "\<lparr>visits = 0, issuers = {}, reason = None\<rparr>"
  have "walking L ?s0" by (simp add: walking_def)
  from walk_cases [OF this, of t 0]
  have "reason (snd (walk L t 0 ?s0)) = None \<longleftrightarrow> fits L t 0 ?s0"
    by (auto simp: walked_def split: if_splits)
  then show ?thesis
    by (cases t) (auto simp: proofChainShapeError_def within_limits_def fits_def)
qed

end
