(* ===== verification/Proof_Walks.thy ===== *)
theory Proof_Walks imports Proof_Chain begin

text \<open>
  The walks over a token's proof tree that remember what they have seen: the search for the
  universal resource, the validity window, the CIDs handed to the revocation checker and the DIDs
  reported as the chain (\<open>chainUsesUniversalResource\<close>, \<open>chainTimeBounds\<close>,
  \<open>delegationChainCids\<close>, \<open>buildProofChain\<close>, \<open>verifiedProofChain\<close>,
  \<open>verifiedProofChainCids\<close> of \<open>packages/ucan/src/validator/validator.ts\<close>).

  \<open>dfs\<close> is the reference walk: the nodes visited, in post-order, when a node whose CID was seen is
  skipped. Content addressing (one CID, one subtree) makes it reach everything.
\<close>

subsection \<open>The reference walk\<close>

fun dfs :: "node \<Rightarrow> cid set \<Rightarrow> node list \<times> cid set"
  and dfs_list :: "node list \<Rightarrow> cid set \<Rightarrow> node list \<times> cid set" where
  "dfs NonObject seen = ([], seen)"
| "dfs (Node n ps) seen =
    (case link_cid n of
       None \<Rightarrow> (let (out, seen') = dfs_list ps seen in (out @ [Node n ps], seen'))
     | Some c \<Rightarrow> if c \<in> seen then ([], seen)
        else (let (out, seen') = dfs_list ps (insert c seen) in (out @ [Node n ps], seen')))"
| "dfs_list [] seen = ([], seen)"
| "dfs_list (p # ps) seen =
    (let (out, seen') = dfs p seen; (out', seen'') = dfs_list ps seen' in (out @ out', seen''))"

definition cids_of :: "node set \<Rightarrow> cid set" where
  "cids_of X = {c. \<exists>x \<in> X. nodeCid x = Some c}"

definition objects :: "node \<Rightarrow> node set" where
  "objects t = {x \<in> set (subnodes t). x \<noteq> NonObject}"

text \<open>Content addressing: nodes with the same CID are the same tree.\<close>

definition cid_consistent :: "node \<Rightarrow> bool" where
  "cid_consistent t \<longleftrightarrow> (\<forall>x \<in> set (subnodes t). \<forall>y \<in> set (subnodes t).
     nodeCid x \<noteq> None \<longrightarrow> nodeCid x = nodeCid y \<longrightarrow> x = y)"

lemma cids_of_simps [simp]:
  "cids_of {} = {}" "cids_of (X \<union> Y) = cids_of X \<union> cids_of Y"
  "cids_of (insert x X) = set_option (nodeCid x) \<union> cids_of X"
  by (auto simp: cids_of_def)

lemma subnodes_NonObject [simp]: "NonObject \<notin> set (subnodes t)"
  by (induction t rule: subnodes.induct) auto

lemma subnodes_self: "t \<noteq> NonObject \<Longrightarrow> t \<in> set (subnodes t)"
  by (cases t) auto

lemma dfs_seen:
  "snd (dfs t seen) = seen \<union> cids_of (set (fst (dfs t seen)))"
  "snd (dfs_list ts seen) = seen \<union> cids_of (set (fst (dfs_list ts seen)))"
  by (induction t seen and ts seen rule: dfs_dfs_list.induct)
    (auto split: option.splits prod.splits)

lemma dfs_sub:
  "set (fst (dfs t seen)) \<subseteq> set (subnodes t)"
  "set (fst (dfs_list ts seen)) \<subseteq> (\<Union>p \<in> set ts. set (subnodes p))"
proof (induction t seen and ts seen rule: dfs_dfs_list.induct)
  case (2 n ps seen)
  show ?case
  proof (cases "link_cid n")
    case None
    from 2(1) [OF None] have "set (fst (dfs_list ps seen)) \<subseteq> set (subnodes (Node n ps))" by auto
    with None show ?thesis by (simp add: case_prod_unfold Let_def)
  next
    case (Some c)
    show ?thesis
    proof (cases "c \<in> seen")
      case False
      from 2(2) [OF Some False]
      have "set (fst (dfs_list ps (insert c seen))) \<subseteq> set (subnodes (Node n ps))" by auto
      with Some False show ?thesis by (simp add: case_prod_unfold Let_def)
    qed (simp add: Some)
  qed
next
  case (4 p ps seen)
  have "set (fst (dfs_list ps (snd (dfs p seen)))) \<subseteq> (\<Union>q \<in> set ps. set (subnodes q))"
    by (rule 4(2) [OF refl prod.collapse])
  with 4(1) show ?case by (auto simp: case_prod_unfold Let_def)
qed simp_all

lemma dfs_fresh:
  "x \<in> set (fst (dfs t seen)) \<Longrightarrow> nodeCid x \<notin> Some ` seen"
  "x \<in> set (fst (dfs_list ts seen)) \<Longrightarrow> nodeCid x \<notin> Some ` seen"
proof (induction t seen and ts seen rule: dfs_dfs_list.induct)
  case (2 n ps seen)
  show ?case
  proof (cases "link_cid n")
    case None
    from None "2.prems" consider "x = Node n ps" | "x \<in> set (fst (dfs_list ps seen))"
      by (auto simp: case_prod_unfold Let_def)
    then show ?thesis using 2(1) [OF None] None by cases auto
  next
    case (Some c)
    then have c: "c \<notin> seen" using "2.prems" by (auto split: if_splits)
    from Some c "2.prems" consider "x = Node n ps" | "x \<in> set (fst (dfs_list ps (insert c seen)))"
      by (auto simp: case_prod_unfold Let_def)
    then show ?thesis
    proof cases
      case 1
      with Some c show ?thesis by auto
    next
      case below: 2
      from 2(2) [OF Some c below] show ?thesis by blast
    qed
  qed
next
  case (4 p ps seen)
  from "4.prems" consider "x \<in> set (fst (dfs p seen))"
    | "x \<in> set (fst (dfs_list ps (snd (dfs p seen))))"
    by (auto simp: case_prod_unfold Let_def)
  then show ?case
  proof cases
    case 1
    then show ?thesis by (rule 4(1))
  next
    case rest: 2
    have "nodeCid x \<notin> Some ` snd (dfs p seen)" by (rule 4(2) [OF refl prod.collapse rest])
    then show ?thesis by (auto simp: dfs_seen(1) [of p seen])
  qed
qed simp_all

text \<open>
  Whatever the walk leaves out lies under a node whose CID had been seen when the walk began;
  \<open>b\<close> is a node of the tree at hand, \<open>R\<close> the whole token.
\<close>

definition blocked :: "cid set \<Rightarrow> node set \<Rightarrow> node \<Rightarrow> bool" where
  "blocked seen T x \<longleftrightarrow> (\<exists>b \<in> T. x \<in> set (subnodes b) \<and> nodeCid b \<in> Some ` seen)"

lemma strict_subnode:
  assumes "cid_consistent R" "Node n ps \<in> set (subnodes R)" "p \<in> set ps"
    "b \<in> set (subnodes p)" "link_cid n = Some c"
  shows "nodeCid b \<noteq> Some c"
proof
  assume "nodeCid b = Some c"
  moreover from assms have "b \<in> set (subnodes R)" using subnodes_proofs by blast
  ultimately have "b = Node n ps"
    using assms unfolding cid_consistent_def by (metis nodeCid.simps(2) option.distinct(1))
  moreover have "size b < size (Node n ps)"
    using subnodes_size [OF assms(4)] proof_size [OF assms(3), of n] by simp
  ultimately show False by simp
qed

lemma dfs_complete:
  "cid_consistent R \<Longrightarrow> set (subnodes t) \<subseteq> set (subnodes R) \<Longrightarrow> x \<in> set (subnodes t) \<Longrightarrow>
     x \<in> set (fst (dfs t seen)) \<or> blocked seen (set (subnodes t)) x"
  "cid_consistent R \<Longrightarrow> (\<Union>p \<in> set ts. set (subnodes p)) \<subseteq> set (subnodes R) \<Longrightarrow>
     x \<in> (\<Union>p \<in> set ts. set (subnodes p)) \<Longrightarrow>
     x \<in> set (fst (dfs_list ts seen)) \<or> blocked seen (\<Union>p \<in> set ts. set (subnodes p)) x"
proof (induction t seen and ts seen rule: dfs_dfs_list.induct)
  case (2 n ps seen)
  have R: "Node n ps \<in> set (subnodes R)" using "2.prems" by auto
  have sub: "(\<Union>p \<in> set ps. set (subnodes p)) \<subseteq> set (subnodes R)" using "2.prems" by auto
  consider "x = Node n ps" | "x \<in> (\<Union>p \<in> set ps. set (subnodes p))" using "2.prems" by auto
  then show ?case
  proof cases
    case 1
    then show ?thesis
      by (auto simp: blocked_def split: option.splits prod.splits)
  next
    case below: 2
    show ?thesis
    proof (cases "link_cid n")
      case None
      with 2(1) [OF None "2.prems"(1) sub below] show ?thesis
        by (auto simp: blocked_def split: prod.splits)
    next
      case (Some c)
      show ?thesis
      proof (cases "c \<in> seen")
        case True
        with Some below show ?thesis by (auto simp: blocked_def)
      next
        case False
        from 2(2) [OF Some False "2.prems"(1) sub below]
        consider "x \<in> set (fst (dfs_list ps (insert c seen)))"
          | b p where "p \<in> set ps" "b \<in> set (subnodes p)" "x \<in> set (subnodes b)"
              "nodeCid b \<in> Some ` insert c seen"
          by (auto simp: blocked_def)
        then show ?thesis
        proof cases
          case 1
          with Some False show ?thesis by (auto split: prod.splits)
        next
          case 2
          with strict_subnode [OF "2.prems"(1) R 2(1,2) Some] show ?thesis
            by (auto simp: blocked_def)
        qed
      qed
    qed
  qed
next
  case (4 p ps seen)
  have subp: "set (subnodes p) \<subseteq> set (subnodes R)" and
    subps: "(\<Union>q \<in> set ps. set (subnodes q)) \<subseteq> set (subnodes R)" using "4.prems" by auto
  have here: ?case if "y \<in> set (subnodes p)" "x \<in> set (subnodes y)" for y
  proof -
    from that have "x \<in> set (subnodes p)" using subnodes_trans by blast
    from "4.IH"(1) [OF "4.prems"(1) subp this] show ?thesis
      by (auto simp: blocked_def split: prod.splits)
  qed
  show ?case
  proof (cases "x \<in> set (subnodes p)")
    case True
    with here subnodes_self [of x] show ?thesis
      by (metis subnodes_NonObject)
  next
    case False
    with "4.prems" have x: "x \<in> (\<Union>q \<in> set ps. set (subnodes q))" by auto
    obtain out seen' where d: "dfs p seen = (out, seen')" by fastforce
    from "4.IH"(2) [OF d [symmetric] refl "4.prems"(1) subps x]
    consider "x \<in> set (fst (dfs_list ps seen'))"
      | b q where "q \<in> set ps" "b \<in> set (subnodes q)" "x \<in> set (subnodes b)" "nodeCid b \<in> Some ` seen'"
      by (auto simp: blocked_def)
    then show ?thesis
    proof cases
      case 1
      with d show ?thesis by (auto split: prod.splits)
    next
      case 2
      then obtain c where c: "nodeCid b = Some c" "c \<in> seen \<or> c \<in> cids_of (set out)"
        using dfs_seen(1) [of p seen] d by auto
      from c(2) show ?thesis
      proof
        assume "c \<in> seen"
        with 2 c(1) show ?thesis by (auto simp: blocked_def)
      next
        assume "c \<in> cids_of (set out)"
        then obtain y where y: "y \<in> set out" "nodeCid y = Some c" by (auto simp: cids_of_def)
        with dfs_sub(1) [of p seen] d have yp: "y \<in> set (subnodes p)" by auto
        moreover from 2 subps have "b \<in> set (subnodes R)" by auto
        ultimately have "y = b"
          using "4.prems"(1) y(2) c(1) subp unfolding cid_consistent_def
          by (metis option.distinct(1) subsetD)
        with here yp 2 show ?thesis by blast
      qed
    qed
  qed
qed auto

lemma dfs_all:
  assumes "cid_consistent t"
  shows "set (fst (dfs t {})) = set (subnodes t)"
  using dfs_complete(1) [OF assms order_refl, of _ "{}"] dfs_sub(1) [of t "{}"]
  by (auto simp: blocked_def)

text \<open>Post-order: the proofs of a node come before it.\<close>

fun node_proofs :: "node \<Rightarrow> node list" where
  "node_proofs NonObject = []"
| "node_proofs (Node n ps) = ps"

definition proofs_first :: "cid set \<Rightarrow> node list \<Rightarrow> bool" where
  "proofs_first seen out \<longleftrightarrow> (\<forall>a x b. out = a @ x # b \<longrightarrow>
     cids_of (set (node_proofs x)) \<subseteq> seen \<union> cids_of (set a))"

lemma proofs_first_Nil [simp]: "proofs_first seen []"
  by (simp add: proofs_first_def)

lemma proofs_first_append:
  "proofs_first seen (xs @ ys) \<longleftrightarrow> proofs_first seen xs \<and> proofs_first (seen \<union> cids_of (set xs)) ys"
proof
  assume l: "proofs_first seen (xs @ ys)"
  have "proofs_first seen xs"
    using l unfolding proofs_first_def by (metis append.assoc append_Cons)
  moreover have "proofs_first (seen \<union> cids_of (set xs)) ys"
    unfolding proofs_first_def
  proof (intro allI impI)
    fix a x b assume "ys = a @ x # b"
    then have "xs @ ys = (xs @ a) @ x # b" by simp
    with l have "cids_of (set (node_proofs x)) \<subseteq> seen \<union> cids_of (set (xs @ a))"
      unfolding proofs_first_def by blast
    then show "cids_of (set (node_proofs x)) \<subseteq> seen \<union> cids_of (set xs) \<union> cids_of (set a)"
      by auto
  qed
  ultimately show "proofs_first seen xs \<and> proofs_first (seen \<union> cids_of (set xs)) ys" ..
next
  assume r: "proofs_first seen xs \<and> proofs_first (seen \<union> cids_of (set xs)) ys"
  show "proofs_first seen (xs @ ys)"
    unfolding proofs_first_def
  proof (intro allI impI)
    fix a x b assume "xs @ ys = a @ x # b"
    then consider us where "xs = a @ x # us" | us where "a = xs @ us" "ys = us @ x # b"
      by (auto simp: append_eq_append_conv2 append_eq_Cons_conv)
    then show "cids_of (set (node_proofs x)) \<subseteq> seen \<union> cids_of (set a)"
      using r unfolding proofs_first_def by cases (blast, fastforce)
  qed
qed

lemma proofs_first_single:
  "proofs_first seen [x] \<longleftrightarrow> cids_of (set (node_proofs x)) \<subseteq> seen"
  by (auto simp: proofs_first_def append_eq_Cons_conv Cons_eq_append_conv)

lemma dfs_list_visits:
  "p \<in> set ts \<Longrightarrow> set_option (nodeCid p) \<subseteq> seen \<union> cids_of (set (fst (dfs_list ts seen)))"
proof (induction ts arbitrary: seen)
  case (Cons q ts)
  obtain out seen' where d: "dfs q seen = (out, seen')" by fastforce
  obtain out' seen'' where l: "dfs_list ts seen' = (out', seen'')" by fastforce
  have s: "seen' = seen \<union> cids_of (set out)" using dfs_seen(1) [of q seen] d by simp
  have q: "set_option (nodeCid q) \<subseteq> seen \<union> cids_of (set out)"
    using d by (cases q) (auto split: option.splits if_splits prod.splits)
  from Cons.prems show ?case
  proof (cases "p = q")
    case True
    with q d l show ?thesis by auto
  next
    case False
    with Cons.prems have "p \<in> set ts" by simp
    from Cons.IH [OF this, of seen'] d l s show ?thesis by auto
  qed
qed simp

lemma dfs_proofs_first:
  "cid_consistent R \<Longrightarrow> set (subnodes t) \<subseteq> set (subnodes R) \<Longrightarrow>
     proofs_first seen (fst (dfs t seen))"
  "cid_consistent R \<Longrightarrow> (\<Union>p \<in> set ts. set (subnodes p)) \<subseteq> set (subnodes R) \<Longrightarrow>
     proofs_first seen (fst (dfs_list ts seen))"
proof (induction t seen and ts seen rule: dfs_dfs_list.induct)
  case (2 n ps seen)
  have R: "Node n ps \<in> set (subnodes R)" using "2.prems" by auto
  have sub: "(\<Union>p \<in> set ps. set (subnodes p)) \<subseteq> set (subnodes R)" using "2.prems" by auto
  show ?case
  proof (cases "link_cid n")
    case None
    with 2(1) [OF None "2.prems"(1) sub] dfs_list_visits [of _ ps seen] show ?thesis
      by (fastforce simp: proofs_first_append proofs_first_single cids_of_def split: prod.splits)
  next
    case (Some c)
    show ?thesis
    proof (cases "c \<in> seen")
      case False
      let ?out = "fst (dfs_list ps (insert c seen))"
      from 2(2) [OF Some False "2.prems"(1) sub] have ih: "proofs_first (insert c seen) ?out" .
      have no_c: "c \<notin> cids_of (set (node_proofs x))" if "x \<in> set ?out \<or> x = Node n ps" for x
      proof
        assume "c \<in> cids_of (set (node_proofs x))"
        then obtain q where q: "q \<in> set (node_proofs x)" "nodeCid q = Some c"
          by (auto simp: cids_of_def)
        then have qn: "q \<noteq> NonObject" by auto
        have "\<exists>p \<in> set ps. q \<in> set (subnodes p)"
        proof (cases "x = Node n ps")
          case True
          with q subnodes_self [OF qn] show ?thesis by auto
        next
          case xn: False
          with that have "x \<in> set ?out" by simp
          with dfs_sub(2) [of ps "insert c seen"] obtain p where p: "p \<in> set ps" "x \<in> set (subnodes p)"
            by auto
          from q(1) have "x = Node (case x of Node m _ \<Rightarrow> m) (node_proofs x)" by (cases x) auto
          with p q(1) have "set (subnodes q) \<subseteq> set (subnodes p)"
            using subnodes_proofs by metis
          with p subnodes_self [OF qn] show ?thesis by blast
        qed
        then obtain p where "p \<in> set ps" "q \<in> set (subnodes p)" ..
        with strict_subnode [OF "2.prems"(1) R _ _ Some] q(2) show False by blast
      qed
      have "proofs_first seen ?out"
        unfolding proofs_first_def
      proof (intro allI impI)
        fix a x b assume o: "?out = a @ x # b"
        with ih have "cids_of (set (node_proofs x)) \<subseteq> insert c seen \<union> cids_of (set a)"
          unfolding proofs_first_def by blast
        with no_c [of x] o show "cids_of (set (node_proofs x)) \<subseteq> seen \<union> cids_of (set a)" by auto
      qed
      moreover have "cids_of (set ps) \<subseteq> seen \<union> cids_of (set ?out)"
        using dfs_list_visits [of _ ps "insert c seen"] no_c [of "Node n ps"]
        by (fastforce simp: cids_of_def)
      ultimately show ?thesis using Some False
        by (auto simp: proofs_first_append proofs_first_single split: prod.splits)
    qed (simp add: Some)
  qed
next
  case (4 p ps seen)
  obtain out seen' where d: "dfs p seen = (out, seen')" by fastforce
  have "proofs_first seen out" using "4.IH"(1) "4.prems" d by auto
  moreover have "proofs_first seen' (fst (dfs_list ps seen'))"
    using "4.IH"(2) [OF d [symmetric] refl] "4.prems" by auto
  ultimately show ?case using d dfs_seen(1) [of p seen]
    by (auto simp: proofs_first_append split: prod.splits)
qed auto

text \<open>
  A token for concrete instances: the invocation \<open>c0\<close> rests on two grants that share their
  parent block \<open>c3\<close>, whose capability is \<open>e\<close>.
\<close>

definition sample_link :: "cid \<Rightarrow> did \<Rightarrow> did \<Rightarrow> cap_entry list \<Rightarrow> link" where
  "sample_link c i a caps = \<lparr>link_cid = Some c, link_issuer = Some i, link_audience = Some a,
     link_capabilities = caps, link_expiration = At 100, link_notBefore = NoNumber, link_facts = []\<rparr>"

definition sample_token :: "cap_entry \<Rightarrow> node" where
  "sample_token e =
    (let parent = Node (sample_link ''c3'' ''O'' ''A'' [e]) []
     in Node (sample_link ''c0'' ''B'' ''S'' [])
          [Node (sample_link ''c1'' ''A'' ''B'' []) [parent], Node (sample_link ''c2'' ''A'' ''B'' []) [parent]])"

lemma sample_consistent: "cid_consistent (sample_token (CapRecord \<lparr>can = ''x'', with_uri = ''ucan:*'', nb = []\<rparr>))"
  by (simp add: cid_consistent_def sample_token_def sample_link_def Let_def)

subsection \<open>The universal resource\<close>

definition UNIVERSAL_RESOURCE :: uri where
  "UNIVERSAL_RESOURCE = ''ucan:*''"

fun on_universal :: "cap_entry \<Rightarrow> bool" where
  "on_universal NotRecord \<longleftrightarrow> False"
| "on_universal (CapRecord c) \<longleftrightarrow> with_uri c = UNIVERSAL_RESOURCE"

fun universal_walk :: "node \<Rightarrow> cid set \<Rightarrow> bool \<times> cid set"
  and universal_proofs :: "node list \<Rightarrow> cid set \<Rightarrow> bool \<times> cid set" where
  "universal_walk NonObject seen = (False, seen)"
| "universal_walk (Node n ps) seen =
    (case link_cid n of
       None \<Rightarrow> if list_ex on_universal (link_capabilities n) then (True, seen)
               else universal_proofs ps seen
     | Some c \<Rightarrow> if c \<in> seen then (False, seen)
               else if list_ex on_universal (link_capabilities n) then (True, insert c seen)
               else universal_proofs ps (insert c seen))"
| "universal_proofs [] seen = (False, seen)"
| "universal_proofs (p # ps) seen =
    (let (found, seen') = universal_walk p seen
     in if found then (True, seen') else universal_proofs ps seen')"

definition chainUsesUniversalResource :: "node \<Rightarrow> bool" where
  "chainUsesUniversalResource t = fst (universal_walk t {})"

definition universal_node :: "node \<Rightarrow> bool" where
  "universal_node x \<longleftrightarrow> (\<exists>n ps. x = Node n ps \<and> (\<exists>c \<in> set (link_capabilities n). on_universal c))"

lemma universal_node_simps [simp]:
  "\<not> universal_node NonObject"
  "universal_node (Node n ps) \<longleftrightarrow> list_ex on_universal (link_capabilities n)"
  by (auto simp: universal_node_def list_ex_iff)

lemma universal_walk_dfs:
  "fst (universal_walk t seen) = (\<exists>x \<in> set (fst (dfs t seen)). universal_node x)
     \<and> (\<not> fst (universal_walk t seen) \<longrightarrow> snd (universal_walk t seen) = snd (dfs t seen))"
  "fst (universal_proofs ts seen) = (\<exists>x \<in> set (fst (dfs_list ts seen)). universal_node x)
     \<and> (\<not> fst (universal_proofs ts seen) \<longrightarrow> snd (universal_proofs ts seen) = snd (dfs_list ts seen))"
proof (induction t seen and ts seen rule: universal_walk_universal_proofs.induct)
  case (2 n ps seen)
  then show ?case by (simp add: case_prod_unfold Let_def split: option.splits)
next
  case (4 p ps seen)
  obtain f s where w: "universal_walk p seen = (f, s)" by fastforce
  show ?case
  proof (cases f)
    case True
    with 4(1) w show ?thesis by (auto simp: case_prod_unfold Let_def)
  next
    case False
    with 4(1) w have s: "s = snd (dfs p seen)" "\<not> (\<exists>x \<in> set (fst (dfs p seen)). universal_node x)"
      by auto
    with 4(2) [OF w [symmetric] refl False] w False show ?thesis
      by (simp add: case_prod_unfold Let_def bex_Un)
  qed
qed simp_all

text \<open>
  C11. The search that visits every block once finds a capability on \<open>ucan:*\<close> exactly when some
  delegation of the token carries one: skipping a CID already seen hides nothing, because a CID
  determines its subtree.
\<close>

theorem chainUsesUniversalResource_iff:
  assumes "cid_consistent t"
  shows "chainUsesUniversalResource t \<longleftrightarrow>
    (\<exists>n ps. Node n ps \<in> set (subnodes t) \<and> (\<exists>c \<in> set (link_capabilities n). on_universal c))"
  using universal_walk_dfs(1) [of t "{}"] dfs_all [OF assms]
  by (auto simp: chainUsesUniversalResource_def universal_node_def)

theorem chainUsesUniversalResource_iff_witness:
  "chainUsesUniversalResource (sample_token (CapRecord \<lparr>can = ''x'', with_uri = ''ucan:*'', nb = []\<rparr>))"
proof -
  let ?c = "CapRecord \<lparr>can = ''x'', with_uri = ''ucan:*'', nb = []\<rparr>"
  let ?n = "sample_link ''c3'' ''O'' ''A'' [?c]"
  have "Node ?n [] \<in> set (subnodes (sample_token ?c))" by (simp add: sample_token_def Let_def)
  moreover have "?c \<in> set (link_capabilities ?n)" "on_universal ?c"
    by (simp_all add: sample_link_def UNIVERSAL_RESOURCE_def)
  ultimately show ?thesis
    unfolding chainUsesUniversalResource_iff [OF sample_consistent] by blast
qed

subsection \<open>The validity window\<close>

record time_bounds =
  tb_expiration :: "int option"
  tb_notBefore :: "int option"

definition bound_link :: "link \<Rightarrow> time_bounds \<Rightarrow> time_bounds" where
  "bound_link n b =
    (let b1 = (case link_expiration n of At e \<Rightarrow> b\<lparr>tb_expiration := opt_min (tb_expiration b) e\<rparr> | _ \<Rightarrow> b)
     in case link_notBefore n of At e \<Rightarrow> b1\<lparr>tb_notBefore := opt_max (tb_notBefore b1) e\<rparr> | _ \<Rightarrow> b1)"

text \<open>
  The objects visited are remembered; a node equal to a visited one has the same fields, so
  structural equality stands for object identity.
\<close>

fun bounds_visit :: "node \<Rightarrow> node set \<times> time_bounds \<Rightarrow> node set \<times> time_bounds"
  and bounds_proofs :: "node list \<Rightarrow> node set \<times> time_bounds \<Rightarrow> node set \<times> time_bounds" where
  "bounds_visit NonObject s = s"
| "bounds_visit (Node n ps) s =
    (if Node n ps \<in> fst s then s
     else bounds_proofs ps (insert (Node n ps) (fst s), bound_link n (snd s)))"
| "bounds_proofs [] s = s"
| "bounds_proofs (p # ps) s = bounds_proofs ps (bounds_visit p s)"

definition chainTimeBounds :: "node \<Rightarrow> time_bounds" where
  "chainTimeBounds t = snd (bounds_visit t ({}, \<lparr>tb_expiration = None, tb_notBefore = None\<rparr>))"

definition node_times :: "(link \<Rightarrow> time_field) \<Rightarrow> node set \<Rightarrow> int set" where
  "node_times f X = {e. \<exists>n ps. Node n ps \<in> X \<and> f n = At e}"

definition bounds_of :: "node set \<Rightarrow> time_bounds \<Rightarrow> bool" where
  "bounds_of X b \<longleftrightarrow> is_least (node_times link_expiration X) (tb_expiration b)
     \<and> is_greatest (node_times link_notBefore X) (tb_notBefore b)"

lemma node_times_insert:
  "node_times f (insert (Node n ps) X) = (case f n of At e \<Rightarrow> insert e (node_times f X) | _ \<Rightarrow> node_times f X)"
  by (auto simp: node_times_def split: time_field.splits)

lemma bounds_of_insert: "bounds_of X b \<Longrightarrow> bounds_of (insert (Node n ps) X) (bound_link n b)"
  by (auto simp: bounds_of_def bound_link_def Let_def node_times_insert is_least_insert is_greatest_insert
      split: time_field.splits)

text \<open>
  The visited set grows by subtrees: a visited node's whole subtree is visited, except below the
  nodes still being visited, of which \<open>t\<close> is a strict part.
\<close>

lemma bounds_visit_inv:
  "bounds_of (fst s) (snd s) \<Longrightarrow> bounds_of (fst (bounds_visit t s)) (snd (bounds_visit t s))"
  "bounds_of (fst s) (snd s) \<Longrightarrow> bounds_of (fst (bounds_proofs ts s)) (snd (bounds_proofs ts s))"
  by (induction t s and ts s rule: bounds_visit_bounds_proofs.induct)
    (auto simp: bounds_of_insert)

definition down_closed :: "node set \<Rightarrow> node set \<Rightarrow> bool" where
  "down_closed A X \<longleftrightarrow> (\<forall>x \<in> X - A. set (subnodes x) \<subseteq> X)"

lemma bounds_visit_closed:
  "down_closed A (fst s) \<Longrightarrow> \<forall>a \<in> A. size t < size a \<Longrightarrow>
     fst s \<subseteq> fst (bounds_visit t s) \<and> down_closed A (fst (bounds_visit t s))
     \<and> fst (bounds_visit t s) = fst s \<union> set (subnodes t)"
  "down_closed A (fst s) \<Longrightarrow> \<forall>a \<in> A. \<forall>t \<in> set ts. size t < size a \<Longrightarrow>
     fst s \<subseteq> fst (bounds_proofs ts s) \<and> down_closed A (fst (bounds_proofs ts s))
     \<and> fst (bounds_proofs ts s) = fst s \<union> (\<Union>p \<in> set ts. set (subnodes p))"
proof (induction t s and ts s arbitrary: A and A rule: bounds_visit_bounds_proofs.induct)
  case (2 n ps s)
  show ?case
  proof (cases "Node n ps \<in> fst s")
    case True
    then have "set (subnodes (Node n ps)) \<subseteq> fst s"
      using 2(2,3) unfolding down_closed_def by blast
    with True 2(2) show ?thesis by auto
  next
    case False
    let ?s = "(insert (Node n ps) (fst s), bound_link n (snd s))"
    have "down_closed (insert (Node n ps) A) (fst ?s)"
      using 2(2) by (auto simp: down_closed_def)
    moreover have "\<forall>a \<in> insert (Node n ps) A. \<forall>t \<in> set ps. size t < size a"
      using 2(3) proof_size [of _ ps n] by fastforce
    ultimately have ih: "down_closed (insert (Node n ps) A) (fst (bounds_proofs ps ?s))"
      "fst (bounds_proofs ps ?s) = fst ?s \<union> (\<Union>p \<in> set ps. set (subnodes p))"
      using 2(1) [OF False] by blast+
    then have u: "fst (bounds_proofs ps ?s) = fst s \<union> set (subnodes (Node n ps))" by auto
    with ih(1) have "down_closed A (fst (bounds_proofs ps ?s))"
      by (auto simp: down_closed_def)
    with u False show ?thesis by auto
  qed
next
  case (4 p ps s)
  from 4(1) [OF 4(3)] 4(4) have a: "down_closed A (fst (bounds_visit p s))"
    "fst (bounds_visit p s) = fst s \<union> set (subnodes p)" by auto
  from 4(2) [OF a(1)] 4(4) a(2) show ?case by auto
qed auto

text \<open>
  C12. The effective expiration is the earliest finite expiration, and the effective not-before the
  latest finite not-before, over the token and every delegation of its proof tree; either is
  absent exactly when no delegation sets it.
\<close>

theorem chainTimeBounds_extremal:
  "is_least {e. \<exists>n ps. Node n ps \<in> set (subnodes t) \<and> link_expiration n = At e}
       (tb_expiration (chainTimeBounds t))
   \<and> is_greatest {e. \<exists>n ps. Node n ps \<in> set (subnodes t) \<and> link_notBefore n = At e}
       (tb_notBefore (chainTimeBounds t))"
proof -
  let ?s = "({}, \<lparr>tb_expiration = None, tb_notBefore = None\<rparr>) :: node set \<times> time_bounds"
  have "bounds_of (fst ?s) (snd ?s)" by (simp add: bounds_of_def node_times_def)
  from bounds_visit_inv(1) [OF this, of t] bounds_visit_closed(1) [of "{}" ?s t]
  show ?thesis
    by (simp add: chainTimeBounds_def bounds_of_def node_times_def down_closed_def)
qed

subsection \<open>The CIDs a revocation targets\<close>

fun cids_visit :: "node \<Rightarrow> cid set \<times> cid list \<Rightarrow> cid set \<times> cid list"
  and cids_proofs :: "node list \<Rightarrow> cid set \<times> cid list \<Rightarrow> cid set \<times> cid list" where
  "cids_visit NonObject s = s"
| "cids_visit (Node n ps) s =
    (case link_cid n of
       None \<Rightarrow> cids_proofs ps s
     | Some c \<Rightarrow> if c \<in> fst s then s
         else (let (seen, cids) = cids_proofs ps (insert c (fst s), snd s) in (seen, cids @ [c])))"
| "cids_proofs [] s = s"
| "cids_proofs (p # ps) s = cids_proofs ps (cids_visit p s)"

definition delegationChainCids :: "node \<Rightarrow> cid list" where
  "delegationChainCids t = snd (cids_visit t ({}, []))"

definition node_cids :: "node list \<Rightarrow> cid list" where
  "node_cids xs = List.map_filter nodeCid xs"

lemma node_cids_simps [simp]:
  "node_cids [] = []" "node_cids (xs @ ys) = node_cids xs @ node_cids ys"
  "node_cids [x] = (case nodeCid x of None \<Rightarrow> [] | Some c \<Rightarrow> [c])"
  by (auto simp: node_cids_def List.map_filter_def split: option.splits)

lemma set_node_cids [simp]: "set (node_cids xs) = cids_of (set xs)"
  by (induction xs) (auto simp: node_cids_def List.map_filter_def cids_of_def split: option.splits)

lemma cids_visit_dfs:
  "cids_visit t (seen, cids) = (snd (dfs t seen), cids @ node_cids (fst (dfs t seen)))"
  "cids_proofs ts (seen, cids) = (snd (dfs_list ts seen), cids @ node_cids (fst (dfs_list ts seen)))"
proof (induction t seen and ts seen arbitrary: cids and cids rule: dfs_dfs_list.induct)
  case (2 n ps seen)
  then show ?case by (simp add: case_prod_unfold Let_def split: option.splits)
next
  case (4 p ps seen)
  from 4(2) [OF refl prod.collapse] 4(1) show ?case by (simp add: case_prod_unfold Let_def)
qed simp_all

lemma dfs_distinct:
  "distinct (node_cids (fst (dfs t seen)))"
  "distinct (node_cids (fst (dfs_list ts seen)))"
proof (induction t seen and ts seen rule: dfs_dfs_list.induct)
  case (2 n ps seen)
  then show ?case using dfs_fresh(2) [of _ ps "insert (the (link_cid n)) seen"]
    by (fastforce simp: case_prod_unfold Let_def cids_of_def split: option.splits)
next
  case (4 p ps seen)
  have "set (node_cids (fst (dfs p seen))) \<inter> set (node_cids (fst (dfs_list ps (snd (dfs p seen))))) = {}"
    using dfs_fresh(2) [of _ ps "snd (dfs p seen)"] dfs_seen(1) [of p seen]
    by (fastforce simp: cids_of_def)
  with 4(1) 4(2) [OF refl prod.collapse] show ?case by (simp add: case_prod_unfold Let_def)
qed simp_all

lemma node_cids_split:
  assumes "node_cids xs = a @ c # b"
  obtains ys x zs where "xs = ys @ x # zs" "node_cids ys = a" "nodeCid x = Some c"
proof -
  have "\<exists>ys x zs. xs = ys @ x # zs \<and> node_cids ys = a \<and> nodeCid x = Some c"
    using assms
  proof (induction xs arbitrary: a)
    case (Cons x xs)
    have C: "node_cids (x # xs) = node_cids [x] @ node_cids xs"
      using node_cids_simps(2) [of "[x]" xs] by simp
    show ?case
    proof (cases "nodeCid x")
      case None
      with Cons.prems C have "node_cids xs = a @ c # b" by simp
      from Cons.IH [OF this] obtain ys z zs
        where "xs = ys @ z # zs" "node_cids ys = a" "nodeCid z = Some c" by blast
      moreover have "node_cids (x # ys) = node_cids ys"
        using node_cids_simps(2) [of "[x]" ys] None by simp
      ultimately show ?thesis by (metis append_Cons)
    next
      case (Some d)
      show ?thesis
      proof (cases a)
        case Nil
        with Some Cons.prems C have "d = c" by simp
        with Some Nil have "x # xs = [] @ x # xs \<and> node_cids [] = a \<and> nodeCid x = Some c" by simp
        then show ?thesis by blast
      next
        case (Cons e a')
        with Some Cons.prems C have e: "e = d" "node_cids xs = a' @ c # b" by simp_all
        from Cons.IH [OF e(2)] obtain ys z zs
          where "xs = ys @ z # zs" "node_cids ys = a'" "nodeCid z = Some c" by blast
        moreover have "node_cids (x # ys) = d # node_cids ys"
          using node_cids_simps(2) [of "[x]" ys] Some by simp
        ultimately show ?thesis using Cons e by (metis append_Cons)
      qed
    qed
  qed simp
  with that show thesis by blast
qed

text \<open>
  C13. The list handed to the revocation checker names every delegation of the token exactly once,
  proofs before the delegations that rest on them.
\<close>

theorem delegationChainCids_complete:
  assumes "cid_consistent t"
  shows "set (delegationChainCids t) = cids_of (set (subnodes t))
    \<and> distinct (delegationChainCids t)
    \<and> (\<forall>n ps p c d a b. Node n ps \<in> set (subnodes t) \<and> link_cid n = Some c \<and> p \<in> set ps
         \<and> nodeCid p = Some d \<and> delegationChainCids t = a @ c # b \<longrightarrow> d \<in> set a)"
proof (intro conjI allI impI)
  have cids: "delegationChainCids t = node_cids (fst (dfs t {}))"
    by (simp add: delegationChainCids_def cids_visit_dfs)
  then show "set (delegationChainCids t) = cids_of (set (subnodes t))"
    by (simp add: dfs_all [OF assms])
  from cids show "distinct (delegationChainCids t)" by (simp add: dfs_distinct)
  fix n ps p c d a b
  assume h: "Node n ps \<in> set (subnodes t) \<and> link_cid n = Some c \<and> p \<in> set ps
    \<and> nodeCid p = Some d \<and> delegationChainCids t = a @ c # b"
  with cids have "node_cids (fst (dfs t {})) = a @ c # b" by simp
  then obtain ys x zs where x: "fst (dfs t {}) = ys @ x # zs" "node_cids ys = a" "nodeCid x = Some c"
    by (rule node_cids_split)
  have "x \<in> set (subnodes t)" using dfs_sub(1) [of t "{}"] x(1) by auto
  with h x(3) assms have xn: "x = Node n ps"
    unfolding cid_consistent_def by (metis nodeCid.simps(2) option.distinct(1))
  from dfs_proofs_first(1) [OF assms order_refl, of "{}"] x(1) xn
  have "cids_of (set ps) \<subseteq> cids_of (set ys)" by (fastforce simp: proofs_first_def)
  moreover have "d \<in> cids_of (set ps)" using h by (auto simp: cids_of_def)
  ultimately show "d \<in> set a" using x(2) by auto
qed

theorem delegationChainCids_complete_witness:
  "set (delegationChainCids (sample_token (CapRecord \<lparr>can = ''x'', with_uri = ''ucan:*'', nb = []\<rparr>)))
     = {''c0'', ''c1'', ''c2'', ''c3''}"
  using delegationChainCids_complete [OF sample_consistent]
  by (auto simp: sample_token_def sample_link_def Let_def cids_of_def)

subsection \<open>Chains of DIDs\<close>

fun buildProofChain :: "node \<Rightarrow> did list option" where
  "buildProofChain NonObject = None"
| "buildProofChain (Node n ps) =
    (case link_issuer n of
       None \<Rightarrow> None
     | Some i \<Rightarrow> (case ps of
           [] \<Rightarrow> Some [i]
         | p # _ \<Rightarrow> (case buildProofChain p of None \<Rightarrow> None | Some parentChain \<Rightarrow> Some (parentChain @ [i]))))"

text \<open>ucanto's result for a claim: the verified capability, its delegation, and the verified proofs.\<close>

datatype authorization =
  Authorization (auth_issuer: did) (auth_capability: cap) (auth_delegation: link)
    (auth_proofs: "authorization list")

text \<open>The loop of \<open>verifiedProofChain\<close>: \<open>chain\<close> is built by \<open>unshift\<close>.\<close>

fun proof_chain_loop :: "authorization \<Rightarrow> did list \<Rightarrow> did list" where
  "proof_chain_loop (Authorization i c d ps) chain =
    (case ps of [] \<Rightarrow> i # chain | p # _ \<Rightarrow> proof_chain_loop p (i # chain))"

definition verifiedProofChain :: "authorization \<Rightarrow> did list" where
  "verifiedProofChain a = proof_chain_loop a []"

fun auth_visit :: "authorization \<Rightarrow> cid set \<times> cid list \<Rightarrow> cid set \<times> cid list"
  and auth_visits :: "authorization list \<Rightarrow> cid set \<times> cid list \<Rightarrow> cid set \<times> cid list" where
  "auth_visit (Authorization i c d ps) s =
    (case link_cid d of
       None \<Rightarrow> auth_visits ps s
     | Some k \<Rightarrow> if k \<in> fst s then s
         else (let (seen, cids) = auth_visits ps (insert k (fst s), snd s) in (seen, cids @ [k])))"
| "auth_visits [] s = s"
| "auth_visits (p # ps) s = auth_visits ps (auth_visit p s)"

definition verifiedProofChainCids :: "authorization \<Rightarrow> cid list" where
  "verifiedProofChainCids a = snd (auth_visit a ({}, []))"

text \<open>The tree of the delegations an authorization carries (\<open>node.delegation\<close> at each level).\<close>

fun auth_tree :: "authorization \<Rightarrow> node" where
  "auth_tree (Authorization i c d ps) = Node d (map auth_tree ps)"

text \<open>The linear chain ucanto verified, the invocation first.\<close>

fun auth_line :: "authorization \<Rightarrow> authorization list" where
  "auth_line (Authorization i c d ps) =
    Authorization i c d ps # (case ps of [] \<Rightarrow> [] | p # _ \<Rightarrow> auth_line p)"

fun single_parent :: "authorization \<Rightarrow> bool" where
  "single_parent (Authorization i c d ps) \<longleftrightarrow>
    (case ps of [] \<Rightarrow> True | [p] \<Rightarrow> single_parent p | _ \<Rightarrow> False)"

lemma auth_visit_tree:
  "auth_visit a s = cids_visit (auth_tree a) s"
  "auth_visits as s = cids_proofs (map auth_tree as) s"
  by (induction a s and as s rule: auth_visit_auth_visits.induct)
    (auto split: option.splits)

lemma verifiedProofChainCids_tree: "verifiedProofChainCids a = delegationChainCids (auth_tree a)"
  by (simp add: verifiedProofChainCids_def delegationChainCids_def auth_visit_tree)

lemma auth_line_not_Nil [simp]: "auth_line a \<noteq> []"
  by (cases a) auto

lemma proof_chain_loop: "proof_chain_loop a chain = rev (map auth_issuer (auth_line a)) @ chain"
  by (induction a chain rule: proof_chain_loop.induct) (auto split: list.splits)

lemma auth_visit_line:
  "single_parent a \<Longrightarrow> distinct (map (\<lambda>x. link_cid (auth_delegation x)) (auth_line a)) \<Longrightarrow>
   \<forall>x \<in> set (auth_line a). \<exists>c. link_cid (auth_delegation x) = Some c \<and> c \<notin> seen \<Longrightarrow>
   snd (auth_visit a (seen, cids)) =
     cids @ rev (map (\<lambda>x. the (link_cid (auth_delegation x))) (auth_line a))"
proof (induction a arbitrary: seen)
  case (Authorization i c d ps)
  from Authorization.prems(3) obtain k where k: "link_cid d = Some k" "k \<notin> seen" by auto
  show ?case
  proof (cases ps)
    case Nil
    with k show ?thesis by simp
  next
    case (Cons p rest)
    with Authorization.prems(1) have ps: "ps = [p]" "single_parent p" by (auto split: list.splits)
    have "snd (auth_visit p (insert k seen, cids)) =
        cids @ rev (map (\<lambda>x. the (link_cid (auth_delegation x))) (auth_line p))"
    proof (rule Authorization.IH)
      show "\<forall>x \<in> set (auth_line p). \<exists>c. link_cid (auth_delegation x) = Some c \<and> c \<notin> insert k seen"
      proof
        fix x assume x: "x \<in> set (auth_line p)"
        with Authorization.prems(3) ps(1)
        obtain e where e: "link_cid (auth_delegation x) = Some e" "e \<notin> seen" by auto
        have "link_cid d \<notin> (\<lambda>x. link_cid (auth_delegation x)) ` set (auth_line p)"
          using Authorization.prems(2) ps(1) by simp
        with x e(1) k(1) have "e \<noteq> k" by force
        with e show "\<exists>c. link_cid (auth_delegation x) = Some c \<and> c \<notin> insert k seen" by simp
      qed
    qed (use Authorization.prems ps in auto)
    with k ps(1) show ?thesis by (simp add: case_prod_unfold)
  qed
qed

text \<open>
  On the chain ucanto verified (one parent per level, content-addressed delegations) the
  reported DIDs and the CIDs checked for revocation line up: both list the chain root first, link
  by link, so the last entries are the invocation's issuer and CID and no link escapes the check.
\<close>

theorem verified_chain_aligned:
  assumes "single_parent a"
    and "distinct (map (\<lambda>x. link_cid (auth_delegation x)) (auth_line a))"
    and "\<forall>x \<in> set (auth_line a). link_cid (auth_delegation x) \<noteq> None"
  shows "verifiedProofChain a = rev (map auth_issuer (auth_line a))
    \<and> map Some (verifiedProofChainCids a) = rev (map (\<lambda>x. link_cid (auth_delegation x)) (auth_line a))"
proof
  show "verifiedProofChain a = rev (map auth_issuer (auth_line a))"
    by (simp add: verifiedProofChain_def proof_chain_loop)
  have "verifiedProofChainCids a = rev (map (\<lambda>x. the (link_cid (auth_delegation x))) (auth_line a))"
    using auth_visit_line [OF assms(1,2), of "{}" "[]"] assms(3)
    by (auto simp: verifiedProofChainCids_def)
  with assms(3) show "map Some (verifiedProofChainCids a)
      = rev (map (\<lambda>x. link_cid (auth_delegation x)) (auth_line a))"
    by (simp add: rev_map)
qed

theorem verified_chain_aligned_witness:
  "map Some (verifiedProofChainCids
      (Authorization ''B'' \<lparr>can = ''x'', with_uri = ''u'', nb = []\<rparr> (sample_link ''c0'' ''B'' ''S'' [])
        [Authorization ''O'' \<lparr>can = ''x'', with_uri = ''u'', nb = []\<rparr> (sample_link ''c1'' ''O'' ''B'' []) []])) = [Some ''c1'', Some ''c0'']"
proof -
  let ?a = "Authorization ''B'' \<lparr>can = ''x'', with_uri = ''u'', nb = []\<rparr> (sample_link ''c0'' ''B'' ''S'' [])
        [Authorization ''O'' \<lparr>can = ''x'', with_uri = ''u'', nb = []\<rparr> (sample_link ''c1'' ''O'' ''B'' []) []]"
  have "single_parent ?a" "distinct (map (\<lambda>x. link_cid (auth_delegation x)) (auth_line ?a))"
    "\<forall>x \<in> set (auth_line ?a). link_cid (auth_delegation x) \<noteq> None"
    by (simp_all add: sample_link_def)
  from verified_chain_aligned [OF this] show ?thesis by (simp add: sample_link_def)
qed

end
