(* ===== verification/Invocation_Store.thy ===== *)
theory Invocation_Store imports Prelude begin

text \<open>
  Replay protection. \<open>InMemoryInvocationStore\<close> of \<open>packages/ucan/src/store/memory.ts\<close>: a
  JavaScript \<open>Map\<close> from invocation CIDs to expiry times, held here as the list of its entries in
  insertion order, with the clock as an argument. The locale \<open>replay_store\<close> states what the
  validator relies on (the atomic \<open>addIfAbsent\<close> and \<open>delete\<close> of \<open>types.ts\<close>).
\<close>

subsection \<open>The in-memory store\<close>

record inv_store =
  entries :: "(cid \<times> int) list"
  defaultTtlMs :: int
  maxEntries :: nat
  lastFullSweepAt :: "int option"

definition DEFAULT_INVOCATION_STORE_MAX_ENTRIES :: int where
  "DEFAULT_INVOCATION_STORE_MAX_ENTRIES = 100000"

definition FULL_SWEEP_INTERVAL_MS :: int where
  "FULL_SWEEP_INTERVAL_MS = 1000"

text \<open>The constructor; \<open>None\<close> is the \<open>RangeError\<close>, \<open>lastFullSweepAt = None\<close> is \<open>-Infinity\<close>.\<close>

definition new_store :: "int option \<Rightarrow> int option \<Rightarrow> inv_store option" where
  "new_store ttl maxOption =
    (let m = (case maxOption of None \<Rightarrow> DEFAULT_INVOCATION_STORE_MAX_ENTRIES | Some k \<Rightarrow> k)
     in if m < 1 then None
        else Some \<lparr>entries = [],
          defaultTtlMs = (case ttl of None \<Rightarrow> 24 * 60 * 60 * 1000 | Some t \<Rightarrow> t),
          maxEntries = nat m, lastFullSweepAt = None\<rparr>)"

definition map_delete :: "cid \<Rightarrow> (cid \<times> int) list \<Rightarrow> (cid \<times> int) list" where
  "map_delete c es = filter (\<lambda>e. fst e \<noteq> c) es"

definition map_set :: "cid \<Rightarrow> int \<Rightarrow> (cid \<times> int) list \<Rightarrow> (cid \<times> int) list" where
  "map_set c t es = (if c \<in> fst ` set es then map (\<lambda>e. if fst e = c then (c, t) else e) es else es @ [(c, t)])"

definition delete_mark :: "cid \<Rightarrow> inv_store \<Rightarrow> inv_store" where
  "delete_mark c s = s\<lparr>entries := map_delete c (entries s)\<rparr>"

definition isLive :: "cid \<Rightarrow> int \<Rightarrow> inv_store \<Rightarrow> bool \<times> inv_store" where
  "isLive c now s =
    (case map_of (entries s) c of
       None \<Rightarrow> (False, s)
     | Some expiresAt \<Rightarrow> if now > expiresAt then (False, delete_mark c s) else (True, s))"

definition sweepExpired :: "int \<Rightarrow> inv_store \<Rightarrow> inv_store" where
  "sweepExpired now s = s\<lparr>entries := filter (\<lambda>e. \<not> now > snd e) (entries s)\<rparr>"

text \<open>The eviction loop over the keys, oldest first.\<close>

fun evict :: "cid list \<Rightarrow> nat \<Rightarrow> (cid \<times> int) list \<Rightarrow> (cid \<times> int) list" where
  "evict [] m es = es"
| "evict (oldest # ks) m es = (if length es < m then es else evict ks m (map_delete oldest es))"

definition insert_mark :: "cid \<Rightarrow> int option \<Rightarrow> int \<Rightarrow> inv_store \<Rightarrow> inv_store" where
  "insert_mark c ttlMs now s =
    (let ttl = (case ttlMs of None \<Rightarrow> defaultTtlMs s | Some t \<Rightarrow> t);
         s1 = delete_mark c s;
         s2 = (if length (entries s1) \<ge> maxEntries s1
                  \<and> (case lastFullSweepAt s1 of None \<Rightarrow> True | Some l \<Rightarrow> now - l \<ge> FULL_SWEEP_INTERVAL_MS)
               then sweepExpired now (s1\<lparr>lastFullSweepAt := Some now\<rparr>) else s1)
     in s2\<lparr>entries := map_set c (now + ttl) (evict (map fst (entries s2)) (maxEntries s2) (entries s2))\<rparr>)"

definition has_mark :: "cid \<Rightarrow> int \<Rightarrow> inv_store \<Rightarrow> bool \<times> inv_store" where
  "has_mark c now s = isLive c now s"

definition add_mark :: "cid \<Rightarrow> int option \<Rightarrow> int \<Rightarrow> inv_store \<Rightarrow> inv_store" where
  "add_mark c ttlMs now s = insert_mark c ttlMs now s"

definition addIfAbsent :: "cid \<Rightarrow> int option \<Rightarrow> int \<Rightarrow> inv_store \<Rightarrow> bool \<times> inv_store" where
  "addIfAbsent c ttlMs now s =
    (let (live, s') = isLive c now s
     in if live then (False, s') else (True, insert_mark c ttlMs now s'))"

definition cleanup :: "int \<Rightarrow> inv_store \<Rightarrow> inv_store" where
  "cleanup now s = sweepExpired now s"

definition clear_marks :: "inv_store \<Rightarrow> inv_store" where
  "clear_marks s = s\<lparr>entries := []\<rparr>"

subsection \<open>What the operations do\<close>

definition live_mark :: "inv_store \<Rightarrow> int \<Rightarrow> cid \<Rightarrow> bool" where
  "live_mark s now c \<longleftrightarrow> (\<exists>t. map_of (entries s) c = Some t \<and> now \<le> t)"

definition store_ok :: "inv_store \<Rightarrow> bool" where
  "store_ok s \<longleftrightarrow> distinct (map fst (entries s)) \<and> length (entries s) \<le> maxEntries s \<and> 1 \<le> maxEntries s"

definition room_for :: "inv_store \<Rightarrow> cid \<Rightarrow> bool" where
  "room_for s c \<longleftrightarrow> length (map_delete c (entries s)) < maxEntries s"

lemma distinct_filter_fst: "distinct (map fst es) \<Longrightarrow> distinct (map fst (filter P es))"
  by (induction es) auto

lemma map_of_filter:
  "distinct (map fst es) \<Longrightarrow>
     map_of (filter P es) c = (case map_of es c of None \<Rightarrow> None | Some t \<Rightarrow> if P (c, t) then Some t else None)"
proof (induction es)
  case (Cons e es)
  obtain k t where e: "e = (k, t)" by fastforce
  have "map_of (filter P es) c = None" if "map_of es c = None"
    using that by (auto simp: map_of_eq_None_iff)
  moreover have "map_of es k = None" using Cons.prems e by (simp add: map_of_eq_None_iff)
  ultimately show ?case using Cons e by (auto split: option.splits)
qed simp

lemma map_delete_simps [simp]:
  "map_of (map_delete c es) d = (if d = c then None else map_of es d)"
  by (induction es) (auto simp: map_delete_def)

lemma map_delete_absent: "c \<notin> fst ` set es \<Longrightarrow> map_delete c es = es"
  by (auto simp: map_delete_def intro!: filter_True)

lemma map_delete_length: "length (map_delete c es) \<le> length es"
  by (simp add: map_delete_def)

lemma map_delete_keys [simp]: "fst ` set (map_delete c es) = fst ` set es - {c}"
  by (auto simp: map_delete_def)

lemma map_delete_distinct [simp]: "distinct (map fst es) \<Longrightarrow> distinct (map fst (map_delete c es))"
  by (simp add: map_delete_def distinct_filter_fst)

text \<open>The loop drops the oldest entries, just as many as needed to leave one free place.\<close>

lemma evict_drop:
  "distinct (map fst es) \<Longrightarrow> evict (map fst es) m es = drop (length es - (m - 1)) es" if "1 \<le> m"
proof (induction es)
  case (Cons e es)
  have "map_delete (fst e) (e # es) = es"
    using Cons.prems map_delete_absent [of "fst e" es] by (simp add: map_delete_def)
  with Cons that show ?case by (auto simp: Suc_diff_le)
qed simp

lemma map_set_absent: "c \<notin> fst ` set es \<Longrightarrow> map_set c t es = es @ [(c, t)]"
  by (simp add: map_set_def)

text \<open>The entries after an insert: at most the sweep's survivors, cut to the newest, then the new one.\<close>

lemma insert_mark_entries:
  assumes "store_ok s"
  obtains P where "\<And>e. e \<in> set (entries s) \<Longrightarrow> \<not> now > snd e \<Longrightarrow> P e"
    and "\<And>kept. kept = filter P (map_delete c (entries s)) \<Longrightarrow>
      entries (insert_mark c ttl now s) =
        drop (length kept - (maxEntries s - 1)) kept
          @ [(c, now + (case ttl of None \<Rightarrow> defaultTtlMs s | Some t \<Rightarrow> t))]"
    and "maxEntries (insert_mark c ttl now s) = maxEntries s"
proof -
  let ?P = "if length (map_delete c (entries s)) \<ge> maxEntries s
      \<and> (case lastFullSweepAt s of None \<Rightarrow> True | Some l \<Rightarrow> now - l \<ge> FULL_SWEEP_INTERVAL_MS)
    then (\<lambda>e. \<not> now > snd e) else (\<lambda>_ :: cid \<times> int. True)"
  have d: "distinct (map fst (filter Q (map_delete c (entries s))))" for Q
    using assms by (intro distinct_filter_fst) (simp add: store_ok_def)
  have m: "1 \<le> maxEntries s" using assms by (simp add: store_ok_def)
  have ev: "map_set c x (evict (map fst (filter Q (map_delete c (entries s)))) (maxEntries s)
        (filter Q (map_delete c (entries s)))) =
      drop (length (filter Q (map_delete c (entries s))) - (maxEntries s - 1))
        (filter Q (map_delete c (entries s))) @ [(c, x)]" for Q x
    unfolding evict_drop [OF m d]
    by (rule map_set_absent) (auto dest!: in_set_dropD simp: map_delete_def)
  show thesis
  proof (rule that [of ?P])
    show "\<And>kept. kept = filter ?P (map_delete c (entries s)) \<Longrightarrow>
      entries (insert_mark c ttl now s) =
        drop (length kept - (maxEntries s - 1)) kept
          @ [(c, now + (case ttl of None \<Rightarrow> defaultTtlMs s | Some t \<Rightarrow> t))]"
      using ev [where Q = "\<lambda>_. True"] ev [where Q = "\<lambda>e. \<not> now > snd e"]
      by (simp add: insert_mark_def delete_mark_def sweepExpired_def Let_def)
    show "maxEntries (insert_mark c ttl now s) = maxEntries s"
      by (simp add: insert_mark_def delete_mark_def sweepExpired_def Let_def)
  qed simp
qed

lemma insert_mark_ok:
  assumes "store_ok s" shows "store_ok (insert_mark c ttl now s)"
proof -
  from insert_mark_entries [OF assms, of now c ttl] obtain P where
    e: "\<And>kept. kept = filter P (map_delete c (entries s)) \<Longrightarrow>
      entries (insert_mark c ttl now s) = drop (length kept - (maxEntries s - 1)) kept
          @ [(c, now + (case ttl of None \<Rightarrow> defaultTtlMs s | Some t \<Rightarrow> t))]"
    and m: "maxEntries (insert_mark c ttl now s) = maxEntries s" by metis
  let ?k = "filter P (map_delete c (entries s))"
  have "distinct (map fst ?k)" using assms by (intro distinct_filter_fst) (simp add: store_ok_def)
  then have "distinct (map fst (drop (length ?k - (maxEntries s - 1)) ?k))"
    by (simp add: drop_map [symmetric])
  moreover have "c \<notin> fst ` set (drop (length ?k - (maxEntries s - 1)) ?k)"
    by (auto dest!: in_set_dropD simp: map_delete_def)
  ultimately show ?thesis using assms e [OF refl] m by (auto simp: store_ok_def)
qed

lemma insert_mark_live_self:
  assumes "store_ok s"
  shows "live_mark (insert_mark c ttl now s) t c \<longleftrightarrow>
    t \<le> now + (case ttl of None \<Rightarrow> defaultTtlMs s | Some x \<Rightarrow> x)"
proof -
  from insert_mark_entries [OF assms, of now c ttl] obtain P where
    e: "\<And>kept. kept = filter P (map_delete c (entries s)) \<Longrightarrow>
      entries (insert_mark c ttl now s) = drop (length kept - (maxEntries s - 1)) kept
          @ [(c, now + (case ttl of None \<Rightarrow> defaultTtlMs s | Some t \<Rightarrow> t))]" by metis
  have "c \<notin> fst ` set (drop n (filter P (map_delete c (entries s))))" for n
    by (auto dest!: in_set_dropD simp: map_delete_def)
  then have "map_of (drop n (filter P (map_delete c (entries s)))) c = None" for n
    by (simp add: map_of_eq_None_iff)
  with e [OF refl] show ?thesis by (simp add: live_mark_def map_add_Some_iff)
qed

lemma insert_mark_keeps:
  assumes "store_ok s" "room_for s c" "d \<noteq> c" "now \<le> t" "live_mark s t d"
  shows "live_mark (insert_mark c ttl now s) t d"
proof -
  from insert_mark_entries [OF assms(1), of now c ttl] obtain P where
    P: "\<And>e. e \<in> set (entries s) \<Longrightarrow> \<not> now > snd e \<Longrightarrow> P e" and
    e: "\<And>kept. kept = filter P (map_delete c (entries s)) \<Longrightarrow>
      entries (insert_mark c ttl now s) = drop (length kept - (maxEntries s - 1)) kept
          @ [(c, now + (case ttl of None \<Rightarrow> defaultTtlMs s | Some t \<Rightarrow> t))]" by metis
  let ?k = "filter P (map_delete c (entries s))"
  have "length ?k \<le> length (map_delete c (entries s))" by simp
  with assms(2) have "length ?k - (maxEntries s - 1) = 0" unfolding room_for_def by linarith
  with e [OF refl] have en: "entries (insert_mark c ttl now s) = ?k
      @ [(c, now + (case ttl of None \<Rightarrow> defaultTtlMs s | Some t \<Rightarrow> t))]" by simp
  from assms(5) obtain x where x: "map_of (entries s) d = Some x" "t \<le> x" by (auto simp: live_mark_def)
  with assms(4) P map_of_SomeD [OF x(1)] have "P (d, x)" by fastforce
  moreover have "distinct (map fst (map_delete c (entries s)))"
    using assms(1) by (simp add: store_ok_def)
  ultimately have "map_of ?k d = Some x" using x assms(3) by (simp add: map_of_filter)
  with en x assms(3) show ?thesis by (simp add: live_mark_def map_add_def)
qed

lemma insert_mark_only:
  assumes "store_ok s" "d \<noteq> c" "live_mark (insert_mark c ttl now s) t d"
  shows "live_mark s t d"
proof -
  from insert_mark_entries [OF assms(1), of now c ttl] obtain P where
    e: "\<And>kept. kept = filter P (map_delete c (entries s)) \<Longrightarrow>
      entries (insert_mark c ttl now s) = drop (length kept - (maxEntries s - 1)) kept
          @ [(c, now + (case ttl of None \<Rightarrow> defaultTtlMs s | Some t \<Rightarrow> t))]" by metis
  let ?k = "filter P (map_delete c (entries s))"
  from assms(3) obtain x where x: "map_of (entries (insert_mark c ttl now s)) d = Some x" "t \<le> x"
    by (auto simp: live_mark_def)
  from map_of_SomeD [OF x(1)] assms(2) have "(d, x) \<in> set (entries s)"
    unfolding e [OF refl] by (auto dest!: in_set_dropD simp: map_delete_def)
  with assms(1) have "map_of (entries s) d = Some x" by (simp add: store_ok_def)
  with x(2) show ?thesis by (simp add: live_mark_def)
qed

text \<open>At the cap an insert drops one other mark, the oldest.\<close>

lemma insert_mark_drops_one:
  assumes "store_ok s"
  obtains old where "\<And>d t. d \<noteq> c \<Longrightarrow> d \<noteq> old \<Longrightarrow> now \<le> t \<Longrightarrow> live_mark s t d \<Longrightarrow> live_mark (insert_mark c ttl now s) t d"
proof -
  from insert_mark_entries [OF assms, of now c ttl] obtain P where
    P: "\<And>e. e \<in> set (entries s) \<Longrightarrow> \<not> now > snd e \<Longrightarrow> P e" and
    e: "\<And>kept. kept = filter P (map_delete c (entries s)) \<Longrightarrow>
      entries (insert_mark c ttl now s) = drop (length kept - (maxEntries s - 1)) kept
          @ [(c, now + (case ttl of None \<Rightarrow> defaultTtlMs s | Some t \<Rightarrow> t))]" by metis
  define k where "k = filter P (map_delete c (entries s))"
  have dist: "distinct (map fst (map_delete c (entries s)))" using assms by (simp add: store_ok_def)
  then have dk: "distinct (map fst k)" by (simp add: k_def distinct_filter_fst)
  have "length k \<le> length (entries s)" unfolding k_def
    by (rule order_trans [OF length_filter_le map_delete_length])
  then have one: "length k - (maxEntries s - 1) \<le> 1" using assms by (auto simp: store_ok_def)
  show thesis
  proof (rule that [of "fst (hd k)"])
    fix d t assume d: "d \<noteq> c" "d \<noteq> fst (hd k)" "now \<le> t" "live_mark s t d"
    then obtain x where x: "map_of (entries s) d = Some x" "t \<le> x" by (auto simp: live_mark_def)
    with d(3) P map_of_SomeD [OF x(1)] have "P (d, x)" by fastforce
    with x(1) d(1) dist have m: "map_of k d = Some x" by (simp add: k_def map_of_filter)
    then have "k \<noteq> []" by auto
    then obtain y ks where "k = y # ks" by (cases k) auto
    then have "map_of (drop (length k - (maxEntries s - 1)) k) d = Some x"
      using m one d(2) by (cases "length k - (maxEntries s - 1)") auto
    then show "live_mark (insert_mark c ttl now s) t d"
      using e [OF k_def] x(2) d(1) by (simp add: live_mark_def map_add_def)
  qed
qed

lemma delete_mark_live: "live_mark (delete_mark c s) t d \<longleftrightarrow> d \<noteq> c \<and> live_mark s t d"
  by (auto simp: live_mark_def delete_mark_def)

lemma delete_mark_ok: "store_ok s \<Longrightarrow> store_ok (delete_mark c s)"
  using map_delete_length [of c "entries s"] by (simp add: store_ok_def delete_mark_def)

lemma isLive_fst: "fst (isLive c now s) = live_mark s now c"
  by (auto simp: isLive_def live_mark_def split: option.splits)

lemma isLive_snd:
  "store_ok s \<Longrightarrow> store_ok (snd (isLive c now s))"
  "now \<le> t \<Longrightarrow> live_mark (snd (isLive c now s)) t d = live_mark s t d"
  "room_for s c \<Longrightarrow> room_for (snd (isLive c now s)) c"
  "fst (isLive c now s) \<Longrightarrow> snd (isLive c now s) = s"
  using map_delete_length [of c "map_delete c (entries s)"]
  using delete_mark_ok [of s c, unfolded delete_mark_def]
  by (auto simp: isLive_def delete_mark_def room_for_def live_mark_def split: option.splits)

subsection \<open>Bounds\<close>

text \<open>A history of calls, each with the time the clock shows.\<close>

datatype store_op =
  OpHas cid | OpAdd cid "int option" | OpAddIfAbsent cid "int option" | OpDelete cid | OpCleanup | OpClear

fun apply_op :: "store_op \<times> int \<Rightarrow> inv_store \<Rightarrow> inv_store" where
  "apply_op (OpHas c, now) s = snd (has_mark c now s)"
| "apply_op (OpAdd c ttl, now) s = add_mark c ttl now s"
| "apply_op (OpAddIfAbsent c ttl, now) s = snd (addIfAbsent c ttl now s)"
| "apply_op (OpDelete c, now) s = delete_mark c s"
| "apply_op (OpCleanup, now) s = cleanup now s"
| "apply_op (OpClear, now) s = clear_marks s"

lemma sweepExpired_ok: "store_ok s \<Longrightarrow> store_ok (sweepExpired now s)"
  by (auto simp: store_ok_def sweepExpired_def distinct_filter_fst intro: order_trans [OF length_filter_le])

lemma maxEntries_ops [simp]:
  "maxEntries (insert_mark c ttl now s) = maxEntries s"
  "maxEntries (snd (isLive c now s)) = maxEntries s"
  by (simp_all add: insert_mark_def sweepExpired_def delete_mark_def isLive_def Let_def split: option.splits)

lemma clear_marks_ok: "store_ok s \<Longrightarrow> store_ok (clear_marks s)"
  by (simp add: store_ok_def clear_marks_def)

lemma apply_op_ok: "store_ok s \<Longrightarrow> store_ok (apply_op x s) \<and> maxEntries (apply_op x s) = maxEntries s"
proof (induction x s rule: apply_op.induct)
  case (3 c ttl now s)
  then show ?case
    using isLive_snd(1) [of s c now] insert_mark_ok [of "snd (isLive c now s)"]
    by (simp add: addIfAbsent_def case_prod_unfold Let_def)
qed (simp_all add: has_mark_def add_mark_def cleanup_def insert_mark_ok isLive_snd(1) delete_mark_ok
      sweepExpired_ok clear_marks_ok, simp_all add: delete_mark_def sweepExpired_def clear_marks_def)

lemma new_store_ok: "new_store ttl mx = Some s \<Longrightarrow> store_ok s"
  by (auto simp: new_store_def store_ok_def Let_def split: if_splits option.splits)

text \<open>
  C14. The in-memory store never holds more than \<open>maxEntries\<close> marks, nor two for one CID, after any
  history of calls at any clock readings; a full store makes room for a new mark by dropping its
  oldest entries only.
\<close>

theorem store_bounded:
  assumes "new_store ttl mx = Some s0"
    and "s = fold apply_op history s0"
  shows "length (entries s) \<le> maxEntries s0 \<and> distinct (map fst (entries s))
    \<and> (c \<notin> fst ` set (entries s) \<longrightarrow> (\<forall>e \<in> set (entries s). now \<le> snd e) \<longrightarrow>
        entries (insert_mark c (Some k) now s) =
          drop (Suc (length (entries s)) - maxEntries s0) (entries s) @ [(c, now + k)])"
proof -
  have "store_ok s \<and> maxEntries s = maxEntries s0"
    using new_store_ok [OF assms(1)] unfolding assms(2)
    by (induction history arbitrary: s0) (auto simp: apply_op_ok)
  then have ok: "store_ok s" and m: "maxEntries s = maxEntries s0" by auto
  have "entries (insert_mark c (Some k) now s) =
      drop (Suc (length (entries s)) - maxEntries s0) (entries s) @ [(c, now + k)]"
    if "c \<notin> fst ` set (entries s)" "\<forall>e \<in> set (entries s). now \<le> snd e"
  proof -
    from insert_mark_entries [OF ok, of now c "Some k"] obtain P where
      P: "\<And>e. e \<in> set (entries s) \<Longrightarrow> \<not> now > snd e \<Longrightarrow> P e" and
      e: "\<And>kept. kept = filter P (map_delete c (entries s)) \<Longrightarrow>
        entries (insert_mark c (Some k) now s) = drop (length kept - (maxEntries s - 1)) kept
          @ [(c, now + (case Some k of None \<Rightarrow> defaultTtlMs s | Some t \<Rightarrow> t))]" by metis
    from that P have "filter P (map_delete c (entries s)) = entries s"
      by (auto simp: map_delete_absent intro!: filter_True)
    moreover have "length (entries s) - (maxEntries s - 1) = Suc (length (entries s)) - maxEntries s0"
      using ok m by (auto simp: store_ok_def)
    ultimately show ?thesis using e by simp
  qed
  with ok m show ?thesis by (simp add: store_ok_def)
qed

theorem store_bounded_witness:
  "map fst (entries (insert_mark ''c'' (Some 5) 3 (fold apply_op
     [(OpAdd ''a'' (Some 10), 0), (OpAddIfAbsent ''b'' None, 1), (OpAddIfAbsent ''a'' None, 2)]
     (the (new_store None (Some 2)))))) = [''b'', ''c'']"
proof -
  let ?h = "[(OpAdd ''a'' (Some 10), 0), (OpAddIfAbsent ''b'' None, 1), (OpAddIfAbsent ''a'' None, 2)]"
  define s where "s = fold apply_op ?h (the (new_store None (Some 2)))"
  have n: "new_store None (Some 2) = Some (the (new_store None (Some 2)))"
    by (simp add: new_store_def)
  have f: "''c'' \<notin> fst ` set (entries s)" "\<forall>e \<in> set (entries s). 3 \<le> snd e"
    "map fst (entries s) = [''a'', ''b'']" "maxEntries (the (new_store None (Some 2))) = 2"
    unfolding s_def by code_simp+
  then have "length (entries s) = 2" by (metis length_map length_Cons list.size(3) numeral_2_eq_2)
  with store_bounded [OF n s_def, where c = "''c''" and now = 3 and k = 5] f
  have "entries (insert_mark ''c'' (Some 5) 3 s) = drop 1 (entries s) @ [(''c'', 8)]" by simp
  with f(3) show ?thesis unfolding s_def [symmetric] by (simp add: drop_map [symmetric] map_tl drop_Suc)
qed

end
