(* ===== verification/Replay.thy ===== *)
theory Replay imports Invocation_Store begin

text \<open>
  The validator's replay protection over any store: \<open>replayMarkTtlMs\<close>, \<open>reserveInvocation\<close> and its
  \<open>commit\<close> and \<open>release\<close> of \<open>packages/ucan/src/validator/validator.ts\<close>. Validations of one server
  run concurrently and interleave at their awaits, so both paths of \<open>reserveInvocation\<close> are step
  relations over the shared store: \<open>atomic_step\<close> for a store with \<open>addIfAbsent\<close>, \<open>plain_step\<close> for
  one with \<open>has\<close> and \<open>add\<close> only, which goes through the process-wide set of pending CIDs.
\<close>

subsection \<open>Lifetime of a mark\<close>

definition REPLAY_MARK_MARGIN_MS :: int where
  "REPLAY_MARK_MARGIN_MS = 60000"

text \<open>An expiration that is no finite number is \<open>None\<close>, and so is the store's default lifetime.\<close>

definition replayMarkTtlMs :: "int option \<Rightarrow> int \<Rightarrow> int option" where
  "replayMarkTtlMs expiration now =
    (case expiration of None \<Rightarrow> None
     | Some e \<Rightarrow> Some (max 0 (e * 1000 - now) + REPLAY_MARK_MARGIN_MS))"

definition mark_bound :: "int \<Rightarrow> int" where
  "mark_bound e = e * 1000 + REPLAY_MARK_MARGIN_MS"

lemma ttl_covers: "replayMarkTtlMs (Some e) now = Some k \<Longrightarrow> now \<le> later \<Longrightarrow> mark_bound e \<le> later + k"
  by (auto simp: replayMarkTtlMs_def mark_bound_def)

lemma replayMarkTtlMs_Some: "\<exists>k. replayMarkTtlMs (Some e) now = Some k"
  by (simp add: replayMarkTtlMs_def)

subsection \<open>Stores with an atomic insert\<close>

record 's atomic_store =
  as_addIfAbsent :: "cid \<Rightarrow> int option \<Rightarrow> int \<Rightarrow> 's \<Rightarrow> bool \<times> 's"
  as_delete :: "cid \<Rightarrow> 's \<Rightarrow> 's"

text \<open>
  The system: the store, the clock (milliseconds), the validations holding a reservation with
  whether ucanto has authorised them, and the CIDs of the accepted invocations, newest first.
\<close>

record 's replay_sys =
  rs_store :: 's
  rs_now :: int
  rs_active :: "nat \<rightharpoonup> cid \<times> bool"
  rs_accepted :: "cid list"

text \<open>
  \<open>expiry\<close> is the expiration a CID stands for. \<open>authorise\<close> happens before the expiry second (ucanto
  refuses the invocation from then on); \<open>room\<close> restricts to runs in which the store does not have
  to evict live marks.
\<close>

inductive atomic_step ::
  "'s atomic_store \<Rightarrow> (cid \<Rightarrow> int option) \<Rightarrow> ('s \<Rightarrow> cid \<Rightarrow> bool) \<Rightarrow> 's replay_sys \<Rightarrow> 's replay_sys \<Rightarrow> bool"
  for ops expiry room where
  reserve: "rs_active S v = None \<Longrightarrow> room (rs_store S) c \<Longrightarrow>
    as_addIfAbsent ops c (replayMarkTtlMs (expiry c) (rs_now S)) (rs_now S) (rs_store S) = (True, s') \<Longrightarrow>
    atomic_step ops expiry room S (S\<lparr>rs_store := s', rs_active := (rs_active S)(v \<mapsto> (c, False))\<rparr>)"
| refuse: "as_addIfAbsent ops c (replayMarkTtlMs (expiry c) (rs_now S)) (rs_now S) (rs_store S) = (False, s') \<Longrightarrow>
    atomic_step ops expiry room S (S\<lparr>rs_store := s'\<rparr>)"
| authorise: "rs_active S v = Some (c, False) \<Longrightarrow> (\<And>e. expiry c = Some e \<Longrightarrow> rs_now S < e * 1000) \<Longrightarrow>
    atomic_step ops expiry room S (S\<lparr>rs_active := (rs_active S)(v \<mapsto> (c, True))\<rparr>)"
| commit: "rs_active S v = Some (c, True) \<Longrightarrow>
    atomic_step ops expiry room S
      (S\<lparr>rs_active := (rs_active S)(v := None), rs_accepted := c # rs_accepted S\<rparr>)"
| release: "rs_active S v = Some (c, b) \<Longrightarrow>
    atomic_step ops expiry room S
      (S\<lparr>rs_store := as_delete ops c (rs_store S), rs_active := (rs_active S)(v := None)\<rparr>)"
| tick: "0 \<le> d \<Longrightarrow> atomic_step ops expiry room S (S\<lparr>rs_now := rs_now S + d\<rparr>)"

text \<open>
  What holds of one CID while its token can still be accepted: whoever holds the reservation is
  alone, excludes an earlier acceptance, and is backed by a mark that outlives the token.
\<close>

definition once :: "('s \<Rightarrow> int \<Rightarrow> cid \<Rightarrow> bool) \<Rightarrow> cid \<Rightarrow> int \<Rightarrow> 's replay_sys \<Rightarrow> bool" where
  "once live c e S \<longleftrightarrow>
     count_list (rs_accepted S) c \<le> 1
     \<and> (\<forall>v w. rs_active S v = Some (c, True) \<longrightarrow> rs_active S w = Some (c, True) \<longrightarrow> v = w)
     \<and> (c \<in> set (rs_accepted S) \<longrightarrow> (\<forall>v. rs_active S v \<noteq> Some (c, True)))
     \<and> (rs_now S \<le> mark_bound e \<longrightarrow>
          (\<forall>v w a b. rs_active S v = Some (c, a) \<longrightarrow> rs_active S w = Some (c, b) \<longrightarrow> v = w)
          \<and> (c \<in> set (rs_accepted S) \<longrightarrow> (\<forall>v a. rs_active S v \<noteq> Some (c, a)))
          \<and> ((\<exists>v a. rs_active S v = Some (c, a)) \<or> c \<in> set (rs_accepted S) \<longrightarrow>
              (\<forall>t. rs_now S \<le> t \<longrightarrow> t \<le> mark_bound e \<longrightarrow> live (rs_store S) t c)))"

locale atomic_replay =
  fixes ops :: "'s atomic_store"
    and live :: "'s \<Rightarrow> int \<Rightarrow> cid \<Rightarrow> bool"
    and ok :: "'s \<Rightarrow> bool"
    and room :: "'s \<Rightarrow> cid \<Rightarrow> bool"
  assumes add_ok: "ok s \<Longrightarrow> ok (snd (as_addIfAbsent ops c ttl now s))"
    and delete_ok: "ok s \<Longrightarrow> ok (as_delete ops c s)"
    and add_iff: "ok s \<Longrightarrow> fst (as_addIfAbsent ops c ttl now s) \<longleftrightarrow> \<not> live s now c"
    and add_marks: "ok s \<Longrightarrow> fst (as_addIfAbsent ops c (Some k) now s) \<Longrightarrow> t \<le> now + k \<Longrightarrow>
      live (snd (as_addIfAbsent ops c (Some k) now s)) t c"
    and add_keeps: "ok s \<Longrightarrow> room s c \<Longrightarrow> d \<noteq> c \<Longrightarrow> now \<le> t \<Longrightarrow> live s t d \<Longrightarrow>
      live (snd (as_addIfAbsent ops c ttl now s)) t d"
    and refuse_keeps: "ok s \<Longrightarrow> \<not> fst (as_addIfAbsent ops c ttl now s) \<Longrightarrow> now \<le> t \<Longrightarrow>
      live s t d \<Longrightarrow> live (snd (as_addIfAbsent ops c ttl now s)) t d"
    and delete_live: "live (as_delete ops c s) t d \<longleftrightarrow> d \<noteq> c \<and> live s t d"
begin

lemma step_ok: "atomic_step ops expiry room S S' \<Longrightarrow> ok (rs_store S) \<Longrightarrow> ok (rs_store S')"
  by (induction rule: atomic_step.induct) (auto dest: add_ok delete_ok simp: delete_ok, (metis add_ok snd_conv)+)

lemma step_once:
  assumes "atomic_step ops expiry room S S'" "ok (rs_store S)" "expiry c = Some e" "once live c e S"
  shows "once live c e S'"
  using assms
proof (induction rule: atomic_step.induct)
  case (reserve S v c' s')
  let ?ttl = "replayMarkTtlMs (expiry c') (rs_now S)"
  from add_iff [OF reserve.prems(1), of c' ?ttl "rs_now S"] reserve(3)
  have free: "\<not> live (rs_store S) (rs_now S) c'" by simp
  show ?case
  proof (cases "c' = c")
    case False
    then have "live s' t c" if "rs_now S \<le> t" "live (rs_store S) t c" for t
      using add_keeps [OF reserve.prems(1) reserve(2) _ that, of ?ttl] reserve(3) by simp
    with False reserve.prems(3) show ?thesis
      unfolding once_def by (simp split: if_splits) blast
  next
    case True
    obtain k where k: "?ttl = Some k" using reserve.prems(2) True replayMarkTtlMs_Some by metis
    with reserve.prems(2) True have "mark_bound e \<le> rs_now S + k"
      using ttl_covers by (metis order_refl)
    with k True have live: "live s' t c" if "t \<le> mark_bound e" for t
      using add_marks [OF reserve.prems(1), of c' k "rs_now S" t] reserve(3) that by simp
    from free True reserve.prems(3)
    have "rs_now S \<le> mark_bound e \<Longrightarrow> (\<forall>v a. rs_active S v \<noteq> Some (c, a)) \<and> c \<notin> set (rs_accepted S)"
      unfolding once_def by blast
    with live True reserve.prems(3) reserve(1) show ?thesis
      unfolding once_def by (simp split: if_splits; blast)
  qed
next
  case (refuse c' S s')
  then have "live s' t c" if "rs_now S \<le> t" "live (rs_store S) t c" for t
    using refuse_keeps [OF refuse.prems(1) _ that, of c'] by (metis fst_conv snd_conv)
  with refuse.prems(3) show ?case by (simp add: once_def)
next
  case (authorise S v c')
  show ?case
  proof (cases "c' = c")
    case False
    with authorise show ?thesis unfolding once_def by (simp split: if_splits) blast
  next
    case True
    with authorise have "rs_now S \<le> mark_bound e"
      by (fastforce simp: mark_bound_def REPLAY_MARK_MARGIN_MS_def)
    with True authorise(1,5) show ?thesis
      unfolding once_def by (simp split: if_splits) blast
  qed
next
  case (commit S v c')
  show ?case
  proof (cases "c' = c")
    case False
    with commit show ?thesis unfolding once_def by (simp split: if_splits) blast
  next
    case True
    with commit have "c \<notin> set (rs_accepted S)" unfolding once_def by blast
    with True commit(1,4) show ?thesis
      unfolding once_def by (simp split: if_splits) blast
  qed
next
  case (release S v c' b)
  then show ?case unfolding once_def delete_live by (simp add: delete_live split: if_splits) blast
next
  case (tick d S)
  then show ?case by (auto simp: once_def)
qed

lemma run_once:
  assumes "(atomic_step ops expiry room)\<^sup>*\<^sup>* S S'" "ok (rs_store S)" "expiry c = Some e" "once live c e S"
  shows "once live c e S'"
proof -
  from assms(1) have "ok (rs_store S') \<and> once live c e S'"
    using assms(2-4) by (induction rule: rtranclp_induct) (auto intro: step_ok step_once)
  then show ?thesis ..
qed

lemma run_at_most_once:
  assumes "(atomic_step ops expiry room)\<^sup>*\<^sup>* S S'" "ok (rs_store S)" "expiry c = Some e"
    and "rs_active S = Map.empty" "rs_accepted S = []"
  shows "count_list (rs_accepted S') c \<le> 1"
  using run_once [OF assms(1-3)] assms(4,5) by (simp add: once_def)

end

text \<open>\<open>InMemoryInvocationStore\<close> provides the atomic interface.\<close>

definition memory_atomic :: "inv_store atomic_store" where
  "memory_atomic = \<lparr>as_addIfAbsent = addIfAbsent, as_delete = delete_mark\<rparr>"

lemma addIfAbsent_simps:
  "addIfAbsent c ttl now s = (if live_mark s now c then (False, s)
     else (True, insert_mark c ttl now (snd (isLive c now s))))"
  using isLive_fst [of c now s] isLive_snd(4) [of c now s]
  by (auto simp: addIfAbsent_def case_prod_unfold Let_def)

interpretation memory: atomic_replay memory_atomic live_mark store_ok room_for
  by unfold_locales
    (auto simp: memory_atomic_def addIfAbsent_simps insert_mark_ok delete_mark_ok isLive_snd
      insert_mark_live_self insert_mark_keeps delete_mark_live split: if_splits)

subsection \<open>Stores without one\<close>

record 's plain_store =
  ps_has :: "cid \<Rightarrow> int \<Rightarrow> 's \<Rightarrow> bool \<times> 's"
  ps_add :: "cid \<Rightarrow> int option \<Rightarrow> int \<Rightarrow> 's \<Rightarrow> 's"

datatype plain_phase = Checking | Reserved | Authorised

text \<open>\<open>pl_pending\<close> is the \<open>WeakMap\<close>'s set for this store object.\<close>

record 's plain_sys =
  pl_store :: 's
  pl_now :: int
  pl_pending :: "cid set"
  pl_active :: "nat \<rightharpoonup> cid \<times> int option \<times> plain_phase"
  pl_accepted :: "cid list"

definition pl_done :: "nat \<Rightarrow> cid \<Rightarrow> 's plain_sys \<Rightarrow> 's plain_sys" where
  "pl_done v c S = S\<lparr>pl_pending := pl_pending S - {c}, pl_active := (pl_active S)(v := None)\<rparr>"

inductive plain_step ::
  "'s plain_store \<Rightarrow> (cid \<Rightarrow> int option) \<Rightarrow> ('s \<Rightarrow> cid \<Rightarrow> bool) \<Rightarrow> 's plain_sys \<Rightarrow> 's plain_sys \<Rightarrow> bool"
  for ops expiry room where
  begin_check: "pl_active S v = None \<Longrightarrow> c \<notin> pl_pending S \<Longrightarrow>
    plain_step ops expiry room S
      (S\<lparr>pl_pending := insert c (pl_pending S),
         pl_active := (pl_active S)(v \<mapsto> (c, replayMarkTtlMs (expiry c) (pl_now S), Checking))\<rparr>)"
| used: "pl_active S v = Some (c, ttl, Checking) \<Longrightarrow> ps_has ops c (pl_now S) (pl_store S) = (True, s') \<Longrightarrow>
    plain_step ops expiry room S (pl_done v c (S\<lparr>pl_store := s'\<rparr>))"
| unused: "pl_active S v = Some (c, ttl, Checking) \<Longrightarrow> ps_has ops c (pl_now S) (pl_store S) = (False, s') \<Longrightarrow>
    plain_step ops expiry room S
      (S\<lparr>pl_store := s', pl_active := (pl_active S)(v \<mapsto> (c, ttl, Reserved))\<rparr>)"
| authorise: "pl_active S v = Some (c, ttl, Reserved) \<Longrightarrow> (\<And>e. expiry c = Some e \<Longrightarrow> pl_now S < e * 1000) \<Longrightarrow>
    plain_step ops expiry room S (S\<lparr>pl_active := (pl_active S)(v \<mapsto> (c, ttl, Authorised))\<rparr>)"
| commit: "pl_active S v = Some (c, ttl, Authorised) \<Longrightarrow> room (pl_store S) c \<Longrightarrow>
    plain_step ops expiry room S
      (pl_done v c (S\<lparr>pl_store := ps_add ops c ttl (pl_now S) (pl_store S), pl_accepted := c # pl_accepted S\<rparr>))"
| release: "pl_active S v = Some (c, ttl, ph) \<Longrightarrow> plain_step ops expiry room S (pl_done v c S)"
| tick: "0 \<le> d \<Longrightarrow> plain_step ops expiry room S (S\<lparr>pl_now := pl_now S + d\<rparr>)"

text \<open>
  The pending set makes the validation of a CID exclusive at any time; the mark placed by the
  accepted one keeps later ones from getting past the check.
\<close>

definition plain_once :: "('s \<Rightarrow> int \<Rightarrow> cid \<Rightarrow> bool) \<Rightarrow> cid \<Rightarrow> int \<Rightarrow> 's plain_sys \<Rightarrow> bool" where
  "plain_once live c e S \<longleftrightarrow>
     count_list (pl_accepted S) c \<le> 1
     \<and> (\<forall>v ttl ph. pl_active S v = Some (c, ttl, ph) \<longrightarrow> c \<in> pl_pending S
          \<and> (\<forall>t. pl_now S \<le> t \<longrightarrow> (\<exists>k. ttl = Some k \<and> mark_bound e \<le> t + k)))
     \<and> (\<forall>v w x y. pl_active S v = Some (c, x) \<longrightarrow> pl_active S w = Some (c, y) \<longrightarrow> v = w)
     \<and> (c \<in> set (pl_accepted S) \<longrightarrow>
          (\<forall>v ttl. pl_active S v \<noteq> Some (c, ttl, Authorised))
          \<and> (pl_now S \<le> mark_bound e \<longrightarrow>
               (\<forall>v ttl. pl_active S v \<noteq> Some (c, ttl, Reserved))
               \<and> (\<forall>t. pl_now S \<le> t \<longrightarrow> t \<le> mark_bound e \<longrightarrow> live (pl_store S) t c)))"

locale plain_replay =
  fixes ops :: "'s plain_store"
    and live :: "'s \<Rightarrow> int \<Rightarrow> cid \<Rightarrow> bool"
    and ok :: "'s \<Rightarrow> bool"
    and room :: "'s \<Rightarrow> cid \<Rightarrow> bool"
  assumes has_ok: "ok s \<Longrightarrow> ok (snd (ps_has ops c now s))"
    and add_ok: "ok s \<Longrightarrow> ok (ps_add ops c ttl now s)"
    and has_iff: "ok s \<Longrightarrow> fst (ps_has ops c now s) \<longleftrightarrow> live s now c"
    and has_keeps: "ok s \<Longrightarrow> now \<le> t \<Longrightarrow> live s t d \<Longrightarrow> live (snd (ps_has ops c now s)) t d"
    and add_marks: "ok s \<Longrightarrow> t \<le> now + k \<Longrightarrow> live (ps_add ops c (Some k) now s) t c"
    and add_keeps: "ok s \<Longrightarrow> room s c \<Longrightarrow> d \<noteq> c \<Longrightarrow> now \<le> t \<Longrightarrow> live s t d \<Longrightarrow>
      live (ps_add ops c ttl now s) t d"
begin

lemma once_phase:
  assumes "plain_once live c e S" "pl_active S v = Some (c, ttl, ph)"
    and "c \<in> set (pl_accepted S) \<Longrightarrow> ph' \<noteq> Authorised \<and> (pl_now S \<le> mark_bound e \<longrightarrow> ph' \<noteq> Reserved)"
    and "\<And>t. pl_now S \<le> t \<Longrightarrow> live (pl_store S) t c \<Longrightarrow> live s' t c"
  shows "plain_once live c e (S\<lparr>pl_store := s', pl_active := (pl_active S)(v \<mapsto> (c, ttl, ph'))\<rparr>)"
proof -
  let ?S = "S\<lparr>pl_store := s', pl_active := (pl_active S)(v \<mapsto> (c, ttl, ph'))\<rparr>"
  have o: "count_list (pl_accepted S) c \<le> 1"
    "\<And>w ttl ph. pl_active S w = Some (c, ttl, ph) \<Longrightarrow> c \<in> pl_pending S
       \<and> (\<forall>t. pl_now S \<le> t \<longrightarrow> (\<exists>k. ttl = Some k \<and> mark_bound e \<le> t + k))"
    "\<And>v w x y. pl_active S v = Some (c, x) \<Longrightarrow> pl_active S w = Some (c, y) \<Longrightarrow> v = w"
    "c \<in> set (pl_accepted S) \<Longrightarrow> pl_now S \<le> mark_bound e \<Longrightarrow>
       \<forall>t. pl_now S \<le> t \<longrightarrow> t \<le> mark_bound e \<longrightarrow> live (pl_store S) t c"
    using assms(1) unfolding plain_once_def by blast+
  have w: "w = v \<and> ttl' = ttl \<and> q = ph'" if "pl_active ?S w = Some (c, ttl', q)" for w ttl' q
    using that o(3) [OF assms(2)] by (auto split: if_splits)
  show ?thesis
    unfolding plain_once_def
  proof (intro conjI allI impI)
    fix u x y q r assume "pl_active ?S u = Some (c, x)" "pl_active ?S q = Some (c, y)"
    then show "u = q" using w by (metis prod.exhaust_sel)
  next
    fix u x q assume a: "pl_active ?S u = Some (c, x, q)"
    from w [OF a] o(2) [OF assms(2)] show "c \<in> pl_pending ?S" by simp
    fix t assume "pl_now ?S \<le> t"
    with w [OF a] o(2) [OF assms(2)] show "\<exists>k. x = Some k \<and> mark_bound e \<le> t + k" by simp
  next
    assume acc: "c \<in> set (pl_accepted ?S)"
    then have n: "ph' \<noteq> Authorised" using assms(3) by simp
    fix u x show "pl_active ?S u \<noteq> Some (c, x, Authorised)" using w [of u x Authorised] n by metis
  next
    assume acc: "c \<in> set (pl_accepted ?S)" and now: "pl_now ?S \<le> mark_bound e"
    then have n: "ph' \<noteq> Reserved" using assms(3) by simp
    fix u x show "pl_active ?S u \<noteq> Some (c, x, Reserved)" using w [of u x Reserved] n by metis
  next
    fix t assume "c \<in> set (pl_accepted ?S)" "pl_now ?S \<le> t" "t \<le> mark_bound e"
    moreover from this have "pl_now S \<le> mark_bound e" by simp
    ultimately show "live (pl_store ?S) t c" using o(4) assms(4) by simp
  qed (use o(1) in simp)
qed

lemma has_keeps': "ps_has ops c now s = (b, s') \<Longrightarrow> ok s \<Longrightarrow> now \<le> t \<Longrightarrow> live s t d \<Longrightarrow> live s' t d"
  using has_keeps [of s now t d c] by simp

lemma step_ok: "plain_step ops expiry room S S' \<Longrightarrow> ok (pl_store S) \<Longrightarrow> ok (pl_store S')"
  by (induction rule: plain_step.induct) (auto simp: add_ok pl_done_def, (metis has_ok snd_conv)+)

lemma step_once:
  assumes "plain_step ops expiry room S S'" "ok (pl_store S)" "expiry c = Some e" "plain_once live c e S"
  shows "plain_once live c e S'"
  using assms
proof (induction rule: plain_step.induct)
  case (begin_check S v c')
  have "\<exists>k. replayMarkTtlMs (Some e) (pl_now S) = Some k \<and> mark_bound e \<le> t + k" if "pl_now S \<le> t" for t
    using ttl_covers replayMarkTtlMs_Some that by metis
  with begin_check show ?case
    unfolding plain_once_def by (cases "c' = c") (auto simp: begin_check(4))
next
  case (used S v c' ttl s')
  with has_keeps' [OF used(2) used.prems(1)] show ?case
    unfolding plain_once_def by (auto simp: pl_done_def)
next
  case (unused S v c' ttl s')
  have nl: "\<not> live (pl_store S) (pl_now S) c'"
    using unused(2) has_iff [OF unused.prems(1), of c' "pl_now S"] by simp
  show ?case
  proof (cases "c' = c")
    case True
    have "c \<notin> set (pl_accepted S) \<or> \<not> pl_now S \<le> mark_bound e"
      using nl True unused.prems(3) unfolding plain_once_def by blast
    with True unused has_keeps' [OF unused(2) unused.prems(1)] show ?thesis
      by (auto intro!: once_phase)
  next
    case False
    with unused has_keeps' [OF unused(2) unused.prems(1)] show ?thesis
      unfolding plain_once_def by auto
  qed
next
  case (authorise S v c' ttl)
  have "pl_now S \<le> mark_bound e" if "c' = c"
    using authorise(2) [of e] authorise(4) that by (simp add: mark_bound_def REPLAY_MARK_MARGIN_MS_def)
  show ?case
  proof (cases "c' = c")
    case True
    with authorise(1,5) \<open>c' = c \<Longrightarrow> pl_now S \<le> mark_bound e\<close> have "c \<notin> set (pl_accepted S)"
      unfolding plain_once_def by blast
    with True authorise(1,5) once_phase [of c e S v ttl Reserved Authorised "pl_store S"]
    show ?thesis by simp
  next
    case False
    with authorise show ?thesis unfolding plain_once_def by auto
  qed
next
  case (commit S v c' ttl)
  show ?case
  proof (cases "c' = c")
    case False
    with commit add_keeps [OF commit.prems(1) commit(2)] show ?thesis
      unfolding plain_once_def by (auto simp: pl_done_def)
  next
    case True
    from commit(1) commit.prems(3) True obtain k where k: "ttl = Some k" "mark_bound e \<le> pl_now S + k"
      unfolding plain_once_def by blast
    from commit(1) commit.prems(3) True have "c \<notin> set (pl_accepted S)" unfolding plain_once_def by blast
    moreover have "live (ps_add ops c ttl (pl_now S) (pl_store S)) t c" if "t \<le> mark_bound e" for t
      using add_marks [OF commit.prems(1), of t "pl_now S" k c] k that by simp
    ultimately show ?thesis using commit(1) commit.prems(3) True
      unfolding plain_once_def by (auto simp: pl_done_def)
  qed
next
  case (release S v c' ttl ph)
  then show ?case unfolding plain_once_def by (auto simp: pl_done_def)
next
  case (tick d S)
  then show ?case unfolding plain_once_def by (auto; force)
qed

lemma run_at_most_once:
  assumes "(plain_step ops expiry room)\<^sup>*\<^sup>* S S'" "ok (pl_store S)" "expiry c = Some e"
    and "pl_active S = Map.empty" "pl_accepted S = []"
  shows "count_list (pl_accepted S') c \<le> 1"
proof -
  have "plain_once live c e S" using assms(4,5) by (simp add: plain_once_def)
  with assms(1,2) have "ok (pl_store S') \<and> plain_once live c e S'"
    by (induction rule: rtranclp_induct) (use assms(3) in \<open>auto intro: step_ok step_once\<close>)
  then show ?thesis by (simp add: plain_once_def)
qed

end

definition memory_plain :: "inv_store plain_store" where
  "memory_plain = \<lparr>ps_has = has_mark, ps_add = add_mark\<rparr>"

interpretation memory_pl: plain_replay memory_plain live_mark store_ok room_for
  by unfold_locales
    (auto simp: memory_plain_def has_mark_def add_mark_def insert_mark_ok isLive_fst isLive_snd
      insert_mark_live_self insert_mark_keeps)

subsection \<open>Single use\<close>

definition idle :: "'s \<Rightarrow> 's replay_sys" where
  "idle s = \<lparr>rs_store = s, rs_now = 0, rs_active = Map.empty, rs_accepted = []\<rparr>"

definition plain_idle :: "'s \<Rightarrow> 's plain_sys" where
  "plain_idle s = \<lparr>pl_store = s, pl_now = 0, pl_pending = {}, pl_active = Map.empty, pl_accepted = []\<rparr>"

text \<open>
  C15. An invocation with an expiration is accepted at most once, however the validations of it
  and of other invocations interleave on a store with \<open>addIfAbsent\<close>, including failed attempts
  that release their mark and attempts that outlive the token, as long as no live mark is evicted.
\<close>

theorem atomic_single_use:
  assumes "(atomic_step memory_atomic expiry room_for)\<^sup>*\<^sup>* (idle s) S" and "store_ok s"
    and "expiry c = Some e"
  shows "count_list (rs_accepted S) c \<le> 1"
  using memory.run_at_most_once [OF assms(1) _ assms(3)] assms(2) by (simp add: idle_def)

text \<open>
  C16. The same holds on a store that only has \<open>has\<close> and \<open>add\<close>: the pending set closes the window
  between the check and the insert.
\<close>

theorem plain_single_use:
  assumes "(plain_step memory_plain expiry room_for)\<^sup>*\<^sup>* (plain_idle s) S" and "store_ok s"
    and "expiry c = Some e"
  shows "count_list (pl_accepted S) c \<le> 1"
  using memory_pl.run_at_most_once [OF assms(1) _ assms(3)] assms(2) by (simp add: plain_idle_def)

definition small_store :: inv_store where
  "small_store = \<lparr>entries = [], defaultTtlMs = 1000, maxEntries = 5, lastFullSweepAt = None\<rparr>"

theorem atomic_single_use_witness:
  "\<exists>S. (atomic_step memory_atomic (\<lambda>_. Some 7) room_for)\<^sup>*\<^sup>* (idle small_store) S
     \<and> rs_accepted S = [''a''] \<and> count_list (rs_accepted S) ''a'' \<le> 1"
proof -
  let ?step = "atomic_step memory_atomic (\<lambda>_. Some 7) room_for"
  obtain s' where s': "addIfAbsent ''a'' (replayMarkTtlMs (Some 7) 0) 0 small_store = (True, s')"
    by (auto simp: addIfAbsent_simps live_mark_def small_store_def)
  define S1 where "S1 = (idle small_store)\<lparr>rs_store := s', rs_active := [0 \<mapsto> (''a'', False)]\<rparr>"
  define S2 where "S2 = S1\<lparr>rs_active := [0 \<mapsto> (''a'', True)]\<rparr>"
  define S3 where "S3 = S2\<lparr>rs_active := (rs_active S2)(0 := None), rs_accepted := [''a'']\<rparr>"
  have st1: "?step (idle small_store) S1"
    using atomic_step.reserve [where S = "idle small_store" and v = 0 and c = "''a''" and s' = s'
        and ops = memory_atomic and room = room_for and expiry = "\<lambda>_. Some 7"] s'
    by (simp add: S1_def idle_def memory_atomic_def room_for_def map_delete_def small_store_def)
  have st2: "?step S1 S2"
    using atomic_step.authorise [where S = S1 and v = 0 and c = "''a''" and expiry = "\<lambda>_. Some 7"]
    by (simp add: S1_def S2_def idle_def)
  have st3: "?step S2 S3"
    using atomic_step.commit [where S = S2 and v = 0 and c = "''a''"]
    by (simp add: S1_def S2_def S3_def idle_def)
  have run: "?step\<^sup>*\<^sup>* (idle small_store) S3"
    by (rule converse_rtranclp_into_rtranclp [OF st1 converse_rtranclp_into_rtranclp [OF st2 r_into_rtranclp [where r = ?step, OF st3]]])
  have ok: "store_ok small_store" by (simp add: store_ok_def small_store_def)
  from atomic_single_use [OF run ok refl, of "''a''"] run show ?thesis
    by (intro exI [of _ S3]) (simp add: S3_def)
qed

theorem plain_single_use_witness:
  "\<exists>S. (plain_step memory_plain (\<lambda>_. Some 7) room_for)\<^sup>*\<^sup>* (plain_idle small_store) S
     \<and> pl_accepted S = [''a''] \<and> count_list (pl_accepted S) ''a'' \<le> 1"
proof -
  let ?step = "plain_step memory_plain (\<lambda>_. Some 7) room_for"
  let ?ttl = "replayMarkTtlMs (Some 7) 0"
  define S1 where "S1 = (plain_idle small_store)\<lparr>pl_pending := {''a''},
    pl_active := [0 \<mapsto> (''a'', ?ttl, Checking)]\<rparr>"
  define S2 where "S2 = S1\<lparr>pl_active := [0 \<mapsto> (''a'', ?ttl, Reserved)]\<rparr>"
  define S3 where "S3 = S2\<lparr>pl_active := [0 \<mapsto> (''a'', ?ttl, Authorised)]\<rparr>"
  define S4 where "S4 = pl_done 0 ''a'' (S3\<lparr>pl_store := add_mark ''a'' ?ttl 0 small_store,
    pl_accepted := [''a'']\<rparr>)"
  have st1: "?step (plain_idle small_store) S1"
    using plain_step.begin_check [where S = "plain_idle small_store" and v = 0 and c = "''a''"
        and expiry = "\<lambda>_. Some 7"]
    by (simp add: S1_def plain_idle_def)
  have st2: "?step S1 S2"
    using plain_step.unused [where S = S1 and v = 0 and c = "''a''" and ops = memory_plain
        and expiry = "\<lambda>_. Some 7" and s' = small_store]
    by (simp add: S1_def S2_def plain_idle_def memory_plain_def has_mark_def isLive_def small_store_def)
  have st3: "?step S2 S3"
    using plain_step.authorise [where S = S2 and v = 0 and c = "''a''" and expiry = "\<lambda>_. Some 7"]
    by (simp add: S1_def S2_def S3_def plain_idle_def)
  have st4: "?step S3 S4"
    using plain_step.commit [where S = S3 and v = 0 and c = "''a''" and ops = memory_plain
        and room = room_for]
    by (simp add: S1_def S2_def S3_def S4_def plain_idle_def memory_plain_def room_for_def map_delete_def
        small_store_def)
  have run: "?step\<^sup>*\<^sup>* (plain_idle small_store) S4"
    by (rule converse_rtranclp_into_rtranclp [OF st1 converse_rtranclp_into_rtranclp [OF st2 converse_rtranclp_into_rtranclp [OF st3 r_into_rtranclp [where r = ?step, OF st4]]]])
  have ok: "store_ok small_store" by (simp add: store_ok_def small_store_def)
  from plain_single_use [OF run ok refl, of "''a''"] run show ?thesis
    by (intro exI [of _ S4]) (simp add: S4_def pl_done_def)
qed

end
