(* ===== verification/Ucan_Messages.thy ===== *)
theory Ucan_Messages imports Prelude "HOL-Library.Word" begin

text \<open>
  Error messages of the validator: JavaScript strings as lists of 16-bit code units, and
  \<open>clipMessage\<close> of \<open>packages/ucan/src/validator/validator.ts\<close>, which bounds their length.
\<close>

type_synonym message = "16 word list"

text \<open>The code units of a text whose characters are single units.\<close>

definition u16 :: "string \<Rightarrow> message" where
  "u16 s = map (\<lambda>c. word_of_nat (of_char c)) s"

definition is_high :: "16 word \<Rightarrow> bool" where
  "is_high w \<longleftrightarrow> 0xd800 \<le> w \<and> w \<le> 0xdbff"

definition is_low :: "16 word \<Rightarrow> bool" where
  "is_low w \<longleftrightarrow> 0xdc00 \<le> w \<and> w \<le> 0xdfff"

definition ELLIPSIS :: "16 word" where
  "ELLIPSIS = 0x2026"

text \<open>\<open>charCodeAt\<close> out of range is \<open>NaN\<close>, for which both comparisons fail.\<close>

definition high_at :: "message \<Rightarrow> int \<Rightarrow> bool" where
  "high_at m i \<longleftrightarrow> 0 \<le> i \<and> i < int (length m) \<and> is_high (m ! nat i)"

definition clipMessage :: "message \<Rightarrow> int \<Rightarrow> message" where
  "clipMessage message mx =
    (if int (length message) \<le> mx then message
     else (let end1 = mx - 1;
               end2 = (if end1 > 0 \<and> high_at message (end1 - 1) then end1 - 1 else end1)
           in take (nat end2) message @ [ELLIPSIS]))"

text \<open>Every high surrogate is followed by a low one, and low ones occur nowhere else.\<close>

fun utf16 :: "message \<Rightarrow> bool" where
  "utf16 [] \<longleftrightarrow> True"
| "utf16 [x] \<longleftrightarrow> \<not> is_high x \<and> \<not> is_low x"
| "utf16 (x # y # r) \<longleftrightarrow>
     (if is_high x then is_low y \<and> utf16 r else \<not> is_low x \<and> utf16 (y # r))"

lemma high_not_low: "is_high x \<Longrightarrow> \<not> is_low x"
  by (auto simp: is_high_def is_low_def word_le_nat_alt)

lemma utf16_take:
  "utf16 m \<Longrightarrow> k = 0 \<or> k > length m \<or> \<not> is_high (m ! (k - 1)) \<Longrightarrow> utf16 (take k m)"
proof (induction m arbitrary: k rule: utf16.induct)
  case (2 x)
  then show ?case by (cases k) auto
next
  case (3 x y r)
  show ?case
  proof (cases "k = 0 \<or> k = 1")
    case True
    with 3 show ?thesis by (auto split: if_splits)
  next
    case False
    then obtain j where k: "k = Suc (Suc j)" by (metis One_nat_def old.nat.exhaust)
    show ?thesis
    proof (cases "is_high x")
      case True
      with "3.prems" k have "utf16 (take j r)"
        using "3.IH"(1) [of j] high_not_low by (cases j) (auto split: if_splits)
      with True "3.prems" k show ?thesis by simp
    next
      case h: False
      with "3.prems" k have "utf16 (take (Suc j) (y # r))"
        using "3.IH"(2) [of "Suc j"] by (auto split: if_splits)
      with h "3.prems" k show ?thesis by simp
    qed
  qed
qed simp

lemma utf16_snoc: "utf16 m \<Longrightarrow> \<not> is_high c \<Longrightarrow> \<not> is_low c \<Longrightarrow> utf16 (m @ [c])"
  by (induction m rule: utf16.induct) auto

lemma ELLIPSIS_plain: "\<not> is_high ELLIPSIS" "\<not> is_low ELLIPSIS"
  by (simp_all add: is_high_def is_low_def ELLIPSIS_def)

lemma utf16_no_adjacent_high:
  "utf16 m \<Longrightarrow> Suc i < length m \<Longrightarrow> is_high (m ! i) \<Longrightarrow> \<not> is_high (m ! Suc i)"
proof (induction m arbitrary: i rule: utf16.induct)
  case (3 x y r)
  show ?case
  proof (cases "is_high x")
    case True
    with "3.prems" have "is_low y" by simp
    then have y: "\<not> is_high y" using high_not_low by blast
    show ?thesis
    proof (cases i)
      case 0
      with y show ?thesis by simp
    next
      case (Suc j)
      with y "3.prems" obtain l where "j = Suc l" by (cases j) auto
      with Suc True "3.prems" "3.IH"(1) [of l] show ?thesis by simp
    qed
  next
    case False
    with "3.prems" obtain j where "i = Suc j" by (cases i) auto
    with False "3.prems" "3.IH"(2) [of j] show ?thesis by simp
  qed
qed auto

lemma utf16_cut:
  assumes "utf16 m" "int (length m) > e" "0 \<le> e"
    and "e' = (if e > 0 \<and> high_at m (e - 1) then e - 1 else e)"
  shows "utf16 (take (nat e') m)"
proof (rule utf16_take [OF assms(1)])
  show "nat e' = 0 \<or> nat e' > length m \<or> \<not> is_high (m ! (nat e' - 1))"
  proof (cases "e > 0 \<and> high_at m (e - 1)")
    case True
    show ?thesis
    proof (cases "e = 1")
      case False
      with True have e: "e' = e - 1" "e \<ge> 2" using assms(4) by auto
      then have n: "Suc (nat e' - 1) = nat e'" "nat (e - 1) = nat e'" "nat e' < length m"
        using assms(2) by auto
      from True have "is_high (m ! nat e')" using n(2) by (simp add: high_at_def)
      then show ?thesis using utf16_no_adjacent_high [OF assms(1), of "nat e' - 1"] n by auto
    qed (use True assms(4) in simp)
  next
    case False
    then have "e' = e" using assms(4) by simp
    moreover have "nat (e - 1) = nat e - 1" by simp
    ultimately show ?thesis using False assms(2,3) by (auto simp: high_at_def)
  qed
qed

lemma clipMessage_bounds:
  assumes "1 \<le> mx"
  shows "int (length (clipMessage m mx)) \<le> mx
    \<and> (int (length m) \<le> mx \<longrightarrow> clipMessage m mx = m)
    \<and> (utf16 m \<longrightarrow> utf16 (clipMessage m mx))"
proof (cases "int (length m) \<le> mx")
  case True
  then show ?thesis by (simp add: clipMessage_def)
next
  case False
  define e where "e = (if mx - 1 > 0 \<and> high_at m (mx - 1 - 1) then mx - 1 - 1 else mx - 1)"
  have c: "clipMessage m mx = take (nat e) m @ [ELLIPSIS]"
    using False by (simp add: clipMessage_def e_def Let_def)
  have "e \<le> mx - 1" "0 \<le> e" using assms by (auto simp: e_def)
  then have "int (length (take (nat e) m @ [ELLIPSIS])) \<le> mx" by simp
  moreover have "utf16 m \<Longrightarrow> utf16 (take (nat e) m @ [ELLIPSIS])"
    using utf16_cut [of m "mx - 1" e] False assms ELLIPSIS_plain by (simp add: e_def utf16_snoc)
  ultimately show ?thesis unfolding c using False by blast
qed

text \<open>
  A clipped message is never longer than the limit, a message within the limit is returned
  as it is, and a clipped well-formed UTF-16 text stays well-formed: the cut never separates the
  two halves of a surrogate pair.
\<close>

theorem clipMessage_safe:
  assumes "1 \<le> mx"
  shows "int (length (clipMessage m mx)) \<le> mx
    \<and> (int (length m) \<le> mx \<longrightarrow> clipMessage m mx = m)
    \<and> (utf16 m \<longrightarrow> utf16 (clipMessage m mx))"
  using clipMessage_bounds [OF assms] .

theorem clipMessage_safe_witness:
  "utf16 (clipMessage [0x61, 0xd83d, 0xde00, 0x62, 0x63] 3)"
  using clipMessage_safe [of 3 "[0x61, 0xd83d, 0xde00, 0x62, 0x63]"]
  by (simp add: is_high_def is_low_def)

end
