(* ===== verification/Ucan_Validator.thy ===== *)
theory Ucan_Validator imports Resource_Issuer Capability Proof_Walks Replay Ucan_Messages begin

text \<open>
  \<open>createUCANValidator\<close> of \<open>packages/ucan/src/validator/validator.ts\<close>: DID resolution with its
  per-request memo, signature verification of a delegation chain, authorisation through ucanto's
  \<open>claim\<close>, revocation, and the two entry points \<open>validate\<close> and \<open>validateDelegation\<close>.

  Code outside the repository is a field of \<open>'c env\<close>: ucanto's \<open>claim\<close>, \<open>Delegation.extract\<close>,
  \<open>UCAN.verifySignature\<close> and \<open>ed25519.Verifier.parse\<close>, the configured DID resolver and revocation
  checker, the URL parser and the engine's own exception texts. A thrown exception is the left
  value of a sum.
\<close>

subsection \<open>Results and configuration\<close>

datatype error_code =
    INVALID_FORMAT | INVALID_SIGNATURE | UNAUTHORIZED | REPLAY | EXPIRED | CAVEAT_VIOLATION
  | REVOKED | REVOCATION_CHECK_FAILED

record valid_info =
  vi_invoker :: did
  vi_capability :: "cap option"
  vi_expiration :: "int option"
  vi_proofChain :: "did list option"
  vi_proofChainCids :: "cid list"
  vi_facts :: "string list option"

datatype vresult = Valid valid_info | Invalid error_code message

datatype resolution = Keys "did list" | ResolutionError message

datatype claim_result = ClaimOk authorization | ClaimError "message option" | ClaimThrows message

datatype extracted = ExtractThrows message | ExtractError "message option" | Extracted node

text \<open>
  A resolver and a checker may answer differently each time they are asked: the first argument of
  \<open>env_didResolver\<close> counts the calls made so far.
\<close>

record 'c env =
  env_parses :: "did \<Rightarrow> bool"
  env_parse_error :: "did \<Rightarrow> message"
  env_verifies :: "node \<Rightarrow> did \<Rightarrow> bool option"
  env_didResolver :: "(nat \<Rightarrow> did \<Rightarrow> message + resolution) option"
  env_claim :: "'c \<Rightarrow> node \<Rightarrow> did \<Rightarrow> (nat \<Rightarrow> did \<Rightarrow> message + resolution)
      \<Rightarrow> (uri \<Rightarrow> did \<Rightarrow> bool) \<Rightarrow> claim_result"
  env_extract :: "string \<Rightarrow> extracted"
  env_checker :: "(cid list \<Rightarrow> message + cid list) option"
  env_url_href :: "uri \<Rightarrow> uri option"
  env_type_error :: message
  env_range_error :: message
  env_iso_date :: "int \<Rightarrow> message"

record options =
  serverDid :: did
  rootIssuers :: "did list"
  revocationOpen :: bool
  requireExpiration :: bool
  proofChainLimits :: "limits option"
  maxErrorMessageChars :: int
  maxCapabilities :: "nat option"
  allowUniversalResource :: bool

text \<open>The part of \<open>createUCANValidator\<close> that checks and completes the options.\<close>

definition make_options ::
  "options \<Rightarrow> limits_option \<Rightarrow> num_arg option \<Rightarrow> num_arg option \<Rightarrow> string + options" where
  "make_options raw limits maxMessage maxCaps =
    (case resolveProofChainLimits limits of Inl e \<Rightarrow> Inl e
     | Inr l \<Rightarrow> (case positiveInteger (case maxMessage of None \<Rightarrow> IntArg 1024 | Some v \<Rightarrow> v)
                     ''maxErrorMessageChars'' of Inl e \<Rightarrow> Inl e
       | Inr m \<Rightarrow> (case maxCaps of
             None \<Rightarrow> Inr (raw\<lparr>proofChainLimits := l, maxErrorMessageChars := int m, maxCapabilities := None\<rparr>)
           | Some c \<Rightarrow> (case positiveInteger c ''maxCapabilities'' of Inl e \<Rightarrow> Inl e
               | Inr k \<Rightarrow> Inr (raw\<lparr>proofChainLimits := l, maxErrorMessageChars := int m,
                                maxCapabilities := Some k\<rparr>)))))"

subsection \<open>DID resolution\<close>

definition resolveDIDKey :: "'c env \<Rightarrow> nat \<Rightarrow> did \<Rightarrow> message + resolution" where
  "resolveDIDKey E n d =
    (if startsWith d ''did:key:'' then Inr (Keys [d])
     else case env_didResolver E of
       None \<Rightarrow> Inr (ResolutionError (u16 (''Cannot resolve DID: '' @ d)))
     | Some r \<Rightarrow> (case r n d of
           Inl e \<Rightarrow> Inl e
         | Inr (Keys ks) \<Rightarrow>
             if ks \<noteq> [] then
               (let usable = filter (env_parses E) ks
                in if usable \<noteq> [] then Inr (Keys usable)
                   else Inr (ResolutionError (u16 (''No usable Ed25519 key found for '' @ d))))
             else Inr (ResolutionError (u16 (''Cannot resolve DID: '' @ d)))
         | Inr (ResolutionError m) \<Rightarrow> Inr (ResolutionError m)))"

text \<open>The per-validation memo and the number of resolver calls made.\<close>

record memo_state =
  ms_calls :: nat
  ms_memo :: "did \<rightharpoonup> message + resolution"

definition memoizeResolver ::
  "(nat \<Rightarrow> did \<Rightarrow> message + resolution) \<Rightarrow> did \<Rightarrow> memo_state \<Rightarrow> (message + resolution) \<times> memo_state" where
  "memoizeResolver resolve d s =
    (case ms_memo s d of
       Some r \<Rightarrow> (r, s)
     | None \<Rightarrow> (let r = resolve (ms_calls s) d
               in (r, s\<lparr>ms_calls := ms_calls s + 1, ms_memo := (ms_memo s)(d \<mapsto> r)\<rparr>)))"

text \<open>\<open>getServerVerifier\<close>, with the cached verifier passed in; the right value is the key.\<close>

definition getServerVerifier :: "'c env \<Rightarrow> options \<Rightarrow> nat \<Rightarrow> did option \<Rightarrow> message + did" where
  "getServerVerifier E opts n cached =
    (case cached of Some k \<Rightarrow> Inr k
     | None \<Rightarrow>
       let d = serverDid opts in
       if startsWith d ''did:key:'' then
         (if env_parses E d then Inr d else Inl (env_parse_error E d))
       else case env_didResolver E of
         None \<Rightarrow> Inl (u16 (''Cannot use '' @ d @ '' as server DID without a didResolver. ''
           @ ''Provide a didResolver to resolve non-did:key DIDs, or use a did:key directly.''))
       | Some r \<Rightarrow> (case r n d of
             Inl e \<Rightarrow> Inl e
           | Inr (ResolutionError m) \<Rightarrow> Inl (u16 (''Failed to resolve server DID '' @ d @ '': '') @ m)
           | Inr (Keys ks) \<Rightarrow>
               if ks = [] then Inl (u16 (''No keys found for server DID '' @ d
                 @ ''. The DID document must have at least one verification method.''))
               else (case List.find (env_parses E) ks of
                   Some k \<Rightarrow> Inr k
                 | None \<Rightarrow> Inl (u16 (''No valid Ed25519 key found for server DID '' @ d @ '': '')
                     @ env_parse_error E (last ks)))))"

subsection \<open>Signatures of a delegation chain\<close>

text \<open>The loop over the resolved keys: the first that parses and verifies the signature.\<close>

definition signing_key :: "'c env \<Rightarrow> node \<Rightarrow> did list \<Rightarrow> did option" where
  "signing_key E t ks = List.find (\<lambda>k. env_parses E k \<and> env_verifies E t k = Some True) ks"

type_synonym chain_verdict = "message + (error_code \<times> message) option"

fun verifyDelegationChain :: "'c env \<Rightarrow> node \<Rightarrow> memo_state \<Rightarrow> chain_verdict \<times> memo_state"
  and verify_proofs :: "'c env \<Rightarrow> did \<Rightarrow> did \<Rightarrow> node list \<Rightarrow> memo_state \<Rightarrow> chain_verdict \<times> memo_state" where
  "verifyDelegationChain E NonObject s = (Inl (env_type_error E), s)"
| "verifyDelegationChain E (Node n ps) s =
    (case link_issuer n of
       None \<Rightarrow> (Inl (env_type_error E), s)
     | Some issuerDid \<Rightarrow>
       (case memoizeResolver (resolveDIDKey E) issuerDid s of
          (Inl e, s1) \<Rightarrow> (Inl e, s1)
        | (Inr (ResolutionError m), s1) \<Rightarrow>
            (Inr (Some (INVALID_SIGNATURE, u16 (''Cannot resolve issuer DID '' @ issuerDid @ '': '') @ m)), s1)
        | (Inr (Keys ks), s1) \<Rightarrow>
            if ks = [] then (Inr (Some (INVALID_SIGNATURE, u16 (''No keys found for issuer DID '' @ issuerDid))), s1)
            else (case signing_key E (Node n ps) ks of
                None \<Rightarrow> (Inr (Some (INVALID_SIGNATURE,
                  u16 (''Signature verification failed for issuer '' @ issuerDid))), s1)
              | Some didKey \<Rightarrow> verify_proofs E issuerDid didKey ps s1)))"
| "verify_proofs E issuerDid didKey [] s = (Inr None, s)"
| "verify_proofs E issuerDid didKey (p # ps) s =
    (case p of
       NonObject \<Rightarrow> (Inr (Some (UNAUTHORIZED,
         u16 ''Proof chain incomplete: a proof block is not embedded in the token'')), s)
     | Node m qs \<Rightarrow>
       (case link_audience m of
          None \<Rightarrow> (Inr (Some (UNAUTHORIZED,
            u16 ''Proof chain incomplete: a proof block is not embedded in the token'')), s)
        | Some proofAudience \<Rightarrow>
            let continue = (\<lambda>s. case verifyDelegationChain E p s of
                  (Inr None, s') \<Rightarrow> verify_proofs E issuerDid didKey ps s'
                | r \<Rightarrow> r) in
            if proofAudience = issuerDid then continue s
            else (case memoizeResolver (resolveDIDKey E) proofAudience s of
                (Inl e, s1) \<Rightarrow> (Inl e, s1)
              | (Inr (Keys ks), s1) \<Rightarrow>
                  if didKey \<in> set ks then continue s1
                  else (Inr (Some (UNAUTHORIZED, u16 (''Proof chain broken: proof audience '' @ proofAudience
                    @ '' does not match delegation issuer '' @ issuerDid))), s1)
              | (Inr (ResolutionError _), s1) \<Rightarrow>
                  (Inr (Some (UNAUTHORIZED, u16 (''Proof chain broken: proof audience '' @ proofAudience
                    @ '' does not match delegation issuer '' @ issuerDid))), s1))))"

text \<open>What a verified chain is, for one fixed assignment of keys to DIDs.\<close>

fun chain_verified :: "'c env \<Rightarrow> (did \<Rightarrow> did list option) \<Rightarrow> node \<Rightarrow> bool" where
  "chain_verified E keys NonObject \<longleftrightarrow> False"
| "chain_verified E keys (Node n ps) \<longleftrightarrow>
    (\<exists>i ks k. link_issuer n = Some i \<and> keys i = Some ks \<and> signing_key E (Node n ps) ks = Some k
       \<and> (\<forall>p \<in> set ps. \<exists>m qs a. p = Node m qs \<and> link_audience m = Some a
            \<and> (a = i \<or> (\<exists>ks'. keys a = Some ks' \<and> k \<in> set ks'))
            \<and> chain_verified E keys p))"

definition memo_keys :: "memo_state \<Rightarrow> did \<Rightarrow> did list option" where
  "memo_keys s d = (case ms_memo s d of Some (Inr (Keys ks)) \<Rightarrow> Some ks | _ \<Rightarrow> None)"

text \<open>Every remembered answer is one the resolver gave.\<close>

definition memo_ok :: "'c env \<Rightarrow> memo_state \<Rightarrow> bool" where
  "memo_ok E s \<longleftrightarrow> (\<forall>d r. ms_memo s d = Some r \<longrightarrow> (\<exists>n < ms_calls s. r = resolveDIDKey E n d))
     \<and> finite (dom (ms_memo s)) \<and> card (dom (ms_memo s)) = ms_calls s"

lemma memoizeResolver_cases:
  assumes "memoizeResolver (resolveDIDKey E) d s = (r, s')" "memo_ok E s"
  shows "ms_memo s \<subseteq>\<^sub>m ms_memo s' \<and> ms_memo s' d = Some r \<and> memo_ok E s'"
proof (cases "ms_memo s d")
  case None
  with assms(1) have s': "s' = s\<lparr>ms_calls := ms_calls s + 1, ms_memo := (ms_memo s)(d \<mapsto> r)\<rparr>"
    "r = resolveDIDKey E (ms_calls s) d" by (auto simp: memoizeResolver_def Let_def)
  with None assms(2) have "memo_ok E s'"
    by (auto simp: memo_ok_def card_insert_if domIff less_Suc_eq)
  with s' None show ?thesis by (auto simp: map_le_def)
next
  case (Some x)
  with assms show ?thesis by (auto simp: memoizeResolver_def map_le_def)
qed

lemma memo_keys_mono: "ms_memo s \<subseteq>\<^sub>m ms_memo s' \<Longrightarrow> memo_keys s d = Some ks \<Longrightarrow> memo_keys s' d = Some ks"
  by (auto simp: memo_keys_def map_le_def dom_def split: option.splits)

lemma chain_verified_mono:
  "chain_verified E keys t \<Longrightarrow> (\<And>d ks. keys d = Some ks \<Longrightarrow> keys' d = Some ks) \<Longrightarrow> chain_verified E keys' t"
proof (induction E keys t rule: chain_verified.induct)
  case (2 E keys n ps)
  from "2.prems"(1) obtain i ks k where k: "link_issuer n = Some i" "keys i = Some ks"
    "signing_key E (Node n ps) ks = Some k" and
    p: "\<And>p. p \<in> set ps \<Longrightarrow> \<exists>m qs a. p = Node m qs \<and> link_audience m = Some a
      \<and> (a = i \<or> (\<exists>ks'. keys a = Some ks' \<and> k \<in> set ks')) \<and> chain_verified E keys p"
    by auto
  have "\<exists>m qs a. p = Node m qs \<and> link_audience m = Some a
      \<and> (a = i \<or> (\<exists>ks'. keys' a = Some ks' \<and> k \<in> set ks')) \<and> chain_verified E keys' p"
    if "p \<in> set ps" for p
    using p [OF that] "2.IH" [OF that] "2.prems"(2) by blast
  with k "2.prems"(2) show ?case unfolding chain_verified.simps by blast
qed simp

lemma verify_sound:
  "verifyDelegationChain E t s = (r, s') \<Longrightarrow> memo_ok E s \<Longrightarrow>
     ms_memo s \<subseteq>\<^sub>m ms_memo s' \<and> memo_ok E s' \<and> (r = Inr None \<longrightarrow> chain_verified E (memo_keys s') t)"
  "verify_proofs E i k ps s = (r, s') \<Longrightarrow> memo_ok E s \<Longrightarrow>
     ms_memo s \<subseteq>\<^sub>m ms_memo s' \<and> memo_ok E s' \<and> (r = Inr None \<longrightarrow>
       (\<forall>p \<in> set ps. \<exists>m qs a. p = Node m qs \<and> link_audience m = Some a
          \<and> (a = i \<or> (\<exists>ks'. memo_keys s' a = Some ks' \<and> k \<in> set ks'))
          \<and> chain_verified E (memo_keys s') p))"
proof (induction E t s and E i k ps s arbitrary: r s' and r s' rule: verifyDelegationChain_verify_proofs.induct)
  case (2 E n ps s)
  show ?case
  proof (cases "link_issuer n")
    case (Some i)
    obtain x s1 where m: "memoizeResolver (resolveDIDKey E) i s = (x, s1)" by fastforce
    note mc = memoizeResolver_cases [OF m "2.prems"(2)]
    show ?thesis
    proof (cases "\<exists>ks k. x = Inr (Keys ks) \<and> ks \<noteq> [] \<and> signing_key E (Node n ps) ks = Some k")
      case True
      then obtain ks k where x: "x = Inr (Keys ks)" "ks \<noteq> []" "signing_key E (Node n ps) ks = Some k" by blast
      with "2.prems"(1) Some m have v: "verify_proofs E i k ps s1 = (r, s')" by simp
      have ih: "ms_memo s1 \<subseteq>\<^sub>m ms_memo s' \<and> memo_ok E s' \<and> (r = Inr None \<longrightarrow>
         (\<forall>p \<in> set ps. \<exists>m qs a. p = Node m qs \<and> link_audience m = Some a
          \<and> (a = i \<or> (\<exists>ks'. memo_keys s' a = Some ks' \<and> k \<in> set ks'))
          \<and> chain_verified E (memo_keys s') p))"
        using "2.IH" Some m x v mc by auto
      have "memo_keys s1 i = Some ks" using mc x(1) by (simp add: memo_keys_def)
      with ih have "memo_keys s' i = Some ks" using memo_keys_mono by blast
      with ih mc Some x(3) show ?thesis by (auto intro: map_le_trans)
    next
      case False
      then have "s' = s1 \<and> r \<noteq> Inr None"
        using "2.prems"(1) Some m
        by (auto split: sum.splits resolution.splits option.splits if_splits)
      with mc show ?thesis by blast
    qed
  qed (use "2.prems" in auto)
next
  case (4 E i k p ps s)
  show ?case
  proof (cases "\<exists>m qs a. p = Node m qs \<and> link_audience m = Some a")
    case False
    with "4.prems" show ?thesis by (cases p) (auto split: option.splits)
  next
    case True
    then obtain m qs a where p: "p = Node m qs" "link_audience m = Some a" by blast
    have rest: ?thesis
      if c: "(case verifyDelegationChain E p s1 of (Inr None, s') \<Rightarrow> verify_proofs E i k ps s' | r \<Rightarrow> r) = (r, s')"
        and s1: "ms_memo s \<subseteq>\<^sub>m ms_memo s1" "memo_ok E s1"
        and aud: "a = i \<or> (\<exists>ks'. memo_keys s1 a = Some ks' \<and> k \<in> set ks')" for s1
    proof -
      obtain x s2 where v: "verifyDelegationChain E p s1 = (x, s2)" by fastforce
      note i1 = "4.IH"(1) [OF p v s1(2)]
      show ?thesis
      proof (cases "x = Inr None")
        case True
        with c v have v2: "verify_proofs E i k ps s2 = (r, s')" by simp
        from i1 have ok2: "memo_ok E s2" by blast
        note "4.IH"(2) [OF p v [unfolded True, symmetric] refl refl v2 ok2]
        then
        have i2: "ms_memo s2 \<subseteq>\<^sub>m ms_memo s'" "memo_ok E s'"
          "r = Inr None \<Longrightarrow> (\<forall>p \<in> set ps. \<exists>m qs a. p = Node m qs \<and> link_audience m = Some a
                \<and> (a = i \<or> (\<exists>ks'. memo_keys s' a = Some ks' \<and> k \<in> set ks'))
                \<and> chain_verified E (memo_keys s') p)" by blast+
        have le: "ms_memo s1 \<subseteq>\<^sub>m ms_memo s'" using i1 i2(1) map_le_trans by blast
        have "chain_verified E (memo_keys s') p"
          using i1 True i2(1) memo_keys_mono chain_verified_mono by metis
        moreover have "a = i \<or> (\<exists>ks'. memo_keys s' a = Some ks' \<and> k \<in> set ks')"
          using aud memo_keys_mono [OF le] by blast
        ultimately show ?thesis using i2 le s1(1) p map_le_trans by auto
      next
        case False
        with c v have "r = x \<and> s' = s2" by (auto split: sum.splits option.splits)
        with i1 s1(1) False map_le_trans show ?thesis by blast
      qed
    qed
    show ?thesis
    proof (cases "a = i")
      case True
      show ?thesis
      proof (rule rest [of s])
        show "(case verifyDelegationChain E p s of (Inr None, s') \<Rightarrow> verify_proofs E i k ps s' | r \<Rightarrow> r) = (r, s')"
          using "4.prems"(1) p True by simp
      qed (use "4.prems"(2) True in auto)
    next
      case False
      obtain x s1 where m: "memoizeResolver (resolveDIDKey E) a s = (x, s1)" by fastforce
      note mc = memoizeResolver_cases [OF m "4.prems"(2)]
      show ?thesis
      proof (cases "\<exists>ks. x = Inr (Keys ks) \<and> k \<in> set ks")
        case True
        then obtain ks where x: "x = Inr (Keys ks)" "k \<in> set ks" by blast
        show ?thesis
        proof (rule rest [of s1])
          show "(case verifyDelegationChain E p s1 of (Inr None, s') \<Rightarrow> verify_proofs E i k ps s' | r \<Rightarrow> r) = (r, s')"
            using "4.prems"(1) p False m x by simp
          show "a = i \<or> (\<exists>ks'. memo_keys s1 a = Some ks' \<and> k \<in> set ks')"
            using mc x by (simp add: memo_keys_def)
        qed (use mc in auto)
      next
        case nk: False
        then have "s' = s1 \<and> r \<noteq> Inr None"
          using "4.prems"(1) p False m
          by (auto simp: Let_def split: sum.splits resolution.splits if_splits)
        with mc show ?thesis by blast
      qed
    qed
  qed
qed auto

text \<open>A resolver whose answer does not depend on when it is asked.\<close>

definition stable_keys :: "'c env \<Rightarrow> did \<Rightarrow> did list option" where
  "stable_keys E d = (case resolveDIDKey E 0 d of Inr (Keys ks) \<Rightarrow> Some ks | _ \<Rightarrow> None)"

lemma memoizeResolver_stable:
  assumes "\<And>n d. resolveDIDKey E n d = resolveDIDKey E 0 d" "memo_ok E s"
  obtains s' where "memoizeResolver (resolveDIDKey E) d s = (resolveDIDKey E 0 d, s')" "memo_ok E s'"
proof -
  obtain r s' where m: "memoizeResolver (resolveDIDKey E) d s = (r, s')" by fastforce
  with memoizeResolver_cases [OF m assms(2)] have "ms_memo s' d = Some r" "memo_ok E s'" by auto
  then have "r = resolveDIDKey E 0 d" using assms(1) unfolding memo_ok_def by metis
  with m \<open>memo_ok E s'\<close> that show thesis by blast
qed

lemma stable_keys_Some: "stable_keys E d = Some ks \<longleftrightarrow> resolveDIDKey E 0 d = Inr (Keys ks)"
  by (auto simp: stable_keys_def split: sum.splits resolution.splits)

lemma signing_key_nonempty: "signing_key E t ks = Some k \<Longrightarrow> ks \<noteq> []"
  by (auto simp: signing_key_def)

lemma verify_complete:
  "(\<And>n d. resolveDIDKey E n d = resolveDIDKey E 0 d) \<Longrightarrow> memo_ok E s \<Longrightarrow>
     chain_verified E (stable_keys E) t \<Longrightarrow>
     fst (verifyDelegationChain E t s) = Inr None \<and> memo_ok E (snd (verifyDelegationChain E t s))"
  "(\<And>n d. resolveDIDKey E n d = resolveDIDKey E 0 d) \<Longrightarrow> memo_ok E s \<Longrightarrow>
     \<forall>p \<in> set ps. \<exists>m qs a. p = Node m qs \<and> link_audience m = Some a
          \<and> (a = i \<or> (\<exists>ks'. stable_keys E a = Some ks' \<and> k \<in> set ks'))
          \<and> chain_verified E (stable_keys E) p \<Longrightarrow>
     fst (verify_proofs E i k ps s) = Inr None \<and> memo_ok E (snd (verify_proofs E i k ps s))"
proof (induction E t s and E i k ps s rule: verifyDelegationChain_verify_proofs.induct)
  case (2 E n ps s)
  from "2.prems"(3) obtain i ks k where k: "link_issuer n = Some i" "resolveDIDKey E 0 i = Inr (Keys ks)"
    "signing_key E (Node n ps) ks = Some k" and
    p: "\<forall>p \<in> set ps. \<exists>m qs a. p = Node m qs \<and> link_audience m = Some a
      \<and> (a = i \<or> (\<exists>ks'. stable_keys E a = Some ks' \<and> k \<in> set ks')) \<and> chain_verified E (stable_keys E) p"
    by (auto simp: stable_keys_Some)
  from memoizeResolver_stable [OF "2.prems"(1,2), of i] obtain s1
    where m: "memoizeResolver (resolveDIDKey E) i s = (resolveDIDKey E 0 i, s1)" "memo_ok E s1" by blast
  have "fst (verify_proofs E i k ps s1) = Inr None \<and> memo_ok E (snd (verify_proofs E i k ps s1))"
    using "2.IH" k m p "2.prems"(1) signing_key_nonempty [OF k(3)] by auto
  then show ?case using k m signing_key_nonempty [OF k(3)] by simp
next
  case (4 E i k p ps s)
  from "4.prems"(3) obtain m qs a where p: "p = Node m qs" "link_audience m = Some a"
    "chain_verified E (stable_keys E) p" and
    aud: "a = i \<or> (\<exists>ks'. stable_keys E a = Some ks' \<and> k \<in> set ks')" by auto
  have rest: "fst (case verifyDelegationChain E p s1 of (Inr None, s') \<Rightarrow> verify_proofs E i k ps s' | r \<Rightarrow> r) = Inr None
     \<and> memo_ok E (snd (case verifyDelegationChain E p s1 of (Inr None, s') \<Rightarrow> verify_proofs E i k ps s' | r \<Rightarrow> r))"
    if "memo_ok E s1" for s1
  proof -
    obtain x s2 where v: "verifyDelegationChain E p s1 = (x, s2)" by fastforce
    from "4.IH"(1) [OF p(1,2) "4.prems"(1) that p(3)] v have x: "x = Inr None" "memo_ok E s2" by auto
    note "4.IH"(2) [OF p(1,2) v [unfolded x, symmetric] refl refl "4.prems"(1) x(2)]
    with v x "4.prems"(3) show ?thesis by simp
  qed
  show ?case
  proof (cases "a = i")
    case True
    with rest [OF "4.prems"(2)] p show ?thesis by (simp add: Let_def)
  next
    case False
    with aud obtain ks where ks: "resolveDIDKey E 0 a = Inr (Keys ks)" "k \<in> set ks"
      by (auto simp: stable_keys_Some)
    from memoizeResolver_stable [OF "4.prems"(1,2), of a] obtain s1
      where m: "memoizeResolver (resolveDIDKey E) a s = (resolveDIDKey E 0 a, s1)" "memo_ok E s1" by blast
    with rest [OF m(2)] p False ks show ?thesis by (simp add: Let_def)
  qed
qed auto

definition fresh_memo :: memo_state where
  "fresh_memo = \<lparr>ms_calls = 0, ms_memo = Map.empty\<rparr>"

lemma fresh_memo_ok [simp]: "memo_ok E fresh_memo"
  by (simp add: memo_ok_def fresh_memo_def)

text \<open>
  C17. When the recursive check accepts a delegation, every link of its proof tree is signed by a
  key of its issuer, and every proof is addressed to its parent's issuer or to a DID publishing
  the very key the parent was verified with, under ONE assignment of keys to DIDs: each DID is
  resolved at most once, so a resolver that changes its answer cannot split the chain.
\<close>

theorem verifyDelegationChain_sound:
  assumes "verifyDelegationChain E t fresh_memo = (Inr None, s')"
  shows "\<exists>keys. chain_verified E keys t
    \<and> (\<forall>d ks. keys d = Some ks \<longrightarrow> (\<exists>n < ms_calls s'. resolveDIDKey E n d = Inr (Keys ks)))
    \<and> card (dom (ms_memo s')) = ms_calls s'"
proof (intro exI conjI)
  note v = verify_sound(1) [OF assms fresh_memo_ok]
  then show "chain_verified E (memo_keys s') t" by simp
  from v show "card (dom (ms_memo s')) = ms_calls s'" by (simp add: memo_ok_def)
  show "\<forall>d ks. memo_keys s' d = Some ks \<longrightarrow> (\<exists>n < ms_calls s'. resolveDIDKey E n d = Inr (Keys ks))"
    using v unfolding memo_ok_def memo_keys_def
    by (auto split: option.splits sum.splits resolution.splits) metis
qed

text \<open>
  C18. With a resolver that answers consistently the check is also complete: it accepts exactly
  the proof trees that are verified under the resolver's keys.
\<close>

theorem verifyDelegationChain_iff:
  assumes "\<And>n d. resolveDIDKey E n d = resolveDIDKey E 0 d"
  shows "fst (verifyDelegationChain E t fresh_memo) = Inr None \<longleftrightarrow> chain_verified E (stable_keys E) t"
proof
  assume "fst (verifyDelegationChain E t fresh_memo) = Inr None"
  then obtain s' where v: "verifyDelegationChain E t fresh_memo = (Inr None, s')"
    by (metis prod.collapse)
  note vs = verify_sound(1) [OF v fresh_memo_ok]
  show "chain_verified E (stable_keys E) t"
  proof (rule chain_verified_mono)
    show "chain_verified E (memo_keys s') t" using vs by simp
    show "stable_keys E d = Some ks" if "memo_keys s' d = Some ks" for d ks
    proof -
      from that have "ms_memo s' d = Some (Inr (Keys ks))"
        by (auto simp: memo_keys_def split: option.splits sum.splits resolution.splits)
      with vs assms show ?thesis unfolding memo_ok_def stable_keys_Some by metis
    qed
  qed
next
  assume "chain_verified E (stable_keys E) t"
  from verify_complete(1) [OF assms fresh_memo_ok this]
  show "fst (verifyDelegationChain E t fresh_memo) = Inr None" by simp
qed

subsection \<open>A concrete deployment\<close>

text \<open>
  A resolver publishing one key for \<open>did:ixo:a\<close>, signatures that verify with \<open>did:key:A\<close> only, a
  \<open>claim\<close> that authorises self-issued tokens, and one token: \<open>did:key:A\<close> acts on a grant of
  \<open>did:ixo:a\<close>, its own identity.
\<close>

definition sample_claim :: "node \<Rightarrow> (uri \<Rightarrow> did \<Rightarrow> bool) \<Rightarrow> claim_result" where
  "sample_claim t pol =
    (case t of
       Node n [] \<Rightarrow> (case (link_issuer n, link_capabilities n) of
           (Some i, CapRecord c # _) \<Rightarrow>
             if pol (with_uri c) i then ClaimOk (Authorization i c n []) else ClaimError None
         | _ \<Rightarrow> ClaimError None)
     | _ \<Rightarrow> ClaimError None)"

definition sample_self :: node where
  "sample_self = Node (sample_link ''c9'' ''did:key:A'' ''did:key:S''
     [CapRecord \<lparr>can = ''fs/read'', with_uri = ''ixo:did:key:A/x'', nb = []\<rparr>]) []"

definition sample_env :: "unit env" where
  "sample_env = \<lparr>env_parses = \<lambda>d. startsWith d ''did:key:'', env_parse_error = \<lambda>_. [],
     env_verifies = \<lambda>t k. Some (k = ''did:key:A''),
     env_didResolver = Some (\<lambda>n d. if d = ''did:ixo:a'' then Inr (Keys [''did:key:A''])
       else Inr (ResolutionError [])),
     env_claim = \<lambda>_ t _ _ pol. sample_claim t pol,
     env_extract = \<lambda>s. if s = ''self'' then Extracted sample_self else ExtractError None,
     env_checker = None, env_url_href = \<lambda>_. None, env_type_error = [], env_range_error = [],
     env_iso_date = \<lambda>_. []\<rparr>"

definition sample_delegation :: node where
  "sample_delegation = Node (sample_link ''c5'' ''did:key:A'' ''did:key:S'' [])
     [Node (sample_link ''c6'' ''did:ixo:a'' ''did:ixo:a'' []) []]"

lemma sample_verified:
  "fst (verifyDelegationChain sample_env sample_delegation fresh_memo) = Inr None"
  by code_simp

theorem verifyDelegationChain_sound_witness:
  "\<exists>keys. chain_verified sample_env keys sample_delegation"
proof -
  obtain s' where "verifyDelegationChain sample_env sample_delegation fresh_memo = (Inr None, s')"
    using sample_verified by (metis prod.collapse)
  from verifyDelegationChain_sound [OF this] show ?thesis by blast
qed

theorem verifyDelegationChain_iff_witness:
  "chain_verified sample_env (stable_keys sample_env) sample_delegation"
proof -
  have "resolveDIDKey sample_env n d = resolveDIDKey sample_env 0 d" for n d
    by (simp add: resolveDIDKey_def sample_env_def)
  from verifyDelegationChain_iff [OF this] sample_verified show ?thesis by blast
qed

end
