(* ===== verification/Ucan_Authorize.thy ===== *)
theory Ucan_Authorize imports Ucan_Validator begin

text \<open>
  The decisions of \<open>createUCANValidator\<close>: revocation (\<open>checkRevoked\<close>), the structural rules, the
  authorisation of an invocation through ucanto's \<open>claim\<close>, and the two entry points with their
  guards in the order of the code.
\<close>

subsection \<open>Revocation and structure\<close>

definition checkRevoked :: "'c env \<Rightarrow> options \<Rightarrow> cid list \<Rightarrow> (error_code \<times> message) option" where
  "checkRevoked E opts cids =
    (case env_checker E of
       None \<Rightarrow> None
     | Some check \<Rightarrow>
       if cids = [] then None
       else (case check cids of
           Inl m \<Rightarrow> if revocationOpen opts then None
             else Some (REVOCATION_CHECK_FAILED, u16 ''Could not determine revocation status: '' @ m)
         | Inr revoked \<Rightarrow>
             (case List.find (\<lambda>c. c \<in> set cids) revoked of
                Some hit \<Rightarrow> Some (REVOKED, u16 (''Delegation '' @ hit @ '' has been revoked''))
              | None \<Rightarrow> None)))"

definition structuralError :: "options \<Rightarrow> node \<Rightarrow> (error_code \<times> message) option" where
  "structuralError opts token =
    (case (case proofChainLimits opts of None \<Rightarrow> None | Some l \<Rightarrow> proofChainShapeError token l) of
       Some r \<Rightarrow> Some (INVALID_FORMAT, u16 (reason_text r))
     | None \<Rightarrow>
       if \<not> allowUniversalResource opts \<and> chainUsesUniversalResource token
       then Some (UNAUTHORIZED, u16 (''A capability on the universal resource '' @ UNIVERSAL_RESOURCE
         @ '' is not accepted by this validator''))
       else None)"

text \<open>What the checker's answer says about the CIDs asked for.\<close>

definition not_revoked :: "'c env \<Rightarrow> options \<Rightarrow> cid list \<Rightarrow> bool" where
  "not_revoked E opts cids \<longleftrightarrow> (case env_checker E of None \<Rightarrow> True
     | Some check \<Rightarrow> cids = [] \<or> (case check cids of
           Inl m \<Rightarrow> revocationOpen opts | Inr revoked \<Rightarrow> set revoked \<inter> set cids = {}))"

lemma find_hit: "List.find (\<lambda>c. c \<in> set cids) revoked = None \<longleftrightarrow> set revoked \<inter> set cids = {}"
  by (auto simp: find_None_iff)

lemma checkRevoked_None: "checkRevoked E opts cids = None \<longleftrightarrow> not_revoked E opts cids"
proof -
  have "(case x of None \<Rightarrow> None | Some h \<Rightarrow> Some (f h)) = None \<longleftrightarrow> x = None"
    for x and f :: "cid \<Rightarrow> error_code \<times> message" by (cases x) auto
  then show ?thesis
    by (simp add: checkRevoked_def not_revoked_def find_hit split: option.split sum.split)
qed

text \<open>
  Revocation fails closed: the check passes only when no checker is configured, nothing is
  to be checked, or the checker answered without naming any CID it was asked about; when it could
  not answer, only the policy 'open' lets the token through, and a verdict about a CID nobody asked
  for never rejects.
\<close>

theorem checkRevoked_fail_closed:
  "(checkRevoked E opts cids = None) =
     (env_checker E = None \<or> cids = []
      \<or> (\<exists>check. env_checker E = Some check
          \<and> ((\<exists>m. check cids = Inl m) \<and> revocationOpen opts
             \<or> (\<exists>revoked. check cids = Inr revoked \<and> set revoked \<inter> set cids = {}))))"
  by (auto simp: checkRevoked_None not_revoked_def split: option.splits sum.splits)

subsection \<open>Authorisation\<close>

record expect_opts =
  ex_can :: "string option"
  ex_with :: "uri option"

definition canonicalResource :: "'c env \<Rightarrow> uri \<Rightarrow> uri" where
  "canonicalResource E v = (case env_url_href E v of None \<Rightarrow> v | Some h \<Rightarrow> h)"

text \<open>The policy handed to \<open>claim\<close>.\<close>

definition canIssue :: "options \<Rightarrow> did option \<Rightarrow> uri \<Rightarrow> did \<Rightarrow> bool" where
  "canIssue opts structuralRoot with issuer =
    (if issuer \<in> set (rootIssuers opts) then True
     else if resourceNamesIssuer with issuer then True
     else if ''*'' \<in> set (rootIssuers opts) \<and> structuralRoot = Some issuer then True
     else False)"

definition structural_root :: "options \<Rightarrow> node \<Rightarrow> did option" where
  "structural_root opts tok =
    (if ''*'' \<in> set (rootIssuers opts)
     then (case buildProofChain tok of Some (r # _) \<Rightarrow> Some r | _ \<Rightarrow> None) else None)"

definition is_caveat_error :: "message \<Rightarrow> bool" where
  "is_caveat_error m \<longleftrightarrow> js_includes m (u16 ''limit'') \<or> js_includes m (u16 ''caveat'')
     \<or> js_includes m (u16 ''exceeds'') \<or> js_includes m (u16 ''violates'')"

definition wildcard_match :: "uri \<Rightarrow> uri \<Rightarrow> bool" where
  "wildcard_match authorizedWith resource \<longleftrightarrow>
     endsWith authorizedWith ''/*'' \<and> startsWith resource (butlast authorizedWith)
     \<or> endsWith authorizedWith '':*'' \<and> startsWith resource (butlast authorizedWith)"

definition expect_failed :: "'c env \<Rightarrow> expect_opts \<Rightarrow> cap \<Rightarrow> bool" where
  "expect_failed E ex c \<longleftrightarrow>
     (case ex_can ex of None \<Rightarrow> False | Some e \<Rightarrow> can c \<noteq> e)
     \<or> (case ex_with ex of None \<Rightarrow> False | Some w \<Rightarrow> with_uri c \<noteq> canonicalResource E w)"

definition any_or :: "string option \<Rightarrow> string" where
  "any_or o' = (case o' of None \<Rightarrow> ''(any)'' | Some s \<Rightarrow> s)"

definition some_facts :: "string list \<Rightarrow> string list option" where
  "some_facts fs = (if fs = [] then None else Some fs)"

text \<open>Steps 7 to 11: what is made of ucanto's authorization.\<close>

definition accept_authorization ::
  "'c env \<Rightarrow> options \<Rightarrow> uri \<Rightarrow> expect_opts \<Rightarrow> link \<Rightarrow> did \<Rightarrow> authorization \<Rightarrow> vresult" where
  "accept_authorization E opts resource ex tok invoker a =
    (let c = auth_capability a in
     if with_uri c \<noteq> resource \<and> \<not> wildcard_match (with_uri c) resource
     then Invalid UNAUTHORIZED (u16 (''Resource '' @ with_uri c @ '' does not match '' @ resource))
     else if expect_failed E ex c
     then Invalid UNAUTHORIZED (u16 (''Authorised capability {can: '' @ can c @ '', with: '' @ with_uri c
       @ ''} is not the expected {can: '' @ any_or (ex_can ex) @ '', with: '' @ any_or (ex_with ex) @ ''}''))
     else
       (let expiration = tb_expiration (chainTimeBounds (auth_tree a));
            cids = verifiedProofChainCids a in
        if requireExpiration opts \<and> expiration = None
        then Invalid UNAUTHORIZED
          (u16 ''Invocation has no expiration; this validator requires a bounded expiry'')
        else (case checkRevoked E opts cids of
            Some (code, m) \<Rightarrow> Invalid code m
          | None \<Rightarrow> Valid \<lparr>vi_invoker = invoker, vi_capability = Some c, vi_expiration = expiration,
              vi_proofChain = Some (verifiedProofChain a), vi_proofChainCids = cids,
              vi_facts = some_facts (link_facts tok)\<rparr>)))"

text \<open>
  \<open>authorizeInvocation\<close>; the verifier cached by an earlier call comes in, the one to cache goes out.
\<close>

definition authorizeInvocation ::
  "'c env \<Rightarrow> options \<Rightarrow> nat \<Rightarrow> did option \<Rightarrow> 'c \<Rightarrow> uri \<Rightarrow> expect_opts \<Rightarrow> link \<Rightarrow> node list
    \<Rightarrow> (message + vresult) \<times> did option" where
  "authorizeInvocation E opts n cached capabilityDef resource ex tok ps =
    (case getServerVerifier E opts n cached of
       Inl e \<Rightarrow> (Inl e, cached)
     | Inr key \<Rightarrow>
       (case env_claim E capabilityDef (Node tok ps) key (resolveDIDKey E)
               (canIssue opts (structural_root opts (Node tok ps))) of
          ClaimThrows m \<Rightarrow> (Inl m, Some key)
        | ClaimError m' \<Rightarrow>
            (let m = (case m' of None \<Rightarrow> u16 ''Authorization failed'' | Some t \<Rightarrow> t)
             in (Inr (Invalid (if is_caveat_error m then CAVEAT_VIOLATION else UNAUTHORIZED) m), Some key))
        | ClaimOk a \<Rightarrow>
            (case link_issuer tok of
               None \<Rightarrow> (Inl (env_type_error E), Some key)
             | Some i \<Rightarrow> (Inr (accept_authorization E opts resource ex tok i a), Some key))))"

subsection \<open>Invocations\<close>

text \<open>The validator's own state: the replay store and the cached verifier.\<close>

record server =
  sv_store :: inv_store
  sv_verifier :: "did option"

fun time_option :: "time_field \<Rightarrow> int option" where
  "time_option (At e) = Some e"
| "time_option _ = None"

text \<open>
  \<open>now\<close> is the clock when the CID is reserved, \<open>n\<close> the number of resolver calls made before. The catch-all turns any exception into
  \<open>INVALID_FORMAT\<close>; the \<open>finally\<close> drops the reservation unless the result is a success.
\<close>

definition validateInvocation ::
  "'c env \<Rightarrow> options \<Rightarrow> nat \<Rightarrow> int \<Rightarrow> string \<Rightarrow> 'c \<Rightarrow> uri \<Rightarrow> expect_opts \<Rightarrow> server \<Rightarrow> vresult \<times> server" where
  "validateInvocation E opts n now base64 capabilityDef resource ex S =
    (case env_extract E base64 of
       ExtractThrows m \<Rightarrow> (Invalid INVALID_FORMAT m, S)
     | ExtractError m \<Rightarrow> (Invalid INVALID_FORMAT (u16 ''Failed to decode: ''
         @ (case m of None \<Rightarrow> u16 ''unknown'' | Some t \<Rightarrow> t)), S)
     | Extracted NonObject \<Rightarrow> (Invalid INVALID_FORMAT (u16 ''Invocation missing issuer or audience''), S)
     | Extracted (Node tok ps) \<Rightarrow>
       (case (link_issuer tok, link_audience tok) of
          (Some _, Some audienceDid) \<Rightarrow>
            if audienceDid \<noteq> serverDid opts
            then (Invalid UNAUTHORIZED (u16 (''Invocation addressed to '' @ audienceDid @ '', not '' @ serverDid opts)), S)
            else if (case maxCapabilities opts of None \<Rightarrow> False | Some k \<Rightarrow> length (link_capabilities tok) > k)
            then (Invalid INVALID_FORMAT (u16 (''Invocation carries '' @ dec (length (link_capabilities tok))
                   @ '' capabilities; this validator accepts at most '' @ dec (the (maxCapabilities opts)))), S)
            else (case structuralError opts (Node tok ps) of
                Some (code, m) \<Rightarrow> (Invalid code m, S)
              | None \<Rightarrow>
                (case (case link_cid tok of
                         None \<Rightarrow> (True, sv_store S)
                       | Some c \<Rightarrow> addIfAbsent c (replayMarkTtlMs (time_option (link_expiration tok)) now) now (sv_store S)) of
                   (False, st) \<Rightarrow> (Invalid REPLAY (u16 ''Invocation has already been used''), S\<lparr>sv_store := st\<rparr>)
                 | (True, st) \<Rightarrow>
                   (let (r, v) = authorizeInvocation E opts n (sv_verifier S) capabilityDef resource ex tok ps;
                        released = (case link_cid tok of None \<Rightarrow> st | Some c \<Rightarrow> delete_mark c st);
                        S' = S\<lparr>sv_verifier := v\<rparr> in
                    case r of
                      Inl m \<Rightarrow> (Invalid INVALID_FORMAT m, S'\<lparr>sv_store := released\<rparr>)
                    | Inr (Invalid code m) \<Rightarrow> (Invalid code m, S'\<lparr>sv_store := released\<rparr>)
                    | Inr (Valid info) \<Rightarrow> (Valid info, S'\<lparr>sv_store := st\<rparr>))))
        | _ \<Rightarrow> (Invalid INVALID_FORMAT (u16 ''Invocation missing issuer or audience''), S)))"

definition clipped :: "options \<Rightarrow> vresult \<Rightarrow> vresult" where
  "clipped opts r = (case r of Valid i \<Rightarrow> Valid i
     | Invalid code m \<Rightarrow> if int (length m) \<le> maxErrorMessageChars opts then Invalid code m
         else Invalid code (clipMessage m (maxErrorMessageChars opts)))"

definition validate ::
  "'c env \<Rightarrow> options \<Rightarrow> nat \<Rightarrow> int \<Rightarrow> string \<Rightarrow> 'c \<Rightarrow> uri \<Rightarrow> expect_opts \<Rightarrow> server \<Rightarrow> vresult \<times> server" where
  "validate E opts n now base64 capabilityDef resource ex S =
    (let (r, S') = validateInvocation E opts n now base64 capabilityDef resource ex S in (clipped opts r, S'))"

subsection \<open>Delegations\<close>

text \<open>\<open>new Date(s * 1000).toISOString()\<close>, which throws outside the range of a \<open>Date\<close>.\<close>

definition iso_date :: "'c env \<Rightarrow> int \<Rightarrow> message + message" where
  "iso_date E secs = (if \<bar>secs * 1000\<bar> > 8640000000000000 then Inl (env_range_error E) else Inr (env_iso_date E secs))"

fun first_capability :: "cap_entry list \<Rightarrow> cap option" where
  "first_capability (CapRecord c # _) = Some c"
| "first_capability _ = None"

definition validateDelegationToken :: "'c env \<Rightarrow> options \<Rightarrow> int \<Rightarrow> string \<Rightarrow> vresult" where
  "validateDelegationToken E opts now base64 =
    (case env_extract E base64 of
       ExtractThrows m \<Rightarrow> Invalid INVALID_FORMAT m
     | ExtractError m \<Rightarrow> Invalid INVALID_FORMAT (u16 ''Failed to decode: ''
         @ (case m of None \<Rightarrow> u16 ''unknown'' | Some t \<Rightarrow> t))
     | Extracted NonObject \<Rightarrow> Invalid INVALID_FORMAT (u16 ''Delegation missing issuer or audience'')
     | Extracted (Node del ps) \<Rightarrow>
       (case (link_issuer del, link_audience del) of
          (Some issuer, Some audienceDid) \<Rightarrow>
            if audienceDid \<noteq> serverDid opts
            then Invalid UNAUTHORIZED (u16 (''Delegation addressed to '' @ audienceDid @ '', not '' @ serverDid opts))
            else (case structuralError opts (Node del ps) of
                Some (code, m) \<Rightarrow> Invalid code m
              | None \<Rightarrow>
                (let bounds = chainTimeBounds (Node del ps);
                     expiration = tb_expiration bounds;
                     notBefore = tb_notBefore bounds;
                     nowSeconds = now div 1000 in
                 if (case expiration of None \<Rightarrow> False | Some e \<Rightarrow> e < nowSeconds)
                 then (case iso_date E (the expiration) of Inl m \<Rightarrow> Invalid INVALID_FORMAT m
                     | Inr t \<Rightarrow> Invalid EXPIRED (u16 ''Delegation expired at '' @ t))
                 else if (case notBefore of None \<Rightarrow> False | Some b \<Rightarrow> b > nowSeconds)
                 then (case iso_date E (the notBefore) of Inl m \<Rightarrow> Invalid INVALID_FORMAT m
                     | Inr t \<Rightarrow> Invalid UNAUTHORIZED (u16 ''Delegation is not valid before '' @ t))
                 else if requireExpiration opts \<and> expiration = None
                 then Invalid UNAUTHORIZED
                   (u16 ''Delegation has no expiration; this validator requires a bounded expiry'')
                 else (case fst (verifyDelegationChain E (Node del ps) fresh_memo) of
                     Inl m \<Rightarrow> Invalid INVALID_FORMAT m
                   | Inr (Some (code, m)) \<Rightarrow> Invalid code m
                   | Inr None \<Rightarrow>
                     (let cids = delegationChainCids (Node del ps) in
                      case checkRevoked E opts cids of
                        Some (code, m) \<Rightarrow> Invalid code m
                      | None \<Rightarrow> Valid \<lparr>vi_invoker = issuer,
                          vi_capability = first_capability (link_capabilities del),
                          vi_expiration = expiration,
                          vi_proofChain = buildProofChain (Node del ps),
                          vi_proofChainCids = cids,
                          vi_facts = some_facts (link_facts del)\<rparr>))))
        | _ \<Rightarrow> Invalid INVALID_FORMAT (u16 ''Delegation missing issuer or audience'')))"

definition validateDelegation :: "'c env \<Rightarrow> options \<Rightarrow> int \<Rightarrow> string \<Rightarrow> vresult" where
  "validateDelegation E opts now base64 = clipped opts (validateDelegationToken E opts now base64)"

subsection \<open>What an accepted token satisfies\<close>

lemma clipped_Valid: "clipped opts r = Valid i \<longleftrightarrow> r = Valid i"
  by (auto simp: clipped_def split: vresult.splits if_splits)

lemma wildcard_grants: "w = r \<or> wildcard_match w r \<longleftrightarrow> r \<in> grants w"
  by (auto simp: wildcard_match_def grants_def is_wildcard_def)

lemma accept_authorization_Valid:
  "accept_authorization E opts resource ex tok i a = Valid info \<longleftrightarrow>
     resource \<in> grants (with_uri (auth_capability a))
     \<and> \<not> expect_failed E ex (auth_capability a)
     \<and> (requireExpiration opts \<longrightarrow> tb_expiration (chainTimeBounds (auth_tree a)) \<noteq> None)
     \<and> not_revoked E opts (verifiedProofChainCids a)
     \<and> info = \<lparr>vi_invoker = i, vi_capability = Some (auth_capability a),
         vi_expiration = tb_expiration (chainTimeBounds (auth_tree a)),
         vi_proofChain = Some (verifiedProofChain a), vi_proofChainCids = verifiedProofChainCids a,
         vi_facts = some_facts (link_facts tok)\<rparr>"
  unfolding wildcard_grants [symmetric] checkRevoked_None [symmetric]
  by (auto simp: accept_authorization_def Let_def split: option.splits)

lemma authorizeInvocation_Valid:
  "fst (authorizeInvocation E opts n cached cd resource ex tok ps) = Inr (Valid info) \<longleftrightarrow>
     (\<exists>key a i. getServerVerifier E opts n cached = Inr key \<and> link_issuer tok = Some i
        \<and> env_claim E cd (Node tok ps) key (resolveDIDKey E)
            (canIssue opts (structural_root opts (Node tok ps))) = ClaimOk a
        \<and> accept_authorization E opts resource ex tok i a = Valid info)"
  by (auto simp: authorizeInvocation_def Let_def split: sum.splits claim_result.splits option.splits)

text \<open>What the reservation yields: refused exactly when a live mark is there.\<close>

lemma reservation_refused:
  "fst (case link_cid tok of None \<Rightarrow> (True, st) | Some c \<Rightarrow> addIfAbsent c ttl now st)
     \<longleftrightarrow> (\<forall>c. link_cid tok = Some c \<longrightarrow> \<not> live_mark st now c)"
  by (auto simp: addIfAbsent_simps split: option.splits)

lemma validateInvocation_Valid:
  "fst (validateInvocation E opts n now base64 cd resource ex S) = Valid info \<longleftrightarrow> (\<exists>tok ps i. env_extract E base64 = Extracted (Node tok ps)
        \<and> link_issuer tok = Some i \<and> link_audience tok = Some (serverDid opts)
        \<and> (maxCapabilities opts = None \<or> length (link_capabilities tok) \<le> the (maxCapabilities opts))
        \<and> structuralError opts (Node tok ps) = None
        \<and> fst (case link_cid tok of None \<Rightarrow> (True, sv_store S)
            | Some c \<Rightarrow> addIfAbsent c (replayMarkTtlMs (time_option (link_expiration tok)) now) now (sv_store S))
        \<and> fst (authorizeInvocation E opts n (sv_verifier S) cd resource ex tok ps) = Inr (Valid info))"
  unfolding validateInvocation_def
  by (auto simp: Let_def case_prod_unfold split: extracted.splits node.splits option.splits
      bool.splits sum.splits vresult.splits prod.splits)

text \<open>
  C19. \<open>validate\<close> accepts an invocation exactly when it decodes, is addressed to this server,
  respects the capability count, the shape bounds and the universal-resource rule, has not been
  used, is authorised by ucanto under the issuing policy, and the capability ucanto proved covers
  the requested resource, equals the expected one, expires if it has to, and rests on no revoked
  delegation; everything reported is read off what ucanto verified.
\<close>

theorem validate_accepts_iff:
  "(fst (validate E opts n now base64 cd resource ex S) = Valid info) =
     (\<exists>tok ps i key a. env_extract E base64 = Extracted (Node tok ps)
        \<and> link_issuer tok = Some i \<and> link_audience tok = Some (serverDid opts)
        \<and> (maxCapabilities opts = None \<or> length (link_capabilities tok) \<le> the (maxCapabilities opts))
        \<and> structuralError opts (Node tok ps) = None
        \<and> (link_cid tok = None \<or> \<not> live_mark (sv_store S) now (the (link_cid tok)))
        \<and> getServerVerifier E opts n (sv_verifier S) = Inr key
        \<and> env_claim E cd (Node tok ps) key (resolveDIDKey E)
            (canIssue opts (structural_root opts (Node tok ps))) = ClaimOk a
        \<and> resource \<in> grants (with_uri (auth_capability a))
        \<and> \<not> expect_failed E ex (auth_capability a)
        \<and> (\<not> requireExpiration opts \<or> tb_expiration (chainTimeBounds (auth_tree a)) \<noteq> None)
        \<and> not_revoked E opts (verifiedProofChainCids a)
        \<and> info = \<lparr>vi_invoker = i, vi_capability = Some (auth_capability a),
            vi_expiration = tb_expiration (chainTimeBounds (auth_tree a)),
            vi_proofChain = Some (verifiedProofChain a), vi_proofChainCids = verifiedProofChainCids a,
            vi_facts = some_facts (link_facts tok)\<rparr>)" (is "?L = ?R")
proof -
  have "?L \<longleftrightarrow> fst (validateInvocation E opts n now base64 cd resource ex S) = Valid info"
    by (simp add: validate_def case_prod_unfold Let_def clipped_Valid)
  also have "\<dots> \<longleftrightarrow> ?R"
    unfolding validateInvocation_Valid reservation_refused authorizeInvocation_Valid accept_authorization_Valid
    by (auto 0 3)
  finally show ?thesis .
qed

text \<open>
  \<open>validateDelegation\<close> accepts a delegation exactly when it decodes, is addressed to this
  server, respects the structural rules, no delegation in its tree has expired or is not yet valid,
  the whole tree is verified link by link, and no delegation in it is revoked.
\<close>

theorem validateDelegation_accepts_iff:
  "(validateDelegation E opts now base64 = Valid info) =
     (\<exists>del ps i. env_extract E base64 = Extracted (Node del ps)
        \<and> link_issuer del = Some i \<and> link_audience del = Some (serverDid opts)
        \<and> structuralError opts (Node del ps) = None
        \<and> (tb_expiration (chainTimeBounds (Node del ps)) = None
            \<and> \<not> requireExpiration opts
           \<or> (\<exists>e. tb_expiration (chainTimeBounds (Node del ps)) = Some e \<and> now div 1000 \<le> e))
        \<and> (tb_notBefore (chainTimeBounds (Node del ps)) = None
           \<or> (\<exists>b. tb_notBefore (chainTimeBounds (Node del ps)) = Some b \<and> b \<le> now div 1000))
        \<and> fst (verifyDelegationChain E (Node del ps) fresh_memo) = Inr None
        \<and> not_revoked E opts (delegationChainCids (Node del ps))
        \<and> info = \<lparr>vi_invoker = i, vi_capability = first_capability (link_capabilities del),
            vi_expiration = tb_expiration (chainTimeBounds (Node del ps)),
            vi_proofChain = buildProofChain (Node del ps),
            vi_proofChainCids = delegationChainCids (Node del ps),
            vi_facts = some_facts (link_facts del)\<rparr>)" (is "?L = ?R")
proof -
  have "?L \<longleftrightarrow> validateDelegationToken E opts now base64 = Valid info"
    by (simp add: validateDelegation_def clipped_Valid)
  also have "\<dots> \<longleftrightarrow> ?R"
    unfolding checkRevoked_None [symmetric] validateDelegationToken_def
    by (auto simp: Let_def not_less split: extracted.splits node.splits option.splits if_splits sum.splits)
  finally show ?thesis .
qed

text \<open>
  Every error message that leaves the validator is within the configured length.
\<close>

theorem error_message_bounded:
  assumes "1 \<le> maxErrorMessageChars opts"
    and "fst (validate E opts n now base64 cd resource ex S) = Invalid code m
      \<or> validateDelegation E opts now base64 = Invalid code m"
  shows "int (length m) \<le> maxErrorMessageChars opts"
proof -
  obtain r where "clipped opts r = Invalid code m"
    using assms(2) by (auto simp: validate_def validateDelegation_def case_prod_unfold Let_def)
  then show ?thesis using clipMessage_bounds [OF assms(1)]
    by (auto simp: clipped_def split: vresult.splits if_splits)
qed

subsection \<open>The root of an accepted chain\<close>

text \<open>
  What the code relies on in ucanto: the authorization it returns ends at an issuer for which the
  policy allowed the capability found there.
\<close>

definition claim_respects_policy :: "'c env \<Rightarrow> bool" where
  "claim_respects_policy E \<longleftrightarrow> (\<forall>cd t key res pol a. env_claim E cd t key res pol = ClaimOk a \<longrightarrow>
     pol (with_uri (auth_capability (last (auth_line a)))) (auth_issuer (last (auth_line a))))"

lemma verifiedProofChain_root:
  "\<exists>rest. verifiedProofChain a = auth_issuer (last (auth_line a)) # rest"
  by (cases "auth_line a" rule: rev_cases) (simp_all add: verifiedProofChain_def proof_chain_loop)

text \<open>
  C20. The first entry of the chain reported for an accepted invocation, to which callers attribute the
  request, is the issuer at the end of the authorization that ucanto returned under this validator's own
  policy; and that issuer is a configured root, or the resource granted there names it, or, under the
  wildcard policy, it is the structural root of the presented token: an invoker or intermediate link is
  never taken for the root just because the policy is \<open>*\<close>.
\<close>

theorem accepted_root_allowed:
  assumes "claim_respects_policy E"
    and "fst (validate E opts n now base64 cd resource ex S) = Valid info"
  shows "\<exists>tok ps key a rest. env_extract E base64 = Extracted (Node tok ps)
    \<and> env_claim E cd (Node tok ps) key (resolveDIDKey E) (canIssue opts (structural_root opts (Node tok ps))) = ClaimOk a
    \<and> vi_proofChain info = Some (verifiedProofChain a) \<and> verifiedProofChain a = auth_issuer (last (auth_line a)) # rest
    \<and> (auth_issuer (last (auth_line a)) \<in> set (rootIssuers opts)
       \<or> resourceNamesIssuer (with_uri (auth_capability (last (auth_line a)))) (auth_issuer (last (auth_line a)))
       \<or> ''*'' \<in> set (rootIssuers opts)
         \<and> (\<exists>ds. buildProofChain (Node tok ps) = Some (auth_issuer (last (auth_line a)) # ds)))"
proof -
  have "fst (validateInvocation E opts n now base64 cd resource ex S) = Valid info"
    using assms(2) by (simp add: validate_def case_prod_unfold Let_def clipped_Valid)
  then obtain tok ps where t: "env_extract E base64 = Extracted (Node tok ps)"
    "fst (authorizeInvocation E opts n (sv_verifier S) cd resource ex tok ps) = Inr (Valid info)"
    unfolding validateInvocation_Valid by blast
  then obtain key a i where a: "env_claim E cd (Node tok ps) key (resolveDIDKey E)
       (canIssue opts (structural_root opts (Node tok ps))) = ClaimOk a"
    "accept_authorization E opts resource ex tok i a = Valid info"
    unfolding authorizeInvocation_Valid by blast
  let ?r = "last (auth_line a)"
  from assms(1) a(1) have "canIssue opts (structural_root opts (Node tok ps))
      (with_uri (auth_capability ?r)) (auth_issuer ?r)"
    unfolding claim_respects_policy_def by blast
  then have "auth_issuer ?r \<in> set (rootIssuers opts)
      \<or> resourceNamesIssuer (with_uri (auth_capability ?r)) (auth_issuer ?r)
      \<or> ''*'' \<in> set (rootIssuers opts) \<and> (\<exists>ds. buildProofChain (Node tok ps) = Some (auth_issuer ?r # ds))"
    by (auto simp: canIssue_def structural_root_def split: if_splits option.splits list.splits)
  moreover have "vi_proofChain info = Some (verifiedProofChain a)"
    using a(2) unfolding accept_authorization_Valid by auto
  moreover obtain rest where "verifiedProofChain a = auth_issuer ?r # rest" using verifiedProofChain_root [of a] by blast
  ultimately show ?thesis using t(1) a(1) by blast
qed

subsection \<open>The effect on the replay store\<close>

text \<open>From \<open>now\<close> on, the marks outside \<open>X\<close> are those of before, or at most those.\<close>

definition same_marks :: "int \<Rightarrow> cid set \<Rightarrow> inv_store \<Rightarrow> inv_store \<Rightarrow> bool" where
  "same_marks now X s s' \<longleftrightarrow> (\<forall>t d. now \<le> t \<longrightarrow> d \<notin> X \<longrightarrow> live_mark s' t d = live_mark s t d)"

definition no_new_marks :: "int \<Rightarrow> cid set \<Rightarrow> inv_store \<Rightarrow> inv_store \<Rightarrow> bool" where
  "no_new_marks now X s s' \<longleftrightarrow> (\<forall>t d. now \<le> t \<longrightarrow> d \<notin> X \<longrightarrow> live_mark s' t d \<longrightarrow> live_mark s t d)"

lemma same_marks_refl [simp]: "same_marks now X s s" "no_new_marks now X s s"
  by (simp_all add: same_marks_def no_new_marks_def)

lemma addIfAbsent_marks:
  assumes ok: "store_ok s" and x: "addIfAbsent c ttl now s = (b, s')"
  shows "\<exists>old. same_marks now {c, old} s s'" "no_new_marks now {c} s s'" "room_for s c \<Longrightarrow> same_marks now {c} s s'"
    "\<not> b \<longleftrightarrow> live_mark s now c" "\<not> b \<Longrightarrow> s' = s"
proof -
  define s1 where "s1 = snd (isLive c now s)"
  have k: "store_ok s1" "room_for s c \<Longrightarrow> room_for s1 c" "\<And>t d. now \<le> t \<Longrightarrow> live_mark s1 t d = live_mark s t d"
    using isLive_snd(1-3) [where s = s] ok unfolding s1_def by blast+
  obtain old where old: "\<And>d t. d \<noteq> c \<Longrightarrow> d \<noteq> old \<Longrightarrow> now \<le> t \<Longrightarrow> live_mark s1 t d \<Longrightarrow> live_mark (insert_mark c ttl now s1) t d"
    using insert_mark_drops_one [OF k(1)] by metis
  have e: "b \<longleftrightarrow> \<not> live_mark s now c" "s' = (if b then insert_mark c ttl now s1 else s)"
    using x by (auto simp: addIfAbsent_simps s1_def split: if_splits)
  then show "\<not> b \<longleftrightarrow> live_mark s now c" "\<not> b \<Longrightarrow> s' = s" by simp_all
  have only: "live_mark (insert_mark c ttl now s1) t d \<Longrightarrow> now \<le> t \<Longrightarrow> d \<noteq> c \<Longrightarrow> live_mark s t d" for t d
    using insert_mark_only [OF k(1)] k(3) by blast
  then show "no_new_marks now {c} s s'" by (simp add: e(2) no_new_marks_def)
  show "\<exists>old. same_marks now {c, old} s s'"
    by (rule exI [of _ old]) (use only old k(3) in \<open>auto simp: e(2) same_marks_def\<close>)
  show "same_marks now {c} s s'" if "room_for s c"
    using only insert_mark_keeps [OF k(1) k(2) [OF that]] k(3) by (auto simp: e(2) same_marks_def)
qed

lemma live_mark_antimono: "live_mark s t c \<Longrightarrow> now \<le> t \<Longrightarrow> live_mark s now c"
  by (auto simp: live_mark_def)

text \<open>A reservation that is released again.\<close>

lemma released_marks:
  assumes "store_ok s" "addIfAbsent c ttl now s = (True, s')"
  shows "\<exists>old. same_marks now {old} s (delete_mark c s')" "no_new_marks now {} s (delete_mark c s')"
    "room_for s c \<Longrightarrow> same_marks now {} s (delete_mark c s')"
proof -
  note A = addIfAbsent_marks [OF assms]
  have c: "\<not> live_mark s t c" if "now \<le> t" for t using A(4) live_mark_antimono that by blast
  have drop: "same_marks now X s (delete_mark c s')" if "same_marks now (insert c X) s s'" for X
    using that c unfolding same_marks_def delete_mark_live by (metis insert_iff)
  then show "\<exists>old. same_marks now {old} s (delete_mark c s')" "room_for s c \<Longrightarrow> same_marks now {} s (delete_mark c s')"
    using A(1,3) by blast+
  show "no_new_marks now {} s (delete_mark c s')" using A(2) by (auto simp: no_new_marks_def delete_mark_live)
qed

text \<open>
  C21. A rejected attempt adds no replay mark, whichever check or exception rejected it, and when its CID is
  already marked, or the store has room for it, it leaves the live marks exactly as they were, so it does not
  use up the token. On a full store the reservation evicts the oldest mark, and releasing it does not bring
  that one back: at most this one mark is lost. An accepted invocation leaves a mark that stays live until
  past the token's expiry, and changes no other mark but the oldest one of a full store. The call is taken
  with no other call on the store in between; \<open>Replay\<close> is about calls that overlap.
\<close>

theorem validate_marks:
  assumes "validate E opts n now base64 cd resource ex S = (r, S')" and ok: "store_ok (sv_store S)"
    and "env_extract E base64 = Extracted (Node tok ps)" and "link_cid tok = Some c"
  shows "case r of
      Invalid code m \<Rightarrow> no_new_marks now {} (sv_store S) (sv_store S')
        \<and> (\<exists>oldest. same_marks now {oldest} (sv_store S) (sv_store S'))
        \<and> (room_for (sv_store S) c \<or> live_mark (sv_store S) now c \<longrightarrow> same_marks now {} (sv_store S) (sv_store S'))
    | Valid info \<Rightarrow> no_new_marks now {c} (sv_store S) (sv_store S')
        \<and> (\<exists>oldest. same_marks now {c, oldest} (sv_store S) (sv_store S'))
        \<and> (room_for (sv_store S) c \<longrightarrow> same_marks now {c} (sv_store S) (sv_store S'))
        \<and> (\<forall>e t. link_expiration tok = At e \<and> now \<le> t \<and> t \<le> mark_bound e \<longrightarrow> live_mark (sv_store S') t c)"
proof -
  let ?ttl = "replayMarkTtlMs (time_option (link_expiration tok)) now"
  obtain b st where add: "addIfAbsent c ?ttl now (sv_store S) = (b, st)" by fastforce
  note A = addIfAbsent_marks [OF ok add]
  obtain r0 where v: "validateInvocation E opts n now base64 cd resource ex S = (r0, S')" "r = clipped opts r0"
    using assms(1) by (cases "validateInvocation E opts n now base64 cd resource ex S") (auto simp: validate_def)
  have "(\<exists>code m. r0 = Invalid code m) \<and> (sv_store S' = sv_store S \<or> \<not> b \<and> sv_store S' = st
           \<or> b \<and> sv_store S' = delete_mark c st)
      \<or> (\<exists>i. r0 = Valid i) \<and> b \<and> sv_store S' = st"
    using v(1) assms(3,4) add unfolding validateInvocation_def
    by (auto simp: Let_def split: extracted.splits node.splits option.splits
        bool.splits sum.splits vresult.splits prod.splits if_splits)
  then show ?thesis
  proof (elim disjE conjE)
    assume h: "b" "sv_store S' = delete_mark c st" "\<exists>code m. r0 = Invalid code m"
    from add h(1) have "addIfAbsent c ?ttl now (sv_store S) = (True, st)" by simp
    note R = released_marks [OF ok this]
    from h show ?thesis using v(2) R A(4) by (auto simp: clipped_def)
  next
    assume h: "\<exists>i. r0 = Valid i" "b" "sv_store S' = st"
    have "live_mark st t c" if e: "link_expiration tok = At e" "now \<le> t" "t \<le> mark_bound e" for e t
    proof -
      obtain k where k: "?ttl = Some k" using e(1) replayMarkTtlMs_Some [of e now] by auto
      with ttl_covers [of e now k now] e have "t \<le> now + k" by simp
      with add \<open>b\<close> k insert_mark_live_self [OF isLive_snd(1) [OF ok, of c now], of c "Some k" now t]
      show ?thesis by (auto simp: addIfAbsent_simps split: if_splits)
    qed
    with h show ?thesis using A(1-3) v(2) by (auto simp: clipped_def)
  qed (use A(5) v(2) in \<open>auto simp: clipped_def\<close>)
qed

subsection \<open>Concrete requests\<close>

definition sample_options :: options where
  "sample_options = \<lparr>serverDid = ''did:key:S'', rootIssuers = [''*''], revocationOpen = False,
     requireExpiration = True, proofChainLimits = Some DEFAULT_PROOF_CHAIN_LIMITS,
     maxErrorMessageChars = 10, maxCapabilities = Some 1, allowUniversalResource = False\<rparr>"

definition sample_server :: server where
  "sample_server = \<lparr>sv_store = small_store, sv_verifier = None\<rparr>"

definition no_expect :: expect_opts where
  "no_expect = \<lparr>ex_can = None, ex_with = None\<rparr>"

lemma sample_accepted:
  "\<exists>info. fst (validate sample_env sample_options 0 5000 ''self'' () ''ixo:did:key:A/x'' no_expect sample_server)
     = Valid info"
proof -
  have "(case fst (validate sample_env sample_options 0 5000 ''self'' () ''ixo:did:key:A/x'' no_expect sample_server)
     of Valid i \<Rightarrow> True | Invalid c m \<Rightarrow> False)" by code_simp
  then show ?thesis by (auto split: vresult.splits)
qed

lemma sample_policy: "claim_respects_policy sample_env"
  unfolding claim_respects_policy_def sample_env_def sample_claim_def
  by (auto split: node.splits list.splits option.splits cap_entry.splits if_splits)

theorem accepted_root_allowed_witness:
  "\<exists>info key a rest. fst (validate sample_env sample_options 0 5000 ''self'' () ''ixo:did:key:A/x'' no_expect sample_server)
     = Valid info \<and> vi_proofChain info = Some (verifiedProofChain a) \<and> verifiedProofChain a = auth_issuer (last (auth_line a)) # rest
     \<and> env_claim sample_env () sample_self key (resolveDIDKey sample_env)
         (canIssue sample_options (structural_root sample_options sample_self)) = ClaimOk a"
proof -
  obtain info where i: "fst (validate sample_env sample_options 0 5000 ''self'' () ''ixo:did:key:A/x'' no_expect sample_server) = Valid info"
    using sample_accepted by blast
  have x: "env_extract sample_env ''self'' = Extracted sample_self" by (simp add: sample_env_def)
  from accepted_root_allowed [OF sample_policy i] obtain tok ps key a rest where
    "sample_self = Node tok ps" "env_claim sample_env () (Node tok ps) key (resolveDIDKey sample_env)
       (canIssue sample_options (structural_root sample_options (Node tok ps))) = ClaimOk a"
    "vi_proofChain info = Some (verifiedProofChain a)" "verifiedProofChain a = auth_issuer (last (auth_line a)) # rest"
    unfolding x by blast
  with i show ?thesis by metis
qed

theorem error_message_bounded_witness:
  "\<exists>m. validateDelegation sample_env sample_options 0 ''none'' = Invalid INVALID_FORMAT m \<and> length m \<le> 10"
proof -
  have "(case validateDelegation sample_env sample_options 0 ''none'' of Valid i \<Rightarrow> False
     | Invalid c m \<Rightarrow> c = INVALID_FORMAT)" by code_simp
  then obtain m where m: "validateDelegation sample_env sample_options 0 ''none'' = Invalid INVALID_FORMAT m"
    by (auto split: vresult.splits)
  have "1 \<le> maxErrorMessageChars sample_options" by (simp add: sample_options_def)
  from error_message_bounded [OF this disjI2 [OF m]] m show ?thesis
    by (auto simp: sample_options_def)
qed

theorem validate_marks_witness:
  "live_mark (sv_store (snd (validate sample_env sample_options 0 5000 ''self'' () ''ixo:did:key:A/x''
     no_expect sample_server))) 160000 ''c9''
   \<and> same_marks 5000 {''c9''} (sv_store sample_server)
       (sv_store (snd (validate sample_env sample_options 0 5000 ''self'' () ''ixo:did:key:A/x'' no_expect sample_server)))"
proof -
  let ?v = "validate sample_env sample_options 0 5000 ''self'' () ''ixo:did:key:A/x'' no_expect sample_server"
  obtain info where i: "fst ?v = Valid info" using sample_accepted by blast
  have x: "env_extract sample_env ''self'' = Extracted sample_self" by (simp add: sample_env_def)
  have "store_ok (sv_store sample_server)" and room: "room_for (sv_store sample_server) ''c9''"
    by (simp_all add: sample_server_def small_store_def store_ok_def room_for_def map_delete_def)
  from validate_marks [OF prod.collapse [symmetric] this(1) x [unfolded sample_self_def],
      where now = 5000 and n = 0 and cd = "()" and resource = "''ixo:did:key:A/x''" and ex = no_expect
        and opts = sample_options and c = "''c9''"]
  show ?thesis using room by (simp add: i sample_link_def mark_bound_def REPLAY_MARK_MARGIN_MS_def)
qed

theorem validate_accepts_iff_witness:
  "\<exists>key a. getServerVerifier sample_env sample_options 0 None = Inr key
     \<and> ''ixo:did:key:A/x'' \<in> grants (with_uri (auth_capability a))
     \<and> not_revoked sample_env sample_options (verifiedProofChainCids a)"
proof -
  obtain info where "fst (validate sample_env sample_options 0 5000 ''self'' () ''ixo:did:key:A/x''
      no_expect sample_server) = Valid info" using sample_accepted by blast
  from validate_accepts_iff [THEN iffD1, OF this] show ?thesis by (auto simp: sample_server_def)
qed

theorem validateDelegation_accepts_iff_witness:
  "fst (verifyDelegationChain sample_env sample_self fresh_memo) = Inr None
   \<and> not_revoked sample_env sample_options (delegationChainCids sample_self)"
proof -
  have "(case validateDelegation sample_env sample_options 5000 ''self'' of Valid i \<Rightarrow> True
     | Invalid c m \<Rightarrow> False)" by code_simp
  then obtain info where "validateDelegation sample_env sample_options 5000 ''self'' = Valid info"
    by (auto split: vresult.splits)
  note D = validateDelegation_accepts_iff [THEN iffD1, OF this]
  have x: "env_extract sample_env ''self'' = Extracted sample_self" by (simp add: sample_env_def)
  from D show ?thesis unfolding x by (elim exE conjE) simp
qed

end
