(* ===== verification/Run_Buffer.thy ===== *)
theory Run_Buffer imports Prelude begin

text \<open>
  \<open>packages/oracle-runtime-workers/src/do/run-buffer.ts\<close>: the ordered output of one run. Frames
  are numbered and fanned out as they are pushed; the unflushed tail is packed into segments by an
  asynchronous chain (\<open>packing\<close>), one write at a time. A client re-joins by reading the stored
  segments and then the frames the store may not hold yet (\<open>RunCoordinator.join\<close>).

  The segment store is the locale \<open>segment_store\<close>, which \<open>Run_Store\<close> interprets with its table.
  A segment's JSON payload is the list of its frames.
\<close>

subsection \<open>Frames and segments\<close>

record run_frame =
  f_seq :: nat
  f_event :: string
  f_content :: "string option"
  f_data :: string

record packed_segment =
  seqFrom :: nat
  seqTo :: nat
  payload :: "run_frame list"

definition partialTextOf :: "run_frame list \<Rightarrow> string" where
  "partialTextOf frames = fold (\<lambda>f text.
     if f_event f \<noteq> ''message'' then text
     else case f_content f of None \<Rightarrow> text | Some c \<Rightarrow> text @ c) frames []"

definition framesOfSegments :: "packed_segment list \<Rightarrow> nat \<Rightarrow> run_frame list" where
  "framesOfSegments segments after =
     fold (\<lambda>s out. out @ filter (\<lambda>f. f_seq f > after) (payload s)) segments []"

lemma framesOfSegments_concat:
  "framesOfSegments segs a = filter (\<lambda>f. f_seq f > a) (concat (map payload segs))"
proof -
  have "fold (\<lambda>s out. out @ filter (\<lambda>f. f_seq f > a) (payload s)) segs acc
      = acc @ filter (\<lambda>f. f_seq f > a) (concat (map payload segs))" for acc
    by (induction segs arbitrary: acc) auto
  then show ?thesis by (simp add: framesOfSegments_def)
qed

definition frame_text :: "run_frame \<Rightarrow> string" where
  "frame_text f = (if f_event f = ''message'' then (case f_content f of None \<Rightarrow> [] | Some c \<Rightarrow> c) else [])"

lemma partialTextOf_concat: "partialTextOf fs = concat (map frame_text fs)"
  by (induction fs rule: rev_induct) (auto simp: partialTextOf_def frame_text_def split: option.splits)

subsection \<open>The buffer\<close>

text \<open>
  \<open>ro_bytes\<close> is the length of a frame's JSON. Timers are a flag (armed or not), subscribers are
  numbered; \<open>rb_packs\<close> is the promise chain: the segments whose write has not settled, oldest
  first. \<open>rb_delivered\<close> records what each subscriber was given and \<open>rb_ended\<close> whose \<open>onEnd\<close> ran.
\<close>

record rb_options =
  ro_flushBytes :: nat
  ro_immediate :: "run_frame \<Rightarrow> bool"
  ro_bytes :: "run_frame \<Rightarrow> nat"

record run_buffer =
  rb_seq :: nat
  rb_tail :: "run_frame list"
  rb_inFlight :: "run_frame list list"
  rb_tailBytes :: nat
  rb_subscribers :: "nat list"
  rb_done :: "run_frame option"
  rb_timer :: bool
  rb_closed :: bool
  rb_packs :: "packed_segment list"
  rb_packedSeq :: nat
  rb_delivered :: "nat \<Rightarrow> run_frame list"
  rb_ended :: "nat list"

definition new_buffer :: "nat \<Rightarrow> run_buffer" where
  "new_buffer startSeq = \<lparr>rb_seq = startSeq, rb_tail = [], rb_inFlight = [], rb_tailBytes = 0,
     rb_subscribers = [], rb_done = None, rb_timer = False, rb_closed = False, rb_packs = [],
     rb_packedSeq = startSeq, rb_delivered = (\<lambda>_. []), rb_ended = []\<rparr>"

definition flush :: "run_buffer \<Rightarrow> run_buffer" where
  "flush b =
    (let b1 = b\<lparr>rb_timer := False\<rparr> in
     if rb_tail b1 = [] then b1
     else (let frames = rb_tail b1;
               segment = \<lparr>seqFrom = f_seq (hd frames), seqTo = f_seq (last frames), payload = frames\<rparr>
           in b1\<lparr>rb_tail := [], rb_tailBytes := 0, rb_inFlight := rb_inFlight b1 @ [frames],
                 rb_packs := rb_packs b1 @ [segment]\<rparr>))"

text \<open>The first half of \<open>push\<close>: record the frame and give it to every subscriber.\<close>

definition append_frame :: "rb_options \<Rightarrow> run_frame \<Rightarrow> run_buffer \<Rightarrow> run_buffer" where
  "append_frame opts frame b =
     b\<lparr>rb_seq := f_seq frame,
       rb_done := (if f_event frame = ''done'' \<and> rb_done b = None then Some frame else rb_done b),
       rb_tail := rb_tail b @ [frame],
       rb_tailBytes := rb_tailBytes b + ro_bytes opts frame,
       rb_delivered := (\<lambda>u. if u \<in> set (rb_subscribers b)
         then rb_delivered b u @ [frame] else rb_delivered b u)\<rparr>"

text \<open>\<open>push\<close>; \<open>None\<close> is the exception on a closed buffer.\<close>

definition push :: "rb_options \<Rightarrow> string \<Rightarrow> string option \<Rightarrow> string \<Rightarrow> run_buffer \<Rightarrow> (run_frame \<times> run_buffer) option" where
  "push opts event content data b =
    (if rb_closed b then None
     else (let frame = \<lparr>f_seq = rb_seq b + 1, f_event = event, f_content = content, f_data = data\<rparr>;
               b1 = append_frame opts frame b
           in Some (frame,
                if ro_immediate opts frame \<or> rb_tailBytes b1 \<ge> ro_flushBytes opts then flush b1
                else if \<not> rb_timer b1 then b1\<lparr>rb_timer := True\<rparr> else b1)))"

definition timer_fires :: "run_buffer \<Rightarrow> run_buffer" where
  "timer_fires b = flush (b\<lparr>rb_timer := False\<rparr>)"

definition tailAfter :: "nat \<Rightarrow> run_buffer \<Rightarrow> run_frame list" where
  "tailAfter after b =
    (let out = filter (\<lambda>f. f_seq f > after) (concat (rb_inFlight b))
           @ filter (\<lambda>f. f_seq f > after) (rb_tail b)
     in case rb_done b of
          Some d \<Rightarrow> if rb_closed b \<and> f_seq d > after \<and> \<not> list_ex (\<lambda>f. f_seq f = f_seq d) out
                   then out @ [d] else out
        | None \<Rightarrow> out)"

definition subscribe :: "nat \<Rightarrow> run_buffer \<Rightarrow> run_buffer" where
  "subscribe u b =
    (if rb_closed b then b\<lparr>rb_ended := rb_ended b @ [u]\<rparr>
     else if u \<in> set (rb_subscribers b) then b
     else b\<lparr>rb_subscribers := rb_subscribers b @ [u]\<rparr>)"

definition unsubscribe :: "nat \<Rightarrow> run_buffer \<Rightarrow> run_buffer" where
  "unsubscribe u b = b\<lparr>rb_subscribers := removeAll u (rb_subscribers b)\<rparr>"

definition close :: "run_buffer \<Rightarrow> run_buffer" where
  "close b =
    (if rb_closed b then b
     else flush (b\<lparr>rb_closed := True, rb_ended := rb_ended b @ rb_subscribers b, rb_subscribers := []\<rparr>))"

text \<open>The oldest pack settles: its write returned, or it failed and \<open>onPackError\<close> was told.\<close>

definition pack_written :: "run_buffer \<Rightarrow> run_buffer" where
  "pack_written b =
    (case rb_packs b of [] \<Rightarrow> b
     | s # rest \<Rightarrow> b\<lparr>rb_packedSeq := max (rb_packedSeq b) (seqTo s), rb_packs := rest,
         rb_inFlight := tl (rb_inFlight b)\<rparr>)"

definition pack_failed :: "run_buffer \<Rightarrow> run_buffer" where
  "pack_failed b =
    (case rb_packs b of [] \<Rightarrow> b
     | s # rest \<Rightarrow> b\<lparr>rb_packs := rest, rb_inFlight := tl (rb_inFlight b)\<rparr>)"

subsection \<open>The run of a buffer over a segment store\<close>

text \<open>
  \<open>sys_stored\<close> says that the write of the oldest pack has reached the store, while its promise has
  not settled yet. The log of everything pushed and the packs reported as failed are kept for the
  statements.
\<close>

record 's rb_sys =
  sys_buf :: run_buffer
  sys_store :: 's
  sys_stored :: bool
  sys_log :: "run_frame list"
  sys_failed :: "packed_segment list"

inductive buffer_step ::
  "rb_options \<Rightarrow> (packed_segment \<Rightarrow> 's \<Rightarrow> 's) \<Rightarrow> 's rb_sys \<Rightarrow> 's rb_sys \<Rightarrow> bool"
  for opts append where
  step_push: "push opts ev c d (sys_buf S) = Some (f, b') \<Longrightarrow>
    buffer_step opts append S (S\<lparr>sys_log := sys_log S @ [f], sys_buf := b'\<rparr>)"
| step_flush: "buffer_step opts append S (S\<lparr>sys_buf := flush (sys_buf S)\<rparr>)"
| step_timer: "rb_timer (sys_buf S) \<Longrightarrow> buffer_step opts append S (S\<lparr>sys_buf := timer_fires (sys_buf S)\<rparr>)"
| step_close: "buffer_step opts append S (S\<lparr>sys_buf := close (sys_buf S)\<rparr>)"
| step_subscribe: "buffer_step opts append S (S\<lparr>sys_buf := subscribe u (sys_buf S)\<rparr>)"
| step_unsubscribe: "buffer_step opts append S (S\<lparr>sys_buf := unsubscribe u (sys_buf S)\<rparr>)"
| step_store: "rb_packs (sys_buf S) = s # rest \<Longrightarrow> \<not> sys_stored S \<Longrightarrow>
    buffer_step opts append S (S\<lparr>sys_store := append s (sys_store S), sys_stored := True\<rparr>)"
| step_written: "sys_stored S \<Longrightarrow>
    buffer_step opts append S (S\<lparr>sys_buf := pack_written (sys_buf S), sys_stored := False\<rparr>)"
| step_failed: "rb_packs (sys_buf S) = s # rest \<Longrightarrow> \<not> sys_stored S \<Longrightarrow>
    buffer_step opts append S
      (S\<lparr>sys_buf := pack_failed (sys_buf S), sys_failed := sys_failed S @ [s]\<rparr>)"

definition segment_of :: "run_frame list \<Rightarrow> packed_segment" where
  "segment_of fs = \<lparr>seqFrom = f_seq (hd fs), seqTo = f_seq (last fs), payload = fs\<rparr>"

lemma payload_segment_of [simp]: "payload (segment_of fs) = fs" "seqFrom (segment_of fs) = f_seq (hd fs)"
  "seqTo (segment_of fs) = f_seq (last fs)"
  by (simp_all add: segment_of_def)

text \<open>
  What a re-join computes in \<open>RunCoordinator.join\<close>: the stored segments it read, then the frames
  of the buffer after the last one replayed.
\<close>

definition join_replay :: "packed_segment list \<Rightarrow> nat \<Rightarrow> run_buffer \<Rightarrow> run_frame list" where
  "join_replay segments after b =
    (let replay = framesOfSegments segments after;
         lastReplayed = (if replay \<noteq> [] then f_seq (last replay) else after)
     in replay @ tailAfter lastReplayed b)"

text \<open>
  The answer of \<open>join\<close> once the segments are read: whether the run was live when it was asked for
  (\<open>before\<close>) and whether it still is; the result says with which replay, and whether a buffer comes with
  it. When the run ended during the read, \<open>b\<close> is its buffer after \<open>before.done\<close>.
\<close>

definition join_result :: "bool \<Rightarrow> bool \<Rightarrow> packed_segment list \<Rightarrow> nat \<Rightarrow> run_buffer \<Rightarrow> run_frame list \<times> bool" where
  "join_result before live segments after b =
    (if \<not> live then
       if \<not> before then (framesOfSegments segments after, False)
       else (filter (\<lambda>f. f_event f \<noteq> ''done'') (join_replay segments after b), False)
     else (join_replay segments after b, True))"

lemma tailAfter_pending:
  assumes "concat (rb_inFlight b) @ rb_tail b = T"
    and "\<And>d. rb_done b = Some d \<Longrightarrow> f_seq d > a \<Longrightarrow> d \<in> set T"
  shows "tailAfter a b = filter (\<lambda>f. f_seq f > a) T"
proof -
  have "filter (\<lambda>f. f_seq f > a) T =
      filter (\<lambda>f. f_seq f > a) (concat (rb_inFlight b)) @ filter (\<lambda>f. f_seq f > a) (rb_tail b)"
    by (simp add: assms(1) [symmetric])
  moreover have "list_ex (\<lambda>f. f_seq f = f_seq d) (filter (\<lambda>f. f_seq f > a) T)"
    if "rb_done b = Some d" "f_seq d > a" for d
    using assms(2) [OF that] that(2) by (auto simp: list_ex_iff)
  ultimately show ?thesis
    by (cases "rb_done b") (simp_all add: tailAfter_def Let_def)
qed

subsection \<open>Nothing is lost to a re-join\<close>

text \<open>Sequence numbers rise along a log.\<close>

definition rising :: "run_frame list \<Rightarrow> bool" where
  "rising fs \<longleftrightarrow> sorted_wrt (\<lambda>f g. f_seq f < f_seq g) fs"

lemma rising_append:
  "rising (xs @ ys) \<longleftrightarrow> rising xs \<and> rising ys \<and> (\<forall>x \<in> set xs. \<forall>y \<in> set ys. f_seq x < f_seq y)"
  by (auto simp: rising_def sorted_wrt_append)

lemma rising_init: "rising (A @ B @ T) \<Longrightarrow> rising (A @ B)"
  by (metis append.assoc rising_append)

lemma rising_part: "rising (concat xss) \<Longrightarrow> xs \<in> set xss \<Longrightarrow> rising xs"
  by (induction xss) (auto simp: rising_append)

lemma rising_snoc: "rising xs \<Longrightarrow> \<forall>x \<in> set xs. f_seq x < f_seq f \<Longrightarrow> rising (xs @ [f])"
  by (auto simp: rising_def sorted_wrt_append)

lemma rising_last: "rising xs \<Longrightarrow> x \<in> set xs \<Longrightarrow> f_seq x \<le> f_seq (last xs)"
  by (cases xs rule: rev_cases) (auto simp: rising_append)

lemma rising_hd: "rising xs \<Longrightarrow> x \<in> set xs \<Longrightarrow> f_seq (hd xs) \<le> f_seq x"
  by (cases xs) (auto simp: rising_def)

text \<open>
  A log read as the prefix \<open>P\<close>, then completed from a suffix \<open>H @ Q\<close> that may repeat the end of
  \<open>P\<close>: the cursor removes the repetition.
\<close>

lemma replay_split:
  assumes r: "rising (P @ Q)" and H: "set H \<subseteq> set P"
    and l: "l = (if filter (\<lambda>f. f_seq f > a) P \<noteq> [] then f_seq (last (filter (\<lambda>f. f_seq f > a) P)) else a)"
  shows "filter (\<lambda>f. f_seq f > a) P @ filter (\<lambda>f. f_seq f > l) (H @ Q) = filter (\<lambda>f. f_seq f > a) (P @ Q)"
    and "x \<in> set (P @ Q) \<Longrightarrow> f_seq x > l \<Longrightarrow> x \<in> set Q"
proof -
  have *: "f_seq x \<le> l" if "x \<in> set P" for x
  proof (cases "f_seq x > a")
    case True
    with that have "x \<in> set (filter (\<lambda>f. f_seq f > a) P)" by simp
    moreover have "rising (filter (\<lambda>f. f_seq f > a) P)"
      using r by (simp add: rising_append) (simp add: rising_def sorted_wrt_filter)
    ultimately have "f_seq x \<le> f_seq (last (filter (\<lambda>f. f_seq f > a) P))" by (rule rising_last [rotated])
    moreover have "filter (\<lambda>f. f_seq f > a) P \<noteq> []" using True that by (auto simp: filter_empty_conv)
    ultimately show ?thesis using l by simp
  next
    case False
    have "a \<le> l"
    proof (cases "filter (\<lambda>f. f_seq f > a) P = []")
      case False
      then have "last (filter (\<lambda>f. f_seq f > a) P) \<in> set (filter (\<lambda>f. f_seq f > a) P)" by (rule last_in_set)
      with False l show ?thesis by auto
    qed (simp add: l)
    with \<open>\<not> f_seq x > a\<close> show ?thesis by simp
  qed
  have "filter (\<lambda>f. f_seq f > l) H = []" using * H by (auto simp: filter_empty_conv not_less)
  moreover have "filter (\<lambda>f. f_seq f > l) Q = filter (\<lambda>f. f_seq f > a) Q"
  proof (cases "filter (\<lambda>f. f_seq f > a) P = []")
    case True
    then show ?thesis by (simp add: l)
  next
    case False
    then have m: "last (filter (\<lambda>f. f_seq f > a) P) \<in> set (filter (\<lambda>f. f_seq f > a) P)" by (rule last_in_set)
    with l False have la: "a < l" by simp
    have "f_seq y > l" if "y \<in> set Q" for y
      using m l False r that by (simp add: rising_append)
    with la have "\<forall>y \<in> set Q. f_seq y > l \<and> f_seq y > a" by fastforce
    then show ?thesis by simp
  qed
  ultimately show "filter (\<lambda>f. f_seq f > a) P @ filter (\<lambda>f. f_seq f > l) (H @ Q) = filter (\<lambda>f. f_seq f > a) (P @ Q)"
    by simp
  show "x \<in> set Q" if "x \<in> set (P @ Q)" "f_seq x > l" using that * by fastforce
qed

text \<open>
  The window between the store read of a re-join and its continuation. A pack whose write had reached the
  store before the read may settle in it (the flag); one that is written behind the read does not: its
  statement gets the connection only when the read has released it, and from there to its settling takes
  more promise ticks (the statement, \<open>appendSegment\<close>, three links of \<open>packing\<close>) than the continuation.
\<close>

inductive window_step ::
  "rb_options \<Rightarrow> (packed_segment \<Rightarrow> 's \<Rightarrow> 's) \<Rightarrow> bool \<times> 's rb_sys \<Rightarrow> bool \<times> 's rb_sys \<Rightarrow> bool"
  for opts app where
  window_settles: "sys_stored S \<Longrightarrow>
    window_step opts app (True, S) (False, S\<lparr>sys_buf := pack_written (sys_buf S), sys_stored := False\<rparr>)"
| window_other: "buffer_step opts app S S' \<Longrightarrow> (sys_stored S \<longrightarrow> sys_stored S') \<Longrightarrow> sys_failed S' = sys_failed S \<Longrightarrow>
    window_step opts app (old, S) (old, S')"

locale segment_store =
  fixes append :: "packed_segment \<Rightarrow> 's \<Rightarrow> 's"
    and read :: "nat \<Rightarrow> 's \<Rightarrow> packed_segment list"
    and ok :: "'s \<Rightarrow> bool"
  assumes append_ok: "ok s \<Longrightarrow> ok (append g s)"
    and append_read: "ok s \<Longrightarrow> (\<forall>t \<in> set (read 0 s). seqFrom t < seqFrom g) \<Longrightarrow>
      read 0 (append g s) = read 0 s @ (if 0 < seqTo g then [g] else [])"
    and read_after: "ok s \<Longrightarrow> read a s = filter (\<lambda>t. seqTo t > a) (read 0 s)"
begin

text \<open>
  \<open>ds\<close> are the segments whose packs have settled: they and the pending ones make up the log.
\<close>

definition parts_ok :: "packed_segment list \<Rightarrow> 's \<Rightarrow> bool \<Rightarrow> packed_segment list \<Rightarrow> run_frame list list
    \<Rightarrow> run_frame list \<Rightarrow> run_frame option \<Rightarrow> nat \<Rightarrow> run_frame list \<Rightarrow> bool" where
  "parts_ok ds st stored packs batches tail done sq log \<longleftrightarrow> ok st
     \<and> batches = map payload packs
     \<and> (\<forall>g \<in> set (ds @ packs). \<exists>fs. fs \<noteq> [] \<and> g = segment_of fs)
     \<and> (stored \<longrightarrow> packs \<noteq> [])
     \<and> read 0 st = ds @ (if stored then [hd packs] else [])
     \<and> log = concat (map payload ds) @ concat (map payload packs) @ tail
     \<and> rising log \<and> (\<forall>f \<in> set log. 0 < f_seq f \<and> f_seq f \<le> sq)
     \<and> (\<forall>d. done = Some d \<longrightarrow> d \<in> set log)"

definition consistent :: "packed_segment list \<Rightarrow> 's rb_sys \<Rightarrow> bool" where
  "consistent ds S \<longleftrightarrow> parts_ok ds (sys_store S) (sys_stored S) (rb_packs (sys_buf S))
     (rb_inFlight (sys_buf S)) (rb_tail (sys_buf S)) (rb_done (sys_buf S)) (rb_seq (sys_buf S)) (sys_log S)"

lemma consistentD:
  assumes "consistent ds S"
  shows "ok (sys_store S)" "rising (sys_log S)"
    "\<And>g. g \<in> set (ds @ rb_packs (sys_buf S)) \<Longrightarrow> \<exists>fs. fs \<noteq> [] \<and> g = segment_of fs"
    "sys_stored S \<Longrightarrow> rb_packs (sys_buf S) \<noteq> []"
    "sys_log S = concat (map payload ds) @ concat (map payload (rb_packs (sys_buf S))) @ rb_tail (sys_buf S)"
    "\<And>f. f \<in> set (sys_log S) \<Longrightarrow> 0 < f_seq f"
  using assms unfolding consistent_def parts_ok_def by blast+

definition good :: "'s rb_sys \<Rightarrow> bool" where
  "good S \<longleftrightarrow> sys_failed S = [] \<longrightarrow> (\<exists>ds. consistent ds S)"

text \<open>The read of a re-join, as frames: those of the settled segments and of the one just written.\<close>

lemma consistent_read:
  assumes c: "consistent ds S1"
  shows "framesOfSegments (read a (sys_store S1)) a = filter (\<lambda>f. f_seq f > a)
    (concat (map payload (ds @ (if sys_stored S1 then [hd (rb_packs (sys_buf S1))] else []))))"
proof -
  let ?h = "if sys_stored S1 then [hd (rb_packs (sys_buf S1))] else []"
  have small: "f_seq f \<le> seqTo g" if "g \<in> set (ds @ ?h)" "f \<in> set (payload g)" for f g
  proof -
    have g: "g \<in> set (ds @ rb_packs (sys_buf S1))" using that(1) consistentD(4) [OF c] by (auto split: if_splits)
    with consistentD(3) [OF c] obtain fs where fs: "fs \<noteq> []" "g = segment_of fs" by blast
    have "rising (concat (map payload (ds @ rb_packs (sys_buf S1))))"
      using consistentD(2) [OF c] unfolding consistentD(5) [OF c] map_append concat_append by (rule rising_init)
    then have "rising (payload g)" by (rule rising_part) (use g in force)
    with fs that(2) show ?thesis by (simp add: rising_last)
  qed
  have "read a (sys_store S1) = filter (\<lambda>t. seqTo t > a) (ds @ ?h)"
    using c read_after by (simp add: consistent_def parts_ok_def)
  moreover have "filter (\<lambda>f. f_seq f > a) (concat (map payload (filter (\<lambda>t. seqTo t > a) gs)))
      = filter (\<lambda>f. f_seq f > a) (concat (map payload gs))" if "set gs \<subseteq> set (ds @ ?h)" for gs
    using that
  proof (induction gs)
    case (Cons g gs)
    have "filter (\<lambda>f. f_seq f > a) (payload g) = []" if "\<not> seqTo g > a"
      using small [of g] Cons.prems that by (fastforce simp: filter_empty_conv)
    with Cons show ?case by auto
  qed simp
  ultimately show ?thesis by (simp add: framesOfSegments_concat)
qed

lemma consistent_join:
  assumes c: "consistent ds S1" and same: "consistent ds' S2"
    and packs: "rb_packs (sys_buf S2) = H' @ rest"
    and parts: "ds' @ H' = ds @ (if sys_stored S1 then [hd (rb_packs (sys_buf S1))] else [])"
  shows "join_replay (read a (sys_store S1)) a (sys_buf S2) = filter (\<lambda>f. f_seq f > a) (sys_log S2)"
proof -
  let ?h = "if sys_stored S1 then [hd (rb_packs (sys_buf S1))] else []"
  let ?P = "concat (map payload (ds @ ?h))"
  let ?Q = "concat (map payload rest) @ rb_tail (sys_buf S2)"
  let ?H = "concat (map payload H')"
  have log: "sys_log S2 = ?P @ ?Q"
  proof -
    have "sys_log S2 = concat (map payload (ds' @ H')) @ ?Q"
      using same packs by (simp add: consistent_def parts_ok_def)
    then show ?thesis unfolding parts .
  qed
  have "rising (sys_log S2)" using same unfolding consistent_def parts_ok_def by blast
  then have rP: "rising (?P @ ?Q)" unfolding log .
  have src: "concat (rb_inFlight (sys_buf S2)) @ rb_tail (sys_buf S2) = ?H @ ?Q"
    using same packs by (simp add: consistent_def parts_ok_def)
  have replay: "framesOfSegments (read a (sys_store S1)) a = filter (\<lambda>f. f_seq f > a) ?P" by (rule consistent_read [OF c])
  let ?l = "if filter (\<lambda>f. f_seq f > a) ?P \<noteq> [] then f_seq (last (filter (\<lambda>f. f_seq f > a) ?P)) else a"
  have "set H' \<subseteq> set (ds @ ?h)" unfolding parts [symmetric] by simp
  then have sub: "set ?H \<subseteq> set ?P" by fastforce
  note sp = replay_split [OF rP sub refl, where a = a]
  have t: "tailAfter ?l (sys_buf S2) = filter (\<lambda>f. f_seq f > ?l) (?H @ ?Q)"
  proof (rule tailAfter_pending [OF src])
    fix d assume d: "rb_done (sys_buf S2) = Some d" "f_seq d > ?l"
    have "d \<in> set (sys_log S2)" using d(1) same unfolding consistent_def parts_ok_def by blast
    then have "d \<in> set (?P @ ?Q)" unfolding log .
    from sp(2) [OF this d(2)] show "d \<in> set (?H @ ?Q)" by simp
  qed
  have "join_replay (read a (sys_store S1)) a (sys_buf S2) =
      filter (\<lambda>f. f_seq f > a) ?P @ tailAfter ?l (sys_buf S2)"
    by (simp only: join_replay_def Let_def replay)
  also have "\<dots> = filter (\<lambda>f. f_seq f > a) (?P @ ?Q)" unfolding t by (rule sp(1))
  finally show ?thesis by (simp only: log)
qed

lemma consistent_cong:
  assumes "consistent ds S" "rb_packs b = rb_packs (sys_buf S)" "rb_inFlight b = rb_inFlight (sys_buf S)"
    "rb_tail b = rb_tail (sys_buf S)" "rb_done b = rb_done (sys_buf S)" "rb_seq b = rb_seq (sys_buf S)"
  shows "consistent ds (S\<lparr>sys_buf := b\<rparr>)"
  using assms by (simp add: consistent_def)

lemma consistent_flush:
  assumes "consistent ds S"
  shows "consistent ds (S\<lparr>sys_buf := flush (sys_buf S)\<rparr>)"
proof (cases "rb_tail (sys_buf S) = []")
  case True
  then show ?thesis using assms by (simp add: flush_def Let_def consistent_cong)
next
  case False
  let ?t = "rb_tail (sys_buf S)"
  have f: "rb_packs (flush (sys_buf S)) = rb_packs (sys_buf S) @ [segment_of ?t]"
    "rb_inFlight (flush (sys_buf S)) = rb_inFlight (sys_buf S) @ [?t]" "rb_tail (flush (sys_buf S)) = []"
    "rb_done (flush (sys_buf S)) = rb_done (sys_buf S)" "rb_seq (flush (sys_buf S)) = rb_seq (sys_buf S)"
    using False by (simp_all add: flush_def Let_def segment_of_def)
  have "\<exists>fs. fs \<noteq> [] \<and> segment_of ?t = segment_of fs" using False by blast
  moreover have "hd (rb_packs (sys_buf S) @ [segment_of ?t]) = hd (rb_packs (sys_buf S))"
    if "rb_packs (sys_buf S) \<noteq> []" using that by simp
  ultimately show ?thesis using assms by (auto simp: consistent_def parts_ok_def f)
qed

lemma consistent_push:
  assumes "consistent ds S" "push opts ev c d (sys_buf S) = Some (f, b')"
  shows "consistent ds (S\<lparr>sys_log := sys_log S @ [f], sys_buf := b'\<rparr>)"
proof -
  let ?f = "\<lparr>f_seq = rb_seq (sys_buf S) + 1, f_event = ev, f_content = c, f_data = d\<rparr>"
  define b1 where "b1 = append_frame opts ?f (sys_buf S)"
  from assms(2) have b': "b' = flush b1 \<or> b' = b1 \<or> b' = b1\<lparr>rb_timer := True\<rparr>" and f: "f = ?f"
    by (auto simp: push_def Let_def b1_def split: if_splits)
  have b1: "rb_packs b1 = rb_packs (sys_buf S)" "rb_inFlight b1 = rb_inFlight (sys_buf S)"
    "rb_tail b1 = rb_tail (sys_buf S) @ [?f]" "rb_seq b1 = rb_seq (sys_buf S) + 1"
    "rb_done b1 = rb_done (sys_buf S) \<or> rb_done b1 = Some ?f"
    by (simp_all add: b1_def append_frame_def)
  have c1: "consistent ds (S\<lparr>sys_log := sys_log S @ [f], sys_buf := b1\<rparr>)"
  proof -
    have "rising (sys_log S @ [f])"
    proof (rule rising_snoc [OF consistentD(2) [OF assms(1)]])
      have "\<forall>x \<in> set (sys_log S). f_seq x \<le> rb_seq (sys_buf S)"
        using assms(1) unfolding consistent_def parts_ok_def by blast
      then show "\<forall>x \<in> set (sys_log S). f_seq x < f_seq f" by (simp add: f less_Suc_eq_le)
    qed
    moreover have "sys_log S @ [f] = concat (map payload ds) @ concat (map payload (rb_packs b1)) @ rb_tail b1"
      using consistentD(5) [OF assms(1)] b1 f by simp
    moreover have "d' \<in> set (sys_log S @ [f])" if "rb_done b1 = Some d'" for d'
    proof (cases "rb_done (sys_buf S) = Some d'")
      case True
      then have "d' \<in> set (sys_log S)" using assms(1) unfolding consistent_def parts_ok_def by blast
      then show ?thesis by simp
    qed (use that b1(5) f in auto)
    moreover have "0 < f_seq x \<and> f_seq x \<le> rb_seq b1" if "x \<in> set (sys_log S @ [f])" for x
    proof (cases "x \<in> set (sys_log S)")
      case True
      then have "0 < f_seq x \<and> f_seq x \<le> rb_seq (sys_buf S)"
        using assms(1) unfolding consistent_def parts_ok_def by blast
      then show ?thesis using b1(4) by simp
    qed (use that f b1(4) in simp)
    ultimately show ?thesis
      using assms(1) b1(1,2) unfolding consistent_def parts_ok_def by simp
  qed
  from b' consistent_flush [OF c1] consistent_cong [OF c1, of b1] consistent_cong [OF c1, of "b1\<lparr>rb_timer := True\<rparr>"]
  show ?thesis by auto
qed

lemma consistent_store:
  assumes "consistent ds S" "rb_packs (sys_buf S) = g # rest" "\<not> sys_stored S"
  shows "consistent ds (S\<lparr>sys_store := append g (sys_store S), sys_stored := True\<rparr>)"
proof -
  from consistentD(3) [OF assms(1), of g] assms(2) obtain fs where fs: "fs \<noteq> []" "g = segment_of fs"
    by auto
  from assms have r: "read 0 (sys_store S) = ds" "ok (sys_store S)" by (auto simp: consistent_def parts_ok_def)
  have "seqFrom t < seqFrom g" if "t \<in> set ds" for t
  proof -
    from consistentD(3) [OF assms(1), of t] that obtain ts where ts: "ts \<noteq> []" "t = segment_of ts"
      by auto
    have "rising (concat (map payload ds) @ concat (map payload (rb_packs (sys_buf S))))"
      using consistentD(2) [OF assms(1)] unfolding consistentD(5) [OF assms(1)] by (rule rising_init)
    moreover have "hd ts \<in> set (concat (map payload ds))"
      using that ts by (auto intro!: bexI [of _ "segment_of ts"])
    moreover have "hd fs \<in> set (concat (map payload (rb_packs (sys_buf S))))" using assms(2) fs by simp
    ultimately have "f_seq (hd ts) < f_seq (hd fs)" unfolding rising_append by blast
    with ts fs show ?thesis by simp
  qed
  moreover have "0 < seqTo g"
    using consistentD(6) [OF assms(1), of "last fs"] assms(2) fs unfolding consistentD(5) [OF assms(1)] by simp
  ultimately have "read 0 (append g (sys_store S)) = ds @ [g]"
    using append_read [OF r(2), of g] r(1) by simp
  with assms append_ok [OF r(2), of g] show ?thesis unfolding consistent_def parts_ok_def by auto
qed

lemma consistent_written:
  assumes "consistent ds S" "sys_stored S"
  shows "consistent (ds @ [hd (rb_packs (sys_buf S))]) (S\<lparr>sys_buf := pack_written (sys_buf S), sys_stored := False\<rparr>)"
  using assms by (cases "rb_packs (sys_buf S)") (auto simp: consistent_def parts_ok_def pack_written_def)

lemma step_good:
  assumes "buffer_step opts append S S'" "good S"
  shows "good S'"
  using assms
proof (induction rule: buffer_step.induct)
  case (step_push ev c d S f b')
  then show ?case using consistent_push by (fastforce simp: good_def)
next
  case (step_flush S)
  then show ?case using consistent_flush by (fastforce simp: good_def)
next
  case (step_timer S)
  have "consistent ds (S\<lparr>sys_buf := timer_fires (sys_buf S)\<rparr>)" if "consistent ds S" for ds
    using consistent_flush [OF consistent_cong [OF that, of "(sys_buf S)\<lparr>rb_timer := False\<rparr>"]]
    by (simp add: timer_fires_def)
  with step_timer show ?case by (fastforce simp: good_def)
next
  case (step_close S)
  let ?b = "(sys_buf S)\<lparr>rb_closed := True, rb_ended := rb_ended (sys_buf S) @ rb_subscribers (sys_buf S), rb_subscribers := []\<rparr>"
  have "consistent ds (S\<lparr>sys_buf := close (sys_buf S)\<rparr>)" if "consistent ds S" for ds
    using consistent_flush [OF consistent_cong [OF that, of ?b]] that
    by (simp add: close_def)
  with step_close show ?case by (fastforce simp: good_def)
next
  case (step_subscribe S u)
  have "consistent ds (S\<lparr>sys_buf := subscribe u (sys_buf S)\<rparr>)" if "consistent ds S" for ds
    by (rule consistent_cong [OF that]) (simp_all add: subscribe_def)
  with step_subscribe show ?case by (fastforce simp: good_def)
next
  case (step_unsubscribe S u)
  have "consistent ds (S\<lparr>sys_buf := unsubscribe u (sys_buf S)\<rparr>)" if "consistent ds S" for ds
    by (rule consistent_cong [OF that]) (simp_all add: unsubscribe_def)
  with step_unsubscribe show ?case by (fastforce simp: good_def)
next
  case (step_store S g rest)
  then show ?case using consistent_store by (fastforce simp: good_def)
next
  case (step_written S)
  then show ?case using consistent_written by (fastforce simp: good_def)
next
  case (step_failed S g rest)
  then show ?case by (simp add: good_def)
qed

lemma flush_packs: "\<exists>grown. rb_packs (flush b) = rb_packs b @ grown"
  by (simp add: flush_def Let_def)

lemma push_packs:
  assumes "push opts ev c d b = Some (f, b')"
  shows "\<exists>grown. rb_packs b' = rb_packs b @ grown"
proof -
  obtain fr where fr: "b' \<in> {flush (append_frame opts fr b), append_frame opts fr b,
      (append_frame opts fr b)\<lparr>rb_timer := True\<rparr>}"
    using assms by (auto simp: push_def Let_def split: if_splits)
  have "rb_packs (append_frame opts fr b) = rb_packs b" by (simp add: append_frame_def)
  with fr flush_packs [of "append_frame opts fr b"] show ?thesis by auto
qed

lemma window_other_keeps:
  assumes st: "buffer_step opts append S S'" "sys_stored S \<longrightarrow> sys_stored S'" "sys_failed S' = sys_failed S"
    and "consistent ds S"
  shows "consistent ds S' \<and> (\<exists>grown. rb_packs (sys_buf S') = rb_packs (sys_buf S) @ grown)"
proof -
  from st assms(4) show ?thesis
  proof (induction rule: buffer_step.induct)
    case (step_push ev c d S f b')
    have "\<exists>grown. rb_packs b' = rb_packs (sys_buf S) @ grown"
      using step_push(1) by (rule push_packs)
    then show ?case using consistent_push [OF step_push(4) step_push(1)] by simp
  next
    case (step_flush S)
    then show ?case using consistent_flush flush_packs by simp
  next
    case (step_timer S)
    have "consistent ds (S\<lparr>sys_buf := timer_fires (sys_buf S)\<rparr>)"
      using consistent_flush [OF consistent_cong [OF step_timer(4), of "(sys_buf S)\<lparr>rb_timer := False\<rparr>"]]
      by (simp add: timer_fires_def)
    then show ?case using flush_packs [of "(sys_buf S)\<lparr>rb_timer := False\<rparr>"] by (simp add: timer_fires_def)
  next
    case (step_close S)
    let ?b = "(sys_buf S)\<lparr>rb_closed := True, rb_ended := rb_ended (sys_buf S) @ rb_subscribers (sys_buf S), rb_subscribers := []\<rparr>"
    show ?case
      using consistent_flush [OF consistent_cong [OF step_close(3), of ?b]] step_close(3) flush_packs [of ?b]
      by (simp add: close_def)
  next
    case (step_subscribe S u)
    have "consistent ds (S\<lparr>sys_buf := subscribe u (sys_buf S)\<rparr>)"
      by (rule consistent_cong [OF step_subscribe(3)]) (simp_all add: subscribe_def)
    then show ?case by (simp add: subscribe_def)
  next
    case (step_unsubscribe S u)
    have "consistent ds (S\<lparr>sys_buf := unsubscribe u (sys_buf S)\<rparr>)"
      by (rule consistent_cong [OF step_unsubscribe(3)]) (simp_all add: unsubscribe_def)
    then show ?case by (simp add: unsubscribe_def)
  next
    case (step_store S g rest)
    then show ?case using consistent_store by simp
  qed simp_all
qed

text \<open>What has settled and what is pending, over the window.\<close>

definition in_window :: "packed_segment list \<Rightarrow> 's rb_sys \<Rightarrow> bool \<times> 's rb_sys \<Rightarrow> bool" where
  "in_window ds S1 x \<longleftrightarrow>
     (if fst x \<or> \<not> sys_stored S1 then fst x = sys_stored S1 \<and> consistent ds (snd x)
          \<and> (\<exists>grown. rb_packs (sys_buf (snd x)) = rb_packs (sys_buf S1) @ grown)
      else consistent (ds @ [hd (rb_packs (sys_buf S1))]) (snd x))"

lemma window_step_keeps:
  assumes "window_step opts append x y" "in_window ds S1 x" "consistent ds S1"
  shows "in_window ds S1 y"
  using assms(1)
proof cases
  case (window_settles S)
  have w: "sys_stored S1" "consistent ds S" "\<exists>grown. rb_packs (sys_buf S) = rb_packs (sys_buf S1) @ grown"
    using assms(2) window_settles by (auto simp: in_window_def)
  then have "hd (rb_packs (sys_buf S)) = hd (rb_packs (sys_buf S1))" using consistentD(4) [OF assms(3)] by auto
  with consistent_written [OF w(2) window_settles(3)] w(1) window_settles(2) show ?thesis by (simp add: in_window_def)
next
  case (window_other S S' old)
  have k: "consistent es S' \<and> (\<exists>grown. rb_packs (sys_buf S') = rb_packs (sys_buf S) @ grown)" if "consistent es S" for es
    by (rule window_other_keeps [OF window_other(3-5) that])
  show ?thesis
  proof (cases "old \<or> \<not> sys_stored S1")
    case True
    then obtain grown where w: "old = sys_stored S1" "consistent ds S" "rb_packs (sys_buf S) = rb_packs (sys_buf S1) @ grown"
      using assms(2) window_other(1) by (auto simp: in_window_def)
    from k [OF w(2)] w(1,3) True window_other(2) show ?thesis by (auto simp: in_window_def)
  next
    case False
    then have "consistent (ds @ [hd (rb_packs (sys_buf S1))]) S" using assms(2) window_other(1) by (simp add: in_window_def)
    with k [OF this] False window_other(2) show ?thesis by (simp add: in_window_def)
  qed
qed

lemma window_run_keeps:
  assumes "(window_step opts append)\<^sup>*\<^sup>* (sys_stored S1, S1) x" "consistent ds S1"
  shows "in_window ds S1 x"
  using assms(1)
proof (induction rule: rtranclp_induct)
  case base
  then show ?case using assms(2) by (simp add: in_window_def)
qed (use window_step_keeps assms(2) in blast)

lemma run_good:
  assumes "(buffer_step opts append)\<^sup>*\<^sup>* S S'" "good S"
  shows "good S'"
  using assms by (induction rule: rtranclp_induct) (auto intro: step_good)

lemma rejoin_complete:
  assumes "(buffer_step opts append)\<^sup>*\<^sup>* S0 S1" "good S0"
    and "(window_step opts append)\<^sup>*\<^sup>* (sys_stored S1, S1) (old, S2)" and "sys_failed S1 = []"
  shows "join_replay (read a (sys_store S1)) a (sys_buf S2) = filter (\<lambda>f. f_seq f > a) (sys_log S2)"
proof -
  obtain ds where c: "consistent ds S1" using run_good [OF assms(1,2)] assms(4) by (auto simp: good_def)
  have w: "in_window ds S1 (old, S2)" by (rule window_run_keeps [OF assms(3) c])
  show ?thesis
  proof (cases "old \<or> \<not> sys_stored S1")
    case True
    with w obtain grown where g: "consistent ds S2" "rb_packs (sys_buf S2) = rb_packs (sys_buf S1) @ grown"
      by (auto simp: in_window_def)
    show ?thesis
    proof (cases "sys_stored S1")
      case True
      with consistentD(4) [OF c] g(2)
      have "rb_packs (sys_buf S2) = [hd (rb_packs (sys_buf S1))] @ tl (rb_packs (sys_buf S1)) @ grown" by simp
      then show ?thesis by (rule consistent_join [OF c g(1)]) (simp add: True)
    qed (use consistent_join [OF c g(1), of "[]" "rb_packs (sys_buf S2)"] in simp)
  next
    case False
    with w have "consistent (ds @ [hd (rb_packs (sys_buf S1))]) S2" by (simp add: in_window_def)
    from consistent_join [OF c this, of "[]" "rb_packs (sys_buf S2)"] False show ?thesis by simp
  qed
qed

text \<open>What the read of a re-join finds, and what was not stored yet.\<close>

lemma stored_part:
  assumes "(buffer_step opts append)\<^sup>*\<^sup>* S0 S1" "good S0" "sys_failed S1 = []"
  shows "\<exists>ps qs. sys_log S1 = ps @ qs \<and> framesOfSegments (read a (sys_store S1)) a = filter (\<lambda>f. f_seq f > a) ps
    \<and> qs = concat (if sys_stored S1 then tl (rb_inFlight (sys_buf S1)) else rb_inFlight (sys_buf S1)) @ rb_tail (sys_buf S1)"
proof -
  obtain ds where c: "consistent ds S1" using run_good [OF assms(1,2)] assms(3) by (auto simp: good_def)
  let ?h = "if sys_stored S1 then [hd (rb_packs (sys_buf S1))] else []"
  let ?t = "if sys_stored S1 then tl (rb_packs (sys_buf S1)) else rb_packs (sys_buf S1)"
  have pk: "rb_packs (sys_buf S1) = ?h @ ?t" using consistentD(4) [OF c] by simp
  have bt: "rb_inFlight (sys_buf S1) = map payload (rb_packs (sys_buf S1))"
    using c unfolding consistent_def parts_ok_def by blast
  have "concat (map payload (rb_packs (sys_buf S1))) = concat (map payload ?h) @ concat (map payload ?t)"
    by (subst pk) (simp only: map_append concat_append)
  then have "sys_log S1 = concat (map payload (ds @ ?h)) @ concat (map payload ?t) @ rb_tail (sys_buf S1)"
    using consistentD(5) [OF c] by simp
  moreover have "concat (map payload ?t) = concat (if sys_stored S1 then tl (rb_inFlight (sys_buf S1)) else rb_inFlight (sys_buf S1))"
    by (simp add: bt map_tl)
  moreover have "framesOfSegments (read a (sys_store S1)) a = filter (\<lambda>f. f_seq f > a) (concat (map payload (ds @ ?h)))"
    by (rule consistent_read [OF c])
  ultimately show ?thesis by metis
qed

end

subsection \<open>The live tail\<close>

text \<open>A step that does not detach the subscriber \<open>u\<close>, unless it closes the buffer.\<close>

definition attached_step ::
  "rb_options \<Rightarrow> (packed_segment \<Rightarrow> 's \<Rightarrow> 's) \<Rightarrow> nat \<Rightarrow> 's rb_sys \<Rightarrow> 's rb_sys \<Rightarrow> bool" where
  "attached_step opts app u S S' \<longleftrightarrow> buffer_step opts app S S'
     \<and> (u \<in> set (rb_subscribers (sys_buf S)) \<longrightarrow>
          u \<in> set (rb_subscribers (sys_buf S')) \<or> rb_closed (sys_buf S'))"

definition following :: "nat \<Rightarrow> run_frame list \<Rightarrow> run_frame list \<Rightarrow> nat \<Rightarrow> 's rb_sys \<Rightarrow> bool" where
  "following u before log q S \<longleftrightarrow>
     (u \<in> set (rb_subscribers (sys_buf S)) \<or> rb_closed (sys_buf S)) \<and> q \<le> rb_seq (sys_buf S)
     \<and> (\<exists>ext. sys_log S = log @ ext \<and> rb_delivered (sys_buf S) u = before @ ext
          \<and> (\<forall>f \<in> set ext. q < f_seq f))"

lemma flush_simps [simp]:
  "rb_subscribers (flush b) = rb_subscribers b" "rb_closed (flush b) = rb_closed b"
  "rb_delivered (flush b) = rb_delivered b" "rb_seq (flush b) = rb_seq b"
  by (simp_all add: flush_def Let_def)

lemma push_simps:
  assumes "push opts ev c d b = Some (f, b')"
  shows "\<not> rb_closed b" "rb_subscribers b' = rb_subscribers b" "rb_closed b' = rb_closed b"
    "f_seq f = rb_seq b + 1" "rb_seq b' = rb_seq b + 1"
    "rb_delivered b' u = (if u \<in> set (rb_subscribers b) then rb_delivered b u @ [f] else rb_delivered b u)"
  using assms by (auto simp: push_def Let_def append_frame_def split: if_splits)

lemma attached_step_following:
  assumes "attached_step opts app u S S'" "following u before log q S"
  shows "following u before log q S'"
proof -
  from assms(1) have "buffer_step opts app S S'"
    "u \<in> set (rb_subscribers (sys_buf S)) \<longrightarrow> u \<in> set (rb_subscribers (sys_buf S')) \<or> rb_closed (sys_buf S')"
    by (auto simp: attached_step_def)
  then show ?thesis using assms(2)
  proof (induction rule: buffer_step.induct)
    case (step_push ev c d S f b')
    note ps = push_simps [OF step_push(1)]
    from step_push(3) ps(1) have "u \<in> set (rb_subscribers (sys_buf S))" by (auto simp: following_def)
    moreover from step_push(3) obtain ext where "sys_log S = log @ ext"
      "rb_delivered (sys_buf S) u = before @ ext" "\<forall>f \<in> set ext. q < f_seq f" "q \<le> rb_seq (sys_buf S)"
      unfolding following_def by blast
    ultimately show ?case using ps unfolding following_def
      by (auto intro!: exI [of _ "ext @ [f]"])
  next
    case (step_written S)
    then show ?case by (auto simp: following_def pack_written_def split: list.splits)
  next
    case (step_failed S g rest)
    then show ?case by (auto simp: following_def pack_failed_def split: list.splits)
  qed (auto simp: following_def timer_fires_def close_def subscribe_def unsubscribe_def)
qed

lemma attached_run_following:
  assumes "(attached_step opts app u)\<^sup>*\<^sup>* S S'" "following u before log q S"
  shows "following u before log q S'"
  using assms by (induction rule: rtranclp_induct) (auto intro: attached_step_following)

text \<open>Any run of the buffer only adds frames with new numbers.\<close>

lemma run_extends_log:
  assumes "(buffer_step opts app)\<^sup>*\<^sup>* S S'"
  shows "rb_seq (sys_buf S) \<le> rb_seq (sys_buf S') \<and> (\<exists>ext. sys_log S' = sys_log S @ ext \<and> (\<forall>f \<in> set ext. rb_seq (sys_buf S) < f_seq f))"
  using assms
proof (induction rule: rtranclp_induct)
  case (step y z)
  from step(2) have "rb_seq (sys_buf y) \<le> rb_seq (sys_buf z)
      \<and> (\<exists>ext. sys_log z = sys_log y @ ext \<and> (\<forall>f \<in> set ext. rb_seq (sys_buf y) < f_seq f))"
  proof cases
    case (step_push ev c d f b')
    then show ?thesis using push_simps(4,5) [OF step_push(2)] by simp
  qed (simp_all add: timer_fires_def close_def subscribe_def unsubscribe_def pack_written_def pack_failed_def split: list.split)
  then obtain e2 where e2: "sys_log z = sys_log y @ e2" "\<forall>f \<in> set e2. rb_seq (sys_buf y) < f_seq f"
    "rb_seq (sys_buf y) \<le> rb_seq (sys_buf z)" by blast
  from step(3) obtain e1 where e1: "sys_log y = sys_log S @ e1" "\<forall>f \<in> set e1. rb_seq (sys_buf S) < f_seq f"
    "rb_seq (sys_buf S) \<le> rb_seq (sys_buf y)" by blast
  have "sys_log z = sys_log S @ e1 @ e2" "\<forall>f \<in> set (e1 @ e2). rb_seq (sys_buf S) < f_seq f"
    using e1 e2 by fastforce+
  with e1(3) e2(3) show ?case by (metis order_trans)
qed simp

text \<open>A closed buffer whose packs have settled has nothing left but its \<open>done\<close> frame.\<close>

lemma settled_tail:
  assumes "rb_inFlight b = []" "rb_tail b = []" "\<And>d. rb_done b = Some d \<Longrightarrow> f_event d = ''done''"
  shows "filter (\<lambda>f. f_event f \<noteq> ''done'') (tailAfter a b) = []"
  using assms by (auto simp: tailAfter_def split: option.split)

lemma join_result_ended:
  assumes "rb_inFlight b = []" "rb_tail b = []" "\<And>d. rb_done b = Some d \<Longrightarrow> f_event d = ''done''"
  shows "join_result True False segments after b = (filter (\<lambda>f. f_event f \<noteq> ''done'') (framesOfSegments segments after), False)"
  using settled_tail [OF assms] by (simp add: join_result_def join_replay_def Let_def)

definition done_is_done :: "run_buffer \<Rightarrow> bool" where
  "done_is_done b \<longleftrightarrow> (\<forall>d. rb_done b = Some d \<longrightarrow> f_event d = ''done'')"

lemma run_done_is_done:
  assumes "(buffer_step opts app)\<^sup>*\<^sup>* S S'" "done_is_done (sys_buf S)"
  shows "done_is_done (sys_buf S')"
  using assms
proof (induction rule: rtranclp_induct)
  case (step y z)
  then have "done_is_done (sys_buf y)" by blast
  with step(2) show ?case
    by (induction rule: buffer_step.induct)
      (auto simp: done_is_done_def push_def append_frame_def Let_def flush_def timer_fires_def close_def subscribe_def
        unsubscribe_def pack_written_def pack_failed_def split: if_splits list.splits)
qed

end
