(* ===== verification/Run_Store.thy ===== *)
theory Run_Store
  imports Run_Buffer "HOL-Library.Char_ord" "HOL-Library.List_Lexorder" "HOL-Library.Product_Lexorder"
begin

text \<open>
  \<open>packages/oracle-runtime-workers/src/do/run-store.ts\<close>: the durable record of every turn. Each
  SQL table is the list of its rows in rowid order, each statement a function on it; a timestamp is
  the millisecond it prints (ISO strings of four-digit years compare like the times they print).
  The pure decisions of the file (patching a record, progress, recovery) come first.
\<close>

subsection \<open>Records\<close>

datatype run_status = Queued | Running | Recovering | Finished | Aborted | Interrupted | Failed

datatype run_client = Portal | Matrix | Channel

record run_record =
  runId :: string
  sessionId :: string
  requestId :: string
  client :: run_client
  status :: run_status
  startedAt :: int
  updatedAt :: int
  request :: string
  attempts :: nat
  generation :: nat
  nextAttemptAt :: "int option"
  checkpointId :: "string option"
  startCheckpointId :: "string option"
  startRecorded :: bool
  lastSeq :: nat
  partialText :: "string option"
  messageId :: "string option"
  run_error :: "string option"
  taskRunId :: "string option"
  instanceId :: string
  run_usage :: "string option"

text \<open>A patch: an absent field is \<open>None\<close> (\<open>undefined\<close>); for a nullable column \<open>Some None\<close> is null.\<close>

record run_patch =
  p_status :: "run_status option"
  p_attempts :: "nat option"
  p_generation :: "nat option"
  p_nextAttemptAt :: "int option option"
  p_checkpointId :: "string option option"
  p_startCheckpointId :: "string option option"
  p_lastSeq :: "nat option"
  p_partialText :: "string option option"
  p_messageId :: "string option option"
  p_error :: "string option option"
  p_taskRunId :: "string option option"
  p_instanceId :: "string option"
  p_usage :: "string option option"
  p_request :: "string option"

definition no_patch :: run_patch where
  "no_patch = \<lparr>p_status = None, p_attempts = None, p_generation = None, p_nextAttemptAt = None,
     p_checkpointId = None, p_startCheckpointId = None, p_lastSeq = None, p_partialText = None,
     p_messageId = None, p_error = None, p_taskRunId = None, p_instanceId = None, p_usage = None,
     p_request = None\<rparr>"

definition given :: "'a option \<Rightarrow> ('a \<Rightarrow> 'r \<Rightarrow> 'r) \<Rightarrow> 'r \<Rightarrow> 'r" where
  "given v set_field r = (case v of None \<Rightarrow> r | Some x \<Rightarrow> set_field x r)"

definition patchRunRecord :: "run_record \<Rightarrow> run_patch \<Rightarrow> int \<Rightarrow> run_record" where
  "patchRunRecord record p at =
    given (p_request p) (\<lambda>v r. r\<lparr>request := v\<rparr>)
    (given (p_usage p) (\<lambda>v r. r\<lparr>run_usage := v\<rparr>)
    (given (p_instanceId p) (\<lambda>v r. r\<lparr>instanceId := v\<rparr>)
    (given (p_taskRunId p) (\<lambda>v r. r\<lparr>taskRunId := v\<rparr>)
    (given (p_error p) (\<lambda>v r. r\<lparr>run_error := v\<rparr>)
    (given (p_messageId p) (\<lambda>v r. r\<lparr>messageId := v\<rparr>)
    (given (p_partialText p) (\<lambda>v r. r\<lparr>partialText := v\<rparr>)
    (given (p_lastSeq p) (\<lambda>v r. r\<lparr>lastSeq := v\<rparr>)
    (given (p_startCheckpointId p) (\<lambda>v r. r\<lparr>startCheckpointId := v, startRecorded := True\<rparr>)
    (given (p_checkpointId p) (\<lambda>v r. r\<lparr>checkpointId := v\<rparr>)
    (given (p_nextAttemptAt p) (\<lambda>v r. r\<lparr>nextAttemptAt := v\<rparr>)
    (given (p_generation p) (\<lambda>v r. r\<lparr>generation := v\<rparr>)
    (given (p_attempts p) (\<lambda>v r. r\<lparr>attempts := v\<rparr>)
    (given (p_status p) (\<lambda>v r. r\<lparr>status := v\<rparr>)
    (record\<lparr>updatedAt := at\<rparr>))))))))))))))"

subsection \<open>Decisions\<close>

definition SEQ_ATTEMPT_SPAN :: nat where
  "SEQ_ATTEMPT_SPAN = 2 ^ 32"

definition attemptSeqBase :: "nat \<Rightarrow> nat" where
  "attemptSeqBase g = g * SEQ_ATTEMPT_SPAN"


definition ACTIVE_RUN_STATUSES :: "run_status list" where
  "ACTIVE_RUN_STATUSES = [Queued, Running, Recovering]"

record durability_config =
  keepAliveMs :: int
  segmentFlushMs :: int
  segmentBytes :: int
  recoveryAttempts :: nat
  recoveryTotalAttempts :: nat
  recoveryDelaysMs :: "int list"
  enqueueDefault :: bool

text \<open>
  \<open>runDurabilityConfig\<close> reads numbers with \<open>Number\<close>: \<open>env\<close> gives the finite number (rounded down)
  a variable holds, with its sign known before rounding, or nothing.
\<close>

definition env_int :: "(string \<Rightarrow> int option) \<Rightarrow> string \<Rightarrow> int \<Rightarrow> int \<Rightarrow> int" where
  "env_int env key fallback low = (case env key of Some n \<Rightarrow> if n \<ge> low then n else fallback | None \<Rightarrow> fallback)"

definition DEFAULT_RECOVERY_DELAYS_MS :: "int list" where
  "DEFAULT_RECOVERY_DELAYS_MS = [5000, 15000, 30000, 60000]"

definition runDurabilityConfig :: "(string \<Rightarrow> int option) \<Rightarrow> int list \<Rightarrow> string option \<Rightarrow> durability_config" where
  "runDurabilityConfig env delaysRaw multitask =
    (let delays = filter (\<lambda>n. n \<ge> 0) delaysRaw in
     \<lparr>keepAliveMs = env_int env ''RUN_KEEPALIVE_MS'' 20000 1000,
      segmentFlushMs = env_int env ''RUN_SEGMENT_FLUSH_MS'' 2000 100,
      segmentBytes = env_int env ''RUN_SEGMENT_BYTES'' (16 * 1024) 1024,
      recoveryAttempts = nat (env_int env ''RUN_RECOVERY_ATTEMPTS'' 4 0),
      recoveryTotalAttempts = nat (env_int env ''RUN_RECOVERY_TOTAL_ATTEMPTS'' 8 0),
      recoveryDelaysMs = (if delays \<noteq> [] then delays else DEFAULT_RECOVERY_DELAYS_MS),
      enqueueDefault = (multitask = Some ''enqueue'')\<rparr>)"

definition checkpointAdvanced :: "string option \<Rightarrow> string option \<Rightarrow> bool" where
  "checkpointAdvanced since current \<longleftrightarrow> current \<noteq> None \<and> current \<noteq> since"

definition runHasCheckpointed :: "run_record \<Rightarrow> string option \<Rightarrow> bool" where
  "runHasCheckpointed run current \<longleftrightarrow>
     \<not> startRecorded run \<or> checkpointAdvanced (startCheckpointId run) current"

datatype interrupt_reason = NoProgress | Total

datatype recovery_decision = Schedule int nat | Interrupt nat interrupt_reason

text \<open>\<open>delays[Math.min(spent, delays.length - 1)] ?? 0\<close>.\<close>

definition recovery_delay :: "int list \<Rightarrow> nat \<Rightarrow> int" where
  "recovery_delay delays spent =
    (let i = min (int spent) (int (length delays) - 1) in if 0 \<le> i then delays ! nat i else 0)"

definition decideRecovery :: "run_record \<Rightarrow> string option \<Rightarrow> int \<Rightarrow> durability_config \<Rightarrow> recovery_decision" where
  "decideRecovery run current now cfg =
    (let progressed = checkpointAdvanced (checkpointId run) current;
         spent = (if progressed then 0 else attempts run) in
     if spent \<ge> recoveryAttempts cfg then Interrupt spent NoProgress
     else Schedule (now + recovery_delay (recoveryDelaysMs cfg) spent) (spent + 1))"

definition decideOrphanRecovery :: "run_record \<Rightarrow> string option \<Rightarrow> int \<Rightarrow> durability_config \<Rightarrow> recovery_decision" where
  "decideOrphanRecovery run current now cfg =
    (if generation run \<ge> recoveryTotalAttempts cfg then Interrupt (attempts run) Total
     else decideRecovery run current now cfg)"

subsection \<open>The tables\<close>

datatype tool_effect = ReadEffect | WriteEffect

record tool_mark =
  m_runId :: string
  m_toolCallId :: string
  m_toolName :: string
  m_effect :: tool_effect
  m_startedAt :: int
  m_doneAt :: "int option"
  m_outcome :: "string option"
  m_attempts :: nat
  m_sentAt :: "int option"

datatype claim_state = Pending | Warned

record write_claim =
  c_fingerprint :: string
  c_toolName :: string
  c_runId :: string
  c_sessionId :: string
  c_startedAt :: int
  c_state :: claim_state

record tombstone =
  t_runId :: string
  t_status :: run_status
  t_prunedAt :: int

record run_db =
  turn_runs :: "run_record list"
  run_segments :: "(string \<times> packed_segment) list"
  tool_marks :: "tool_mark list"
  write_claims :: "write_claim list"
  tombstones :: "tombstone list"
  run_plans :: "(string \<times> string) list"
  channel_requests :: "(string \<times> string) list"

definition is_active :: "run_record \<Rightarrow> bool" where
  "is_active r \<longleftrightarrow> status r \<in> set ACTIVE_RUN_STATUSES"

subsection \<open>Runs\<close>

record create_input =
  ci_runId :: string
  ci_sessionId :: string
  ci_requestId :: string
  ci_client :: run_client
  ci_queued :: bool
  ci_request :: string
  ci_checkpointId :: "string option"
  ci_taskRunId :: "string option"
  ci_instanceId :: string

definition new_record :: "create_input \<Rightarrow> int \<Rightarrow> run_record" where
  "new_record i at = \<lparr>runId = ci_runId i, sessionId = ci_sessionId i, requestId = ci_requestId i,
     client = ci_client i, status = (if ci_queued i then Queued else Running), startedAt = at,
     updatedAt = at, request = ci_request i, attempts = 0, generation = 0, nextAttemptAt = None,
     checkpointId = ci_checkpointId i, startCheckpointId = ci_checkpointId i, startRecorded = True,
     lastSeq = 0, partialText = None, messageId = None, run_error = None,
     taskRunId = ci_taskRunId i, instanceId = ci_instanceId i, run_usage = None\<rparr>"

text \<open>\<open>create\<close>; \<open>None\<close> is the primary-key violation.\<close>

definition create_run :: "create_input \<Rightarrow> int \<Rightarrow> run_db \<Rightarrow> (run_record \<times> run_db) option" where
  "create_run i now db =
    (if \<exists>r \<in> set (turn_runs db). runId r = ci_runId i then None
     else Some (new_record i now, db\<lparr>turn_runs := turn_runs db @ [new_record i now]\<rparr>))"

definition get_run :: "string \<Rightarrow> run_db \<Rightarrow> run_record option" where
  "get_run rid db = List.find (\<lambda>r. runId r = rid) (turn_runs db)"

fun first_of :: "'a list \<Rightarrow> 'a option" where
  "first_of [] = None"
| "first_of (x # xs) = Some x"

definition getByRequestId :: "string \<Rightarrow> run_db \<Rightarrow> run_record option" where
  "getByRequestId q db = first_of (sort_key (\<lambda>r. - startedAt r) (filter (\<lambda>r. requestId r = q) (turn_runs db)))"

definition status_rank :: "run_status \<Rightarrow> nat" where
  "status_rank s = (case s of Running \<Rightarrow> 0 | Recovering \<Rightarrow> 1 | _ \<Rightarrow> 2)"

definition activeRunForSession :: "string \<Rightarrow> run_db \<Rightarrow> run_record option" where
  "activeRunForSession sid db =
    first_of (sort_key (\<lambda>r. (status_rank (status r), startedAt r))
      (filter (\<lambda>r. sessionId r = sid \<and> is_active r) (turn_runs db)))"

definition listActive :: "run_db \<Rightarrow> run_record list" where
  "listActive db = sort_key (\<lambda>r. (startedAt r, runId r)) (filter is_active (turn_runs db))"

definition queuedForSession :: "string \<Rightarrow> run_db \<Rightarrow> run_record list" where
  "queuedForSession sid db =
    sort_key startedAt (filter (\<lambda>r. sessionId r = sid \<and> status r = Queued) (turn_runs db))"

definition listRecent :: "nat \<Rightarrow> run_db \<Rightarrow> run_record list" where
  "listRecent limit db = take limit (sort_key (\<lambda>r. - startedAt r) (turn_runs db))"

text \<open>
  \<open>update\<close> builds one \<open>SET\<close> clause per entry of the patch, in the patch's own order; the columns are
  distinct, so the order does not matter.
\<close>

datatype column_value =
    SetStatus run_status | SetAttempts nat | SetGeneration nat | SetNextAttemptAt "int option"
  | SetCheckpointId "string option" | SetStartCheckpointId "string option" | SetLastSeq nat
  | SetPartialText "string option" | SetMessageId "string option" | SetError "string option"
  | SetTaskRunId "string option" | SetInstanceId string | SetUsage "string option" | SetRequest string
  | SetStartRecorded | SetUpdatedAt int

fun set_column :: "column_value \<Rightarrow> run_record \<Rightarrow> run_record" where
  "set_column (SetStatus v) r = r\<lparr>status := v\<rparr>"
| "set_column (SetAttempts v) r = r\<lparr>attempts := v\<rparr>"
| "set_column (SetGeneration v) r = r\<lparr>generation := v\<rparr>"
| "set_column (SetNextAttemptAt v) r = r\<lparr>nextAttemptAt := v\<rparr>"
| "set_column (SetCheckpointId v) r = r\<lparr>checkpointId := v\<rparr>"
| "set_column (SetStartCheckpointId v) r = r\<lparr>startCheckpointId := v\<rparr>"
| "set_column (SetLastSeq v) r = r\<lparr>lastSeq := v\<rparr>"
| "set_column (SetPartialText v) r = r\<lparr>partialText := v\<rparr>"
| "set_column (SetMessageId v) r = r\<lparr>messageId := v\<rparr>"
| "set_column (SetError v) r = r\<lparr>run_error := v\<rparr>"
| "set_column (SetTaskRunId v) r = r\<lparr>taskRunId := v\<rparr>"
| "set_column (SetInstanceId v) r = r\<lparr>instanceId := v\<rparr>"
| "set_column (SetUsage v) r = r\<lparr>run_usage := v\<rparr>"
| "set_column (SetRequest v) r = r\<lparr>request := v\<rparr>"
| "set_column SetStartRecorded r = r\<lparr>startRecorded := True\<rparr>"
| "set_column (SetUpdatedAt v) r = r\<lparr>updatedAt := v\<rparr>"

definition patch_columns :: "run_patch \<Rightarrow> column_value list" where
  "patch_columns p =
     map SetStatus (case p_status p of None \<Rightarrow> [] | Some v \<Rightarrow> [v])
    @ map SetAttempts (case p_attempts p of None \<Rightarrow> [] | Some v \<Rightarrow> [v])
    @ map SetGeneration (case p_generation p of None \<Rightarrow> [] | Some v \<Rightarrow> [v])
    @ map SetNextAttemptAt (case p_nextAttemptAt p of None \<Rightarrow> [] | Some v \<Rightarrow> [v])
    @ map SetCheckpointId (case p_checkpointId p of None \<Rightarrow> [] | Some v \<Rightarrow> [v])
    @ map SetStartCheckpointId (case p_startCheckpointId p of None \<Rightarrow> [] | Some v \<Rightarrow> [v])
    @ map SetLastSeq (case p_lastSeq p of None \<Rightarrow> [] | Some v \<Rightarrow> [v])
    @ map SetPartialText (case p_partialText p of None \<Rightarrow> [] | Some v \<Rightarrow> [v])
    @ map SetMessageId (case p_messageId p of None \<Rightarrow> [] | Some v \<Rightarrow> [v])
    @ map SetError (case p_error p of None \<Rightarrow> [] | Some v \<Rightarrow> [v])
    @ map SetTaskRunId (case p_taskRunId p of None \<Rightarrow> [] | Some v \<Rightarrow> [v])
    @ map SetInstanceId (case p_instanceId p of None \<Rightarrow> [] | Some v \<Rightarrow> [v])
    @ map SetUsage (case p_usage p of None \<Rightarrow> [] | Some v \<Rightarrow> [v])
    @ map SetRequest (case p_request p of None \<Rightarrow> [] | Some v \<Rightarrow> [v])"

definition update_run :: "string \<Rightarrow> run_patch \<Rightarrow> int \<Rightarrow> run_db \<Rightarrow> int \<times> run_db" where
  "update_run rid p now db =
    (let sets = SetUpdatedAt now # patch_columns p
           @ (if p_startCheckpointId p \<noteq> None then [SetStartRecorded] else [])
     in (now, db\<lparr>turn_runs := map (\<lambda>r. if runId r = rid then fold set_column sets r else r) (turn_runs db)\<rparr>))"

subsection \<open>Segments\<close>

definition appendSegment :: "string \<Rightarrow> packed_segment \<Rightarrow> run_db \<Rightarrow> run_db" where
  "appendSegment rid g db =
    db\<lparr>run_segments := filter (\<lambda>x. \<not> (fst x = rid \<and> seqFrom (snd x) = seqFrom g)) (run_segments db) @ [(rid, g)]\<rparr>"

definition readSegments :: "string \<Rightarrow> nat \<Rightarrow> run_db \<Rightarrow> packed_segment list" where
  "readSegments rid after db =
    sort_key seqFrom (map snd (filter (\<lambda>x. fst x = rid \<and> seqTo (snd x) > after) (run_segments db)))"

definition countSegments :: "string \<Rightarrow> run_db \<Rightarrow> nat" where
  "countSegments rid db = length (filter (\<lambda>x. fst x = rid) (run_segments db))"

definition deleteSegments :: "string \<Rightarrow> run_db \<Rightarrow> run_db" where
  "deleteSegments rid db = db\<lparr>run_segments := filter (\<lambda>x. fst x \<noteq> rid) (run_segments db)\<rparr>"

text \<open>\<open>close\<close>: the terminal row and the cutover in one transaction.\<close>

definition close_run :: "string \<Rightarrow> run_patch \<Rightarrow> int \<Rightarrow> run_db \<Rightarrow> int \<times> run_db" where
  "close_run rid p now db = (let (at, db1) = update_run rid p now db in (at, deleteSegments rid db1))"

subsection \<open>Tool marks\<close>

definition getMark :: "string \<Rightarrow> string \<Rightarrow> run_db \<Rightarrow> tool_mark option" where
  "getMark rid call db = List.find (\<lambda>m. m_runId m = rid \<and> m_toolCallId m = call) (tool_marks db)"

definition startMark ::
  "string \<Rightarrow> string \<Rightarrow> string \<Rightarrow> tool_effect \<Rightarrow> int \<Rightarrow> run_db \<Rightarrow> tool_mark option \<times> run_db" where
  "startMark rid call name effect now db =
    (case getMark rid call db of
       Some m \<Rightarrow> (Some m, db)
     | None \<Rightarrow> (None, db\<lparr>tool_marks := tool_marks db @
         [\<lparr>m_runId = rid, m_toolCallId = call, m_toolName = name, m_effect = effect, m_startedAt = now,
           m_doneAt = None, m_outcome = None, m_attempts = 1, m_sentAt = None\<rparr>]\<rparr>))"

definition update_marks :: "string \<Rightarrow> string \<Rightarrow> (tool_mark \<Rightarrow> tool_mark) \<Rightarrow> run_db \<Rightarrow> run_db" where
  "update_marks rid call f db =
    db\<lparr>tool_marks := map (\<lambda>m. if m_runId m = rid \<and> m_toolCallId m = call then f m else m) (tool_marks db)\<rparr>"

definition bumpMark :: "string \<Rightarrow> string \<Rightarrow> int \<Rightarrow> run_db \<Rightarrow> run_db" where
  "bumpMark rid call now = update_marks rid call (\<lambda>m. m\<lparr>m_attempts := m_attempts m + 1,
     m_startedAt := now, m_doneAt := None, m_outcome := None, m_sentAt := None\<rparr>)"

definition markSent :: "string \<Rightarrow> string \<Rightarrow> int \<Rightarrow> run_db \<Rightarrow> run_db" where
  "markSent rid call now = update_marks rid call (\<lambda>m. m\<lparr>m_sentAt := Some now\<rparr>)"

definition finishMark :: "string \<Rightarrow> string \<Rightarrow> string \<Rightarrow> int \<Rightarrow> run_db \<Rightarrow> run_db" where
  "finishMark rid call outcome now = update_marks rid call (\<lambda>m. m\<lparr>m_doneAt := Some now, m_outcome := Some outcome\<rparr>)"

definition listMarks :: "string \<Rightarrow> run_db \<Rightarrow> tool_mark list" where
  "listMarks rid db = sort_key m_startedAt (filter (\<lambda>m. m_runId m = rid) (tool_marks db))"

subsection \<open>Write claims\<close>

datatype claim_result = Claimed | Blocked string int

definition getClaim :: "string \<Rightarrow> run_db \<Rightarrow> write_claim option" where
  "getClaim fp db = List.find (\<lambda>c. c_fingerprint c = fp) (write_claims db)"

definition owner_active :: "write_claim \<Rightarrow> run_db \<Rightarrow> bool" where
  "owner_active c db \<longleftrightarrow> (\<exists>r \<in> set (turn_runs db). runId r = c_runId c \<and> is_active r)"

text \<open>
  \<open>claimWrite\<close> is three statements with awaits between them, each atomic on the connection: the insert,
  the read, and one of two updates. A call in progress is its input and what it does next.
\<close>

record claim_input =
  cl_fingerprint :: string
  cl_toolName :: string
  cl_runId :: string
  cl_sessionId :: string

datatype claim_stage = Inserting | Reading | Taking | Warning string int | Answered claim_result

definition claim_row :: "claim_input \<Rightarrow> int \<Rightarrow> write_claim" where
  "claim_row i now = \<lparr>c_fingerprint = cl_fingerprint i, c_toolName = cl_toolName i, c_runId = cl_runId i,
     c_sessionId = cl_sessionId i, c_startedAt = now, c_state = Pending\<rparr>"

definition claim_insert :: "claim_input \<Rightarrow> int \<Rightarrow> run_db \<Rightarrow> claim_stage \<times> run_db" where
  "claim_insert i now db =
    (if getClaim (cl_fingerprint i) db = None
     then (Answered Claimed, db\<lparr>write_claims := write_claims db @ [claim_row i now]\<rparr>)
     else (Reading, db))"

definition claim_read :: "claim_input \<Rightarrow> run_db \<Rightarrow> claim_stage" where
  "claim_read i db =
    (case getClaim (cl_fingerprint i) db of
       None \<Rightarrow> Answered Claimed
     | Some existing \<Rightarrow>
         if c_state existing = Warned \<and> c_runId existing \<noteq> cl_runId i then Taking
         else if c_state existing = Pending then Warning (c_toolName existing) (c_startedAt existing)
         else Answered (Blocked (c_toolName existing) (c_startedAt existing)))"

definition claim_take :: "claim_input \<Rightarrow> int \<Rightarrow> run_db \<Rightarrow> run_db" where
  "claim_take i now db = db\<lparr>write_claims := map (\<lambda>c. if c_fingerprint c = cl_fingerprint i
     then c\<lparr>c_runId := cl_runId i, c_sessionId := cl_sessionId i, c_startedAt := now, c_state := Pending\<rparr> else c) (write_claims db)\<rparr>"

definition claim_warn :: "claim_input \<Rightarrow> run_db \<Rightarrow> run_db" where
  "claim_warn i db = db\<lparr>write_claims := map (\<lambda>c. if c_fingerprint c = cl_fingerprint i \<and> c_state c = Pending
       \<and> (c_runId c = cl_runId i \<or> \<not> owner_active c db)
     then c\<lparr>c_state := Warned, c_runId := cl_runId i\<rparr> else c) (write_claims db)\<rparr>"

fun claimWrite :: "claim_input \<Rightarrow> int \<Rightarrow> claim_stage \<Rightarrow> run_db \<Rightarrow> claim_stage \<times> run_db" where
  "claimWrite i now Inserting db = claim_insert i now db"
| "claimWrite i now Reading db = (claim_read i db, db)"
| "claimWrite i now Taking db = (Answered Claimed, claim_take i now db)"
| "claimWrite i now (Warning tool since) db = (Answered (Blocked tool since), claim_warn i db)"
| "claimWrite i now (Answered r) db = (Answered r, db)"

definition releaseWrite :: "string \<Rightarrow> string \<Rightarrow> run_db \<Rightarrow> run_db" where
  "releaseWrite fp rid db =
    db\<lparr>write_claims := filter (\<lambda>c. \<not> (c_fingerprint c = fp \<and> c_runId c = rid)) (write_claims db)\<rparr>"

definition listClaims :: "run_db \<Rightarrow> write_claim list" where
  "listClaims db = sort_key c_startedAt (write_claims db)"

subsection \<open>Plans, tombstones, pruning\<close>

definition setPlan :: "string \<Rightarrow> string \<Rightarrow> run_db \<Rightarrow> run_db" where
  "setPlan rid plan db = db\<lparr>run_plans := filter (\<lambda>x. fst x \<noteq> rid) (run_plans db) @ [(rid, plan)]\<rparr>"




definition pruneChannelTombstones :: "int \<Rightarrow> nat \<Rightarrow> run_db \<Rightarrow> nat \<times> run_db" where
  "pruneChannelTombstones before limit db =
    (let gone = take limit (filter (\<lambda>t. t_prunedAt t < before) (tombstones db))
     in (length gone, db\<lparr>tombstones := filter (\<lambda>t. t_runId t \<notin> t_runId ` set gone) (tombstones db)\<rparr>))"


subsection \<open>The row a patch leaves\<close>

definition db_keys :: "run_db \<Rightarrow> bool" where
  "db_keys db \<longleftrightarrow> distinct (map runId (turn_runs db)) \<and> distinct (map c_fingerprint (write_claims db))
     \<and> distinct (map (\<lambda>x. (fst x, seqFrom (snd x))) (run_segments db))"

lemma columns_keep_key [simp]: "runId (fold set_column sets r) = runId r \<longleftrightarrow> True"
proof -
  have "runId (set_column c r) = runId r" for c r by (cases c) simp_all
  then show ?thesis by (induction sets arbitrary: r) simp_all
qed

lemma given_simps [simp]: "given None f r = r" "given (Some v) f r = f v r"
  by (simp_all add: given_def)

lemma set_column_fun:
  "set_column (SetStatus a) = (\<lambda>r. r\<lparr>status := a\<rparr>)"
  "set_column (SetAttempts n) = (\<lambda>r. r\<lparr>attempts := n\<rparr>)"
  "set_column (SetGeneration n) = (\<lambda>r. r\<lparr>generation := n\<rparr>)"
  "set_column (SetNextAttemptAt t) = (\<lambda>r. r\<lparr>nextAttemptAt := t\<rparr>)"
  "set_column (SetCheckpointId cc) = (\<lambda>r. r\<lparr>checkpointId := cc\<rparr>)"
  "set_column (SetStartCheckpointId cc) = (\<lambda>r. r\<lparr>startCheckpointId := cc\<rparr>)"
  "set_column (SetLastSeq n) = (\<lambda>r. r\<lparr>lastSeq := n\<rparr>)"
  "set_column (SetPartialText cc) = (\<lambda>r. r\<lparr>partialText := cc\<rparr>)"
  "set_column (SetMessageId cc) = (\<lambda>r. r\<lparr>messageId := cc\<rparr>)"
  "set_column (SetError cc) = (\<lambda>r. r\<lparr>run_error := cc\<rparr>)"
  "set_column (SetTaskRunId cc) = (\<lambda>r. r\<lparr>taskRunId := cc\<rparr>)"
  "set_column (SetInstanceId s) = (\<lambda>r. r\<lparr>instanceId := s\<rparr>)"
  "set_column (SetUsage cc) = (\<lambda>r. r\<lparr>run_usage := cc\<rparr>)"
  "set_column (SetRequest s) = (\<lambda>r. r\<lparr>request := s\<rparr>)"
  by (rule ext, simp)+

lemma fold_given:
  "fold set_column (map C (case v of None \<Rightarrow> [] | Some x \<Rightarrow> [x])) r = given v (\<lambda>x. set_column (C x)) r"
  by (simp add: given_def split: option.split)

lemma given_startRecorded:
  "given a (\<lambda>v r. r\<lparr>lastSeq := v\<rparr>) (r\<lparr>startRecorded := b\<rparr>) = (given a (\<lambda>v r. r\<lparr>lastSeq := v\<rparr>) r)\<lparr>startRecorded := b\<rparr>"
  "given c (\<lambda>v r. r\<lparr>partialText := v\<rparr>) (r\<lparr>startRecorded := b\<rparr>) = (given c (\<lambda>v r. r\<lparr>partialText := v\<rparr>) r)\<lparr>startRecorded := b\<rparr>"
  "given c (\<lambda>v r. r\<lparr>messageId := v\<rparr>) (r\<lparr>startRecorded := b\<rparr>) = (given c (\<lambda>v r. r\<lparr>messageId := v\<rparr>) r)\<lparr>startRecorded := b\<rparr>"
  "given c (\<lambda>v r. r\<lparr>run_error := v\<rparr>) (r\<lparr>startRecorded := b\<rparr>) = (given c (\<lambda>v r. r\<lparr>run_error := v\<rparr>) r)\<lparr>startRecorded := b\<rparr>"
  "given c (\<lambda>v r. r\<lparr>taskRunId := v\<rparr>) (r\<lparr>startRecorded := b\<rparr>) = (given c (\<lambda>v r. r\<lparr>taskRunId := v\<rparr>) r)\<lparr>startRecorded := b\<rparr>"
  "given d (\<lambda>v r. r\<lparr>instanceId := v\<rparr>) (r\<lparr>startRecorded := b\<rparr>) = (given d (\<lambda>v r. r\<lparr>instanceId := v\<rparr>) r)\<lparr>startRecorded := b\<rparr>"
  "given c (\<lambda>v r. r\<lparr>run_usage := v\<rparr>) (r\<lparr>startRecorded := b\<rparr>) = (given c (\<lambda>v r. r\<lparr>run_usage := v\<rparr>) r)\<lparr>startRecorded := b\<rparr>"
  "given d (\<lambda>v r. r\<lparr>request := v\<rparr>) (r\<lparr>startRecorded := b\<rparr>) = (given d (\<lambda>v r. r\<lparr>request := v\<rparr>) r)\<lparr>startRecorded := b\<rparr>"
  by (simp_all add: given_def split: option.split)

lemma columns_patch:
  "fold set_column (SetUpdatedAt now # patch_columns p
     @ (if p_startCheckpointId p \<noteq> None then [SetStartRecorded] else [])) r = patchRunRecord r p now"
proof (cases "p_startCheckpointId p")
  case None
  then show ?thesis
    by (simp add: patch_columns_def fold_given patchRunRecord_def set_column_fun)
next
  case (Some c)
  then show ?thesis unfolding patchRunRecord_def Some
    by (simp add: patch_columns_def fold_given set_column_fun Some given_startRecorded)
qed

lemma find_map_key:
  assumes "\<And>x. k (f x) = k x"
  shows "List.find (\<lambda>x. k x = c) (map (\<lambda>x. if k x = c' then f x else x) xs) =
    (if c = c' then map_option f (List.find (\<lambda>x. k x = c) xs) else List.find (\<lambda>x. k x = c) xs)"
  using assms by (induction xs) auto

text \<open>
  C22. A write to a run's row and the writer's own copy never diverge: reading the row after
  \<open>update\<close> gives \<open>patchRunRecord\<close> of what it held, with the timestamp \<open>update\<close> returned, and no
  other run's row changes.
\<close>

theorem update_is_patch:
  "get_run other (snd (update_run rid p now db)) =
     (if other = rid then map_option (\<lambda>r. patchRunRecord r p (fst (update_run rid p now db))) (get_run rid db)
      else get_run other db)"
proof -
  have "runId (patchRunRecord r p now) = runId r" for r
    unfolding columns_patch [symmetric] using columns_keep_key by blast
  from find_map_key [of runId "\<lambda>r. patchRunRecord r p now", OF this, of other rid "turn_runs db"]
  show ?thesis unfolding update_run_def get_run_def Let_def columns_patch by simp
qed

subsection \<open>The segment log\<close>

lemma insort_key_snoc: "f a \<le> f x \<Longrightarrow> insort_key f a (ys @ [x]) = insort_key f a ys @ [x]"
  by (induction ys) auto

lemma sort_key_snoc: "(\<forall>y \<in> set xs. f y \<le> f x) \<Longrightarrow> sort_key f (xs @ [x]) = sort_key f xs @ [x]"
  by (induction xs) (simp_all add: insort_key_snoc)

lemma readSegments_append:
  assumes "\<forall>t \<in> set (readSegments rid 0 db). seqFrom t < seqFrom g"
  shows "readSegments rid 0 (appendSegment rid g db) = readSegments rid 0 db @ (if 0 < seqTo g then [g] else [])"
proof -
  let ?P = "\<lambda>x. fst x = rid \<and> seqTo (snd x) > 0"
  have k: "seqFrom (snd x) < seqFrom g" if "x \<in> set (run_segments db)" "?P x" for x
    using assms that by (auto simp: readSegments_def)
  have "filter ?P (filter (\<lambda>x. \<not> (fst x = rid \<and> seqFrom (snd x) = seqFrom g)) (run_segments db))
      = filter ?P (run_segments db)"
    unfolding filter_filter using k by (intro filter_cong refl) (metis less_irrefl)
  moreover have "\<forall>y \<in> set (map snd (filter ?P (run_segments db))). seqFrom y \<le> seqFrom g"
    using k by fastforce
  ultimately show ?thesis
    by (simp add: readSegments_def appendSegment_def sort_key_snoc)
qed

lemma readSegments_after:
  "readSegments rid a db = filter (\<lambda>t. seqTo t > a) (readSegments rid 0 db)"
proof -
  have "filter (\<lambda>t. seqTo t > a) (map snd (filter (\<lambda>x. fst x = rid \<and> seqTo (snd x) > 0) (run_segments db)))
      = map snd (filter (\<lambda>x. fst x = rid \<and> seqTo (snd x) > a) (run_segments db))"
    by (auto simp: filter_map comp_def intro!: arg_cong [where f = "map snd"] filter_cong)
  then show ?thesis by (simp add: readSegments_def filter_sort)
qed

interpretation seg: segment_store "appendSegment rid" "readSegments rid" "\<lambda>_. True" for rid
  by unfold_locales (simp_all add: readSegments_append readSegments_after [symmetric])

text \<open>What earlier attempts of the run left in the table, below the first number of this one.\<close>

definition restorable :: "string \<Rightarrow> nat \<Rightarrow> run_db \<Rightarrow> bool" where
  "restorable rid start db \<longleftrightarrow>
     (\<forall>g \<in> set (readSegments rid 0 db). payload g \<noteq> [] \<and> g = segment_of (payload g))
     \<and> rising (concat (map payload (readSegments rid 0 db)))
     \<and> (\<forall>g \<in> set (readSegments rid 0 db). \<forall>f \<in> set (payload g). 0 < f_seq f \<and> f_seq f \<le> start)"

definition fresh_sys :: "string \<Rightarrow> nat \<Rightarrow> run_db \<Rightarrow> run_db rb_sys" where
  "fresh_sys rid start db = \<lparr>sys_buf = new_buffer start, sys_store = db, sys_stored = False,
     sys_log = concat (map payload (readSegments rid 0 db)), sys_failed = []\<rparr>"

lemma fresh_good:
  assumes "restorable rid start db"
  shows "seg.good rid (fresh_sys rid start db)"
proof -
  have "seg.consistent rid (readSegments rid 0 db) (fresh_sys rid start db)"
    using assms unfolding seg.consistent_def seg.parts_ok_def restorable_def fresh_sys_def new_buffer_def
    by simp blast
  then show ?thesis unfolding seg.good_def by blast
qed

text \<open>
  C23. A client that re-joins a live run at any cursor misses nothing and receives nothing twice, but for
  one gap: the frames it is replayed (the segments it read at one moment, then what the buffer holds after
  the last of them when \<open>join\<close> goes on), the frames pushed between that moment and its subscription, and the
  frames the subscription delivers are together exactly the frames of the run after the cursor, in order.
  That holds whatever pushes, flushes, pack writes and joins of others happen before, in between
  and after, and across the segments of earlier attempts, as long as no pack write failed. Between the read
  and the continuation (\<open>window_step\<close>) a pack written before the read may settle, one written
  behind it does not. The gap is empty when nothing is pushed in the promise tick that \<open>join\<close> takes to
  return; a frame that is pushed in it is in neither part.
\<close>

theorem rejoin_exactly_once:
  assumes "restorable rid start db"
    and "(buffer_step opts (appendSegment rid))\<^sup>*\<^sup>* (fresh_sys rid start db) S1" and "sys_failed S1 = []"
    and "(window_step opts (appendSegment rid))\<^sup>*\<^sup>* (sys_stored S1, S1) (old, S2)" and "after \<le> rb_seq (sys_buf S2)"
    and "(buffer_step opts (appendSegment rid))\<^sup>*\<^sup>* S2 S2'" and "rb_delivered (sys_buf S2') u = []"
    and "(attached_step opts (appendSegment rid) u)\<^sup>*\<^sup>* (S2'\<lparr>sys_buf := subscribe u (sys_buf S2')\<rparr>) S3"
  shows "fst (join_result before True (readSegments rid after (sys_store S1)) after (sys_buf S2))
      @ drop (length (sys_log S2)) (sys_log S2') @ rb_delivered (sys_buf S3) u
    = filter (\<lambda>f. f_seq f > after) (sys_log S3)"
proof -
  have r: "fst (join_result before True (readSegments rid after (sys_store S1)) after (sys_buf S2))
      = filter (\<lambda>f. f_seq f > after) (sys_log S2)"
    using seg.rejoin_complete [OF assms(2) fresh_good [OF assms(1)] assms(4,3)] by (simp add: join_result_def)
  obtain gap where g: "sys_log S2' = sys_log S2 @ gap" "\<forall>f \<in> set gap. rb_seq (sys_buf S2) < f_seq f"
    "rb_seq (sys_buf S2) \<le> rb_seq (sys_buf S2')" using run_extends_log [OF assms(6)] by blast
  have "following u [] (sys_log S2') (rb_seq (sys_buf S2')) (S2'\<lparr>sys_buf := subscribe u (sys_buf S2')\<rparr>)"
    using assms(7) by (auto simp: following_def subscribe_def)
  from attached_run_following [OF assms(8) this] obtain ext where
    e: "sys_log S3 = sys_log S2' @ ext" "rb_delivered (sys_buf S3) u = ext"
      "\<forall>f \<in> set ext. rb_seq (sys_buf S2') < f_seq f" by (auto simp: following_def)
  have "\<forall>f \<in> set (gap @ ext). f_seq f > after" using e(3) g(2,3) assms(5) by fastforce
  with r e g show ?thesis by simp
qed

text \<open>
  C31. A re-join whose run ends during its read is replayed what storage held at the read, after the cursor and
  without the \<open>done\<close> frame, and nothing else: \<open>before.done\<close> settles every pack, so the buffer has no frame
  left to add, and the frames that were not stored yet at the read are not delivered. When the read came
  after the cutover the replay is empty.
\<close>

theorem ended_rejoin_replays_stored:
  assumes "restorable rid start db"
    and "(buffer_step opts (appendSegment rid))\<^sup>*\<^sup>* (fresh_sys rid start db) S1" and "sys_failed S1 = []"
    and "(buffer_step opts (appendSegment rid))\<^sup>*\<^sup>* S1 S2" and "rb_inFlight (sys_buf S2) = []" "rb_tail (sys_buf S2) = []"
  shows "\<exists>ps qs. sys_log S1 = ps @ qs
    \<and> qs = concat (if sys_stored S1 then tl (rb_inFlight (sys_buf S1)) else rb_inFlight (sys_buf S1)) @ rb_tail (sys_buf S1)
    \<and> join_result True False (readSegments rid after (sys_store S1)) after (sys_buf S2)
      = (filter (\<lambda>f. f_seq f > after \<and> f_event f \<noteq> ''done'') ps, False)
    \<and> join_result True False (readSegments rid after (deleteSegments rid (sys_store S1))) after (sys_buf S2) = ([], False)"
proof -
  have "done_is_done (sys_buf (fresh_sys rid start db))" by (simp add: done_is_done_def fresh_sys_def new_buffer_def)
  then have "done_is_done (sys_buf S2)"
    using run_done_is_done [OF assms(4)] run_done_is_done [OF assms(2)] by blast
  then have d: "join_result True False segs after (sys_buf S2)
      = (filter (\<lambda>f. f_event f \<noteq> ''done'') (framesOfSegments segs after), False)" for segs
    using join_result_ended [OF assms(5,6)] by (simp add: done_is_done_def)
  have no: "readSegments rid after (deleteSegments rid (sys_store S1)) = []"
    by (auto simp: readSegments_def deleteSegments_def filter_empty_conv)
  obtain ps qs where p: "sys_log S1 = ps @ qs"
    "framesOfSegments (readSegments rid after (sys_store S1)) after = filter (\<lambda>f. f_seq f > after) ps"
    "qs = concat (if sys_stored S1 then tl (rb_inFlight (sys_buf S1)) else rb_inFlight (sys_buf S1)) @ rb_tail (sys_buf S1)"
    using seg.stored_part [OF assms(2) fresh_good [OF assms(1)] assms(3), of after] by blast
  have "filter (\<lambda>f. f_event f \<noteq> ''done'') (filter (\<lambda>f. f_seq f > after) ps)
      = filter (\<lambda>f. f_seq f > after \<and> f_event f \<noteq> ''done'') ps" by (simp add: conj_commute)
  then show ?thesis using p by (intro exI [of _ ps] exI [of _ qs]) (simp add: d no framesOfSegments_concat)
qed

definition sample_frame :: "nat \<Rightarrow> run_frame" where
  "sample_frame n = \<lparr>f_seq = n, f_event = ''message'', f_content = Some ''x'', f_data = []\<rparr>"

definition empty_db :: run_db where
  "empty_db = \<lparr>turn_runs = [], run_segments = [], tool_marks = [], write_claims = [],
     tombstones = [], run_plans = [], channel_requests = []\<rparr>"

definition sample_opts :: rb_options where
  "sample_opts = \<lparr>ro_flushBytes = 9, ro_immediate = (\<lambda>_. False), ro_bytes = (\<lambda>_. 5)\<rparr>"

definition sample_b1 :: run_buffer where
  "sample_b1 = snd (the (push sample_opts ''message'' (Some ''x'') [] (new_buffer 0)))"

definition sample_S1 :: "run_db rb_sys" where
  "sample_S1 = (fresh_sys ''r'' 0 empty_db)\<lparr>sys_log := [sample_frame 1], sys_buf := sample_b1\<rparr>"

lemma sample_push:
  "push sample_opts ''message'' (Some ''x'') [] (new_buffer 0) = Some (sample_frame 1, sample_b1)"
  "rb_tail sample_b1 = [sample_frame 1]" "rb_inFlight sample_b1 = []" "rb_packs sample_b1 = []" "\<not> rb_closed sample_b1"
  "rb_delivered sample_b1 u = []" "rb_seq sample_b1 = 1" "rb_subscribers sample_b1 = []"
  by (simp_all add: sample_b1_def push_def Let_def append_frame_def new_buffer_def sample_frame_def flush_def sample_opts_def)

lemma sample_start:
  "restorable ''r'' 0 empty_db" "buffer_step sample_opts (appendSegment ''r'') (fresh_sys ''r'' 0 empty_db) sample_S1"
  "sys_failed sample_S1 = []" "sys_store sample_S1 = empty_db" "\<not> sys_stored sample_S1"
proof -
  show "restorable ''r'' 0 empty_db" by (simp add: restorable_def readSegments_def empty_db_def rising_def)
  have "sys_log (fresh_sys ''r'' 0 empty_db) = []" "sys_buf (fresh_sys ''r'' 0 empty_db) = new_buffer 0"
    by (simp_all add: fresh_sys_def readSegments_def empty_db_def)
  then show "buffer_step sample_opts (appendSegment ''r'') (fresh_sys ''r'' 0 empty_db) sample_S1"
    using buffer_step.step_push [of sample_opts "''message''" "Some ''x''" "[]" "fresh_sys ''r'' 0 empty_db" "sample_frame 1"
        sample_b1 "appendSegment ''r''"] sample_push(1) by (simp add: sample_S1_def)
qed (simp_all add: sample_S1_def fresh_sys_def)

lemma push_open:
  "\<not> rb_closed b \<Longrightarrow> rb_seq b = n \<Longrightarrow> \<exists>b'. push opts ''message'' (Some ''x'') [] b = Some (sample_frame (Suc n), b')"
  by (simp add: push_def Let_def sample_frame_def)

text \<open>Joined with one frame in the tail; a second one is pushed before the subscription, a third after it.\<close>

theorem rejoin_exactly_once_witness:
  "\<exists>S3. fst (join_result True True (readSegments ''r'' 0 (sys_store sample_S1)) 0 (sys_buf sample_S1))
      @ [sample_frame 2] @ rb_delivered (sys_buf S3) 7 = filter (\<lambda>f. f_seq f > 0) (sys_log (S3 :: run_db rb_sys))
    \<and> sys_log S3 = [sample_frame 1, sample_frame 2, sample_frame 3]"
proof -
  let ?a = "appendSegment ''r''"
  obtain b2 where p2: "push sample_opts ''message'' (Some ''x'') [] sample_b1 = Some (sample_frame 2, b2)"
    using push_open [OF sample_push(5,7)] by (auto simp: numeral_2_eq_2)
  define S2 where "S2 = sample_S1\<lparr>sys_log := [sample_frame 1, sample_frame 2], sys_buf := b2\<rparr>"
  have s2: "buffer_step sample_opts ?a sample_S1 S2"
    using buffer_step.step_push [of sample_opts "''message''" "Some ''x''" "[]" sample_S1 "sample_frame 2" b2 ?a] p2
    by (simp add: sample_S1_def S2_def)
  note q2 = push_simps [OF p2]
  have o2: "\<not> rb_closed (subscribe 7 b2)" "rb_seq (subscribe 7 b2) = 2"
    using q2(3,5) sample_push(5,7) by (simp_all add: subscribe_def)
  obtain b3 where p3: "push sample_opts ''message'' (Some ''x'') [] (subscribe 7 b2) = Some (sample_frame 3, b3)"
    using push_open [of "subscribe 7 b2" 2 sample_opts] o2 by auto
  define S3 where "S3 = S2\<lparr>sys_log := [sample_frame 1, sample_frame 2, sample_frame 3], sys_buf := b3\<rparr>"
  have s3: "attached_step sample_opts ?a 7 (S2\<lparr>sys_buf := subscribe 7 (sys_buf S2)\<rparr>) S3"
    using buffer_step.step_push [of sample_opts "''message''" "Some ''x''" "[]" "S2\<lparr>sys_buf := subscribe 7 (sys_buf S2)\<rparr>"
        "sample_frame 3" b3 ?a] p3
    by (simp add: attached_step_def S2_def S3_def push_simps(2) [OF p3])
  have "rb_delivered (sys_buf S2) 7 = []" using q2(6) sample_push(6,8) by (simp add: S2_def)
  from rejoin_exactly_once [OF sample_start(1) r_into_rtranclp [where r = "buffer_step sample_opts ?a", OF sample_start(2)]
      sample_start(3) rtranclp.rtrancl_refl _ r_into_rtranclp [where r = "buffer_step sample_opts ?a", OF s2] this
      r_into_rtranclp [where r = "attached_step sample_opts ?a 7", OF s3], of 0 True]
  have "fst (join_result True True (readSegments ''r'' 0 (sys_store sample_S1)) 0 (sys_buf sample_S1))
      @ [sample_frame 2] @ rb_delivered (sys_buf S3) 7 = filter (\<lambda>f. f_seq f > 0) (sys_log S3)"
    by (simp add: sample_S1_def S2_def)
  then show ?thesis by (intro exI [of _ S3]) (simp add: S3_def)
qed

text \<open>The run of the sample ends during a read that found nothing: its only frame is not delivered.\<close>

theorem ended_rejoin_replays_stored_witness:
  "\<exists>S2. (buffer_step sample_opts (appendSegment ''r''))\<^sup>*\<^sup>* sample_S1 S2 \<and> rb_closed (sys_buf S2)
    \<and> sys_log sample_S1 = [sample_frame 1] \<and> join_result True False (readSegments ''r'' 0 (sys_store sample_S1)) 0 (sys_buf S2) = ([], False)"
proof -
  let ?a = "appendSegment ''r''" and ?r = "buffer_step sample_opts (appendSegment ''r'')"
  define A where "A = sample_S1\<lparr>sys_buf := close (sys_buf sample_S1)\<rparr>"
  define g where "g = segment_of [sample_frame 1]"
  have pk: "rb_packs (sys_buf A) = [g]" "rb_inFlight (sys_buf A) = [[sample_frame 1]]" "rb_tail (sys_buf A) = []" "rb_closed (sys_buf A)"
    "\<not> sys_stored A"
    using sample_push(2-5) sample_start(5)
    by (simp_all add: A_def sample_S1_def close_def flush_def Let_def g_def segment_of_def)
  define B where "B = A\<lparr>sys_store := ?a g (sys_store A), sys_stored := True\<rparr>"
  define C where "C = B\<lparr>sys_buf := pack_written (sys_buf B), sys_stored := False\<rparr>"
  have 1: "?r sample_S1 A" unfolding A_def by (rule buffer_step.step_close)
  have 2: "?r A B" unfolding B_def by (rule buffer_step.step_store [OF pk(1,5)])
  have 3: "?r B C" unfolding C_def by (rule buffer_step.step_written) (simp add: B_def)
  have run: "?r\<^sup>*\<^sup>* sample_S1 C" using 1 2 3 by (meson converse_rtranclp_into_rtranclp rtranclp.rtrancl_refl)
  have c: "rb_inFlight (sys_buf C) = []" "rb_tail (sys_buf C) = []" "rb_closed (sys_buf C)"
    using pk by (simp_all add: C_def B_def pack_written_def)
  have st: "rb_tail (sys_buf sample_S1) = [sample_frame 1]" "rb_inFlight (sys_buf sample_S1) = []" "sys_log sample_S1 = [sample_frame 1]"
    using sample_push(2,3) by (simp_all add: sample_S1_def)
  from ended_rejoin_replays_stored [OF sample_start(1) r_into_rtranclp [where r = ?r, OF sample_start(2)] sample_start(3) run c(1,2), of 0]
  have "join_result True False (readSegments ''r'' 0 (sys_store sample_S1)) 0 (sys_buf C) = ([], False)"
    using st sample_start(5) by simp
  with run c(3) st(3) show ?thesis by blast
qed

subsection \<open>Recovery ends\<close>

text \<open>
  The patch with which \<open>recoverOrphans\<close> schedules an attempt, and the recoveries a run gets over a history
  of restarts: each gives the checkpoint read, the time and the name of the new instance.
\<close>

definition recover_patch :: "string \<Rightarrow> string option \<Rightarrow> int \<Rightarrow> nat \<Rightarrow> nat \<Rightarrow> run_patch" where
  "recover_patch inst current at k gen = no_patch\<lparr>p_status := Some Recovering, p_attempts := Some k,
     p_generation := Some gen, p_nextAttemptAt := Some (Some at), p_checkpointId := Some current,
     p_instanceId := Some inst\<rparr>"

definition recovered :: "run_record \<Rightarrow> string \<Rightarrow> string option \<Rightarrow> int \<Rightarrow> nat \<Rightarrow> int \<Rightarrow> run_record" where
  "recovered run inst current at k now = patchRunRecord run (recover_patch inst current at k (generation run + 1)) now"

lemma recovered_simps [simp]:
  "attempts (recovered run inst current at k now) = k" "generation (recovered run inst current at k now) = generation run + 1"
  "checkpointId (recovered run inst current at k now) = current"
  by (simp_all add: recovered_def recover_patch_def patchRunRecord_def no_patch_def)

fun recovery_history :: "durability_config \<Rightarrow> run_record \<Rightarrow> (string option \<times> int \<times> string) list \<Rightarrow> nat" where
  "recovery_history cfg run [] = 0"
| "recovery_history cfg run ((current, now, inst) # rest) =
    (case decideOrphanRecovery run current now cfg of
       Interrupt _ _ \<Rightarrow> 0
     | Schedule at k \<Rightarrow> Suc (recovery_history cfg (recovered run inst current at k now) rest))"

lemma decideOrphanRecovery_Schedule:
  "decideOrphanRecovery run current now cfg = Schedule at k \<Longrightarrow>
     generation run < recoveryTotalAttempts cfg \<and> k \<le> recoveryAttempts cfg
     \<and> (\<not> checkpointAdvanced (checkpointId run) current \<longrightarrow> k = attempts run + 1)"
  by (auto simp: decideOrphanRecovery_def decideRecovery_def Let_def split: if_splits)

lemma recovery_delay_nonneg: "\<forall>d \<in> set delays. 0 \<le> d \<Longrightarrow> 0 \<le> recovery_delay delays j"
proof (cases delays)
  case (Cons d ds)
  then have "nat (min (int j) (int (length delays) - 1)) < length delays" by auto
  moreover assume "\<forall>d \<in> set delays. 0 \<le> d"
  ultimately show ?thesis unfolding recovery_delay_def Let_def using nth_mem by auto
qed (simp add: recovery_delay_def)

lemma history_total: "recovery_history cfg run obs \<le> recoveryTotalAttempts cfg - generation run"
proof (induction cfg run obs rule: recovery_history.induct)
  case (2 cfg run current now inst rest)
  show ?case
  proof (cases "decideOrphanRecovery run current now cfg")
    case (Schedule at k)
    with 2 [OF Schedule] decideOrphanRecovery_Schedule [OF Schedule]
    show ?thesis by auto
  qed simp
qed simp

lemma history_no_progress:
  "\<forall>o' \<in> set obs. fst o' = checkpointId run \<Longrightarrow> recovery_history cfg run obs \<le> recoveryAttempts cfg - attempts run"
proof (induction cfg run obs rule: recovery_history.induct)
  case (2 cfg run current now inst rest)
  then have same: "current = checkpointId run" by simp
  show ?case
  proof (cases "decideOrphanRecovery run current now cfg")
    case (Schedule at k)
    with 2(1) [OF Schedule] 2(2) decideOrphanRecovery_Schedule [OF Schedule] same
    show ?thesis by (auto simp: checkpointAdvanced_def)
  qed simp
qed simp

text \<open>
  C24. A run is not resumed for ever: over any history of restarts, whatever checkpoints are read,
  it gets at most \<open>recoveryTotalAttempts\<close> recoveries; while its checkpoint stays where it was, at most
  \<open>recoveryAttempts\<close>; and no attempt is scheduled in the past.
\<close>

theorem recovery_bounded:
  "recovery_history cfg run obs \<le> recoveryTotalAttempts cfg - generation run
   \<and> ((\<exists>o' \<in> set obs. fst o' \<noteq> checkpointId run)
       \<or> recovery_history cfg run obs \<le> recoveryAttempts cfg - attempts run)
   \<and> (\<forall>at k. decideOrphanRecovery run current now (runDurabilityConfig env ds mt) = Schedule at k \<longrightarrow> now \<le> at)"
proof (intro conjI allI impI)
  show "recovery_history cfg run obs \<le> recoveryTotalAttempts cfg - generation run" by (rule history_total)
  show "(\<exists>o' \<in> set obs. fst o' \<noteq> checkpointId run)
       \<or> recovery_history cfg run obs \<le> recoveryAttempts cfg - attempts run"
    using history_no_progress by blast
  let ?c = "runDurabilityConfig env ds mt"
  fix at k assume s: "decideOrphanRecovery run current now ?c = Schedule at k"
  have "\<forall>d \<in> set (recoveryDelaysMs ?c). 0 \<le> d"
    by (auto simp: runDurabilityConfig_def DEFAULT_RECOVERY_DELAYS_MS_def Let_def)
  then have "0 \<le> recovery_delay (recoveryDelaysMs ?c) j" for j by (rule recovery_delay_nonneg)
  with s show "now \<le> at"
    by (auto simp: decideOrphanRecovery_def decideRecovery_def Let_def split: if_splits)
qed

text \<open>
  A checkpoint that could not be read once is taken for progress later: the recovery that read
  nothing stores that nothing, so the next one counts the unchanged checkpoint as new and starts the
  attempts over; likewise a run whose start checkpoint could not be read is resumed from whatever
  checkpoint the session had before it, as if the graph had seen its input.
\<close>

lemma unreadable_checkpoint_counts:
  "(case decideOrphanRecovery (recovered run inst None at k now) (Some c) now' cfg of
      Schedule _ j \<Rightarrow> j = 1 | Interrupt j r \<Rightarrow> r = Total \<or> j = 0)
   \<and> runHasCheckpointed (new_record (i\<lparr>ci_checkpointId := None\<rparr>) t) (Some c)"
  by (auto simp: decideOrphanRecovery_def decideRecovery_def checkpointAdvanced_def
      runHasCheckpointed_def new_record_def Let_def)

subsection \<open>A write in progress is not repeated\<close>

text \<open>
  The calls of \<open>claimWrite\<close> that are in progress or answered, and what happens around them: a call begins,
  a call runs its next statement, a run releases a write, and the runs table changes as runs begin and end
  (given as the whole table).
\<close>

record claim_sys =
  cs_calls :: "(claim_input \<times> claim_stage) list"
  cs_db :: run_db

datatype claim_event = EBegin claim_input | EStatement nat int | ERelease string string | ERuns "run_record list"

fun claim_move :: "claim_event \<Rightarrow> claim_sys \<Rightarrow> claim_sys" where
  "claim_move (EBegin i) S = S\<lparr>cs_calls := cs_calls S @ [(i, Inserting)]\<rparr>"
| "claim_move (EStatement k now) S =
    (if k < length (cs_calls S) then
       (let (i, st) = cs_calls S ! k; (st', db) = claimWrite i now st (cs_db S)
        in S\<lparr>cs_calls := (cs_calls S)[k := (i, st')], cs_db := db\<rparr>)
     else S)"
| "claim_move (ERelease fp rid) S = S\<lparr>cs_db := releaseWrite fp rid (cs_db S)\<rparr>"
| "claim_move (ERuns rs) S = S\<lparr>cs_db := (cs_db S)\<lparr>turn_runs := rs\<rparr>\<rparr>"

definition active_in :: "string \<Rightarrow> run_record list \<Rightarrow> bool" where
  "active_in rid rs \<longleftrightarrow> (\<exists>r \<in> set rs. runId r = rid \<and> is_active r)"

text \<open>The calls that were told to go ahead with the write.\<close>

definition granted :: "string \<Rightarrow> claim_sys \<Rightarrow> claim_input list" where
  "granted fp S = map fst (filter (\<lambda>(i, st). cl_fingerprint i = fp \<and> st = Answered Claimed) (cs_calls S))"

text \<open>What the owner and its run do not do themselves: claim the write again, release it, end.\<close>

fun leaves_claim :: "string \<Rightarrow> string \<Rightarrow> claim_event \<Rightarrow> bool" where
  "leaves_claim fp owner (EBegin i) \<longleftrightarrow> cl_fingerprint i \<noteq> fp \<or> cl_runId i \<noteq> owner"
| "leaves_claim fp owner (EStatement k now) \<longleftrightarrow> True"
| "leaves_claim fp owner (ERelease fp' rid) \<longleftrightarrow> fp' \<noteq> fp \<or> rid \<noteq> owner"
| "leaves_claim fp owner (ERuns rs) \<longleftrightarrow> active_in owner rs"

text \<open>
  A run holds a write: its claim is pending, it is active, and the calls in progress for the same write are of
  other runs and none of them is about to take a claim over.
\<close>

definition held_by :: "write_claim \<Rightarrow> string \<Rightarrow> claim_sys \<Rightarrow> bool" where
  "held_by c fp S \<longleftrightarrow> getClaim fp (cs_db S) = Some c \<and> c_state c = Pending \<and> active_in (c_runId c) (turn_runs (cs_db S))
     \<and> distinct (map c_fingerprint (write_claims (cs_db S)))
     \<and> (\<forall>(i, st) \<in> set (cs_calls S). cl_fingerprint i = fp \<longrightarrow> (\<exists>r. st = Answered r) \<or> cl_runId i \<noteq> c_runId c \<and> st \<noteq> Taking)"

lemma find_filter_keep: "List.find P xs = Some c \<Longrightarrow> Q c \<Longrightarrow> List.find P (filter Q xs) = Some c"
  by (induction xs) (auto split: if_splits)

lemma find_Some_props: "List.find P xs = Some x \<Longrightarrow> P x \<and> x \<in> set xs"
  by (induction xs) (auto split: if_splits)

lemma find_None_snoc: "List.find P (xs @ [x]) = (case List.find P xs of Some y \<Rightarrow> Some y | None \<Rightarrow> if P x then Some x else None)"
  by (induction xs) auto

lemma find_map_keep:
  assumes "\<And>x. x \<in> set xs \<Longrightarrow> P (f x) = P x" "List.find P xs = Some c" "f c = c"
  shows "List.find P (map f xs) = Some c"
  using assms by (induction xs) (auto split: if_splits)

text \<open>What one statement of a call does to a claim that is held.\<close>

lemma claim_statement:
  assumes g: "getClaim fp db = Some c" and p: "c_state c = Pending" and act: "active_in (c_runId c) (turn_runs db)"
    and d: "distinct (map c_fingerprint (write_claims db))"
    and i: "cl_fingerprint i = fp \<longrightarrow> (\<exists>r. st = Answered r) \<or> cl_runId i \<noteq> c_runId c \<and> st \<noteq> Taking"
    and w: "claimWrite i now st db = (st', db')"
  shows "getClaim fp db' = Some c" "turn_runs db' = turn_runs db" "distinct (map c_fingerprint (write_claims db'))"
    "cl_fingerprint i = fp \<Longrightarrow> (\<exists>r. st' = Answered r) \<or> st' \<noteq> Taking"
    "cl_fingerprint i = fp \<Longrightarrow> st' = Answered Claimed \<Longrightarrow> st = Answered Claimed"
proof -
  have c: "c_fingerprint c = fp" using find_Some_props [OF g [unfolded getClaim_def]] by simp
  have own: "owner_active c db" using act by (simp add: owner_active_def active_in_def)
  have m: "getClaim fp (db\<lparr>write_claims := map f (write_claims db)\<rparr>) = Some c" "distinct (map c_fingerprint (map f (write_claims db)))"
    if "f c = c" "\<And>x. c_fingerprint (f x) = c_fingerprint x" for f
    using that find_map_keep [of "write_claims db" "\<lambda>c. c_fingerprint c = fp" f c] g d by (simp_all add: getClaim_def comp_def)
  have t: "getClaim fp (claim_take i now db) = Some c" "distinct (map c_fingerprint (write_claims (claim_take i now db)))"
    if "cl_fingerprint i \<noteq> fp"
    unfolding claim_take_def using m [of "\<lambda>c. if c_fingerprint c = cl_fingerprint i
     then c\<lparr>c_runId := cl_runId i, c_sessionId := cl_sessionId i, c_startedAt := now, c_state := Pending\<rparr> else c"] c that by simp_all
  have u: "getClaim fp (claim_warn i db) = Some c" "distinct (map c_fingerprint (write_claims (claim_warn i db)))"
    if "cl_fingerprint i = fp \<longrightarrow> cl_runId i \<noteq> c_runId c"
    unfolding claim_warn_def using m [of "\<lambda>c. if c_fingerprint c = cl_fingerprint i \<and> c_state c = Pending
       \<and> (c_runId c = cl_runId i \<or> \<not> owner_active c db) then c\<lparr>c_state := Warned, c_runId := cl_runId i\<rparr> else c"] c own that by auto
  have n: "getClaim fp db' = Some c" "distinct (map c_fingerprint (write_claims db'))" "turn_runs db' = turn_runs db"
    if "claim_insert i now db = (st', db')"
    using that g d find_None_snoc [of "\<lambda>c. c_fingerprint c = fp" "write_claims db" "claim_row i now"]
    by (auto simp: claim_insert_def getClaim_def claim_row_def find_None_iff split: if_splits) blast
  have k: "getClaim fp db' = Some c \<and> distinct (map c_fingerprint (write_claims db'))"
  proof (cases st)
    case Taking
    with i have "cl_fingerprint i \<noteq> fp" by blast
    with t w Taking show ?thesis by auto
  next
    case (Warning tool since)
    with i have "cl_fingerprint i = fp \<longrightarrow> cl_runId i \<noteq> c_runId c" by blast
    with u w Warning show ?thesis by auto
  qed (use w n g d in simp_all)
  then show "getClaim fp db' = Some c" "distinct (map c_fingerprint (write_claims db'))" by simp_all
  show "turn_runs db' = turn_runs db"
    by (cases st) (use w n in \<open>simp_all add: claim_take_def claim_warn_def\<close>, auto)
  show "(\<exists>r. st' = Answered r) \<or> st' \<noteq> Taking" "st' = Answered Claimed \<Longrightarrow> st = Answered Claimed" if "cl_fingerprint i = fp"
    using w i that g p by (cases st; simp add: claim_insert_def claim_read_def; auto split: if_splits)+
qed

lemma held_event:
  assumes h: "held_by c fp S" and e: "leaves_claim fp (c_runId c) e"
  shows "held_by c fp (claim_move e S) \<and> granted fp (claim_move e S) = granted fp S"
proof (cases e)
  case (EBegin i)
  then show ?thesis using h e by (auto simp: held_by_def granted_def)
next
  case (EStatement k now)
  show ?thesis
  proof (cases "k < length (cs_calls S)")
    case True
    obtain i st where k: "cs_calls S ! k = (i, st)" by fastforce
    obtain st' db where w: "claimWrite i now st (cs_db S) = (st', db)" by fastforce
    have mem: "(i, st) \<in> set (cs_calls S)" using True k nth_mem by metis
    with h have i: "cl_fingerprint i = fp \<longrightarrow> (\<exists>r. st = Answered r) \<or> cl_runId i \<noteq> c_runId c \<and> st \<noteq> Taking"
      by (auto simp: held_by_def)
    have H: "getClaim fp (cs_db S) = Some c" "c_state c = Pending" "active_in (c_runId c) (turn_runs (cs_db S))"
      "distinct (map c_fingerprint (write_claims (cs_db S)))" using h by (simp_all add: held_by_def)
    note C = claim_statement [OF H i w]
    have S': "claim_move e S = S\<lparr>cs_calls := (cs_calls S)[k := (i, st')], cs_db := db\<rparr>"
      using True k w by (simp add: EStatement)
    have ans: "st' = Answered r" if "st = Answered r" for r using w that by simp
    have "\<forall>(j, s) \<in> set ((cs_calls S)[k := (i, st')]). cl_fingerprint j = fp \<longrightarrow> (\<exists>r. s = Answered r) \<or> cl_runId j \<noteq> c_runId c \<and> s \<noteq> Taking"
    proof (intro ballI)
      fix x assume "x \<in> set ((cs_calls S)[k := (i, st')])"
      then have "x = (i, st') \<or> x \<in> set (cs_calls S)" using set_update_subset_insert by fastforce
      then show "case x of (j, s) \<Rightarrow> cl_fingerprint j = fp \<longrightarrow> (\<exists>r. s = Answered r) \<or> cl_runId j \<noteq> c_runId c \<and> s \<noteq> Taking"
        using h i C(4) ans by (auto simp: held_by_def)
    qed
    then have held: "held_by c fp (claim_move e S)" using C(1-3) H(2,3) by (simp add: held_by_def S')
    let ?P = "\<lambda>(i, st). cl_fingerprint i = fp \<and> st = Answered Claimed"
    have "map fst (filter ?P (cs_calls S)) = map fst (filter ?P ((cs_calls S)[k := (i, st')]))"
    proof -
      have u: "(cs_calls S)[k := (i, st')] = take k (cs_calls S) @ (i, st') # drop (Suc k) (cs_calls S)"
        by (rule upd_conv_take_nth_drop [OF True])
      have o: "cs_calls S = take k (cs_calls S) @ (i, st) # drop (Suc k) (cs_calls S)"
        using id_take_nth_drop [OF True] k by simp
      have "?P (i, st') \<longleftrightarrow> ?P (i, st)" using C(5) ans by auto
      then show ?thesis unfolding u by (subst o) (simp del: append_take_drop_id)
    qed
    with held show ?thesis by (simp add: granted_def S')
  qed (use h EStatement in simp)
next
  case (ERelease fp' rid)
  have c: "c_fingerprint c = fp" using h find_Some_props by (fastforce simp: held_by_def getClaim_def)
  have "getClaim fp (releaseWrite fp' rid (cs_db S)) = Some c"
    using h e c ERelease by (auto simp: held_by_def getClaim_def releaseWrite_def intro: find_filter_keep)
  then show ?thesis using h ERelease
    by (auto simp: held_by_def granted_def releaseWrite_def distinct_map_filter)
next
  case (ERuns rs)
  then show ?thesis using h e by (auto simp: held_by_def granted_def getClaim_def)
qed

text \<open>
  C25. While the run that claimed a write is active and has not released it, no other run is told to go ahead
  with the same write, and the owner's claim stays as it was, so its own release still finds it: whatever
  claims of other runs are in progress or begin, however their statements interleave with each other, with
  releases by others and with changes of the runs table; as long as no call in progress had read a warned
  claim before and is about to take it over (\<open>held_by\<close>).
\<close>

theorem claim_exclusive:
  assumes "held_by c fp S" and "\<forall>e \<in> set events. leaves_claim fp (c_runId c) e"
  shows "granted fp (fold claim_move events S) = granted fp S
    \<and> getClaim fp (cs_db (fold claim_move events S)) = Some c"
proof -
  have "held_by c fp (fold claim_move events S) \<and> granted fp (fold claim_move events S) = granted fp S"
    using assms
  proof (induction events arbitrary: S)
    case (Cons e es)
    then have "held_by c fp (claim_move e S) \<and> granted fp (claim_move e S) = granted fp S" by (intro held_event) simp_all
    with Cons.IH [of "claim_move e S"] Cons.prems(2) show ?case by simp
  qed simp
  then show ?thesis by (simp add: held_by_def)
qed

definition sample_run :: "string \<Rightarrow> run_status \<Rightarrow> run_record" where
  "sample_run rid st = (new_record \<lparr>ci_runId = rid, ci_sessionId = ''s'', ci_requestId = rid, ci_client = Channel,
     ci_queued = False, ci_request = [], ci_checkpointId = None, ci_taskRunId = None, ci_instanceId = ''i''\<rparr> 0)
     \<lparr>status := st\<rparr>"

definition sample_claim :: "string \<Rightarrow> claim_input" where
  "sample_claim rid = \<lparr>cl_fingerprint = ''f'', cl_toolName = ''t'', cl_runId = rid, cl_sessionId = ''s''\<rparr>"

definition sample_calls :: claim_sys where
  "sample_calls = \<lparr>cs_calls = [], cs_db = empty_db\<lparr>turn_runs := map (\<lambda>r. sample_run r Running) [''r1'', ''r2'', ''r3'']\<rparr>\<rparr>"

text \<open>Two other runs try while the first one is writing; neither is told to go ahead.\<close>

theorem claim_exclusive_witness:
  "granted ''f'' (fold claim_move [EBegin (sample_claim ''r1''), EStatement 0 1, EBegin (sample_claim ''r2''), EStatement 1 2,
     EBegin (sample_claim ''r3''), EStatement 2 3, EStatement 1 4, ERelease ''f'' ''r2'', EStatement 2 5, EStatement 1 6,
     EStatement 2 7] sample_calls) = [sample_claim ''r1'']"
proof -
  define S where "S = fold claim_move [EBegin (sample_claim ''r1''), EStatement 0 1] sample_calls"
  have S: "cs_calls S = [(sample_claim ''r1'', Answered Claimed)]"
    "cs_db S = (cs_db sample_calls)\<lparr>write_claims := [claim_row (sample_claim ''r1'') 1]\<rparr>"
    by (simp_all add: S_def sample_calls_def empty_db_def claim_insert_def getClaim_def)
  have "held_by (claim_row (sample_claim ''r1'') 1) ''f'' S"
    by (simp add: held_by_def S getClaim_def claim_row_def sample_claim_def sample_calls_def empty_db_def active_in_def
        sample_run_def new_record_def is_active_def ACTIVE_RUN_STATUSES_def)
  from claim_exclusive [OF this, of "[EBegin (sample_claim ''r2''), EStatement 1 2,
     EBegin (sample_claim ''r3''), EStatement 2 3, EStatement 1 4, ERelease ''f'' ''r2'', EStatement 2 5, EStatement 1 6, EStatement 2 7]"]
  have "granted ''f'' (fold claim_move [EBegin (sample_claim ''r2''), EStatement 1 2,
     EBegin (sample_claim ''r3''), EStatement 2 3, EStatement 1 4, ERelease ''f'' ''r2'', EStatement 2 5, EStatement 1 6, EStatement 2 7] S)
    = granted ''f'' S" by (simp add: claim_row_def sample_claim_def del: fold_simps claim_move.simps)
  moreover have "granted ''f'' S = [sample_claim ''r1'']" by (simp add: granted_def S sample_claim_def)
  ultimately show ?thesis by (simp add: S_def del: claim_move.simps)
qed

text \<open>
  The two gaps. A claim warned by a run that is over: two runs read it before either takes it over, and both are
  told to go ahead. And a call whose read finds the row released is told to go ahead without a row of its
  own, so the next run inserts one and goes ahead as well.
\<close>

lemma two_takeovers:
  "granted ''f'' (fold claim_move [EBegin (sample_claim ''r2''), EBegin (sample_claim ''r3''), EStatement 0 1, EStatement 1 2,
     EStatement 0 3, EStatement 1 4, EStatement 0 5, EStatement 1 6]
     (sample_calls\<lparr>cs_db := (cs_db sample_calls)\<lparr>write_claims := [(claim_row (sample_claim ''r0'') 0)\<lparr>c_state := Warned\<rparr>]\<rparr>\<rparr>))
   = [sample_claim ''r2'', sample_claim ''r3'']"
  by code_simp

lemma claimed_without_row:
  "granted ''f'' (fold claim_move [EBegin (sample_claim ''r1''), EStatement 0 1, EBegin (sample_claim ''r2''), EStatement 1 2,
     ERelease ''f'' ''r1'', EStatement 1 3, EBegin (sample_claim ''r3''), EStatement 2 4] sample_calls)
   = [sample_claim ''r1'', sample_claim ''r2'', sample_claim ''r3'']"
  by code_simp

subsection \<open>What a boot removes\<close>




theorem recovery_bounded_witness:
  "recovery_history (runDurabilityConfig (\<lambda>_. None) [] None) (sample_run ''a'' Running)
     (replicate 8 (None, 1, ''i'')) \<le> 4"
proof -
  have f: "checkpointId (sample_run ''a'' Running) = None" "attempts (sample_run ''a'' Running) = 0"
    by (simp_all add: sample_run_def new_record_def)
  have g: "recoveryAttempts (runDurabilityConfig (\<lambda>_. None) [] None) = 4"
    by (simp add: runDurabilityConfig_def env_int_def Let_def)
  have "\<not> (\<exists>o' \<in> set (replicate 8 (None :: string option, 1 :: int, ''i'')). fst o' \<noteq> checkpointId (sample_run ''a'' Running))"
    by (simp add: f)
  with recovery_bounded [of "runDurabilityConfig (\<lambda>_. None) [] None" "sample_run ''a'' Running"
      "replicate 8 (None, 1, ''i'')"] show ?thesis unfolding f g diff_zero by blast
qed

end
