(* ===== verification/Run_Coordinator.thy ===== *)
theory Run_Coordinator
  imports Run_Store
begin

text \<open>
  \<open>packages/oracle-runtime-workers/src/do/run-coordinator.ts\<close>: the runs of one user object. Every
  handler is cut at its awaits: what runs between two awaits is one function of the state, the rest
  of the handler is a task (or the phase of a turn) that waits for its promise to settle. The heap
  holds the \<open>LiveRun\<close> objects by run id (a run id is opened once: its row is never removed while
  the object lives), \<open>c_live\<close> the ids of the live map in insertion order; a loop over a snapshot
  keeps ids, so it still reaches objects that left the map.
\<close>

subsection \<open>Data\<close>

datatype end_status = EFinished | EAborted | EInterrupted | EFailed

fun run_status_of :: "end_status \<Rightarrow> run_status" where
  "run_status_of EFinished = Finished"
| "run_status_of EAborted = Aborted"
| "run_status_of EInterrupted = Interrupted"
| "run_status_of EFailed = Failed"

record outcome =
  o_status :: end_status
  o_text :: string
  o_messageId :: "string option"
  o_error :: "string option"
  o_usage :: "string option"

definition aborted_outcome :: "string \<Rightarrow> outcome" where
  "aborted_outcome txt = \<lparr>o_status = EAborted, o_text = txt, o_messageId = None, o_error = None, o_usage = None\<rparr>"

definition failed_outcome :: "string \<Rightarrow> string \<Rightarrow> outcome" where
  "failed_outcome txt e = \<lparr>o_status = EFailed, o_text = txt, o_messageId = None, o_error = Some e, o_usage = None\<rparr>"

datatype attempt_source = FromBegin | FromDequeue | FromRecovery

text \<open>The data of the frames the coordinator pushes (without the time of an error frame).\<close>

datatype frame_data =
    ErrorData string bool string string string
  | DoneData string "string option" end_status
  | RunData string string string nat nat

text \<open>
  The host: what a buffer needs, the configuration, the instance, and \<open>h_json\<close> for
  \<open>JSON.stringify\<close> of the data of a frame.
\<close>

record host =
  h_opts :: rb_options
  h_cfg :: durability_config
  h_instance :: string
  h_json :: "frame_data \<Rightarrow> string"

record live_run =
  l_runId :: string
  l_session :: string
  l_record :: run_record
  l_buffer :: run_buffer
  l_aborted :: bool
  l_continuation :: "string option"
  l_inFlight :: bool
  l_source :: attempt_source
  l_behind :: bool

abbreviation l_status :: "live_run \<Rightarrow> run_status" where
  "l_status l \<equiv> status (l_record l)"

record begin_input =
  bi_runId :: string
  bi_sessionId :: string
  bi_requestId :: string
  bi_client :: run_client
  bi_request :: string
  bi_enqueue :: bool
  bi_taskRunId :: "string option"

text \<open>
  A \<open>begin\<close> call is a ticket, waiting for the turn of its session or holding it. The phases of a
  turn are the awaits of \<open>beginInTurn\<close>: cancelling the queued runs of a snapshot, waiting within
  the grace, reading the checkpoint and creating the row, the row created, and the run opened.
\<close>

record ticket =
  k_id :: nat
  k_input :: begin_input
  k_superseded :: bool

abbreviation k_session :: "ticket \<Rightarrow> string" where
  "k_session k \<equiv> bi_sessionId (k_input k)"

datatype turn_phase =
    Cancelling "string list"
  | Winding
  | Creating bool bool
  | Created run_record bool bool
  | Opened

text \<open>
  The continuations in progress: an attempt executing; \<open>defer\<close> awaiting its write; \<open>finalize\<close>
  awaiting the closing of the row, then \<open>onRunEnded\<close>; \<open>startNextQueued\<close> awaiting its write;
  \<open>resumeDue\<close> awaiting the write and then the checkpoint of a run, or the end of one it closed, with
  the rest of its snapshot.
\<close>

datatype task =
    Attempt string bool
  | Deferring string string int nat
  | Closing string outcome
  | Ending string
  | Dequeuing string
  | ResumeWrite string "string list" int
  | ResumeRead string "string list" int
  | Resuming "string list" int

record coord =
  c_heap :: "string \<Rightarrow> live_run option"
  c_live :: "string list"
  c_waiting :: "ticket list"
  c_turns :: "(ticket \<times> turn_phase) list"
  c_tasks :: "task list"
  c_db :: run_db
  c_armed :: int
  c_alarms :: "int list"

subsection \<open>Lookups\<close>

definition live_runs :: "coord \<Rightarrow> live_run list" where
  "live_runs S = List.map_filter (c_heap S) (c_live S)"

definition busy :: "string \<Rightarrow> live_run \<Rightarrow> bool" where
  "busy sid l \<longleftrightarrow> l_session l = sid \<and> l_status l \<in> {Running, Recovering}"

definition queued_in :: "string \<Rightarrow> live_run \<Rightarrow> bool" where
  "queued_in sid l \<longleftrightarrow> l_session l = sid \<and> l_status l = Queued"

definition activeForSession :: "string \<Rightarrow> coord \<Rightarrow> live_run option" where
  "activeForSession sid S =
    (case List.find (busy sid) (live_runs S) of
       Some l \<Rightarrow> Some l
     | None \<Rightarrow> List.find (queued_in sid) (live_runs S))"

definition byRequestId :: "string \<Rightarrow> coord \<Rightarrow> live_run option" where
  "byRequestId q S = List.find (\<lambda>l. requestId (l_record l) = q) (live_runs S)"

definition byTaskRunId :: "string \<Rightarrow> coord \<Rightarrow> live_run option" where
  "byTaskRunId t S = List.find (\<lambda>l. taskRunId (l_record l) = Some t) (live_runs S)"

definition activeCount :: "coord \<Rightarrow> nat" where
  "activeCount S = length (filter l_inFlight (live_runs S))"

definition nextRecoveryAt :: "coord \<Rightarrow> int option" where
  "nextRecoveryAt S =
    fold (\<lambda>l at. if l_status l \<noteq> Recovering then at
        else case nextAttemptAt (l_record l) of
               None \<Rightarrow> at
             | Some t \<Rightarrow> (case at of None \<Rightarrow> Some t | Some a \<Rightarrow> Some (min a t)))
      (live_runs S) None"

subsection \<open>Keep-alive\<close>

definition requestAlarm :: "int \<Rightarrow> coord \<Rightarrow> coord" where
  "requestAlarm at S = S\<lparr>c_alarms := c_alarms S @ [at]\<rparr>"

text \<open>\<open>armedUntil - now > horizon / 4\<close>, multiplied out.\<close>

definition touchKeepAlive :: "host \<Rightarrow> int \<Rightarrow> coord \<Rightarrow> coord" where
  "touchKeepAlive H now S =
    (if activeCount S = 0 then S
     else if 4 * (c_armed S - now) > keepAliveMs (h_cfg H) then S
     else requestAlarm (now + keepAliveMs (h_cfg H)) (S\<lparr>c_armed := now + keepAliveMs (h_cfg H)\<rparr>))"

definition keepAliveDeadline :: "host \<Rightarrow> int \<Rightarrow> coord \<Rightarrow> int option \<times> coord" where
  "keepAliveDeadline H now S =
    (if activeCount S = 0 then (None, S)
     else (Some (now + keepAliveMs (h_cfg H)), S\<lparr>c_armed := now + keepAliveMs (h_cfg H)\<rparr>))"

subsection \<open>Ending a run\<close>

definition upd :: "string \<Rightarrow> (live_run \<Rightarrow> live_run) \<Rightarrow> coord \<Rightarrow> coord" where
  "upd rid f S = S\<lparr>c_heap := (c_heap S)(rid := map_option f (c_heap S rid))\<rparr>"

definition add_task :: "task \<Rightarrow> coord \<Rightarrow> coord" where
  "add_task t S = S\<lparr>c_tasks := c_tasks S @ [t]\<rparr>"

definition drop_task :: "task \<Rightarrow> coord \<Rightarrow> coord" where
  "drop_task t S = S\<lparr>c_tasks := remove1 t (c_tasks S)\<rparr>"

definition push_frame :: "rb_options \<Rightarrow> string \<Rightarrow> string option \<Rightarrow> string \<Rightarrow> run_buffer \<Rightarrow> run_buffer" where
  "push_frame opts ev content data b =
    (case push opts ev content data b of None \<Rightarrow> b | Some (f, b') \<Rightarrow> b')"

definition pushClosingFrames :: "host \<Rightarrow> outcome \<Rightarrow> live_run \<Rightarrow> run_buffer" where
  "pushClosingFrames H out l =
    (let b = l_buffer l in
     if rb_closed b \<or> rb_done b \<noteq> None then b
     else (let b1 = (if o_status out = EFailed
                 then push_frame (h_opts H) ''error'' None
                   (h_json H (ErrorData ''unknown'' True (l_session l) (requestId (l_record l)) (l_runId l))) b
                 else b)
           in push_frame (h_opts H) ''done'' None
                (h_json H (DoneData (l_runId l) (o_messageId out) (o_status out))) b1))"

text \<open>\<open>finalize\<close> up to its first await; the rest is the task \<open>Closing\<close>.\<close>

definition finalize :: "host \<Rightarrow> string \<Rightarrow> outcome \<Rightarrow> coord \<Rightarrow> coord" where
  "finalize H rid out S =
    (if rid \<notin> set (c_live S) then S
     else add_task (Closing rid out)
       ((upd rid (\<lambda>l. l\<lparr>l_buffer := close (pushClosingFrames H out l)\<rparr>) S)\<lparr>c_live := removeAll rid (c_live S)\<rparr>))"

text \<open>\<open>write\<close>, once the store answered.\<close>

definition written :: "string \<Rightarrow> run_patch \<Rightarrow> int \<Rightarrow> coord \<Rightarrow> coord" where
  "written rid p now S =
    (let (at, db) = update_run rid p now (c_db S)
     in (upd rid (\<lambda>l. l\<lparr>l_record := patchRunRecord (l_record l) p at\<rparr>) S)\<lparr>c_db := db\<rparr>)"

text \<open>\<open>a || b\<close> on strings: the empty string is falsy.\<close>

definition final_text :: "run_client \<Rightarrow> outcome \<Rightarrow> packed_segment list \<Rightarrow> string option" where
  "final_text cl out segments =
    (if o_status out = EFinished then (if cl = Channel then Some (o_text out) else None)
     else Some (if o_text out \<noteq> [] then o_text out else partialTextOf (framesOfSegments segments 0)))"

definition final_patch :: "live_run \<Rightarrow> outcome \<Rightarrow> packed_segment list \<Rightarrow> run_patch" where
  "final_patch l out segments = no_patch\<lparr>p_status := Some (run_status_of (o_status out)),
     p_lastSeq := Some (rb_seq (l_buffer l)), p_messageId := Some (o_messageId out),
     p_partialText := Some (final_text (client (l_record l)) out segments),
     p_error := Some (o_error out), p_nextAttemptAt := Some None,
     p_usage := (case o_usage out of None \<Rightarrow> None | Some u \<Rightarrow> Some (Some u))\<rparr>"

definition row_closed :: "string \<Rightarrow> outcome \<Rightarrow> int \<Rightarrow> coord \<Rightarrow> coord" where
  "row_closed rid out now S =
    (case c_heap S rid of
       None \<Rightarrow> S
     | Some l \<Rightarrow>
         (let p = final_patch l out (readSegments rid 0 (c_db S));
              (at, db) = close_run rid p now (c_db S)
          in (upd rid (\<lambda>l. l\<lparr>l_record := patchRunRecord (l_record l) p at\<rparr>) S)\<lparr>c_db := db\<rparr>))"

subsection \<open>Starting attempts\<close>

definition startNextQueued :: "string \<Rightarrow> coord \<Rightarrow> coord" where
  "startNextQueued sid S =
    (case activeForSession sid S of
       None \<Rightarrow> S
     | Some a \<Rightarrow>
         if l_status a \<noteq> Queued then S
         else (case List.find (queued_in sid) (live_runs S) of
                 None \<Rightarrow> S
               | Some run \<Rightarrow> add_task (Dequeuing (l_runId run))
                   (upd (l_runId run) (\<lambda>l. l\<lparr>l_inFlight := True, l_record := (l_record l)\<lparr>status := Running\<rparr>\<rparr>) S)))"

definition startAttempt :: "host \<Rightarrow> string \<Rightarrow> bool \<Rightarrow> attempt_source \<Rightarrow> int \<Rightarrow> coord \<Rightarrow> coord" where
  "startAttempt H rid resumed src now S =
    add_task (Attempt rid resumed) (touchKeepAlive H now (upd rid (\<lambda>l. l\<lparr>l_inFlight := True, l_source := src\<rparr>) S))"

definition open_run :: "run_record \<Rightarrow> nat \<Rightarrow> coord \<Rightarrow> coord" where
  "open_run rec startSeq S = S\<lparr>
     c_heap := (c_heap S)(runId rec := Some \<lparr>l_runId = runId rec, l_session = sessionId rec, l_record = rec,
       l_buffer = new_buffer startSeq, l_aborted = False, l_continuation = None, l_inFlight = False,
       l_source = FromBegin, l_behind = False\<rparr>),
     c_live := (if runId rec \<in> set (c_live S) then c_live S else c_live S @ [runId rec])\<rparr>"

subsection \<open>Aborting\<close>

definition continuation_text :: "live_run \<Rightarrow> string" where
  "continuation_text l = (case l_continuation l of None \<Rightarrow> [] | Some t \<Rightarrow> t)"

definition abortRun :: "host \<Rightarrow> string \<Rightarrow> coord \<Rightarrow> coord" where
  "abortRun H rid S =
    (case c_heap S rid of
       None \<Rightarrow> S
     | Some l \<Rightarrow>
         (let S1 = upd rid (\<lambda>l. l\<lparr>l_aborted := True\<rparr>) S
          in if l_inFlight l then S1 else finalize H rid (aborted_outcome (continuation_text l)) S1))"

definition cancelQueued :: "host \<Rightarrow> string \<Rightarrow> coord \<Rightarrow> coord" where
  "cancelQueued H rid S = finalize H rid (aborted_outcome []) S"

definition mark_superseded :: "string \<Rightarrow> ticket \<Rightarrow> ticket" where
  "mark_superseded sid k = (if k_session k = sid then k\<lparr>k_superseded := True\<rparr> else k)"

definition supersedePending :: "string \<Rightarrow> coord \<Rightarrow> coord" where
  "supersedePending sid S = S\<lparr>c_waiting := map (mark_superseded sid) (c_waiting S),
     c_turns := map (\<lambda>(k, p). (mark_superseded sid k, p)) (c_turns S)\<rparr>"

definition cancel_if :: "host \<Rightarrow> (live_run \<Rightarrow> bool) \<Rightarrow> string \<Rightarrow> coord \<Rightarrow> coord" where
  "cancel_if H P rid S =
    (case c_heap S rid of None \<Rightarrow> S | Some l \<Rightarrow> if l_status l = Queued \<and> P l then cancelQueued H rid S else S)"

definition abort_if_busy :: "host \<Rightarrow> string \<Rightarrow> coord \<Rightarrow> coord" where
  "abort_if_busy H rid S =
    (case c_heap S rid of None \<Rightarrow> S | Some l \<Rightarrow> if l_status l \<noteq> Queued then abortRun H rid S else S)"

definition abortSession :: "host \<Rightarrow> string \<Rightarrow> coord \<Rightarrow> coord" where
  "abortSession H sid S =
    (let S1 = fold (cancel_if H (\<lambda>l. l_session l = sid \<and> l_behind l)) (c_live S) (supersedePending sid S)
     in case activeForSession sid S1 of
          None \<Rightarrow> S1
        | Some a \<Rightarrow> if l_status a = Queued then cancelQueued H (l_runId a) S1 else abortRun H (l_runId a) S1)"

text \<open>Queued runs first, so an attempt that ends dequeues none of them.\<close>

definition stop_runs :: "host \<Rightarrow> string list \<Rightarrow> coord \<Rightarrow> coord" where
  "stop_runs H rids S = fold (abort_if_busy H) rids (fold (cancel_if H (\<lambda>_. True)) rids S)"

definition abortByIds :: "host \<Rightarrow> string list \<Rightarrow> coord \<Rightarrow> coord" where
  "abortByIds H rids S = stop_runs H (filter (\<lambda>r. r \<in> set (c_live S)) (rev (remdups (rev rids)))) S"

definition abortAllForSession :: "host \<Rightarrow> string \<Rightarrow> coord \<Rightarrow> coord" where
  "abortAllForSession H sid S =
    stop_runs H (map l_runId (filter (\<lambda>l. l_session l = sid) (live_runs S))) (supersedePending sid S)"

subsection \<open>Beginning a run\<close>

definition begin_call :: "nat \<Rightarrow> begin_input \<Rightarrow> coord \<Rightarrow> coord" where
  "begin_call n i S =
    (let S1 = (if bi_enqueue i then S else supersedePending (bi_sessionId i) S)
     in S1\<lparr>c_waiting := c_waiting S1 @ [\<lparr>k_id = n, k_input = i, k_superseded = False\<rparr>]\<rparr>)"

definition turn_of :: "string \<Rightarrow> coord \<Rightarrow> (ticket \<times> turn_phase) option" where
  "turn_of sid S = List.find (\<lambda>(k, p). k_session k = sid) (c_turns S)"

definition set_phase :: "string \<Rightarrow> turn_phase \<Rightarrow> coord \<Rightarrow> coord" where
  "set_phase sid q S = S\<lparr>c_turns := map (\<lambda>(k, p). if k_session k = sid then (k, q) else (k, p)) (c_turns S)\<rparr>"

definition end_turn :: "string \<Rightarrow> coord \<Rightarrow> coord" where
  "end_turn sid S = S\<lparr>c_turns := filter (\<lambda>(k, p). k_session k \<noteq> sid) (c_turns S)\<rparr>"

text \<open>After the wait: queue behind a run that is still winding down.\<close>

definition wound :: "ticket \<Rightarrow> coord \<Rightarrow> coord" where
  "wound k S =
    (let q = (\<not> k_superseded k \<and> activeForSession (k_session k) S \<noteq> None)
     in set_phase (k_session k) (Creating q q) S)"

fun cancel_loop :: "host \<Rightarrow> ticket \<Rightarrow> string list \<Rightarrow> coord \<Rightarrow> coord" where
  "cancel_loop H k [] S =
    (case activeForSession (k_session k) S of
       Some running \<Rightarrow> set_phase (k_session k) Winding (abortRun H (l_runId running) S)
     | None \<Rightarrow> wound k S)"
| "cancel_loop H k (rid # rest) S =
    (case c_heap S rid of
       None \<Rightarrow> cancel_loop H k rest S
     | Some l \<Rightarrow> if queued_in (k_session k) l
         then set_phase (k_session k) (Cancelling rest) (cancelQueued H rid S)
         else cancel_loop H k rest S)"

text \<open>The turn of a session goes to its oldest waiting call once the previous one has settled.\<close>

definition next_ticket :: "string \<Rightarrow> coord \<Rightarrow> ticket option" where
  "next_ticket sid S =
    (if turn_of sid S \<noteq> None then None else List.find (\<lambda>k. k_session k = sid) (c_waiting S))"

definition turn_start :: "host \<Rightarrow> ticket \<Rightarrow> coord \<Rightarrow> coord" where
  "turn_start H k S =
    (let S1 = S\<lparr>c_waiting := remove1 k (c_waiting S), c_turns := c_turns S @ [(k, Creating False False)]\<rparr>
     in case (if k_superseded k then None else activeForSession (k_session k) S) of
          None \<Rightarrow> S1
        | Some a \<Rightarrow> if bi_enqueue (k_input k) then set_phase (k_session k) (Creating True False) S1
                    else cancel_loop H k (c_live S1) S1)"

text \<open>\<open>store.create\<close> with what the host read; \<open>ok\<close> says whether the host and the store answered.\<close>

definition turn_create :: "host \<Rightarrow> ticket \<Rightarrow> bool \<Rightarrow> bool \<Rightarrow> bool \<Rightarrow> string option \<Rightarrow> int \<Rightarrow> coord \<Rightarrow> coord" where
  "turn_create H k q bs ok cp now S =
    (let i = k_input k;
         c = \<lparr>ci_runId = bi_runId i, ci_sessionId = bi_sessionId i, ci_requestId = bi_requestId i,
              ci_client = bi_client i, ci_queued = (q \<or> k_superseded k), ci_request = bi_request i,
              ci_checkpointId = cp, ci_taskRunId = bi_taskRunId i, ci_instanceId = h_instance H\<rparr>
     in case (if ok then create_run c now (c_db S) else None) of
          None \<Rightarrow> end_turn (k_session k) S
        | Some (rec, db) \<Rightarrow> set_phase (k_session k) (Created rec q bs) (S\<lparr>c_db := db\<rparr>))"

definition turn_open :: "host \<Rightarrow> ticket \<Rightarrow> run_record \<Rightarrow> bool \<Rightarrow> bool \<Rightarrow> int \<Rightarrow> coord \<Rightarrow> coord" where
  "turn_open H k rec q bs now S =
    (let S0 = set_phase (k_session k) Opened S in
     if k_superseded k then cancelQueued H (runId rec) (open_run (rec\<lparr>status := Queued\<rparr>) 0 S0)
     else (let S1 = open_run rec 0 S0 in
           if \<not> q then startAttempt H (runId rec) False FromBegin now S1
           else startNextQueued (k_session k)
             (if bs then upd (runId rec) (\<lambda>l. l\<lparr>l_behind := True\<rparr>) S1 else S1)))"

subsection \<open>The end of an attempt\<close>

datatype attempt_result = Returned outcome | Crashed string | DeferredBy string

definition failure_outcome :: "live_run \<Rightarrow> string \<Rightarrow> outcome" where
  "failure_outcome l e =
    (if l_aborted l then aborted_outcome (continuation_text l) else failed_outcome (continuation_text l) e)"

definition end_attempt :: "host \<Rightarrow> string \<Rightarrow> outcome \<Rightarrow> coord \<Rightarrow> coord" where
  "end_attempt H rid out S = finalize H rid out (upd rid (\<lambda>l. l\<lparr>l_inFlight := False\<rparr>) S)"

definition attempt_ends :: "host \<Rightarrow> string \<Rightarrow> attempt_result \<Rightarrow> int \<Rightarrow> coord \<Rightarrow> coord" where
  "attempt_ends H rid res now S =
    (case c_heap S rid of
       None \<Rightarrow> S
     | Some l \<Rightarrow>
         (case res of
            Returned out \<Rightarrow> end_attempt H rid out S
          | Crashed e \<Rightarrow> end_attempt H rid (failure_outcome l e) S
          | DeferredBy e \<Rightarrow>
              if l_aborted l then end_attempt H rid (failure_outcome l e) S
              else (case decideRecovery (l_record l) (checkpointId (l_record l)) now (h_cfg H) of
                      Interrupt _ _ \<Rightarrow> end_attempt H rid (failure_outcome l e) S
                    | Schedule at k \<Rightarrow> add_task (Deferring rid e at k) S)))"

definition defer_patch :: "int \<Rightarrow> nat \<Rightarrow> run_patch" where
  "defer_patch at k = no_patch\<lparr>p_status := Some Recovering, p_attempts := Some k, p_nextAttemptAt := Some (Some at)\<rparr>"

definition defer_written :: "host \<Rightarrow> string \<Rightarrow> string \<Rightarrow> int \<Rightarrow> nat \<Rightarrow> bool \<Rightarrow> int \<Rightarrow> coord \<Rightarrow> coord" where
  "defer_written H rid e at k ok now S =
    (case c_heap S rid of
       None \<Rightarrow> S
     | Some l \<Rightarrow>
         if \<not> ok then end_attempt H rid (failure_outcome l e) S
         else if l_aborted l then end_attempt H rid (failure_outcome l e) (written rid (defer_patch at k) now S)
         else requestAlarm at (upd rid (\<lambda>l. l\<lparr>l_inFlight := False\<rparr>) (written rid (defer_patch at k) now S)))"

definition dequeue_patch :: "host \<Rightarrow> string option \<Rightarrow> run_patch" where
  "dequeue_patch H cp = no_patch\<lparr>p_status := Some Running, p_instanceId := Some (h_instance H),
     p_checkpointId := Some cp, p_startCheckpointId := Some cp\<rparr>"

definition dequeue_written ::
  "host \<Rightarrow> string \<Rightarrow> string option \<Rightarrow> string option \<Rightarrow> int \<Rightarrow> coord \<Rightarrow> coord" where
  "dequeue_written H rid err cp now S =
    (case c_heap S rid of
       None \<Rightarrow> S
     | Some l \<Rightarrow>
         if err \<noteq> None
         then end_attempt H rid (if l_aborted l then aborted_outcome [] else failed_outcome [] (the err)) S
         else (let S1 = written rid (dequeue_patch H cp) now S
               in if l_aborted l then end_attempt H rid (aborted_outcome []) S1
                  else startAttempt H rid False FromDequeue now S1))"

subsection \<open>Resuming what is due\<close>

text \<open>\<open>resumeDue\<close> from one object of its snapshot to the next await.\<close>

fun resume_loop :: "string list \<Rightarrow> int \<Rightarrow> coord \<Rightarrow> coord" where
  "resume_loop [] due S = S"
| "resume_loop (rid # rest) due S =
    (case c_heap S rid of
       None \<Rightarrow> resume_loop rest due S
     | Some l \<Rightarrow>
         if l_status l \<noteq> Recovering \<or> l_inFlight l
           \<or> (case nextAttemptAt (l_record l) of None \<Rightarrow> False | Some t \<Rightarrow> t > due)
         then resume_loop rest due S
         else add_task (ResumeWrite rid rest due) (upd rid (\<lambda>l. l\<lparr>l_inFlight := True\<rparr>) S))"

definition resumeDue :: "int \<Rightarrow> coord \<Rightarrow> coord" where
  "resumeDue due S = resume_loop (c_live S) due S"

definition resume_patch :: run_patch where
  "resume_patch = no_patch\<lparr>p_status := Some Running, p_nextAttemptAt := Some None\<rparr>"

text \<open>A failed write of a run that was not aborted ends the loop with an exception.\<close>

definition resume_written :: "host \<Rightarrow> string \<Rightarrow> string list \<Rightarrow> int \<Rightarrow> bool \<Rightarrow> int \<Rightarrow> coord \<Rightarrow> coord" where
  "resume_written H rid rest due ok now S =
    (case c_heap S rid of
       None \<Rightarrow> S
     | Some l \<Rightarrow>
         if ok then add_task (ResumeRead rid rest due) (written rid resume_patch now S)
         else if l_aborted l
           then add_task (Resuming rest due) (end_attempt H rid (aborted_outcome (continuation_text l)) S)
           else upd rid (\<lambda>l. l\<lparr>l_inFlight := False\<rparr>) S)"

definition resumed_run :: "host \<Rightarrow> bool \<Rightarrow> live_run \<Rightarrow> live_run" where
  "resumed_run H resumed l =
    (if resumed then l\<lparr>l_buffer := push_frame (h_opts H) ''run'' None
          (h_json H (RunData (l_runId l) (l_session l) (requestId (l_record l)) (attempts (l_record l))
            (length (continuation_text l)))) (l_buffer l)\<rparr>
     else l\<lparr>l_continuation := None\<rparr>)"

definition resume_read :: "host \<Rightarrow> string \<Rightarrow> string list \<Rightarrow> int \<Rightarrow> string option \<Rightarrow> int \<Rightarrow> coord \<Rightarrow> coord" where
  "resume_read H rid rest due cp now S =
    (case c_heap S rid of
       None \<Rightarrow> S
     | Some l \<Rightarrow>
         if l_aborted l
         then add_task (Resuming rest due) (end_attempt H rid (aborted_outcome (continuation_text l)) S)
         else (let resumed = runHasCheckpointed (l_record l) cp
               in resume_loop rest due
                    (startAttempt H rid resumed FromRecovery now (upd rid (resumed_run H resumed) S))))"

subsection \<open>Boot\<close>

text \<open>
  \<open>recoverOrphans\<close>, awaited by the boot before anything else reaches the coordinator: \<open>cp\<close> gives the
  latest checkpoint of a session, the store answers at \<open>now\<close>. The result carries the earliest
  scheduled attempt.
\<close>

definition lastPacked :: "run_record \<Rightarrow> packed_segment list \<Rightarrow> nat" where
  "lastPacked rec segments = max (lastSeq rec) (if segments \<noteq> [] then seqTo (last segments) else 0)"

text \<open>\<open>text || null\<close>.\<close>

definition non_empty :: "string \<Rightarrow> string option" where
  "non_empty t = (if t = [] then None else Some t)"

definition write_row :: "run_record \<Rightarrow> run_patch \<Rightarrow> int \<Rightarrow> nat \<Rightarrow> coord \<Rightarrow> coord" where
  "write_row rec p now startSeq S =
    (let (at, db) = update_run (runId rec) p now (c_db S)
     in open_run (patchRunRecord rec p at) startSeq (S\<lparr>c_db := db\<rparr>))"

definition recover_row ::
  "host \<Rightarrow> (string \<Rightarrow> string option) \<Rightarrow> int \<Rightarrow> run_record \<Rightarrow> coord \<times> int option \<Rightarrow> coord \<times> int option" where
  "recover_row H cp now rec acc =
    (let (S, earliest) = acc; rid = runId rec in
     if rid \<in> set (c_live S) then (S, earliest)
     else if status rec = Queued then (open_run rec (lastSeq rec) S, earliest)
     else
      (let current = cp (sessionId rec);
           segments = readSegments rid 0 (c_db S);
           frames = framesOfSegments segments 0;
           gen = generation rec + 1;
           startSeq = max (lastPacked rec segments) (attemptSeqBase gen);
           txt = partialTextOf frames
       in case decideOrphanRecovery rec current now (h_cfg H) of
            Interrupt _ _ \<Rightarrow>
              (let S1 = upd rid (\<lambda>l. l\<lparr>l_continuation := non_empty txt,
                      l_buffer := push_frame (h_opts H) ''done'' None (h_json H (DoneData rid None EInterrupted))
                        (push_frame (h_opts H) ''error'' None
                          (h_json H (ErrorData ''interrupted'' True (sessionId rec) (requestId rec) rid)) (l_buffer l))\<rparr>)
                    (write_row rec (no_patch\<lparr>p_generation := Some gen\<rparr>) now startSeq S)
               in (finalize H rid \<lparr>o_status = EInterrupted, o_text = txt, o_messageId = None, o_error = None,
                     o_usage = None\<rparr> S1, earliest))
          | Schedule at k \<Rightarrow>
              (upd rid (\<lambda>l. l\<lparr>l_continuation := (if runHasCheckpointed rec current then non_empty txt else None)\<rparr>)
                 (write_row rec (recover_patch (h_instance H) current at k gen) now startSeq S),
               Some (case earliest of None \<Rightarrow> at | Some e \<Rightarrow> min e at))))"

definition start_idle :: "string \<Rightarrow> coord \<Rightarrow> coord" where
  "start_idle rid S =
    (case c_heap S rid of None \<Rightarrow> S | Some l \<Rightarrow> if l_status l = Queued then startNextQueued (l_session l) S else S)"

definition recoverOrphans :: "host \<Rightarrow> (string \<Rightarrow> string option) \<Rightarrow> int \<Rightarrow> coord \<Rightarrow> coord" where
  "recoverOrphans H cp now S =
    (let (S1, earliest) = fold (recover_row H cp now) (listActive (c_db S)) (S, None);
         S2 = fold start_idle (c_live S1) S1
     in case earliest of None \<Rightarrow> S2 | Some at \<Rightarrow> requestAlarm at S2)"

definition fresh_coord :: "run_db \<Rightarrow> coord" where
  "fresh_coord db = \<lparr>c_heap = (\<lambda>_. None), c_live = [], c_waiting = [], c_turns = [], c_tasks = [], c_db = db,
     c_armed = 0, c_alarms = []\<rparr>"

subsection \<open>The run of a coordinator\<close>

text \<open>
  What can happen next: a call from outside, or a promise settling. The guards are those of the
  event loop: a continuation runs once its promise has settled, a pack settles when one is pending,
  only an executing attempt pushes frames. A wait on other runs (the grace, the end of a cancelled
  run) may be over at any time, and a begin call may have returned as soon as its run is opened.
\<close>

inductive coord_step :: "host \<Rightarrow> coord \<Rightarrow> coord \<Rightarrow> bool" for H where
  s_begin: "coord_step H S (begin_call n i S)"
| s_turn: "next_ticket sid S = Some k \<Longrightarrow> coord_step H S (turn_start H k S)"
| s_cancel: "(k, Cancelling rest) \<in> set (c_turns S) \<Longrightarrow> coord_step H S (cancel_loop H k rest S)"
| s_wound: "(k, Winding) \<in> set (c_turns S) \<Longrightarrow> coord_step H S (wound k S)"
| s_create: "(k, Creating q bs) \<in> set (c_turns S) \<Longrightarrow> coord_step H S (turn_create H k q bs ok cp now S)"
| s_open: "(k, Created rec q bs) \<in> set (c_turns S) \<Longrightarrow> coord_step H S (turn_open H k rec q bs now S)"
| s_turn_end: "(k, Opened) \<in> set (c_turns S) \<Longrightarrow> coord_step H S (end_turn (k_session k) S)"
| s_abort: "coord_step H S (abortSession H sid S)"
| s_abort_ids: "coord_step H S (abortByIds H rids S)"
| s_abort_all: "coord_step H S (abortAllForSession H sid S)"
| s_frame: "Attempt rid r \<in> set (c_tasks S) \<Longrightarrow>
    coord_step H S (upd rid (\<lambda>l. l\<lparr>l_buffer := push_frame (h_opts H) ev content data (l_buffer l)\<rparr>) S)"
| s_keep_alive: "coord_step H S (touchKeepAlive H now S)"
| s_attempt: "Attempt rid r \<in> set (c_tasks S) \<Longrightarrow>
    coord_step H S (attempt_ends H rid res now (drop_task (Attempt rid r) S))"
| s_deferred: "Deferring rid e at k \<in> set (c_tasks S) \<Longrightarrow>
    coord_step H S (defer_written H rid e at k ok now (drop_task (Deferring rid e at k) S))"
| s_dequeued: "Dequeuing rid \<in> set (c_tasks S) \<Longrightarrow>
    coord_step H S (dequeue_written H rid err cp now (drop_task (Dequeuing rid) S))"
| s_closed: "Closing rid out \<in> set (c_tasks S) \<Longrightarrow> c_heap S rid = Some l \<Longrightarrow> rb_packs (l_buffer l) = [] \<Longrightarrow>
    coord_step H S (add_task (Ending rid)
      ((if ok then row_closed rid out now else id) (drop_task (Closing rid out) S)))"
| s_ended: "Ending rid \<in> set (c_tasks S) \<Longrightarrow> c_heap S rid = Some l \<Longrightarrow>
    coord_step H S (startNextQueued (l_session l) (drop_task (Ending rid) S))"
| s_resume: "coord_step H S (resumeDue due S)"
| s_resume_written: "ResumeWrite rid rest due \<in> set (c_tasks S) \<Longrightarrow>
    coord_step H S (resume_written H rid rest due ok now (drop_task (ResumeWrite rid rest due) S))"
| s_resume_read: "ResumeRead rid rest due \<in> set (c_tasks S) \<Longrightarrow>
    coord_step H S (resume_read H rid rest due cp now (drop_task (ResumeRead rid rest due) S))"
| s_resuming: "Resuming rest due \<in> set (c_tasks S) \<Longrightarrow>
    coord_step H S (resume_loop rest due (drop_task (Resuming rest due) S))"
| s_pack: "c_heap S rid = Some l \<Longrightarrow> rb_packs (l_buffer l) = g # gs \<Longrightarrow>
    coord_step H S (if ok
      then (upd rid (\<lambda>l. l\<lparr>l_buffer := pack_written (l_buffer l)\<rparr>) S)\<lparr>c_db := appendSegment rid g (c_db S)\<rparr>
      else upd rid (\<lambda>l. l\<lparr>l_buffer := pack_failed (l_buffer l)\<rparr>) S)"

text \<open>A coordinator after its boot on the rows of an earlier one.\<close>

definition booted :: "host \<Rightarrow> (string \<Rightarrow> string option) \<Rightarrow> int \<Rightarrow> run_db \<Rightarrow> coord" where
  "booted H cp now db = recoverOrphans H cp now (fresh_coord db)"

end
