(* ===== verification/Run_Sessions.thy ===== *)
theory Run_Sessions
  imports Run_Coordinator
begin

text \<open>
  The invariant of the run coordinator: which continuation owns which run, at most one run of a
  session past its queue, and no queued run forgotten. The state between two statements of a
  handler is described by two exemptions: \<open>X\<close>, the run the handler itself is holding, and \<open>Y\<close>, the
  sessions whose queue it is about to look at.
\<close>

subsection \<open>Ownership\<close>

fun owner :: "task \<Rightarrow> string option" where
  "owner (Attempt rid r) = Some rid"
| "owner (Deferring rid e at k) = Some rid"
| "owner (Closing rid out) = None"
| "owner (Ending rid) = None"
| "owner (Dequeuing rid) = Some rid"
| "owner (ResumeWrite rid rest due) = Some rid"
| "owner (ResumeRead rid rest due) = Some rid"
| "owner (Resuming rest due) = None"

fun ender :: "task \<Rightarrow> string option" where
  "ender (Closing rid out) = Some rid"
| "ender (Ending rid) = Some rid"
| "ender _ = None"

definition owners :: "task list \<Rightarrow> string list" where
  "owners ts = List.map_filter owner ts"

lemma owners_append [simp]: "owners (ts @ us) = owners ts @ owners us"
  by (induction ts) (auto simp: owners_def List.map_filter_def)

lemma owners_simps [simp]: "owners [] = []" "owner t = None \<Longrightarrow> owners (t # ts) = owners ts"
  "owner t = Some r \<Longrightarrow> owners (t # ts) = r # owners ts"
  by (auto simp: owners_def List.map_filter_def)

lemma set_owners: "r \<in> set (owners ts) \<longleftrightarrow> (\<exists>t \<in> set ts. owner t = Some r)"
  by (induction ts) (auto simp: owners_def List.map_filter_def split: option.splits)

lemma owners_remove1: "owner t = None \<Longrightarrow> owners (remove1 t ts) = owners ts"
  by (induction ts) (auto simp: owners_def List.map_filter_def)

lemma owners_release:
  "t \<in> set ts \<Longrightarrow> owner t = Some r \<Longrightarrow> distinct (owners ts @ X) \<Longrightarrow>
    distinct (owners (remove1 t ts) @ r # X) \<and> insert r (set (owners (remove1 t ts))) = set (owners ts)"
proof (induction ts)
  case (Cons u us)
  then show ?case
    by (cases "u = t"; cases "owner u") (auto simp: set_owners dest: notin_set_remove1)
qed simp

lemma map_filter_set [simp]: "set (List.map_filter f xs) = {y. \<exists>x \<in> set xs. f x = Some y}"
  by (induction xs) (auto simp: List.map_filter_def split: option.splits)

subsection \<open>The invariant\<close>

definition waits :: "live_run \<Rightarrow> bool" where
  "waits l \<longleftrightarrow> l_status l = Recovering \<and> \<not> l_inFlight l \<and> nextAttemptAt (l_record l) \<noteq> None"

definition run_fine :: "string set \<Rightarrow> string \<Rightarrow> live_run \<Rightarrow> bool" where
  "run_fine own rid l \<longleftrightarrow> \<not> rb_closed (l_buffer l) \<and> l_status l \<in> {Queued, Running, Recovering}
     \<and> (l_status l = Queued \<longrightarrow> \<not> l_inFlight l) \<and> (l_status l = Queued \<or> rid \<in> own \<or> waits l)"

definition rest_fine :: "(string \<Rightarrow> live_run option) \<Rightarrow> string set \<Rightarrow> string list \<Rightarrow> bool" where
  "rest_fine h v rest \<longleftrightarrow>
     (\<forall>r \<in> set rest. \<exists>l. h r = Some l \<and> (r \<in> v \<or> l_aborted l \<or> l_status l \<noteq> Recovering))"

fun task_fine :: "(string \<Rightarrow> live_run option) \<Rightarrow> string set \<Rightarrow> task \<Rightarrow> bool" where
  "task_fine h v (Attempt rid r) \<longleftrightarrow> rid \<in> v \<and> (\<exists>l. h rid = Some l \<and> l_inFlight l \<and> l_status l = Running)"
| "task_fine h v (Deferring rid e at k) \<longleftrightarrow> rid \<in> v \<and> (\<exists>l. h rid = Some l \<and> l_inFlight l \<and> l_status l = Running)"
| "task_fine h v (Dequeuing rid) \<longleftrightarrow> rid \<in> v \<and> (\<exists>l. h rid = Some l \<and> l_inFlight l \<and> l_status l = Running)"
| "task_fine h v (Closing rid out) \<longleftrightarrow> rid \<notin> v \<and> h rid \<noteq> None"
| "task_fine h v (Ending rid) \<longleftrightarrow> rid \<notin> v \<and> h rid \<noteq> None"
| "task_fine h v (ResumeWrite rid rest due) \<longleftrightarrow> rest_fine h v rest \<and> (\<exists>l. h rid = Some l \<and> l_inFlight l
     \<and> (rid \<in> v \<longrightarrow> l_status l = Recovering \<and> nextAttemptAt (l_record l) \<noteq> None) \<and> (rid \<notin> v \<longrightarrow> l_aborted l))"
| "task_fine h v (ResumeRead rid rest due) \<longleftrightarrow> rest_fine h v rest \<and> (\<exists>l. h rid = Some l \<and> l_inFlight l
     \<and> (rid \<in> v \<longrightarrow> l_status l = Running) \<and> (rid \<notin> v \<longrightarrow> l_aborted l))"
| "task_fine h v (Resuming rest due) \<longleftrightarrow> rest_fine h v rest"

definition single :: "(string \<Rightarrow> live_run option) \<Rightarrow> string set \<Rightarrow> bool" where
  "single h v \<longleftrightarrow> (\<forall>a \<in> v. \<forall>b \<in> v. \<forall>la lb. h a = Some la \<longrightarrow> h b = Some lb \<longrightarrow>
     l_session la = l_session lb \<longrightarrow> l_status la \<noteq> Queued \<longrightarrow> l_status lb \<noteq> Queued \<longrightarrow> a = b)"

definition covered :: "(string \<Rightarrow> live_run option) \<Rightarrow> string set \<Rightarrow> task list \<Rightarrow> string \<Rightarrow> bool" where
  "covered h v ts sid \<longleftrightarrow>
     (\<exists>b \<in> v. \<exists>lb. h b = Some lb \<and> l_session lb = sid \<and> l_status lb \<noteq> Queued)
     \<or> (\<exists>t \<in> set ts. \<exists>b lb. ender t = Some b \<and> h b = Some lb \<and> l_session lb = sid)"

definition strand :: "string set \<Rightarrow> (string \<Rightarrow> live_run option) \<Rightarrow> string set \<Rightarrow> task list \<Rightarrow> bool" where
  "strand Y h v ts \<longleftrightarrow>
     (\<forall>a \<in> v. \<forall>la. h a = Some la \<longrightarrow> l_status la = Queued \<longrightarrow> l_session la \<notin> Y \<longrightarrow> covered h v ts (l_session la))"

definition heap_ok :: "(string \<Rightarrow> live_run option) \<Rightarrow> bool" where
  "heap_ok h \<longleftrightarrow> (\<forall>r l. h r = Some l \<longrightarrow> l_runId l = r)"

definition runs_ok :: "string list \<Rightarrow> string set \<Rightarrow> coord \<Rightarrow> bool" where
  "runs_ok X Y S \<longleftrightarrow>
     distinct (c_live S) \<and> heap_ok (c_heap S) \<and> distinct (owners (c_tasks S) @ X)
   \<and> (\<forall>r \<in> set (c_live S). \<exists>l. c_heap S r = Some l \<and> run_fine (set (owners (c_tasks S) @ X)) r l)
   \<and> single (c_heap S) (set (c_live S))
   \<and> (\<forall>t \<in> set (c_tasks S). task_fine (c_heap S) (set (c_live S)) t)
   \<and> strand Y (c_heap S) (set (c_live S)) (c_tasks S)"

lemma runs_okI:
  assumes "distinct (c_live S)" "heap_ok (c_heap S)" "distinct (owners (c_tasks S) @ X)"
    "\<And>r. r \<in> set (c_live S) \<Longrightarrow> \<exists>l. c_heap S r = Some l \<and> run_fine (set (owners (c_tasks S) @ X)) r l"
    "single (c_heap S) (set (c_live S))"
    "\<And>t. t \<in> set (c_tasks S) \<Longrightarrow> task_fine (c_heap S) (set (c_live S)) t"
    "strand Y (c_heap S) (set (c_live S)) (c_tasks S)"
  shows "runs_ok X Y S"
  using assms unfolding runs_ok_def by blast

lemma runs_okD:
  assumes "runs_ok X Y S"
  shows "distinct (c_live S)" "heap_ok (c_heap S)" "distinct (owners (c_tasks S) @ X)"
    "r \<in> set (c_live S) \<Longrightarrow> \<exists>l. c_heap S r = Some l \<and> run_fine (set (owners (c_tasks S) @ X)) r l"
    "single (c_heap S) (set (c_live S))"
    "t \<in> set (c_tasks S) \<Longrightarrow> task_fine (c_heap S) (set (c_live S)) t"
    "strand Y (c_heap S) (set (c_live S)) (c_tasks S)"
  using assms unfolding runs_ok_def by blast+

subsection \<open>One statement at a time\<close>

lemma covered_mono: "covered h v ts sid \<Longrightarrow> set ts \<subseteq> set us \<Longrightarrow> covered h v us sid"
  unfolding covered_def by blast

lemma covered_upd:
  assumes c: "covered h v ts sid" and h: "h r = Some l" and e: "l_session l' = l_session l"
    and q: "r \<in> v \<Longrightarrow> l_status l' = Queued \<Longrightarrow> l_status l = Queued"
  shows "covered (h(r \<mapsto> l')) v ts sid"
  using c unfolding covered_def
proof (elim disjE bexE exE conjE)
  fix b lb assume b: "b \<in> v" "h b = Some lb" "l_session lb = sid" "l_status lb \<noteq> Queued"
  then have "\<exists>m. (h(r \<mapsto> l')) b = Some m \<and> l_session m = sid \<and> l_status m \<noteq> Queued"
    using h e q by (cases "b = r") auto
  with b(1) show "(\<exists>b \<in> v. \<exists>lb. (h(r \<mapsto> l')) b = Some lb \<and> l_session lb = sid \<and> l_status lb \<noteq> Queued)
     \<or> (\<exists>t \<in> set ts. \<exists>b lb. ender t = Some b \<and> (h(r \<mapsto> l')) b = Some lb \<and> l_session lb = sid)" by blast
next
  fix t b lb assume b: "t \<in> set ts" "ender t = Some b" "h b = Some lb" "l_session lb = sid"
  then have "\<exists>m. (h(r \<mapsto> l')) b = Some m \<and> l_session m = sid" using h e by (cases "b = r") auto
  with b(1,2) show "(\<exists>b \<in> v. \<exists>lb. (h(r \<mapsto> l')) b = Some lb \<and> l_session lb = sid \<and> l_status lb \<noteq> Queued)
     \<or> (\<exists>t \<in> set ts. \<exists>b lb. ender t = Some b \<and> (h(r \<mapsto> l')) b = Some lb \<and> l_session lb = sid)" by blast
qed

lemma strand_mono: "strand Y h v ts \<Longrightarrow> set ts \<subseteq> set us \<Longrightarrow> strand Y h v us"
  unfolding strand_def using covered_mono by blast

text \<open>Changing an object without moving it between the queue, the runs past it and its owner.\<close>

definition benign :: "string set \<Rightarrow> string set \<Rightarrow> string set \<Rightarrow> string \<Rightarrow> live_run \<Rightarrow> live_run \<Rightarrow> bool" where
  "benign own X v r l l' \<longleftrightarrow>
     l_runId l' = l_runId l \<and> l_session l' = l_session l \<and> (l_aborted l \<longrightarrow> l_aborted l')
   \<and> (r \<in> own \<longrightarrow> l_inFlight l' = l_inFlight l)
   \<and> (r \<notin> v \<longrightarrow> l_status l' = Recovering \<longrightarrow> l_status l = Recovering \<or> l_aborted l)
   \<and> (r \<in> v \<longrightarrow> (l_status l' = Queued) = (l_status l = Queued) \<and> run_fine (own \<union> X) r l'
        \<and> (r \<in> own \<longrightarrow> l_status l' = l_status l \<and> nextAttemptAt (l_record l') = nextAttemptAt (l_record l)))"

lemma rest_fine_upd:
  assumes "rest_fine h v rest" "h r = Some l" "benign own X v r l l'"
  shows "rest_fine (h(r \<mapsto> l')) v rest"
  using assms unfolding rest_fine_def benign_def by (auto split: if_splits)

lemma task_fine_upd:
  assumes t: "task_fine h v t" "t \<in> set ts" and h: "h r = Some l"
    and b: "benign (set (owners ts)) X v r l l'"
  shows "task_fine (h(r \<mapsto> l')) v t"
proof -
  have o: "owner t = Some r \<Longrightarrow> r \<in> set (owners ts)" using t(2) set_owners by metis
  have k: "l_inFlight l' = l_inFlight l" "r \<in> v \<Longrightarrow> l_status l' = l_status l"
      "r \<in> v \<Longrightarrow> nextAttemptAt (l_record l') = nextAttemptAt (l_record l)" if "owner t = Some r"
    using b o [OF that] unfolding benign_def by blast+
  have rf: "rest_fine h v rest \<Longrightarrow> rest_fine (h(r \<mapsto> l')) v rest" for rest
    using rest_fine_upd [where h = h and v = v and rest = rest and r = r and l = l, OF _ h b] .
  have a: "l_aborted l \<Longrightarrow> l_aborted l'" using b unfolding benign_def by blast
  show ?thesis
  proof (cases "owner t = Some r")
    case True
    then show ?thesis using t(1) h k [OF True] a rf by (cases t) auto
  next
    case False
    then show ?thesis using t(1) h rf by (cases t) auto
  qed
qed

lemma runs_ok_upd:
  assumes ok: "runs_ok X Y S" and h: "c_heap S r = Some l"
    and b: "benign (set (owners (c_tasks S))) (set X) (set (c_live S)) r l (f l)"
  shows "runs_ok X Y (upd r f S)"
proof (rule runs_okI)
  note D = runs_okD [OF ok]
  let ?h = "c_heap S" and ?v = "set (c_live S)" and ?l' = "f l"
  have e: "c_heap (upd r f S) = ?h(r \<mapsto> ?l')" "c_live (upd r f S) = c_live S" "c_tasks (upd r f S) = c_tasks S"
    by (auto simp: upd_def h)
  have b1: "l_runId ?l' = l_runId l" "l_session ?l' = l_session l"
    and b2: "r \<in> ?v \<Longrightarrow> (l_status ?l' = Queued) = (l_status l = Queued)"
    using b unfolding benign_def by blast+
  show "distinct (c_live (upd r f S))" "distinct (owners (c_tasks (upd r f S)) @ X)" using D by (simp_all add: e)
  show "heap_ok (c_heap (upd r f S))" using D(2) h b1 by (auto simp: heap_ok_def e)
  show "\<exists>m. c_heap (upd r f S) q = Some m \<and> run_fine (set (owners (c_tasks (upd r f S)) @ X)) q m"
    if "q \<in> set (c_live (upd r f S))" for q
    using that D(4) [of q] b by (cases "q = r") (auto simp: e benign_def)
  show "single (c_heap (upd r f S)) (set (c_live (upd r f S)))"
    using D(5) h b1 b2 unfolding single_def e by (auto split: if_splits)
  show "task_fine (c_heap (upd r f S)) (set (c_live (upd r f S))) t" if "t \<in> set (c_tasks (upd r f S))" for t
    using task_fine_upd [OF D(6) [of t] _ h b] that by (simp add: e)
  have c: "covered ?h ?v (c_tasks S) sid \<Longrightarrow> covered (?h(r \<mapsto> ?l')) ?v (c_tasks S) sid" for sid
    by (rule covered_upd [where l = l]) (use h b1(2) b2 in auto)
  show "strand Y (c_heap (upd r f S)) (set (c_live (upd r f S))) (c_tasks (upd r f S))"
    using D(7) h b1(2) b2 c unfolding strand_def e by (auto split: if_splits)
qed

text \<open>The loop of \<open>resumeDue\<close> holds no run while it waits for one to end.\<close>

lemma runs_ok_resuming:
  assumes ok: "runs_ok X Y S"
  shows "rest_fine (c_heap S) (set (c_live S)) rest \<Longrightarrow> runs_ok X Y (add_task (Resuming rest due) S)"
    and "runs_ok X Y (drop_task (Resuming rest due) S)"
proof -
  have e: "c_heap (add_task t S) = c_heap S" "c_live (add_task t S) = c_live S"
    "c_heap (drop_task t S) = c_heap S" "c_live (drop_task t S) = c_live S"
    "c_tasks (add_task t S) = c_tasks S @ [t]" "c_tasks (drop_task t S) = remove1 t (c_tasks S)" for t
    by (simp_all add: add_task_def drop_task_def)
  note D = runs_okD [OF ok]
  have c: "covered h v ts sid \<Longrightarrow> covered h v (remove1 (Resuming rest due) ts) sid" for h v ts sid
    unfolding covered_def by (metis ender.simps(8) in_set_remove1 option.distinct(1))
  show "runs_ok X Y (drop_task (Resuming rest due) S)"
    using ok c unfolding runs_ok_def strand_def e owners_remove1 [of "Resuming rest due", simplified]
    by (auto dest: notin_set_remove1)
  show "runs_ok X Y (add_task (Resuming rest due) S)" if "rest_fine (c_heap S) (set (c_live S)) rest"
  proof -
    have "strand Y (c_heap S) (set (c_live S)) (c_tasks S @ [Resuming rest due])"
      by (rule strand_mono [OF D(7)]) auto
    with ok that show ?thesis unfolding runs_ok_def e by auto
  qed
qed

text \<open>A handler takes over the run of the task it continues, and hands it on to another task.\<close>

lemma runs_ok_release:
  assumes ok: "runs_ok X Y S" and t: "t \<in> set (c_tasks S)" "owner t = Some r"
  shows "runs_ok (r # X) Y (drop_task t S)"
proof (rule runs_okI)
  note D = runs_okD [OF ok]
  have e: "c_heap (drop_task t S) = c_heap S" "c_live (drop_task t S) = c_live S"
    "c_tasks (drop_task t S) = remove1 t (c_tasks S)" by (auto simp: drop_task_def)
  note o = owners_release [OF t D(3)]
  have o2: "set (owners (c_tasks (drop_task t S)) @ r # X) = set (owners (c_tasks S) @ X)" using o by (auto simp: e)
  show "distinct (c_live (drop_task t S))" "heap_ok (c_heap (drop_task t S))"
    "single (c_heap (drop_task t S)) (set (c_live (drop_task t S)))" using D by (simp_all add: e)
  show "distinct (owners (c_tasks (drop_task t S)) @ r # X)" using o by (simp add: e)
  show "\<exists>m. c_heap (drop_task t S) q = Some m \<and> run_fine (set (owners (c_tasks (drop_task t S)) @ r # X)) q m"
    if "q \<in> set (c_live (drop_task t S))" for q
    unfolding o2 using that D(4) [of q] by (simp add: e)
  show "task_fine (c_heap (drop_task t S)) (set (c_live (drop_task t S))) u" if "u \<in> set (c_tasks (drop_task t S))" for u
    using that D(6) [of u] by (auto simp: e dest: notin_set_remove1)
  have n: "ender t = None" using t(2) by (cases t) auto
  have "ender u = Some b \<Longrightarrow> u \<in> set (c_tasks S) \<Longrightarrow> u \<in> set (remove1 t (c_tasks S))" for u b
    using n by (metis in_set_remove1 option.distinct(1))
  then have "covered (c_heap S) (set (c_live S)) (c_tasks S) sid
      \<Longrightarrow> covered (c_heap S) (set (c_live S)) (remove1 t (c_tasks S)) sid" for sid
    unfolding covered_def by blast
  then show "strand Y (c_heap (drop_task t S)) (set (c_live (drop_task t S))) (c_tasks (drop_task t S))"
    using D(7) unfolding strand_def e by blast
qed

lemma runs_ok_hand_over:
  assumes ok: "runs_ok (r # X) Y S" and t: "owner t = Some r" "task_fine (c_heap S) (set (c_live S)) t"
  shows "runs_ok X Y (add_task t S)"
proof (rule runs_okI)
  note D = runs_okD [OF ok]
  have e: "c_heap (add_task t S) = c_heap S" "c_live (add_task t S) = c_live S"
    "c_tasks (add_task t S) = c_tasks S @ [t]" by (auto simp: add_task_def)
  have o2: "set (owners (c_tasks (add_task t S)) @ X) = set (owners (c_tasks S) @ r # X)" using t(1) by (auto simp: e)
  show "distinct (c_live (add_task t S))" "heap_ok (c_heap (add_task t S))"
    "single (c_heap (add_task t S)) (set (c_live (add_task t S)))" using D by (simp_all add: e)
  show "distinct (owners (c_tasks (add_task t S)) @ X)" using D(3) t(1) by (simp add: e)
  show "\<exists>m. c_heap (add_task t S) q = Some m \<and> run_fine (set (owners (c_tasks (add_task t S)) @ X)) q m"
    if "q \<in> set (c_live (add_task t S))" for q
    unfolding o2 using that D(4) [of q] by (simp add: e)
  show "task_fine (c_heap (add_task t S)) (set (c_live (add_task t S))) u" if "u \<in> set (c_tasks (add_task t S))" for u
    using that D(6) [of u] t(2) by (auto simp: e)
  show "strand Y (c_heap (add_task t S)) (set (c_live (add_task t S))) (c_tasks (add_task t S))"
    unfolding e by (rule strand_mono [OF D(7)]) auto
qed

subsection \<open>Leaving the live map\<close>

fun rest_of :: "task \<Rightarrow> string list" where
  "rest_of (ResumeWrite rid rest due) = rest"
| "rest_of (ResumeRead rid rest due) = rest"
| "rest_of (Resuming rest due) = rest"
| "rest_of _ = []"

lemma rest_fine_leave:
  assumes "rest_fine h v rest" "h r = Some l" "r \<in> set rest \<Longrightarrow> l_aborted l \<or> l_status l \<noteq> Recovering"
    and "l_aborted l' = l_aborted l" "l_record l' = l_record l"
  shows "rest_fine (h(r \<mapsto> l')) (v - {r}) rest"
  using assms unfolding rest_fine_def by auto

lemma task_fine_leave:
  assumes t: "task_fine h v t" "owner t \<noteq> Some r" and h: "h r = Some l"
    and d: "r \<in> set (rest_of t) \<Longrightarrow> l_aborted l \<or> l_status l \<noteq> Recovering"
    and e: "l_aborted l' = l_aborted l" "l_record l' = l_record l"
  shows "task_fine (h(r \<mapsto> l')) (v - {r}) t"
proof -
  have "rest_fine h v (rest_of t) \<Longrightarrow> rest_fine (h(r \<mapsto> l')) (v - {r}) (rest_of t)"
    by (rule rest_fine_leave [where l = l]) (use h d e in auto)
  then show ?thesis using t h by (cases t) auto
qed

lemma run_fine_other: "run_fine own q l \<Longrightarrow> own - {r} \<subseteq> own' \<Longrightarrow> q \<noteq> r \<Longrightarrow> run_fine own' q l"
  unfolding run_fine_def by blast

lemma runs_ok_finalize:
  assumes ok: "runs_ok X Y S" and own: "r \<notin> set (owners (c_tasks S))"
    and d: "\<And>l t. r \<in> set (c_live S) \<Longrightarrow> c_heap S r = Some l \<Longrightarrow> t \<in> set (c_tasks S) \<Longrightarrow> r \<in> set (rest_of t)
      \<Longrightarrow> l_aborted l \<or> l_status l \<noteq> Recovering"
  shows "runs_ok (removeAll r X) Y (finalize H r out S)"
proof -
  note D = runs_okD [OF ok]
  let ?h = "c_heap S" and ?v = "set (c_live S)"
  have dx: "distinct (owners (c_tasks S) @ removeAll r X)" using D(3) by (auto simp: distinct_removeAll)
  have sub: "set (owners (c_tasks S) @ X) - {r} \<subseteq> set (owners (c_tasks S) @ removeAll r X)" by auto
  show ?thesis
  proof (cases "r \<in> ?v")
    case False
    have "\<exists>m. ?h q = Some m \<and> run_fine (set (owners (c_tasks S) @ removeAll r X)) q m" if "q \<in> ?v" for q
      using D(4) [OF that] run_fine_other [OF _ sub] that False by metis
    with False D dx show ?thesis by (auto simp: finalize_def runs_ok_def)
  next
    case True
    from D(4) [OF True] obtain l where l: "?h r = Some l" by blast
    note dl = d [OF True l]
    define l' where "l' = l\<lparr>l_buffer := close (pushClosingFrames H out l)\<rparr>"
    let ?S = "finalize H r out S"
    have s: "l_runId l' = l_runId l" "l_session l' = l_session l" "l_record l' = l_record l"
      "l_aborted l' = l_aborted l" by (simp_all add: l'_def)
    have e: "c_heap ?S = ?h(r \<mapsto> l')" "c_live ?S = removeAll r (c_live S)" "c_tasks ?S = c_tasks S @ [Closing r out]"
      using True by (auto simp: finalize_def add_task_def upd_def l l'_def)
    show ?thesis
    proof (rule runs_okI)
      show "distinct (c_live ?S)" "distinct (owners (c_tasks ?S) @ removeAll r X)"
        using D(1) dx by (simp_all add: e distinct_removeAll)
      show "heap_ok (c_heap ?S)" using D(2) l s by (auto simp: heap_ok_def e)
      show "\<exists>m. c_heap ?S q = Some m \<and> run_fine (set (owners (c_tasks ?S) @ removeAll r X)) q m"
        if "q \<in> set (c_live ?S)" for q
      proof -
        from that have q: "q \<in> ?v" "q \<noteq> r" by (auto simp: e)
        from D(4) [OF q(1)] run_fine_other [OF _ sub q(2)] q(2) show ?thesis by (auto simp: e)
      qed
      show "single (c_heap ?S) (set (c_live ?S))" using D(5) unfolding single_def e by auto
      show "task_fine (c_heap ?S) (set (c_live ?S)) t" if "t \<in> set (c_tasks ?S)" for t
      proof (cases "t = Closing r out")
        case False
        with that have t: "t \<in> set (c_tasks S)" by (auto simp: e)
        with own have "owner t \<noteq> Some r" by (auto simp: set_owners)
        from task_fine_leave [OF D(6) [OF t] this l dl [OF t] s(4,3)] show ?thesis by (simp add: e)
      qed (simp add: e)
      show "strand Y (c_heap ?S) (set (c_live ?S)) (c_tasks ?S)"
        unfolding strand_def
      proof (intro ballI allI impI)
        fix a la assume a: "a \<in> set (c_live ?S)" "c_heap ?S a = Some la" "l_status la = Queued" "l_session la \<notin> Y"
        then have "a \<noteq> r" "a \<in> ?v" "?h a = Some la" by (auto simp: e)
        with D(7) a(3,4) have "covered ?h ?v (c_tasks S) (l_session la)" unfolding strand_def by blast
        then show "covered (c_heap ?S) (set (c_live ?S)) (c_tasks ?S) (l_session la)"
          unfolding covered_def
        proof (elim disjE bexE exE conjE)
          fix b lb assume b: "b \<in> ?v" "?h b = Some lb" "l_session lb = l_session la" "l_status lb \<noteq> Queued"
          show "(\<exists>b \<in> set (c_live ?S). \<exists>lb. c_heap ?S b = Some lb \<and> l_session lb = l_session la \<and> l_status lb \<noteq> Queued)
            \<or> (\<exists>t \<in> set (c_tasks ?S). \<exists>b lb. ender t = Some b \<and> c_heap ?S b = Some lb \<and> l_session lb = l_session la)"
          proof (cases "b = r")
            case True
            with b l s(2) have "ender (Closing r out) = Some r \<and> c_heap ?S r = Some l' \<and> l_session l' = l_session la"
              by (simp add: e)
            moreover have "Closing r out \<in> set (c_tasks ?S)" by (simp add: e)
            ultimately show ?thesis by blast
          next
            case False
            with b have "b \<in> set (c_live ?S)" "c_heap ?S b = Some lb" by (auto simp: e)
            with b show ?thesis by blast
          qed
        next
          fix t b lb assume b: "t \<in> set (c_tasks S)" "ender t = Some b" "?h b = Some lb" "l_session lb = l_session la"
          then have "\<exists>m. c_heap ?S b = Some m \<and> l_session m = l_session la" using l s(2) by (cases "b = r") (auto simp: e)
          moreover have "t \<in> set (c_tasks ?S)" using b by (simp add: e)
          ultimately show "(\<exists>b \<in> set (c_live ?S). \<exists>lb. c_heap ?S b = Some lb \<and> l_session lb = l_session la \<and> l_status lb \<noteq> Queued)
            \<or> (\<exists>t \<in> set (c_tasks ?S). \<exists>b lb. ender t = Some b \<and> c_heap ?S b = Some lb \<and> l_session lb = l_session la)"
            using b(2) by blast
        qed
      qed
    qed
  qed
qed

subsection \<open>The session's run\<close>

lemma find_Some_iff_mem: "List.find P xs = Some x \<Longrightarrow> x \<in> set xs \<and> P x"
  by (induction xs) (auto split: if_splits)

lemma find_None_all: "List.find P xs = None \<longleftrightarrow> (\<forall>x \<in> set xs. \<not> P x)"
  by (induction xs) auto

lemma live_runs_mem: "l \<in> set (live_runs S) \<longleftrightarrow> (\<exists>r \<in> set (c_live S). c_heap S r = Some l)"
  by (auto simp: live_runs_def)

lemma live_mem:
  assumes "runs_ok X Y S" "l \<in> set (live_runs S)"
  shows "l_runId l \<in> set (c_live S)" "c_heap S (l_runId l) = Some l"
  using assms runs_okD(2) [OF assms(1)] by (auto simp: live_runs_mem heap_ok_def)

lemma active_Some:
  assumes "runs_ok X Y S" "activeForSession sid S = Some a"
  shows "l_runId a \<in> set (c_live S)" "c_heap S (l_runId a) = Some a" "l_session a = sid"
proof -
  have "a \<in> set (live_runs S) \<and> l_session a = sid"
    using assms(2) by (auto simp: activeForSession_def busy_def queued_in_def split: option.splits
        dest: find_Some_iff_mem)
  then show "l_runId a \<in> set (c_live S)" "c_heap S (l_runId a) = Some a" "l_session a = sid"
    using live_mem [OF assms(1)] by auto
qed

definition free :: "string \<Rightarrow> coord \<Rightarrow> bool" where
  "free sid S \<longleftrightarrow> (\<forall>r \<in> set (c_live S). \<forall>l. c_heap S r = Some l \<longrightarrow> l_session l \<noteq> sid)"

lemma active_None:
  assumes "runs_ok X Y S" "activeForSession sid S = None"
  shows "free sid S"
  unfolding free_def
proof (intro ballI allI impI notI)
  fix r l assume r: "r \<in> set (c_live S)" "c_heap S r = Some l" "l_session l = sid"
  then have "l_status l \<in> {Queued, Running, Recovering}"
    using runs_okD(4) [OF assms(1), of r] by (auto simp: run_fine_def)
  moreover have "l \<in> set (live_runs S)" using r by (auto simp: live_runs_mem)
  ultimately show False using assms(2) r(3)
    by (auto simp: activeForSession_def find_None_all busy_def queued_in_def split: option.splits)
qed


lemma owner_inFlight:
  assumes "runs_ok X Y S" "r \<in> set (owners (c_tasks S))"
  shows "\<exists>l. c_heap S r = Some l \<and> l_inFlight l"
proof -
  from assms(2) obtain t where t: "t \<in> set (c_tasks S)" "owner t = Some r" by (auto simp: set_owners)
  with runs_okD(6) [OF assms(1) t(1)] show ?thesis by (cases t) auto
qed

lemma task_fine_live_change:
  assumes "task_fine h v t" "owner t \<noteq> Some r" "r \<in> v" "h r \<noteq> None"
  shows "task_fine (h(r \<mapsto> l')) v t"
proof -
  have "rest_fine h v rest \<Longrightarrow> rest_fine (h(r \<mapsto> l')) v rest" for rest
    using assms(3) unfolding rest_fine_def by auto
  with assms show ?thesis by (cases t) auto
qed

lemma startNextQueued_cases:
  assumes ok: "runs_ok X Y S"
  obtains (idle) "startNextQueued sid S = S"
      "free sid S \<or> (\<exists>r \<in> set (c_live S). \<exists>l. c_heap S r = Some l \<and> l_session l = sid \<and> l_status l \<noteq> Queued)"
  | (takes) r l where "startNextQueued sid S = add_task (Dequeuing r)
        (upd r (\<lambda>l. l\<lparr>l_inFlight := True, l_record := (l_record l)\<lparr>status := Running\<rparr>\<rparr>) S)"
      "r \<in> set (c_live S)" "c_heap S r = Some l" "l_session l = sid" "l_status l = Queued"
      "\<And>q m. q \<in> set (c_live S) \<Longrightarrow> c_heap S q = Some m \<Longrightarrow> l_session m = sid \<Longrightarrow> l_status m = Queued"
proof (cases "List.find (busy sid) (live_runs S)")
  case (Some a)
  then have a: "a \<in> set (live_runs S)" "busy sid a" using find_Some_iff_mem by metis+
  have "startNextQueued sid S = S"
    using Some a(2) by (auto simp: startNextQueued_def activeForSession_def busy_def)
  then show thesis using idle live_mem [OF ok a(1)] a(2) unfolding busy_def by fastforce
next
  case None
  show thesis
  proof (cases "List.find (queued_in sid) (live_runs S)")
    case n: None
    then have "activeForSession sid S = None" using None by (simp add: activeForSession_def)
    then show thesis using idle active_None [OF ok] by (simp add: startNextQueued_def)
  next
    case (Some run)
    then have a: "run \<in> set (live_runs S)" "queued_in sid run" using find_Some_iff_mem by metis+
    have e: "startNextQueued sid S = add_task (Dequeuing (l_runId run))
        (upd (l_runId run) (\<lambda>l. l\<lparr>l_inFlight := True, l_record := (l_record l)\<lparr>status := Running\<rparr>\<rparr>) S)"
      using None Some a(2) by (simp add: startNextQueued_def activeForSession_def queued_in_def)
    have "l_status m = Queued" if "q \<in> set (c_live S)" "c_heap S q = Some m" "l_session m = sid" for q m
    proof -
      have "m \<in> set (live_runs S)" using that by (auto simp: live_runs_mem)
      then have "\<not> busy sid m" using None find_None_all by metis
      with that runs_okD(4) [OF ok that(1)] show ?thesis by (auto simp: busy_def run_fine_def)
    qed
    with takes [OF e live_mem [OF ok a(1)]] a(2) show thesis by (auto simp: queued_in_def)
  qed
qed

lemma runs_ok_startNextQueued:
  assumes ok: "runs_ok [] Y S"
  shows "runs_ok [] (Y - {sid}) (startNextQueued sid S)"
proof (cases rule: startNextQueued_cases [OF ok, of sid, case_names idle takes])
  case idle
  have "strand (Y - {sid}) (c_heap S) (set (c_live S)) (c_tasks S)"
    using runs_okD(7) [OF ok] idle(2) unfolding strand_def free_def covered_def by blast
  with ok idle(1) show ?thesis by (simp add: runs_ok_def)
next
  case (takes r l)
  note D = runs_okD [OF ok]
  let ?h = "c_heap S" and ?v = "set (c_live S)" and ?S = "startNextQueued sid S"
  define l' where "l' = l\<lparr>l_inFlight := True, l_record := (l_record l)\<lparr>status := Running\<rparr>\<rparr>"
  have s: "l_runId l' = l_runId l" "l_session l' = l_session l" "l_status l' = Running" "l_inFlight l'"
    "l_buffer l' = l_buffer l" by (simp_all add: l'_def)
  have e: "c_heap ?S = ?h(r \<mapsto> l')" "c_live ?S = c_live S" "c_tasks ?S = c_tasks S @ [Dequeuing r]"
    using takes(1,3) by (auto simp: add_task_def upd_def l'_def)
  have "\<not> l_inFlight l" using D(4) [OF takes(2)] takes(3,5) by (auto simp: run_fine_def)
  then have own: "r \<notin> set (owners (c_tasks S))" using owner_inFlight [OF ok] takes(3) by force
  show ?thesis
  proof (rule runs_okI)
    show "distinct (c_live ?S)" "distinct (owners (c_tasks ?S) @ [])" using D(1,3) own by (simp_all add: e)
    show "heap_ok (c_heap ?S)" using D(2) takes(3) s by (auto simp: heap_ok_def e)
    show "\<exists>m. c_heap ?S q = Some m \<and> run_fine (set (owners (c_tasks ?S) @ [])) q m" if "q \<in> set (c_live ?S)" for q
    proof (cases "q = r")
      case True
      then show ?thesis using D(4) [OF takes(2)] takes(3) s by (auto simp: e run_fine_def)
    next
      case False
      have "q \<in> ?v" using that by (simp add: e)
      from D(4) [OF this] False show ?thesis by (auto simp: e run_fine_def)
    qed
    show "single (c_heap ?S) (set (c_live ?S))"
      using D(5) takes(3,4,6) s(2) unfolding single_def e by (auto split: if_splits)
    show "task_fine (c_heap ?S) (set (c_live ?S)) t" if "t \<in> set (c_tasks ?S)" for t
    proof (cases "t = Dequeuing r")
      case False
      with that have t: "t \<in> set (c_tasks S)" by (auto simp: e)
      with own have "owner t \<noteq> Some r" by (auto simp: set_owners)
      from task_fine_live_change [OF D(6) [OF t] this takes(2)] takes(3) show ?thesis by (simp add: e)
    qed (use takes(2) s in \<open>simp add: e\<close>)
    have c: "covered ?h ?v (c_tasks S) k \<Longrightarrow> covered (?h(r \<mapsto> l')) ?v (c_tasks S @ [Dequeuing r]) k" for k
      by (rule covered_mono [OF covered_upd [where l = l]]) (use takes(3) s in auto)
    have "covered (?h(r \<mapsto> l')) ?v (c_tasks S @ [Dequeuing r]) sid"
      using takes(2,4) s unfolding covered_def by auto
    with c D(7) s(3) show "strand (Y - {sid}) (c_heap ?S) (set (c_live ?S)) (c_tasks ?S)"
      unfolding strand_def e by (auto split: if_splits)
  qed
qed

lemma touchKeepAlive_same [simp]:
  "c_heap (touchKeepAlive H now S) = c_heap S" "c_live (touchKeepAlive H now S) = c_live S"
  "c_tasks (touchKeepAlive H now S) = c_tasks S" "c_turns (touchKeepAlive H now S) = c_turns S"
  "c_waiting (touchKeepAlive H now S) = c_waiting S" "c_db (touchKeepAlive H now S) = c_db S"
  by (auto simp: touchKeepAlive_def requestAlarm_def Let_def)

lemma runs_ok_cong:
  "c_heap S' = c_heap S \<Longrightarrow> c_live S' = c_live S \<Longrightarrow> c_tasks S' = c_tasks S \<Longrightarrow> runs_ok X Y S' = runs_ok X Y S"
  by (simp add: runs_ok_def)

subsection \<open>Pieces of handlers\<close>

lemma given_keeps:
  "(\<And>x r. g (f x r) = g r) \<Longrightarrow> g (given v f r) = g r" for g :: "run_record \<Rightarrow> 'b"
  by (cases v) simp_all

lemmas given_keep_fields = given_keeps [where g = status] given_keeps [where g = nextAttemptAt]
  given_keeps [where g = runId] given_keeps [where g = sessionId]

lemma given_set: "status (given v (\<lambda>v r. r\<lparr>status := v\<rparr>) r) = (case v of None \<Rightarrow> status r | Some s \<Rightarrow> s)"
  "nextAttemptAt (given w (\<lambda>v r. r\<lparr>nextAttemptAt := v\<rparr>) r) = (case w of None \<Rightarrow> nextAttemptAt r | Some t \<Rightarrow> t)"
  by (cases v; simp) (cases w; simp)

lemma patch_status [simp]: "status (patchRunRecord r p at) = (case p_status p of None \<Rightarrow> status r | Some v \<Rightarrow> v)"
  unfolding patchRunRecord_def by (simp add: given_keep_fields given_set split: option.split)

lemma patch_nextAttemptAt [simp]:
  "nextAttemptAt (patchRunRecord r p at) = (case p_nextAttemptAt p of None \<Rightarrow> nextAttemptAt r | Some v \<Rightarrow> v)"
  unfolding patchRunRecord_def by (simp add: given_keep_fields given_set split: option.split)

lemma patch_keys [simp]: "runId (patchRunRecord r p at) = runId r" "sessionId (patchRunRecord r p at) = sessionId r"
  unfolding patchRunRecord_def by (simp_all add: given_keep_fields)

lemma no_patch_simps [simp]: "p_status no_patch = None" "p_nextAttemptAt no_patch = None"
  by (simp_all add: no_patch_def)

lemma upd_other [simp]: "c_live (upd r f S) = c_live S" "c_tasks (upd r f S) = c_tasks S"
  "c_turns (upd r f S) = c_turns S" "c_waiting (upd r f S) = c_waiting S" "c_db (upd r f S) = c_db S"
  by (simp_all add: upd_def)

lemma upd_heap: "c_heap S r = Some l \<Longrightarrow> c_heap (upd r f S) = (c_heap S)(r \<mapsto> f l)"
  by (simp add: upd_def)

lemma written_same [simp]: "c_live (written r p now S) = c_live S" "c_tasks (written r p now S) = c_tasks S"
  "c_turns (written r p now S) = c_turns S" "c_waiting (written r p now S) = c_waiting S"
  by (simp_all add: written_def case_prod_unfold Let_def)

lemma written_heap: "c_heap S r = Some l \<Longrightarrow>
    c_heap (written r p now S) = (c_heap S)(r \<mapsto> l\<lparr>l_record := patchRunRecord (l_record l) p now\<rparr>)"
  by (simp add: written_def case_prod_unfold Let_def upd_def update_run_def)

text \<open>A run held by the handler: it owns it, and the run is in flight.\<close>

lemma held_not_owner: "runs_ok (r # X) Y S \<Longrightarrow> r \<notin> set (owners (c_tasks S))"
  using runs_okD(3) by fastforce

lemma runs_ok_written:
  assumes ok: "runs_ok (r # X) Y S" and h: "c_heap S r = Some l"
    and p: "r \<in> set (c_live S) \<Longrightarrow> l_status l \<noteq> Queued" "p_status p \<in> {Some Running, Some Recovering}"
    and d: "r \<notin> set (c_live S) \<Longrightarrow> p_status p = Some Running"
  shows "runs_ok (r # X) Y (written r p now S)"
proof -
  have "runs_ok (r # X) Y (upd r (\<lambda>l. l\<lparr>l_record := patchRunRecord (l_record l) p now\<rparr>) S)"
  proof (rule runs_ok_upd [OF ok h])
    have "r \<in> set (c_live S) \<Longrightarrow> \<not> rb_closed (l_buffer l)"
      using runs_okD(4) [OF ok, of r] h by (auto simp: run_fine_def)
    then show "benign (set (owners (c_tasks S))) (set (r # X)) (set (c_live S)) r l
        (l\<lparr>l_record := patchRunRecord (l_record l) p now\<rparr>)"
      using p d held_not_owner [OF ok] unfolding benign_def run_fine_def by auto
  qed
  moreover have "runs_ok (r # X) Y (written r p now S)
      = runs_ok (r # X) Y (upd r (\<lambda>l. l\<lparr>l_record := patchRunRecord (l_record l) p now\<rparr>) S)"
    by (rule runs_ok_cong) (simp_all add: written_heap [OF h] upd_heap [OF h])
  ultimately show ?thesis by simp
qed

lemma runs_ok_end_attempt:
  assumes ok: "runs_ok [r] Y S" and h: "c_heap S r = Some l"
    and d: "r \<in> set (c_live S) \<Longrightarrow> l_status l \<noteq> Queued \<and> (l_aborted l \<or> l_status l \<noteq> Recovering)"
  shows "runs_ok [] Y (end_attempt H r out S)"
proof -
  let ?S = "upd r (\<lambda>l. l\<lparr>l_inFlight := False\<rparr>) S"
  have "runs_ok [r] Y ?S"
  proof (rule runs_ok_upd [OF ok h])
    show "benign (set (owners (c_tasks S))) (set [r]) (set (c_live S)) r l (l\<lparr>l_inFlight := False\<rparr>)"
      using held_not_owner [OF ok] runs_okD(4) [OF ok, of r] h d unfolding benign_def run_fine_def by auto
  qed
  then have "runs_ok (removeAll r [r]) Y (finalize H r out ?S)"
    by (rule runs_ok_finalize) (use held_not_owner [OF ok] d h in \<open>auto simp: upd_heap\<close>)
  then show ?thesis by (simp add: end_attempt_def)
qed

lemma runs_ok_startAttempt:
  assumes ok: "runs_ok [r] Y S" and h: "c_heap S r = Some l" "r \<in> set (c_live S)" "l_status l = Running"
  shows "runs_ok [] Y (startAttempt H r resumed src now S)"
proof -
  let ?S = "upd r (\<lambda>l. l\<lparr>l_inFlight := True, l_source := src\<rparr>) S"
  have "runs_ok [r] Y ?S"
  proof (rule runs_ok_upd [OF ok h(1)])
    show "benign (set (owners (c_tasks S))) (set [r]) (set (c_live S)) r l (l\<lparr>l_inFlight := True, l_source := src\<rparr>)"
      using held_not_owner [OF ok] runs_okD(4) [OF ok, of r] h unfolding benign_def run_fine_def by auto
  qed
  then have "runs_ok [r] Y (touchKeepAlive H now ?S)" by (subst runs_ok_cong [of _ ?S]) simp_all
  then show ?thesis unfolding startAttempt_def
    by (rule runs_ok_hand_over) (use h in \<open>auto simp: upd_heap\<close>)
qed

lemma runs_ok_idle_finalize:
  assumes ok: "runs_ok [] Y S"
    and d: "\<And>l. r \<in> set (c_live S) \<Longrightarrow> c_heap S r = Some l \<Longrightarrow> \<not> l_inFlight l \<and> (l_aborted l \<or> l_status l \<noteq> Recovering)"
  shows "runs_ok [] Y (finalize H r out S)"
proof (cases "r \<in> set (c_live S)")
  case True
  then have "r \<notin> set (owners (c_tasks S))"
    using owner_inFlight [OF ok] d by fastforce
  from runs_ok_finalize [OF ok this, of H out] d show ?thesis by force
next
  case False
  with ok show ?thesis by (simp add: finalize_def)
qed

lemma runs_ok_cancelQueued:
  assumes ok: "runs_ok [] Y S" and q: "\<And>l. r \<in> set (c_live S) \<Longrightarrow> c_heap S r = Some l \<Longrightarrow> l_status l = Queued"
  shows "runs_ok [] Y (cancelQueued H r S)"
  unfolding cancelQueued_def
proof (rule runs_ok_idle_finalize [OF ok])
  fix l assume "r \<in> set (c_live S)" "c_heap S r = Some l"
  with q [OF this] runs_okD(4) [OF ok, of r] show "\<not> l_inFlight l \<and> (l_aborted l \<or> l_status l \<noteq> Recovering)"
    by (auto simp: run_fine_def)
qed

lemma runs_ok_abortRun:
  assumes ok: "runs_ok [] Y S"
  shows "runs_ok [] Y (abortRun H r S)"
proof (cases "c_heap S r")
  case (Some l)
  let ?S = "upd r (\<lambda>l. l\<lparr>l_aborted := True\<rparr>) S"
  have ok1: "runs_ok [] Y ?S"
  proof (rule runs_ok_upd [OF ok Some])
    show "benign (set (owners (c_tasks S))) (set []) (set (c_live S)) r l (l\<lparr>l_aborted := True\<rparr>)"
      using runs_okD(4) [OF ok, of r] Some unfolding benign_def run_fine_def waits_def by auto
  qed
  show ?thesis
  proof (cases "l_inFlight l")
    case False
    with Some have "runs_ok [] Y (finalize H r (aborted_outcome (continuation_text l)) ?S)"
      by (intro runs_ok_idle_finalize [OF ok1]) (auto simp: upd_heap)
    with Some False show ?thesis by (simp add: abortRun_def Let_def)
  qed (use Some ok1 in \<open>simp add: abortRun_def Let_def\<close>)
qed (use ok in \<open>simp add: abortRun_def\<close>)

lemma runs_ok_resume_loop:
  assumes "runs_ok [] Y S" and "rest_fine (c_heap S) (set (c_live S)) rest"
  shows "runs_ok [] Y (resume_loop rest due S)"
  using assms
proof (induction rest due S rule: resume_loop.induct)
  case (2 rid rest due S)
  then obtain l where l: "c_heap S rid = Some l" "rid \<in> set (c_live S) \<or> l_aborted l \<or> l_status l \<noteq> Recovering"
    by (auto simp: rest_fine_def)
  have rf: "rest_fine (c_heap S) (set (c_live S)) rest" using "2.prems"(2) by (auto simp: rest_fine_def)
  show ?case
  proof (cases "l_status l \<noteq> Recovering \<or> l_inFlight l
       \<or> (case nextAttemptAt (l_record l) of None \<Rightarrow> False | Some t \<Rightarrow> t > due)")
    case True
    with "2.IH"(2) [OF l(1) True "2.prems"(1) rf] l(1) show ?thesis by simp
  next
    case False
    note ok = "2.prems"(1)
    let ?f = "\<lambda>l. l\<lparr>l_inFlight := True\<rparr>" and ?v = "set (c_live S)"
    have own: "rid \<notin> set (owners (c_tasks S))" using owner_inFlight [OF ok, of rid] l(1) False by auto
    have w: "rid \<in> ?v \<Longrightarrow> \<not> rb_closed (l_buffer l) \<and> waits l"
      using runs_okD(4) [OF ok, of rid] l(1) False own by (auto simp: run_fine_def)
    have x: "runs_ok [rid] Y S" using ok own unfolding runs_ok_def run_fine_def by fastforce
    then have "runs_ok [rid] Y (upd rid ?f S)"
      by (rule runs_ok_upd [OF _ l(1)]) (use False own w in \<open>auto simp: benign_def run_fine_def waits_def\<close>)
    then have "runs_ok [] Y (add_task (ResumeWrite rid rest due) (upd rid ?f S))"
    proof (rule runs_ok_hand_over)
      have "rest_fine ((c_heap S)(rid \<mapsto> ?f l)) ?v rest" using rf l(1) unfolding rest_fine_def by auto
      then show "task_fine (c_heap (upd rid ?f S)) (set (c_live (upd rid ?f S))) (ResumeWrite rid rest due)"
        using l w False by (auto simp: upd_heap waits_def)
    qed simp
    with l(1) False show ?thesis by simp
  qed
qed simp

subsection \<open>What a turn relies on\<close>

text \<open>
  Everything but the turns themselves opens no run: the live map only shrinks, objects stay and keep
  their session, and no row is removed.
\<close>

definition row_ids :: "coord \<Rightarrow> string set" where
  "row_ids S = runId ` set (turn_runs (c_db S))"

text \<open>An object is accounted for: it is live and open, or its readers were told that it ended.\<close>

definition told :: "run_buffer \<Rightarrow> bool" where
  "told b \<longleftrightarrow> rb_closed b \<and> rb_done b \<noteq> None"

definition accounted :: "coord \<Rightarrow> string \<Rightarrow> bool" where
  "accounted S r \<longleftrightarrow> (\<exists>l. c_heap S r = Some l
     \<and> (r \<in> set (c_live S) \<and> \<not> rb_closed (l_buffer l) \<or> r \<notin> set (c_live S) \<and> told (l_buffer l)))"

definition keeps :: "coord \<Rightarrow> coord \<Rightarrow> bool" where
  "keeps S S' \<longleftrightarrow> c_turns S' = c_turns S \<and> set (c_live S') \<subseteq> set (c_live S)
     \<and> (\<forall>r. accounted S r \<longrightarrow> accounted S' r)
     \<and> (\<forall>r. map_option l_session (c_heap S' r) = map_option l_session (c_heap S r)) \<and> row_ids S \<subseteq> row_ids S'"

lemma keeps_refl [simp]: "keeps S S"
  by (simp add: keeps_def)

lemma keeps_trans: "keeps S1 S2 \<Longrightarrow> keeps S2 S3 \<Longrightarrow> keeps S1 S3"
  unfolding keeps_def by auto

definition steady :: "(live_run \<Rightarrow> live_run) \<Rightarrow> bool" where
  "steady f \<longleftrightarrow> (\<forall>l. l_session (f l) = l_session l \<and> rb_closed (l_buffer (f l)) = rb_closed (l_buffer l)
     \<and> (told (l_buffer l) \<longrightarrow> told (l_buffer (f l))))"

lemma steady_same: "(\<And>l. l_session (f l) = l_session l) \<Longrightarrow> (\<And>l. l_buffer (f l) = l_buffer l) \<Longrightarrow> steady f"
  by (simp add: steady_def)

lemma keeps_steady:
  assumes "steady f" shows "keeps S (upd r f S)"
proof -
  have "accounted S q \<Longrightarrow> accounted (upd r f S) q" for q
    using assms unfolding accounted_def steady_def by (cases "q = r") (auto simp: upd_def)
  with assms show ?thesis
    by (auto simp: keeps_def upd_def row_ids_def option.map_comp o_def steady_def)
qed

lemma keeps_upd:
  "(\<And>l. l_session (f l) = l_session l) \<Longrightarrow> (\<And>l. l_buffer (f l) = l_buffer l) \<Longrightarrow> keeps S (upd r f S)"
  by (rule keeps_steady [OF steady_same])

lemma steady_buffer:
  assumes "\<And>b. rb_closed (g b) = rb_closed b" "\<And>b. rb_done b \<noteq> None \<Longrightarrow> rb_done (g b) \<noteq> None"
  shows "steady (\<lambda>l. l\<lparr>l_buffer := g (l_buffer l)\<rparr>)"
  using assms by (auto simp: steady_def told_def)

lemma keeps_tasks [simp]: "keeps S (add_task t S)" "keeps S (drop_task t S)" "keeps S (requestAlarm at S)"
  "keeps S (touchKeepAlive H now S)"
  by (simp_all add: keeps_def add_task_def drop_task_def requestAlarm_def row_ids_def accounted_def)

lemma row_ids_update_run: "runId ` set (turn_runs (snd (update_run r p now db))) = runId ` set (turn_runs db)"
proof -
  define sets where "sets = SetUpdatedAt now # patch_columns p
      @ (if p_startCheckpointId p \<noteq> None then [SetStartRecorded] else [])"
  have "turn_runs (snd (update_run r p now db))
      = map (\<lambda>row. if runId row = r then fold set_column sets row else row) (turn_runs db)"
    unfolding update_run_def Let_def sets_def by simp
  moreover have "map runId (map (\<lambda>row. if runId row = r then fold set_column sets row else row) rows) = map runId rows"
    for rows by (induction rows) auto
  ultimately have "map runId (turn_runs (snd (update_run r p now db))) = map runId (turn_runs db)" by simp
  then show ?thesis by (metis set_map)
qed

lemma keeps_db:
  assumes "keeps S S'" "runId ` set (turn_runs (c_db S')) \<subseteq> runId ` set (turn_runs db)"
  shows "keeps S (S'\<lparr>c_db := db\<rparr>)"
proof -
  have "accounted (S'\<lparr>c_db := db\<rparr>) r = accounted S' r" for r by (simp add: accounted_def)
  with assms show ?thesis unfolding keeps_def row_ids_def by simp (meson subset_trans)
qed

lemma keeps_written [simp]: "keeps S (written r p now S)"
  unfolding written_def case_prod_unfold Let_def
  by (rule keeps_db [OF keeps_upd]) (simp_all add: row_ids_update_run)

lemma keeps_row_closed [simp]: "keeps S (row_closed r out now S)"
proof (cases "c_heap S r")
  case (Some l)
  show ?thesis unfolding row_closed_def Some option.case Let_def case_prod_unfold
    by (rule keeps_db [OF keeps_upd])
      (simp_all add: close_run_def case_prod_unfold deleteSegments_def row_ids_update_run Let_def)
qed (simp add: row_closed_def)

lemma push_frame_closed [simp]: "rb_closed (push_frame opts ev c d b) = rb_closed b"
  by (auto simp: push_frame_def push_def append_frame_def flush_def Let_def split: option.split)

lemma push_frame_done: "rb_done b \<noteq> None \<Longrightarrow> rb_done (push_frame opts ev c d b) \<noteq> None"
  "\<not> rb_closed b \<Longrightarrow> rb_done (push_frame opts ''done'' c d b) \<noteq> None"
  by (auto simp: push_frame_def push_def append_frame_def flush_def Let_def split: option.splits if_splits)

lemma told_closed: "\<not> rb_closed (l_buffer l) \<Longrightarrow> told (close (pushClosingFrames H out l))"
  unfolding pushClosingFrames_def told_def Let_def
  by (auto simp: close_def flush_def Let_def push_frame_done [simplified])

lemma keeps_finalize [simp]: "keeps S (finalize H r out S)"
proof (cases "r \<in> set (c_live S)")
  case True
  let ?T = "(upd r (\<lambda>l. l\<lparr>l_buffer := close (pushClosingFrames H out l)\<rparr>) S)\<lparr>c_live := removeAll r (c_live S)\<rparr>"
  have "accounted S q \<Longrightarrow> accounted ?T q" for q
    using told_closed [of _ H out] True unfolding accounted_def by (cases "q = r") (auto simp: upd_def)
  then have "keeps S ?T" by (auto simp: keeps_def upd_def row_ids_def option.map_comp o_def)
  from keeps_trans [OF this keeps_tasks(1)] True show ?thesis by (simp add: finalize_def)
qed (simp add: finalize_def)

lemma keeps_startNextQueued [simp]: "keeps S (startNextQueued sid S)"
proof -
  have "keeps S (add_task t (upd r (\<lambda>l. l\<lparr>l_inFlight := True, l_record := (l_record l)\<lparr>status := Running\<rparr>\<rparr>) S))" for t r
    by (rule keeps_trans [OF keeps_upd keeps_tasks(1)]) simp_all
  then show ?thesis unfolding startNextQueued_def by (auto split: option.split)
qed

lemma keeps_startAttempt [simp]: "keeps S (startAttempt H r resumed src now S)"
  unfolding startAttempt_def
  by (rule keeps_trans [OF keeps_trans [OF keeps_upd keeps_tasks(4)] keeps_tasks(1)]) simp_all

lemma keeps_end_attempt [simp]: "keeps S (end_attempt H r out S)"
  unfolding end_attempt_def by (rule keeps_trans [OF keeps_upd keeps_finalize]) simp_all

lemma keeps_abortRun [simp]: "keeps S (abortRun H r S)"
  unfolding abortRun_def Let_def
  by (auto split: option.split intro: keeps_upd keeps_trans [OF keeps_upd keeps_finalize])

lemma keeps_cancelQueued [simp]: "keeps S (cancelQueued H r S)"
  by (simp add: cancelQueued_def)

lemma keeps_resume_loop [simp]: "keeps S (resume_loop rest due S)"
  by (induction rest due S rule: resume_loop.induct)
    (auto split: option.split intro: keeps_trans [OF keeps_upd keeps_tasks(1)])

text \<open>The same, after any step that keeps.\<close>

lemmas keeps_after = keeps_trans [OF _ keeps_tasks(1)] keeps_trans [OF _ keeps_tasks(3)]
  keeps_trans [OF _ keeps_end_attempt] keeps_trans [OF _ keeps_startAttempt] keeps_trans [OF _ keeps_resume_loop]
  keeps_trans [OF _ keeps_upd]

lemma keeps_attempt_ends [simp]: "keeps S (attempt_ends H r res now S)"
  unfolding attempt_ends_def by (auto split: option.split attempt_result.split recovery_decision.split)

lemma keeps_defer_written [simp]: "keeps S (defer_written H r e at k ok now S)"
  unfolding defer_written_def by (auto split: option.split intro!: keeps_after)

lemma keeps_dequeue_written [simp]: "keeps S (dequeue_written H r err cp now S)"
  unfolding dequeue_written_def Let_def by (auto split: option.split intro!: keeps_after)

lemma keeps_resume_written [simp]: "keeps S (resume_written H r rest due ok now S)"
  unfolding resume_written_def by (auto split: option.split intro!: keeps_after)

lemma steady_resumed: "steady (resumed_run H b)"
  using push_frame_done(1) by (auto simp: steady_def resumed_run_def told_def)

lemma keeps_resume_read [simp]: "keeps S (resume_read H r rest due cp now S)"
  unfolding resume_read_def Let_def
  by (auto split: option.split intro!: keeps_after keeps_trans [OF keeps_steady [OF steady_resumed] keeps_startAttempt])

lemma keeps_fold: "(\<And>x T. keeps T (f x T)) \<Longrightarrow> keeps S (fold f xs S)"
  by (induction xs arbitrary: S) (auto intro: keeps_trans)

lemma keeps_cancel_if [simp]: "keeps S (cancel_if H P r S)"
  by (auto simp: cancel_if_def split: option.split)

lemma keeps_abort_if_busy [simp]: "keeps S (abort_if_busy H r S)"
  by (auto simp: abort_if_busy_def split: option.split)

lemma keeps_stop_runs [simp]: "keeps S (stop_runs H rids S)"
  unfolding stop_runs_def by (rule keeps_trans [OF keeps_fold keeps_fold]) simp_all

fun created_id :: "ticket \<times> turn_phase \<Rightarrow> string option" where
  "created_id (k, Created rec q bs) = Some (runId rec)"
| "created_id _ = None"

fun phase_fine :: "coord \<Rightarrow> ticket \<Rightarrow> turn_phase \<Rightarrow> bool" where
  "phase_fine S k (Creating q bs) \<longleftrightarrow> q \<or> k_superseded k \<or> free (k_session k) S"
| "phase_fine S k (Created rec q bs) \<longleftrightarrow> c_heap S (runId rec) = None \<and> runId rec \<in> row_ids S
     \<and> sessionId rec = k_session k \<and> (q \<longrightarrow> status rec = Queued)
     \<and> (q \<or> k_superseded k \<or> free (k_session k) S \<and> status rec = Running)"
| "phase_fine S k _ \<longleftrightarrow> True"

definition turns_ok :: "coord \<Rightarrow> bool" where
  "turns_ok S \<longleftrightarrow> distinct (map (\<lambda>x. k_session (fst x)) (c_turns S))
   \<and> distinct (List.map_filter created_id (c_turns S))
   \<and> (\<forall>r. c_heap S r \<noteq> None \<longrightarrow> r \<in> row_ids S \<and> accounted S r)
   \<and> (\<forall>(k, p) \<in> set (c_turns S). phase_fine S k p)"

lemma free_keeps:
  assumes "keeps S S'" "free sid S" shows "free sid S'"
  unfolding free_def
proof (intro ballI allI impI)
  fix r l assume r: "r \<in> set (c_live S')" "c_heap S' r = Some l"
  from assms(1) have "r \<in> set (c_live S)" "map_option l_session (c_heap S' r) = map_option l_session (c_heap S r)"
    using r(1) unfolding keeps_def by blast+
  with r(2) have "r \<in> set (c_live S)" "map_option l_session (c_heap S r) = Some (l_session l)" by simp_all
  with assms(2) show "l_session l \<noteq> sid" unfolding free_def by force
qed

lemma heap_keeps: "keeps S S' \<Longrightarrow> (c_heap S' r = None) = (c_heap S r = None)"
  unfolding keeps_def by (metis map_option_is_None)

lemma phase_fine_keeps: "keeps S S' \<Longrightarrow> phase_fine S k p \<Longrightarrow> phase_fine S' k p"
proof -
  assume k: "keeps S S'" and p: "phase_fine S k p"
  then have "row_ids S \<subseteq> row_ids S'" by (simp add: keeps_def)
  with p free_keeps [OF k] heap_keeps [OF k] show ?thesis by (cases p) auto
qed

lemma turns_ok_keeps:
  assumes "keeps S S'" "turns_ok S" shows "turns_ok S'"
proof -
  from assms(1) have "c_turns S' = c_turns S" "row_ids S \<subseteq> row_ids S'" "\<And>r. accounted S r \<Longrightarrow> accounted S' r"
    by (simp_all add: keeps_def)
  with assms(2) phase_fine_keeps [OF assms(1)] heap_keeps [OF assms(1)] show ?thesis
    unfolding turns_ok_def by auto
qed

subsection \<open>Handlers keep the invariant\<close>

lemma runs_ok_let_go:
  assumes ok: "runs_ok [r] Y S" and h: "c_heap S r = Some l" "waits l"
  shows "runs_ok [] Y S"
proof -
  have "\<exists>m. c_heap S q = Some m \<and> run_fine (set (owners (c_tasks S) @ [])) q m" if "q \<in> set (c_live S)" for q
    using runs_okD(4) [OF ok that] h by (cases "q = r") (auto simp: run_fine_def)
  with ok show ?thesis unfolding runs_ok_def by simp
qed

lemma runs_ok_db [simp]: "runs_ok X Y (S\<lparr>c_db := db\<rparr>) = runs_ok X Y S"
  by (simp add: runs_ok_def)

lemma runs_ok_alarm [simp]: "runs_ok X Y (requestAlarm at S) = runs_ok X Y S"
  by (simp add: runs_ok_def requestAlarm_def)

lemma drop_task_same [simp]: "c_heap (drop_task t S) = c_heap S" "c_live (drop_task t S) = c_live S"
  "c_db (drop_task t S) = c_db S" "c_turns (drop_task t S) = c_turns S"
  by (simp_all add: drop_task_def)

text \<open>The run of an executing attempt (or of a write it waits for).\<close>

lemma held_run:
  assumes "runs_ok [] Y S" "t \<in> set (c_tasks S)" "owner t = Some r" "\<And>rest due. t \<noteq> ResumeWrite r rest due"
    "\<And>rest due. t \<noteq> ResumeRead r rest due"
  obtains l where "c_heap S r = Some l" "l_inFlight l" "l_status l = Running" "r \<in> set (c_live S)"
    "runs_ok [r] Y (drop_task t S)"
  using runs_okD(6) [OF assms(1,2)] runs_ok_release [OF assms(1-3)] assms(3-5) that by (cases t) auto

lemma runs_ok_attempt_ends:
  assumes ok: "runs_ok [] Y S" and t: "Attempt r b \<in> set (c_tasks S)"
  shows "runs_ok [] Y (attempt_ends H r res now (drop_task (Attempt r b) S))"
proof -
  obtain l where l: "c_heap S r = Some l" "l_inFlight l" "l_status l = Running" "r \<in> set (c_live S)"
      and ok1: "runs_ok [r] Y (drop_task (Attempt r b) S)"
    by (rule held_run [OF ok t, of r]) auto
  have "runs_ok [] Y (end_attempt H r out (drop_task (Attempt r b) S))" for out
    by (rule runs_ok_end_attempt [OF ok1, where l = l]) (use l in auto)
  moreover have "runs_ok [] Y (add_task (Deferring r e at k) (drop_task (Attempt r b) S))" for e at k
    by (rule runs_ok_hand_over [OF ok1]) (use l in auto)
  ultimately show ?thesis using l(1)
    by (auto simp: attempt_ends_def split: attempt_result.split recovery_decision.split)
qed

lemma runs_ok_defer_written:
  assumes ok: "runs_ok [] Y S" and t: "Deferring r e at k \<in> set (c_tasks S)"
  shows "runs_ok [] Y (defer_written H r e at k b now (drop_task (Deferring r e at k) S))"
proof -
  let ?S = "drop_task (Deferring r e at k) S" and ?p = "defer_patch at k"
  obtain l where l: "c_heap S r = Some l" "l_inFlight l" "l_status l = Running" "r \<in> set (c_live S)"
      and ok1: "runs_ok [r] Y ?S"
    by (rule held_run [OF ok t, of r]) auto
  let ?l = "l\<lparr>l_record := patchRunRecord (l_record l) ?p now\<rparr>"
  have p: "p_status ?p = Some Recovering" "p_nextAttemptAt ?p = Some (Some at)" by (simp_all add: defer_patch_def)
  have ok2: "runs_ok [r] Y (written r ?p now ?S)"
    by (rule runs_ok_written [OF ok1, where l = l]) (use l p in auto)
  have h2: "c_heap (written r ?p now ?S) r = Some ?l" using l(1) by (simp add: written_heap)
  have a: "runs_ok [] Y (end_attempt H r out ?S)" for out
    by (rule runs_ok_end_attempt [OF ok1, where l = l]) (use l in auto)
  have b: "l_aborted l \<Longrightarrow> runs_ok [] Y (end_attempt H r out (written r ?p now ?S))" for out
    by (rule runs_ok_end_attempt [OF ok2 h2]) (use l p in auto)
  have "runs_ok [r] Y (upd r (\<lambda>l. l\<lparr>l_inFlight := False\<rparr>) (written r ?p now ?S))"
    by (rule runs_ok_upd [OF ok2 h2])
      (use held_not_owner [OF ok2] runs_okD(4) [OF ok2, of r] h2 l p in \<open>auto simp: benign_def run_fine_def\<close>)
  then have "runs_ok [] Y (upd r (\<lambda>l. l\<lparr>l_inFlight := False\<rparr>) (written r ?p now ?S))"
    by (rule runs_ok_let_go [where l = "?l\<lparr>l_inFlight := False\<rparr>"]) (use h2 p in \<open>auto simp: upd_heap waits_def\<close>)
  with a b l(1) show ?thesis by (simp add: defer_written_def)
qed

lemma runs_ok_dequeue_written:
  assumes ok: "runs_ok [] Y S" and t: "Dequeuing r \<in> set (c_tasks S)"
  shows "runs_ok [] Y (dequeue_written H r err cp now (drop_task (Dequeuing r) S))"
proof -
  let ?S = "drop_task (Dequeuing r) S" and ?p = "dequeue_patch H cp"
  obtain l where l: "c_heap S r = Some l" "l_inFlight l" "l_status l = Running" "r \<in> set (c_live S)"
      and ok1: "runs_ok [r] Y ?S"
    by (rule held_run [OF ok t, of r]) auto
  let ?l = "l\<lparr>l_record := patchRunRecord (l_record l) ?p now\<rparr>"
  have p: "p_status ?p = Some Running" by (simp add: dequeue_patch_def)
  have ok2: "runs_ok [r] Y (written r ?p now ?S)"
    by (rule runs_ok_written [OF ok1, where l = l]) (use l p in auto)
  have h2: "c_heap (written r ?p now ?S) r = Some ?l" using l(1) by (simp add: written_heap)
  have a: "runs_ok [] Y (end_attempt H r out ?S)" for out
    by (rule runs_ok_end_attempt [OF ok1, where l = l]) (use l in auto)
  have b: "runs_ok [] Y (end_attempt H r out (written r ?p now ?S))" for out
    by (rule runs_ok_end_attempt [OF ok2 h2]) (use l p in auto)
  have "runs_ok [] Y (startAttempt H r False FromDequeue now (written r ?p now ?S))"
    by (rule runs_ok_startAttempt [OF ok2 h2]) (use l p in auto)
  with a b l(1) show ?thesis by (simp add: dequeue_written_def Let_def)
qed

lemma end_attempt_shape:
  assumes "c_heap S r = Some l"
  obtains l' where "c_heap (end_attempt H r out S) = (c_heap S)(r \<mapsto> l')" "l_aborted l' = l_aborted l"
    "set (c_live S) - {r} \<subseteq> set (c_live (end_attempt H r out S))"
  using assms that by (cases "r \<in> set (c_live S)") (auto simp: end_attempt_def finalize_def add_task_def upd_def)

lemma rest_fine_change:
  assumes "rest_fine h v rest" "h r = Some l" "l_aborted l'" "v - {r} \<subseteq> v'"
  shows "rest_fine (h(r \<mapsto> l')) v' rest"
  using assms unfolding rest_fine_def by fastforce

lemma runs_ok_end_then_loop:
  assumes ok: "runs_ok [r] Y S" and h: "c_heap S r = Some l" "l_aborted l"
    and q: "r \<in> set (c_live S) \<Longrightarrow> l_status l \<noteq> Queued" and rf: "rest_fine (c_heap S) (set (c_live S)) rest"
  shows "runs_ok [] Y (add_task (Resuming rest due) (end_attempt H r out S))"
proof (rule runs_ok_resuming(1))
  show "runs_ok [] Y (end_attempt H r out S)" by (rule runs_ok_end_attempt [OF ok h(1)]) (use h q in auto)
  show "rest_fine (c_heap (end_attempt H r out S)) (set (c_live (end_attempt H r out S))) rest"
    by (rule end_attempt_shape [OF h(1), of H out]) (use rest_fine_change [OF rf h(1)] h(2) in auto)
qed

lemma runs_ok_resume_next:
  assumes ok: "runs_ok [] Y S" and t: "Resuming rest due \<in> set (c_tasks S)"
  shows "runs_ok [] Y (resume_loop rest due (drop_task (Resuming rest due) S))"
  by (rule runs_ok_resume_loop [OF runs_ok_resuming(2) [OF ok]])
    (use runs_okD(6) [OF ok t] in \<open>simp add: drop_task_def\<close>)

lemma runs_ok_resume_written:
  assumes ok: "runs_ok [] Y S" and t: "ResumeWrite r rest due \<in> set (c_tasks S)"
  shows "runs_ok [] Y (resume_written H r rest due b now (drop_task (ResumeWrite r rest due) S))"
proof -
  let ?S = "drop_task (ResumeWrite r rest due) S" and ?p = resume_patch
  from runs_okD(6) [OF ok t] obtain l where l: "c_heap S r = Some l" "l_inFlight l"
      "r \<in> set (c_live S) \<Longrightarrow> l_status l = Recovering \<and> nextAttemptAt (l_record l) \<noteq> None"
      "r \<notin> set (c_live S) \<Longrightarrow> l_aborted l" and rf: "rest_fine (c_heap S) (set (c_live S)) rest" by auto
  have ok1: "runs_ok [r] Y ?S" by (rule runs_ok_release [OF ok t]) simp
  have p: "p_status ?p = Some Running" by (simp add: resume_patch_def)
  let ?l = "l\<lparr>l_record := patchRunRecord (l_record l) ?p now\<rparr>"
  have ok2: "runs_ok [r] Y (written r ?p now ?S)"
    by (rule runs_ok_written [OF ok1, where l = l]) (use l p in auto)
  have "rest_fine ((c_heap S)(r \<mapsto> ?l)) (set (c_live S)) rest"
    using rf p unfolding rest_fine_def by auto
  then have "runs_ok [] Y (add_task (ResumeRead r rest due) (written r ?p now ?S))"
    by (intro runs_ok_hand_over [OF ok2]) (use l p in \<open>auto simp: written_heap\<close>)
  moreover have "runs_ok [] Y (add_task (Resuming rest due) (end_attempt H r out ?S))" if "l_aborted l" for out
    by (rule runs_ok_end_then_loop [OF ok1, where l = l]) (use l rf that in auto)
  moreover have "runs_ok [] Y (upd r (\<lambda>l. l\<lparr>l_inFlight := False\<rparr>) ?S)" if "\<not> l_aborted l"
  proof -
    have w: "r \<in> set (c_live S)" "waits (l\<lparr>l_inFlight := False\<rparr>)" using l that by (auto simp: waits_def)
    have "runs_ok [r] Y (upd r (\<lambda>l. l\<lparr>l_inFlight := False\<rparr>) ?S)"
      by (rule runs_ok_upd [OF ok1, where l = l])
        (use held_not_owner [OF ok1] runs_okD(4) [OF ok1, of r] l w in \<open>auto simp: benign_def run_fine_def\<close>)
    then show ?thesis
      by (rule runs_ok_let_go [where l = "l\<lparr>l_inFlight := False\<rparr>"]) (use l w in \<open>auto simp: upd_heap\<close>)
  qed
  ultimately show ?thesis using l(1) by (simp add: resume_written_def)
qed

lemma runs_ok_resume_read:
  assumes ok: "runs_ok [] Y S" and t: "ResumeRead r rest due \<in> set (c_tasks S)"
  shows "runs_ok [] Y (resume_read H r rest due cp now (drop_task (ResumeRead r rest due) S))"
proof -
  let ?S = "drop_task (ResumeRead r rest due) S"
  from runs_okD(6) [OF ok t] obtain l where l: "c_heap S r = Some l" "l_inFlight l"
      "r \<in> set (c_live S) \<Longrightarrow> l_status l = Running" "r \<notin> set (c_live S) \<Longrightarrow> l_aborted l"
      and rf: "rest_fine (c_heap S) (set (c_live S)) rest" by auto
  have ok1: "runs_ok [r] Y ?S" by (rule runs_ok_release [OF ok t]) simp
  have "runs_ok [] Y (add_task (Resuming rest due) (end_attempt H r out ?S))" if "l_aborted l" for out
    by (rule runs_ok_end_then_loop [OF ok1, where l = l]) (use l rf that in auto)
  moreover have "runs_ok [] Y (resume_loop rest due
      (startAttempt H r resumed FromRecovery now (upd r (resumed_run H resumed) ?S)))" if "\<not> l_aborted l" for resumed
  proof (rule runs_ok_resume_loop)
    let ?U = "upd r (resumed_run H resumed) ?S"
    have v: "r \<in> set (c_live S)" "l_status l = Running" using l that by auto
    have "runs_ok [r] Y ?U"
      by (rule runs_ok_upd [OF ok1, where l = l])
        (use held_not_owner [OF ok1] runs_okD(4) [OF ok1, of r] l v
          in \<open>auto simp: benign_def run_fine_def resumed_run_def\<close>)
    then show "runs_ok [] Y (startAttempt H r resumed FromRecovery now ?U)"
      by (rule runs_ok_startAttempt [where l = "resumed_run H resumed l"])
        (use l v in \<open>auto simp: upd_heap resumed_run_def\<close>)
    have e: "c_live (startAttempt H r resumed FromRecovery now ?U) = c_live S" 
      by (simp add: startAttempt_def add_task_def)
    obtain l' where "c_heap (startAttempt H r resumed FromRecovery now ?U) = (c_heap S)(r \<mapsto> l')"
      using l(1) by (simp add: startAttempt_def add_task_def upd_def)
    then show "rest_fine (c_heap (startAttempt H r resumed FromRecovery now ?U))
        (set (c_live (startAttempt H r resumed FromRecovery now ?U))) rest"
      using rf v(1) unfolding rest_fine_def e by auto
  qed
  ultimately show ?thesis using l(1) by (simp add: resume_read_def Let_def)
qed

subsection \<open>The end of a run and its session's queue\<close>

lemma runs_ok_row_closed:
  assumes ok: "runs_ok [] Y S" and t: "Closing r out \<in> set (c_tasks S)"
  shows "runs_ok [] Y (row_closed r out now S)"
proof (cases "c_heap S r")
  case (Some l)
  have v: "r \<notin> set (c_live S)" using runs_okD(6) [OF ok t] by simp
  have "runs_ok [] Y (upd r (\<lambda>l. l\<lparr>l_record := patchRunRecord (l_record l)
      (final_patch l out segs) now\<rparr>) S)" for segs
  proof (rule runs_ok_upd [OF ok Some])
    have "p_status (final_patch l out segs) = Some (run_status_of (o_status out))" by (simp add: final_patch_def)
    then show "benign (set (owners (c_tasks S))) (set []) (set (c_live S)) r l
        (l\<lparr>l_record := patchRunRecord (l_record l) (final_patch l out segs) now\<rparr>)"
      using v by (cases "o_status out") (auto simp: benign_def)
  qed
  moreover have "upd r (\<lambda>m. m\<lparr>l_record := patchRunRecord (l_record m) (final_patch m out segs) at\<rparr>) S
      = upd r (\<lambda>m. m\<lparr>l_record := patchRunRecord (l_record m) (final_patch l out segs) at\<rparr>) S" for segs at
    using Some by (simp add: upd_def)
  ultimately show ?thesis using Some
    by (simp add: row_closed_def case_prod_unfold Let_def close_run_def update_run_def)
qed (use ok in \<open>simp add: row_closed_def\<close>)

lemma row_closed_tasks: "row_closed r out now (drop_task t S) = drop_task t (row_closed r out now S)"
  by (simp add: row_closed_def drop_task_def upd_def case_prod_unfold Let_def split: option.split)

lemma remove1_other: "t \<in> set ts \<Longrightarrow> t \<noteq> u \<Longrightarrow> t \<in> set (remove1 u ts)"
  by simp

lemma runs_ok_to_ending:
  assumes ok: "runs_ok [] Y S" and t: "Closing r out \<in> set (c_tasks S)"
  shows "runs_ok [] Y (add_task (Ending r) (drop_task (Closing r out) S))"
proof (rule runs_okI)
  note D = runs_okD [OF ok]
  let ?S = "add_task (Ending r) (drop_task (Closing r out) S)"
  have e: "c_heap ?S = c_heap S" "c_live ?S = c_live S"
    "c_tasks ?S = remove1 (Closing r out) (c_tasks S) @ [Ending r]" by (auto simp: add_task_def drop_task_def)
  have o: "owners (c_tasks ?S) = owners (c_tasks S)" by (simp add: e owners_remove1)
  show "distinct (c_live ?S)" "heap_ok (c_heap ?S)" "single (c_heap ?S) (set (c_live ?S))" using D by (simp_all add: e)
  show "distinct (owners (c_tasks ?S) @ [])" using D(3) by (simp add: o)
  show "\<exists>m. c_heap ?S q = Some m \<and> run_fine (set (owners (c_tasks ?S) @ [])) q m" if "q \<in> set (c_live ?S)" for q
    unfolding o using that D(4) [of q] by (simp add: e)
  show "task_fine (c_heap ?S) (set (c_live ?S)) u" if "u \<in> set (c_tasks ?S)" for u
    using that D(6) [of u] D(6) [OF t] by (auto simp: e dest: notin_set_remove1)
  have "covered (c_heap S) (set (c_live S)) (remove1 (Closing r out) (c_tasks S) @ [Ending r]) sid"
    if c: "covered (c_heap S) (set (c_live S)) (c_tasks S) sid" for sid
    using c unfolding covered_def
  proof (elim disjE bexE exE conjE)
    fix u b lb assume u: "u \<in> set (c_tasks S)" "ender u = Some b" "c_heap S b = Some lb" "l_session lb = sid"
    have "\<exists>u' \<in> set (remove1 (Closing r out) (c_tasks S) @ [Ending r]). ender u' = Some b"
    proof (cases "u = Closing r out")
      case False
      with u(1,2) show ?thesis by (metis UnI1 remove1_other set_append)
    qed (use u(2) in auto)
    with u(3,4) show "(\<exists>b \<in> set (c_live S). \<exists>lb. c_heap S b = Some lb \<and> l_session lb = sid \<and> l_status lb \<noteq> Queued)
        \<or> (\<exists>t \<in> set (remove1 (Closing r out) (c_tasks S) @ [Ending r]). \<exists>b lb. ender t = Some b
            \<and> c_heap S b = Some lb \<and> l_session lb = sid)" by blast
  qed blast
  then show "strand Y (c_heap ?S) (set (c_live ?S)) (c_tasks ?S)" using D(7) unfolding strand_def e by blast
qed

lemma runs_ok_drop_ending:
  assumes ok: "runs_ok [] Y S" and t: "Ending r \<in> set (c_tasks S)" and h: "c_heap S r = Some l"
  shows "runs_ok [] (insert (l_session l) Y) (drop_task (Ending r) S)"
proof (rule runs_okI)
  note D = runs_okD [OF ok]
  let ?S = "drop_task (Ending r) S"
  have e: "c_heap ?S = c_heap S" "c_live ?S = c_live S" "c_tasks ?S = remove1 (Ending r) (c_tasks S)"
    by (auto simp: drop_task_def)
  have o: "owners (c_tasks ?S) = owners (c_tasks S)" by (simp add: e owners_remove1)
  show "distinct (c_live ?S)" "heap_ok (c_heap ?S)" "single (c_heap ?S) (set (c_live ?S))" using D by (simp_all add: e)
  show "distinct (owners (c_tasks ?S) @ [])" using D(3) by (simp add: o)
  show "\<exists>m. c_heap ?S q = Some m \<and> run_fine (set (owners (c_tasks ?S) @ [])) q m" if "q \<in> set (c_live ?S)" for q
    unfolding o using that D(4) [of q] by (simp add: e)
  show "task_fine (c_heap ?S) (set (c_live ?S)) u" if "u \<in> set (c_tasks ?S)" for u
    using that D(6) [of u] by (auto simp: e dest: notin_set_remove1)
  have "covered (c_heap S) (set (c_live S)) (remove1 (Ending r) (c_tasks S)) sid"
    if c: "covered (c_heap S) (set (c_live S)) (c_tasks S) sid" "sid \<noteq> l_session l" for sid
    using c(1) unfolding covered_def
  proof (elim disjE bexE exE conjE)
    fix u b lb assume u: "u \<in> set (c_tasks S)" "ender u = Some b" "c_heap S b = Some lb" "l_session lb = sid"
    then have "u \<noteq> Ending r" using c(2) h by auto
    with u(1) have "u \<in> set (remove1 (Ending r) (c_tasks S))" by (rule remove1_other)
    with u(2-4) show "(\<exists>b \<in> set (c_live S). \<exists>lb. c_heap S b = Some lb \<and> l_session lb = sid \<and> l_status lb \<noteq> Queued)
        \<or> (\<exists>t \<in> set (remove1 (Ending r) (c_tasks S)). \<exists>b lb. ender t = Some b
            \<and> c_heap S b = Some lb \<and> l_session lb = sid)" by blast
  qed blast
  then show "strand (insert (l_session l) Y) (c_heap ?S) (set (c_live ?S)) (c_tasks ?S)"
    using D(7) unfolding strand_def e by blast
qed

lemma runs_ok_covered:
  assumes "runs_ok X (insert sid Y) S" "covered (c_heap S) (set (c_live S)) (c_tasks S) sid"
  shows "runs_ok X Y S"
  using assms unfolding runs_ok_def strand_def by blast

lemma runs_ok_buffer:
  assumes ok: "runs_ok X Y S" and h: "c_heap S r = Some l" and b: "rb_closed (g (l_buffer l)) = rb_closed (l_buffer l)"
  shows "runs_ok X Y (upd r (\<lambda>l. l\<lparr>l_buffer := g (l_buffer l)\<rparr>) S)"
  by (rule runs_ok_upd [OF ok h])
    (use b runs_okD(4) [OF ok, of r] h in \<open>auto simp: benign_def run_fine_def waits_def\<close>)

subsection \<open>Stopping runs\<close>

lemma runs_ok_fold: "(\<And>x T. runs_ok X Y T \<Longrightarrow> runs_ok X Y (f x T)) \<Longrightarrow> runs_ok X Y S \<Longrightarrow> runs_ok X Y (fold f xs S)"
  by (induction xs arbitrary: S) auto

lemma runs_ok_cancel_if: "runs_ok [] Y S \<Longrightarrow> runs_ok [] Y (cancel_if H P r S)"
  by (auto simp: cancel_if_def split: option.split intro: runs_ok_cancelQueued)

lemma runs_ok_abort_if_busy: "runs_ok [] Y S \<Longrightarrow> runs_ok [] Y (abort_if_busy H r S)"
  by (auto simp: abort_if_busy_def split: option.split intro: runs_ok_abortRun)

lemma runs_ok_stop_runs: "runs_ok [] Y S \<Longrightarrow> runs_ok [] Y (stop_runs H rids S)"
  unfolding stop_runs_def by (intro runs_ok_fold runs_ok_cancel_if runs_ok_abort_if_busy)

lemma supersede_same [simp]: "c_heap (supersedePending sid S) = c_heap S" "c_live (supersedePending sid S) = c_live S"
  "c_tasks (supersedePending sid S) = c_tasks S" "c_db (supersedePending sid S) = c_db S"
  by (simp_all add: supersedePending_def)

lemma runs_ok_supersede [simp]: "runs_ok X Y (supersedePending sid S) = runs_ok X Y S"
  by (rule runs_ok_cong) simp_all

lemma runs_ok_abortSession:
  assumes "runs_ok [] Y S" shows "runs_ok [] Y (abortSession H sid S)"
proof -
  let ?S = "fold (cancel_if H (\<lambda>l. l_session l = sid \<and> l_behind l)) (c_live S) (supersedePending sid S)"
  have ok: "runs_ok [] Y ?S" using assms by (intro runs_ok_fold runs_ok_cancel_if) simp_all
  have "runs_ok [] Y (cancelQueued H (l_runId a) ?S)" if "activeForSession sid ?S = Some a" "l_status a = Queued" for a
    by (rule runs_ok_cancelQueued [OF ok]) (use active_Some [OF ok that(1)] that(2) in auto)
  with ok show ?thesis by (auto simp: abortSession_def Let_def runs_ok_abortRun split: option.split)
qed

lemma mark_superseded_simps [simp]: "k_session (mark_superseded sid k) = k_session k"
  "k_superseded k \<Longrightarrow> k_superseded (mark_superseded sid k)" "k_id (mark_superseded sid k) = k_id k"
  by (auto simp: mark_superseded_def)

lemma turns_ok_supersede:
  assumes "turns_ok S" shows "turns_ok (supersedePending sid S)"
proof -
  let ?g = "\<lambda>(k, p). (mark_superseded sid k, p)"
  have c: "created_id (?g x) = created_id x" for x by (cases x; cases "snd x") auto
  then have cs: "List.map_filter created_id (map ?g xs) = List.map_filter created_id xs" for xs
    by (induction xs) (simp_all add: List.map_filter_def)
  have s: "map (\<lambda>x. k_session (fst x)) (map ?g xs) = map (\<lambda>x. k_session (fst x)) xs" for xs
    by (induction xs) auto
  have fr: "free t (supersedePending sid S) = free t S" for t by (simp add: free_def)
  have p: "phase_fine S k p \<Longrightarrow> phase_fine (supersedePending sid S) (mark_superseded sid k) p" for k p
    by (cases p) (auto simp: fr row_ids_def)
  have t: "c_turns (supersedePending sid S) = map ?g (c_turns S)" by (simp add: supersedePending_def)
  have r: "row_ids (supersedePending sid S) = row_ids S" "accounted (supersedePending sid S) = accounted S"
    by (simp_all add: row_ids_def accounted_def fun_eq_iff)
  show ?thesis
    unfolding turns_ok_def t cs s r supersede_same
  proof (intro conjI ballI)
    fix x assume "x \<in> set (map ?g (c_turns S))"
    then obtain k q where x: "x = (mark_superseded sid k, q)" "(k, q) \<in> set (c_turns S)" by auto
    with assms p show "case x of (k, q) \<Rightarrow> phase_fine (supersedePending sid S) k q"
      unfolding turns_ok_def by fastforce
  qed (use assms in \<open>auto simp: turns_ok_def\<close>)
qed

subsection \<open>Turns\<close>

lemma set_phase_same [simp]: "c_heap (set_phase sid q S) = c_heap S" "c_live (set_phase sid q S) = c_live S"
  "c_tasks (set_phase sid q S) = c_tasks S" "c_db (set_phase sid q S) = c_db S"
  by (simp_all add: set_phase_def)

lemma runs_ok_set_phase [simp]: "runs_ok X Y (set_phase sid q S) = runs_ok X Y S"
  by (rule runs_ok_cong) simp_all

lemma free_set_phase [simp]: "free t (set_phase sid q S) = free t S"
  by (simp add: free_def)

lemma phase_fine_set_phase [simp]: "phase_fine (set_phase sid q S) k p = phase_fine S k p"
  by (cases p) (simp_all add: row_ids_def)

lemma set_phase_twice [simp]: "set_phase sid q (set_phase sid q' S) = set_phase sid q S"
  by (simp add: set_phase_def case_prod_unfold o_def)

lemma row_ids_set_phase [simp]: "row_ids (set_phase sid q S) = row_ids S" "accounted (set_phase sid q S) r = accounted S r"
  by (simp_all add: row_ids_def accounted_def)

lemma keeps_set_phase: "keeps S S' \<Longrightarrow> keeps (set_phase sid q S) (set_phase sid q S')"
  by (auto simp: keeps_def set_phase_def row_ids_def accounted_def)

lemma created_distinct_sub:
  assumes "distinct (List.map_filter created_id xs)" "\<And>x. created_id (g x) = None \<or> created_id (g x) = created_id x"
  shows "distinct (List.map_filter created_id (map g xs))
    \<and> set (List.map_filter created_id (map g xs)) \<subseteq> set (List.map_filter created_id xs)"
  using assms(1)
proof (induction xs)
  case (Cons x xs)
  have d: "distinct (List.map_filter created_id xs)"
    using Cons.prems by (auto simp: List.map_filter_simps split: option.splits)
  note ih = Cons.IH [OF d]
  show ?case
  proof (cases "created_id (g x)")
    case None
    with ih show ?thesis by (auto simp: List.map_filter_simps split: option.splits)
  next
    case (Some i)
    with assms(2) [of x] have x: "created_id x = Some i" by simp
    then have "i \<notin> set (List.map_filter created_id xs)" using Cons.prems by (simp add: List.map_filter_simps)
    with ih Some x show ?thesis by (auto simp: List.map_filter_simps)
  qed
qed (simp add: List.map_filter_simps)

text \<open>A turn's phase may be anything that was not created.\<close>

lemma turns_ok_set_phase:
  assumes t: "turns_ok (set_phase sid Opened S)" and q: "\<And>rec q' bs. q \<noteq> Created rec q' bs"
    and p: "\<And>k p. (k, p) \<in> set (c_turns S) \<Longrightarrow> k_session k = sid \<Longrightarrow> phase_fine S k q"
  shows "turns_ok (set_phase sid q S)"
proof -
  let ?g = "\<lambda>(k, p). if k_session k = sid then (k, q) else (k, p)"
  let ?h = "\<lambda>(k, p). if k_session k = sid then (k, Opened) else (k, p)"
  have n: "created_id (k, q) = None" for k using q by (cases q) auto
  have c: "List.map_filter created_id (map ?g xs) = List.map_filter created_id (map ?h xs)" for xs
  proof (induction xs)
    case (Cons x xs)
    have "created_id (?g x) = created_id (?h x)" using n by (cases x) auto
    with Cons show ?case by (simp only: list.map List.map_filter_simps)
  qed (simp add: List.map_filter_simps)
  have s: "map (\<lambda>x. k_session (fst x)) (map ?g xs) = map (\<lambda>x. k_session (fst x)) (map ?h xs)" for xs
    by (induction xs) auto
  have e: "c_turns (set_phase sid q S) = map ?g (c_turns S)" "c_turns (set_phase sid Opened S) = map ?h (c_turns S)"
    by (simp_all add: set_phase_def)
  show ?thesis
    unfolding turns_ok_def e(1) c s
  proof (intro conjI ballI)
    fix x assume "x \<in> set (map ?g (c_turns S))"
    then obtain k p0 where x: "(k, p0) \<in> set (c_turns S)" "x = ?g (k, p0)" by auto
    show "case x of (k, p) \<Rightarrow> phase_fine (set_phase sid q S) k p"
    proof (cases "k_session k = sid")
      case True
      then show ?thesis using p [OF x(1) True] x(2) by simp
    next
      case False
      have m: "?h (k, p0) \<in> set (map ?h (c_turns S))" unfolding set_map using x(1) by (rule imageI)
      have "\<forall>y \<in> set (map ?h (c_turns S)). case y of (k, p) \<Rightarrow> phase_fine (set_phase sid Opened S) k p"
        using t unfolding turns_ok_def e(2) by blast
      from bspec [OF this m]
      have "case ?h (k, p0) of (k, p) \<Rightarrow> phase_fine (set_phase sid Opened S) k p" .
      with False show ?thesis using x(2) by simp
    qed
  qed (use t in \<open>auto simp: turns_ok_def e(2)\<close>)
qed

lemma turns_ok_opened:
  assumes "turns_ok S" shows "turns_ok (set_phase sid Opened S)"
proof -
  let ?h = "\<lambda>(k, p). if k_session k = sid then (k, Opened) else (k, p)"
  have e: "c_turns (set_phase sid Opened S) = map ?h (c_turns S)" by (simp add: set_phase_def)
  have s: "map (\<lambda>x. k_session (fst x)) (map ?h xs) = map (\<lambda>x. k_session (fst x)) xs" for xs
    by (induction xs) auto
  have "distinct (List.map_filter created_id (map ?h (c_turns S)))"
    by (rule conjunct1 [OF created_distinct_sub]) (use assms in \<open>auto simp: turns_ok_def\<close>)
  then show ?thesis
    unfolding turns_ok_def e s
    using assms unfolding turns_ok_def by (auto split: if_splits)
qed

lemma turn_unique:
  assumes "turns_ok S" "(k, p) \<in> set (c_turns S)" "(k', p') \<in> set (c_turns S)" "k_session k' = k_session k"
  shows "k' = k \<and> p' = p"
  using assms distinct_map [of "\<lambda>x. k_session (fst x)" "c_turns S"] unfolding turns_ok_def inj_on_def by fastforce

lemma turn_unique':
  assumes "turns_ok (set_phase sid Opened S)" "(k, p) \<in> set (c_turns S)" "(k', p') \<in> set (c_turns S)"
    "k_session k' = k_session k"
  shows "k' = k"
proof -
  let ?h = "\<lambda>(k, p). if k_session k = sid then (k, Opened) else (k, p)"
  have e: "set (c_turns (set_phase sid Opened S)) = ?h ` set (c_turns S)" by (simp add: set_phase_def)
  have "?h (k, p) \<in> set (c_turns (set_phase sid Opened S))" "?h (k', p') \<in> set (c_turns (set_phase sid Opened S))"
    unfolding e by (rule imageI [OF assms(2)], rule imageI [OF assms(3)])
  then obtain q q' where "(k, q) \<in> set (c_turns (set_phase sid Opened S))"
      "(k', q') \<in> set (c_turns (set_phase sid Opened S))"
    by (cases "k_session k = sid"; cases "k_session k' = sid") auto
  from turn_unique [OF assms(1) this assms(4)] show ?thesis by simp
qed

text \<open>The turn of \<open>k\<close>, whatever its phase: a guard for the statements that set it.\<close>

definition in_turn :: "ticket \<Rightarrow> coord \<Rightarrow> bool" where
  "in_turn k S \<longleftrightarrow> turns_ok (set_phase (k_session k) Opened S) \<and> (\<exists>p. (k, p) \<in> set (c_turns S))"

lemma in_turnI: "turns_ok S \<Longrightarrow> (k, p) \<in> set (c_turns S) \<Longrightarrow> in_turn k S"
  using turns_ok_opened unfolding in_turn_def by blast

lemma in_turn_keeps: "keeps S S' \<Longrightarrow> in_turn k S \<Longrightarrow> in_turn k S'"
proof -
  assume k: "keeps S S'" and t: "in_turn k S"
  from k have "c_turns S' = c_turns S" by (simp add: keeps_def)
  with t turns_ok_keeps [OF keeps_set_phase [OF k]] show ?thesis unfolding in_turn_def by simp
qed

lemma in_turn_phase:
  assumes "in_turn k S" "phase_fine S k q" "\<And>rec q' bs. q \<noteq> Created rec q' bs"
  shows "turns_ok (set_phase (k_session k) q S)"
proof (rule turns_ok_set_phase)
  from assms(1) obtain p where t: "turns_ok (set_phase (k_session k) Opened S)" "(k, p) \<in> set (c_turns S)"
    unfolding in_turn_def by blast
  show "turns_ok (set_phase (k_session k) Opened S)" by (rule t)
  show "phase_fine S k' q" if "(k', p') \<in> set (c_turns S)" "k_session k' = k_session k" for k' p'
    using turn_unique' [OF t that] assms(2) by simp
qed (rule assms(3))

lemma turns_ok_wound:
  assumes ok: "runs_ok [] {} S" and t: "in_turn k S"
  shows "turns_ok (wound k S)"
  unfolding wound_def Let_def
  by (rule in_turn_phase [OF t]) (use active_None [OF ok] in auto)

lemma cancel_loop_ok:
  assumes "runs_ok [] {} S" "in_turn k S"
  shows "runs_ok [] {} (cancel_loop H k rest S) \<and> turns_ok (cancel_loop H k rest S)"
  using assms
proof (induction H k rest S rule: cancel_loop.induct)
  case (1 H k S)
  have "turns_ok (set_phase (k_session k) Winding (abortRun H r S))" for r
    by (rule in_turn_phase [OF in_turn_keeps [OF keeps_abortRun 1(2)]]) auto
  moreover have "runs_ok [] {} (wound k S)" using 1(1) by (simp add: wound_def Let_def)
  ultimately show ?case using 1 turns_ok_wound [OF 1]
    by (auto intro: runs_ok_abortRun split: option.split)
next
  case (2 H k rid rest S)
  show ?case
  proof (cases "c_heap S rid")
    case (Some l)
    have "turns_ok (set_phase (k_session k) (Cancelling rest) (cancelQueued H rid S))"
      by (rule in_turn_phase [OF in_turn_keeps [OF keeps_cancelQueued "2.prems"(2)]]) auto
    then show ?thesis using 2 Some
      by (auto simp: queued_in_def intro: runs_ok_cancelQueued)
  qed (use 2 in auto)
qed

lemma turns_ok_end_turn:
  assumes "turns_ok S" shows "turns_ok (end_turn sid S)"
proof -
  have "distinct (List.map_filter created_id (filter P xs))" if "distinct (List.map_filter created_id xs)" for P xs
  proof -
    have "set (List.map_filter created_id (filter P xs)) \<subseteq> set (List.map_filter created_id xs)" for xs
      by auto
    with that show ?thesis
      by (induction xs) (auto simp: List.map_filter_simps simp del: map_filter_set split: option.splits)
  qed
  moreover have "distinct (map f (filter P xs))" if "distinct (map f xs)" for f :: "ticket \<times> turn_phase \<Rightarrow> string" and P xs
    using that by (induction xs) auto
  moreover have "phase_fine (end_turn sid S) k p = phase_fine S k p" for k p
    by (cases p) (auto simp: end_turn_def free_def row_ids_def)
  ultimately show ?thesis using assms unfolding turns_ok_def
    by (auto simp: end_turn_def row_ids_def accounted_def)
qed

lemma runs_ok_end_turn [simp]: "runs_ok X Y (end_turn sid S) = runs_ok X Y S"
  by (rule runs_ok_cong) (simp_all add: end_turn_def)

end
