(* ===== verification/Run_Safety.thy ===== *)
theory Run_Safety
  imports Run_Sessions
begin

text \<open>
  The properties of the run coordinator: the statements of a turn that open a run, the invariant over
  every step and from every boot, and what it gives: one attempt per session, no run forgotten, a
  final frame for every reader, and what an abort stops.
\<close>

subsection \<open>A turn opens its run\<close>

lemma turn_start_ok:
  assumes ok: "runs_ok [] {} S" and t: "turns_ok S" and n: "next_ticket sid S = Some k"
  shows "runs_ok [] {} (turn_start H k S) \<and> turns_ok (turn_start H k S)"
proof -
  define S1 where "S1 = S\<lparr>c_waiting := remove1 k (c_waiting S), c_turns := c_turns S @ [(k, Creating False False)]\<rparr>"
  have new: "k_session k' \<noteq> k_session k" if "(k', p) \<in> set (c_turns S)" for k' p
    using n that by (auto simp: next_ticket_def turn_of_def find_None_all split: if_splits dest: find_Some_iff_mem)
  have ok1: "runs_ok [] {} S1" using ok by (subst runs_ok_cong [of _ S]) (simp_all add: S1_def)
  have same: "c_heap S1 = c_heap S" "c_live S1 = c_live S" "row_ids S1 = row_ids S" "free s S1 = free s S" for s
    by (simp_all add: S1_def row_ids_def free_def)
  have pf: "phase_fine S1 k' p = phase_fine S k' p" for k' p by (cases p) (simp_all add: same)
  have mid: "map (\<lambda>(k', p). if k_session k' = k_session k then (k', q) else (k', p)) (c_turns S) = c_turns S" for q
    using new by (intro map_idI) auto
  have o: "set_phase (k_session k) Opened S1 = S1\<lparr>c_turns := c_turns S @ [(k, Opened)]\<rparr>"
    by (simp add: set_phase_def S1_def mid)
  have pf2: "phase_fine (S1\<lparr>c_turns := ts\<rparr>) k' p = phase_fine S k' p" for k' p ts
    by (cases p) (simp_all add: row_ids_def free_def S1_def)
  have cf: "List.map_filter created_id (xs @ [(k, Opened)]) = List.map_filter created_id xs" for xs
    by (induction xs) (simp_all add: List.map_filter_simps split: option.split)
  have "turns_ok (set_phase (k_session k) Opened S1)"
    unfolding o
  proof (unfold turns_ok_def, intro conjI)
    let ?S = "S1\<lparr>c_turns := c_turns S @ [(k, Opened)]\<rparr>"
    have e: "c_turns ?S = c_turns S @ [(k, Opened)]" "c_heap ?S = c_heap S" "row_ids ?S = row_ids S"
      "accounted ?S = accounted S"
      by (simp_all add: S1_def row_ids_def accounted_def fun_eq_iff)
    show "distinct (map (\<lambda>x. k_session (fst x)) (c_turns ?S))" using t new unfolding turns_ok_def e by force
    show "distinct (List.map_filter created_id (c_turns ?S))" unfolding e cf using t unfolding turns_ok_def by blast
    show "\<forall>r. c_heap ?S r \<noteq> None \<longrightarrow> r \<in> row_ids ?S \<and> accounted ?S r" unfolding e using t unfolding turns_ok_def by blast
    show "\<forall>(k', p) \<in> set (c_turns ?S). phase_fine ?S k' p"
      unfolding e(1) pf2 using t unfolding turns_ok_def by auto
  qed
  then have it: "in_turn k S1" unfolding in_turn_def by (auto simp: S1_def)
  have a: "activeForSession s S = activeForSession s S1" for s
  proof -
    have "live_runs S = live_runs S1" by (simp add: live_runs_def same)
    then show ?thesis unfolding activeForSession_def by metis
  qed
  show ?thesis
  proof (cases "if k_superseded k then None else activeForSession (k_session k) S")
    case None
    have "k_superseded k \<or> free (k_session k) S1"
      using None active_None [OF ok1] a by (auto split: if_splits)
    then have "turns_ok (set_phase (k_session k) (Creating False False) S1)" by (intro in_turn_phase [OF it]) auto
    moreover have "set_phase (k_session k) (Creating False False) S1 = S1"
      by (simp add: set_phase_def S1_def mid)
    ultimately show ?thesis using None ok1 by (simp add: turn_start_def S1_def)
  next
    case (Some ac)
    have "turns_ok (set_phase (k_session k) (Creating True False) S1)" by (rule in_turn_phase [OF it]) auto
    with Some ok1 cancel_loop_ok [OF ok1 it, of H "c_live S1"] show ?thesis
      unfolding turn_start_def S1_def [symmetric] by simp
  qed
qed

lemma turn_create_ok:
  assumes ok: "runs_ok [] {} S" and t: "turns_ok S" and k: "(k, Creating q bs) \<in> set (c_turns S)"
  shows "runs_ok [] {} (turn_create H k q bs b cp now S) \<and> turns_ok (turn_create H k q bs b cp now S)"
proof -
  define c where "c = \<lparr>ci_runId = bi_runId (k_input k), ci_sessionId = k_session k, ci_requestId = bi_requestId (k_input k),
              ci_client = bi_client (k_input k), ci_queued = (q \<or> k_superseded k), ci_request = bi_request (k_input k),
              ci_checkpointId = cp, ci_taskRunId = bi_taskRunId (k_input k), ci_instanceId = h_instance H\<rparr>"
  have E: "turn_create H k q bs b cp now S = (case (if b then create_run c now (c_db S) else None) of
        None \<Rightarrow> end_turn (k_session k) S
      | Some (rec, db) \<Rightarrow> set_phase (k_session k) (Created rec q bs) (S\<lparr>c_db := db\<rparr>))"
    by (simp add: turn_create_def c_def Let_def)
  show ?thesis
  proof (cases "if b then create_run c now (c_db S) else None")
    case None
    with ok turns_ok_end_turn [OF t] show ?thesis unfolding E by simp
  next
    case (Some x)
    then obtain rec db where x: "x = (rec, db)" "create_run c now (c_db S) = Some (rec, db)"
      by (cases x) (auto split: if_splits)
    then have r: "rec = new_record c now" "db = c_db S\<lparr>turn_runs := turn_runs (c_db S) @ [rec]\<rparr>"
        "runId rec \<notin> row_ids S"
      by (auto simp: create_run_def row_ids_def new_record_def split: if_splits)
    let ?S = "set_phase (k_session k) (Created rec q bs) (S\<lparr>c_db := db\<rparr>)"
    have ids: "row_ids ?S = insert (runId rec) (row_ids S)" using r(2) by (simp add: row_ids_def)
    have keeps: "keeps S (S\<lparr>c_db := db\<rparr>)" using r(2) by (auto simp: keeps_def row_ids_def accounted_def)
    have acc: "accounted ?S q' = accounted S q'" for q' by (simp add: accounted_def)
    let ?g = "\<lambda>(k', p). if k_session k' = k_session k then (k', Created rec q bs) else (k', p)"
    have e: "c_turns ?S = map ?g (c_turns S)" by (simp add: set_phase_def)
    have s: "map (\<lambda>x. k_session (fst x)) (map ?g xs) = map (\<lambda>x. k_session (fst x)) xs" for xs
      by (induction xs) auto
    have heap: "c_heap S (runId rec) = None" using t r(3) unfolding turns_ok_def by blast
    have old: "runId rec \<notin> set (List.map_filter created_id (c_turns S))"
    proof
      assume "runId rec \<in> set (List.map_filter created_id (c_turns S))"
      then obtain k' p where "(k', p) \<in> set (c_turns S)" "created_id (k', p) = Some (runId rec)" by auto
      with t r(3) show False unfolding turns_ok_def by (cases p) auto
    qed
    have "distinct (List.map_filter created_id (map ?g xs))"
      if "distinct (List.map_filter created_id xs)" "runId rec \<notin> set (List.map_filter created_id xs)"
        "distinct (map (\<lambda>x. k_session (fst x)) xs)" for xs
      using that
    proof (induction xs)
      case (Cons y ys)
      obtain k' p where y: "y = (k', p)" by (cases y)
      have d: "distinct (List.map_filter created_id ys)" "runId rec \<notin> set (List.map_filter created_id ys)"
        "distinct (map (\<lambda>x. k_session (fst x)) ys)"
        using Cons.prems by (auto simp: List.map_filter_simps simp del: map_filter_set split: option.splits)
      note ih = Cons.IH [OF d]
      show ?case
      proof (cases "k_session k' = k_session k")
        case True
        then have "k_session (fst z) \<noteq> k_session k" if "z \<in> set ys" for z
          using Cons.prems(3) y that by force
        then have "map ?g ys = ys" by (intro map_idI) (auto simp: case_prod_unfold)
        with True y d show ?thesis by (simp add: List.map_filter_simps del: map_filter_set)
      next
        case False
        have "set (List.map_filter created_id (map ?g ys)) \<subseteq> insert (runId rec) (set (List.map_filter created_id ys))"
          by (auto split: if_splits)
        with ih False y Cons.prems show ?thesis
          by (auto simp: List.map_filter_simps simp del: map_filter_set split: option.splits)
      qed
    qed (simp add: List.map_filter_simps)
    then have d: "distinct (List.map_filter created_id (map ?g (c_turns S)))"
      using t old unfolding turns_ok_def by blast
    have pk: "phase_fine S k (Creating q bs)" using t k unfolding turns_ok_def by blast
    have fr: "free s (S\<lparr>c_db := db\<rparr>) = free s S" for s by (simp add: free_def)
    have ids2: "row_ids (S\<lparr>c_db := db\<rparr>) = insert (runId rec) (row_ids S)" using r(2) by (simp add: row_ids_def)
    have rs: "sessionId rec = k_session k" "status rec = (if q \<or> k_superseded k then Queued else Running)"
      by (simp_all add: r(1) new_record_def c_def)
    have "phase_fine ?S k (Created rec q bs)" using pk heap rs by (auto simp: ids2 fr)
    moreover have "k' = k" if "(k', p) \<in> set (c_turns S)" "k_session k' = k_session k" for k' p
      using turn_unique [OF t k that] by simp
    moreover have "phase_fine ?S k' p" if "(k', p) \<in> set (c_turns S)" for k' p
    proof -
      have "phase_fine S k' p" using t that unfolding turns_ok_def by blast
      from phase_fine_keeps [OF keeps this] show ?thesis by simp
    qed
    ultimately have pfs: "phase_fine ?S k (Created rec q bs)"
      "\<And>k' p. (k', p) \<in> set (c_turns S) \<Longrightarrow> k_session k' = k_session k \<Longrightarrow> k' = k"
      "\<And>k' p. (k', p) \<in> set (c_turns S) \<Longrightarrow> phase_fine ?S k' p" by blast+
    have "\<forall>y \<in> set (map ?g (c_turns S)). case y of (k', p) \<Rightarrow> phase_fine ?S k' p"
    proof
      fix y assume "y \<in> set (map ?g (c_turns S))"
      then obtain k' p where y: "(k', p) \<in> set (c_turns S)" "y = ?g (k', p)" by auto
      show "case y of (k', p) \<Rightarrow> phase_fine ?S k' p"
      proof (cases "k_session k' = k_session k")
        case True
        then have "k' = k" by (rule pfs(2) [OF y(1)])
        with pfs(1) y(2) show ?thesis by simp
      next
        case False
        with pfs(3) [OF y(1)] y(2) show ?thesis by simp
      qed
    qed
    with t d have "turns_ok ?S" unfolding turns_ok_def e s ids acc by auto
    moreover have "runs_ok [] {} ?S" using ok by simp
    moreover have "turn_create H k q bs b cp now S = ?S"
      unfolding E Some x(1) by simp
    ultimately show ?thesis by simp
  qed
qed

definition nobusy :: "string \<Rightarrow> coord \<Rightarrow> bool" where
  "nobusy sid S \<longleftrightarrow> (\<forall>r \<in> set (c_live S). \<forall>l. c_heap S r = Some l \<longrightarrow> l_session l = sid \<longrightarrow> l_status l = Queued)"

lemma free_nobusy: "free sid S \<Longrightarrow> nobusy sid S"
  unfolding free_def nobusy_def by blast

lemma open_run_shape:
  assumes "c_heap S (runId rec) = None" "runId rec \<notin> set (c_live S)"
  obtains l where "c_heap (open_run rec n S) = (c_heap S)(runId rec \<mapsto> l)" "l_runId l = runId rec"
    "l_session l = sessionId rec" "l_record l = rec" "\<not> rb_closed (l_buffer l)" "\<not> l_inFlight l"
    "c_live (open_run rec n S) = c_live S @ [runId rec]" "c_tasks (open_run rec n S) = c_tasks S"
    "c_turns (open_run rec n S) = c_turns S" "c_db (open_run rec n S) = c_db S"
  using assms that by (simp add: open_run_def new_buffer_def)

lemma runs_ok_open:
  assumes ok: "runs_ok [] Y S" and h: "c_heap S (runId rec) = None"
    and st: "status rec \<in> {Queued, Running, Recovering}" and b: "status rec \<noteq> Queued \<Longrightarrow> nobusy (sessionId rec) S"
    and X: "X = [] \<or> X = [runId rec]" and Y: "Y \<subseteq> Y'" "status rec = Queued \<Longrightarrow> sessionId rec \<in> Y'"
    and w: "status rec = Queued \<or> runId rec \<in> set X \<or> status rec = Recovering \<and> nextAttemptAt rec \<noteq> None"
  shows "runs_ok X Y' (open_run rec n S)"
proof -
  note D = runs_okD [OF ok]
  let ?r = "runId rec" and ?h = "c_heap S" and ?v = "set (c_live S)" and ?S = "open_run rec n S"
  have nl: "?r \<notin> ?v" using D(4) h by fastforce
  obtain l where l: "c_heap ?S = ?h(?r \<mapsto> l)" "l_runId l = ?r" "l_session l = sessionId rec" "l_record l = rec"
    "\<not> rb_closed (l_buffer l)" "\<not> l_inFlight l" "c_live ?S = c_live S @ [?r]" "c_tasks ?S = c_tasks S"
    by (rule open_run_shape [OF h nl])
  have own: "?r \<notin> set (owners (c_tasks S))" using owner_inFlight [OF ok, of ?r] h by auto
  show ?thesis
  proof (rule runs_okI)
    show "distinct (c_live ?S)" using D(1) nl by (simp add: l)
    show "heap_ok (c_heap ?S)" using D(2) l by (auto simp: heap_ok_def)
    show "distinct (owners (c_tasks ?S) @ X)" using D(3) own X by (auto simp: l)
    show "\<exists>m. c_heap ?S q = Some m \<and> run_fine (set (owners (c_tasks ?S) @ X)) q m" if q: "q \<in> set (c_live ?S)" for q
    proof (cases "q = ?r")
      case True
      then show ?thesis using l st w by (auto simp: run_fine_def waits_def)
    next
      case False
      with q have "q \<in> ?v" by (simp add: l)
      from D(4) [OF this] False show ?thesis by (auto simp: l run_fine_def)
    qed
    show "single (c_heap ?S) (set (c_live ?S))"
      using D(5) nl b l unfolding single_def nobusy_def by auto
    show "task_fine (c_heap ?S) (set (c_live ?S)) t" if "t \<in> set (c_tasks ?S)" for t
    proof -
      from that have t: "t \<in> set (c_tasks S)" by (simp add: l)
      have rf: "rest_fine ?h ?v rest \<Longrightarrow> rest_fine (?h(?r \<mapsto> l)) (insert ?r ?v) rest" for rest
        unfolding rest_fine_def by auto
      have "owner t \<noteq> Some ?r" using own t by (auto simp: set_owners)
      then show ?thesis using D(6) [OF t] h rf by (cases t) (auto simp: l)
    qed
    have c: "covered ?h ?v (c_tasks S) k \<Longrightarrow> covered (?h(?r \<mapsto> l)) (insert ?r ?v) (c_tasks S) k" for k
      unfolding covered_def
    proof (elim disjE bexE exE conjE)
      fix t c lc assume t: "t \<in> set (c_tasks S)" "ender t = Some c" "?h c = Some lc" "l_session lc = k"
      then have "(?h(?r \<mapsto> l)) c = Some lc" using h by auto
      with t show "(\<exists>b \<in> insert ?r ?v. \<exists>lb. (?h(?r \<mapsto> l)) b = Some lb \<and> l_session lb = k \<and> l_status lb \<noteq> Queued)
        \<or> (\<exists>t \<in> set (c_tasks S). \<exists>b lb. ender t = Some b \<and> (?h(?r \<mapsto> l)) b = Some lb \<and> l_session lb = k)" by blast
    next
      fix c lc assume t: "c \<in> ?v" "?h c = Some lc" "l_session lc = k" "l_status lc \<noteq> Queued"
      then have "(?h(?r \<mapsto> l)) c = Some lc" using h by auto
      with t show "(\<exists>b \<in> insert ?r ?v. \<exists>lb. (?h(?r \<mapsto> l)) b = Some lb \<and> l_session lb = k \<and> l_status lb \<noteq> Queued)
        \<or> (\<exists>t \<in> set (c_tasks S). \<exists>b lb. ender t = Some b \<and> (?h(?r \<mapsto> l)) b = Some lb \<and> l_session lb = k)" by blast
    qed
    have v: "set (c_live ?S) = insert ?r ?v" by (simp add: l)
    show "strand Y' (c_heap ?S) (set (c_live ?S)) (c_tasks ?S)"
      unfolding strand_def
    proof (intro ballI allI impI)
      fix a la assume a: "a \<in> set (c_live ?S)" "c_heap ?S a = Some la" "l_status la = Queued" "l_session la \<notin> Y'"
      then have "a \<noteq> ?r" using Y(2) l(1,3,4) by auto
      with a have "a \<in> ?v" "?h a = Some la" by (simp_all add: l)
      with D(7) a(3,4) Y(1) have "covered ?h ?v (c_tasks S) (l_session la)" unfolding strand_def by blast
      from c [OF this] show "covered (c_heap ?S) (set (c_live ?S)) (c_tasks ?S) (l_session la)"
        unfolding v l(1,8) .
    qed
  qed
qed

lemma map_filter_distinct:
  assumes "distinct (List.map_filter f xs)" "x \<in> set xs" "y \<in> set xs" "f x = Some i" "f y = Some i"
  shows "x = y"
  using assms
proof (induction xs)
  case (Cons z zs)
  have "i \<notin> set (List.map_filter f zs)" if "f z = Some i"
    using Cons.prems(1) that by (simp add: List.map_filter_simps del: map_filter_set)
  moreover have "distinct (List.map_filter f zs)"
    using Cons.prems(1) by (simp add: List.map_filter_simps split: option.splits)
  ultimately show ?case using Cons by (auto simp: image_iff)
qed simp

lemma turns_ok_open:
  assumes t: "turns_ok S" and k: "(k, Created rec q bs) \<in> set (c_turns S)"
    and rec': "runId rec' = runId rec" "sessionId rec' = sessionId rec" and nl: "runId rec \<notin> set (c_live S)"
  shows "turns_ok (open_run rec' n (set_phase (k_session k) Opened S))"
proof -
  let ?T = "set_phase (k_session k) Opened S" and ?r = "runId rec"
  let ?S = "open_run rec' n ?T"
  note t0 = turns_ok_opened [OF t, of "k_session k"]
  have "phase_fine S k (Created rec q bs)" using t k unfolding turns_ok_def by blast
  then have f: "c_heap S ?r = None" "?r \<in> row_ids S" "sessionId rec = k_session k" by auto
  have hn: "c_heap ?T (runId rec') = None" "runId rec' \<notin> set (c_live ?T)" using f(1) nl rec' by simp_all
  obtain l where "c_heap ?S = (c_heap ?T)(runId rec' \<mapsto> l)" "l_session l = sessionId rec'"
    "c_live ?S = c_live ?T @ [runId rec']" "c_turns ?S = c_turns ?T" "c_db ?S = c_db ?T"
    by (rule open_run_shape [OF hn, of n])
  then have l: "c_heap ?S = (c_heap S)(?r \<mapsto> l)" "l_session l = k_session k" "c_live ?S = c_live S @ [?r]"
    "c_turns ?S = c_turns ?T" "c_db ?S = c_db ?T" using f(3) rec' by simp_all
  have acc: "accounted ?S q'" if "c_heap ?S q' \<noteq> None" for q'
  proof (cases "q' = ?r")
    case True
    then show ?thesis using nl rec' by (simp add: accounted_def open_run_def new_buffer_def)
  next
    case False
    then have "c_heap S q' \<noteq> None" using that by (simp add: l(1))
    then have "accounted S q'" using t unfolding turns_ok_def by blast
    with False show ?thesis by (simp add: accounted_def l(1,3))
  qed
  have ids: "row_ids ?S = row_ids ?T" by (simp add: row_ids_def l)
  have ct: "c_turns ?T = map (\<lambda>(k', p). if k_session k' = k_session k then (k', Opened) else (k', p)) (c_turns S)"
    by (simp add: set_phase_def)
  have fr: "s \<noteq> k_session k \<Longrightarrow> free s S \<Longrightarrow> free s ?S" for s
    using l(1-3) unfolding free_def by auto
  have "phase_fine ?S k' p" if m: "(k', p) \<in> set (c_turns ?T)" for k' p
  proof (cases "k_session k' = k_session k")
    case True
    with m have "p = Opened" unfolding ct by (auto split: if_splits)
    then show ?thesis by simp
  next
    case False
    with m have m': "(k', p) \<in> set (c_turns S)" unfolding ct by (auto split: if_splits)
    then have pf: "phase_fine S k' p" using t unfolding turns_ok_def by blast
    have "runId rec2 \<noteq> ?r" if p: "p = Created rec2 q2 b2" for rec2 q2 b2
    proof
      assume "runId rec2 = ?r"
      with map_filter_distinct [OF _ m' k, of created_id ?r] t p have "k' = k" unfolding turns_ok_def by simp
      with False show False by simp
    qed
    then show ?thesis using pf fr [OF False] by (cases p) (auto simp: ids l(1))
  qed
  then show ?thesis using t0 f(2)
    unfolding turns_ok_def l(4) ids using acc l(1) by (auto split: if_splits)
qed

lemma finalize_covers:
  assumes "r \<in> set (c_live S)" "c_heap S r = Some l"
  shows "covered (c_heap (finalize H r out S)) (set (c_live (finalize H r out S))) (c_tasks (finalize H r out S)) (l_session l)"
  using assms unfolding covered_def finalize_def add_task_def upd_def by auto

lemma turn_open_ok:
  assumes ok: "runs_ok [] {} S" and t: "turns_ok S" and k: "(k, Created rec q bs) \<in> set (c_turns S)"
  shows "runs_ok [] {} (turn_open H k rec q bs now S) \<and> turns_ok (turn_open H k rec q bs now S)"
proof -
  let ?r = "runId rec" and ?s = "k_session k" and ?T = "set_phase (k_session k) Opened S"
  have "phase_fine S k (Created rec q bs)" using t k unfolding turns_ok_def by blast
  then have f: "c_heap S ?r = None" "sessionId rec = ?s" "q \<Longrightarrow> status rec = Queued"
    "q \<or> k_superseded k \<or> free ?s S \<and> status rec = Running" by auto
  have nl: "?r \<notin> set (c_live S)" using runs_okD(4) [OF ok] f(1) by fastforce
  have h: "c_heap ?T (runId rec') = None" if "runId rec' = ?r" for rec' using f(1) that by simp
  have ok0: "runs_ok [] {} ?T" using ok by simp
  show ?thesis
  proof (cases "k_superseded k")
    case True
    let ?rec = "rec\<lparr>status := Queued\<rparr>"
    let ?S1 = "open_run ?rec 0 ?T"
    have ok1: "runs_ok [] {?s} ?S1" by (rule runs_ok_open [OF ok0]) (use f in auto)
    obtain l where l: "c_heap ?S1 ?r = Some l" "l_session l = ?s" "l_status l = Queued" "?r \<in> set (c_live ?S1)"
      using f(2) by (simp add: open_run_def)
    have "runs_ok [] {?s} (cancelQueued H ?r ?S1)" by (rule runs_ok_cancelQueued [OF ok1]) (use l in auto)
    then have "runs_ok [] {} (cancelQueued H ?r ?S1)"
      by (rule runs_ok_covered) (use finalize_covers [OF l(4,1)] l(2) in \<open>simp add: cancelQueued_def\<close>)
    moreover have "turns_ok (cancelQueued H ?r ?S1)"
      by (rule turns_ok_keeps [OF keeps_cancelQueued turns_ok_open [OF t k _ _ nl]]) simp_all
    ultimately show ?thesis using True by (simp add: turn_open_def Let_def)
  next
    case ns: False
    let ?S1 = "open_run rec 0 ?T"
    have t1: "turns_ok ?S1" by (rule turns_ok_open [OF t k _ _ nl]) simp_all
    show ?thesis
    proof (cases q)
      case True
      have ok1: "runs_ok [] {?s} ?S1" by (rule runs_ok_open [OF ok0]) (use f True in auto)
      let ?S2 = "if bs then upd ?r (\<lambda>l. l\<lparr>l_behind := True\<rparr>) ?S1 else ?S1"
      obtain l where l: "c_heap ?S1 ?r = Some l" by (simp add: open_run_def)
      have "runs_ok [] {?s} (upd ?r (\<lambda>l. l\<lparr>l_behind := True\<rparr>) ?S1)"
        by (rule runs_ok_upd [OF ok1 l])
          (use runs_okD(4) [OF ok1, of ?r] l ok1 in \<open>auto simp: benign_def run_fine_def waits_def\<close>)
      with ok1 have ok2: "runs_ok [] {?s} ?S2" by simp
      have "turns_ok ?S2" using t1 turns_ok_keeps [OF keeps_upd t1] by simp
      with runs_ok_startNextQueued [OF ok2, of ?s] True ns show ?thesis
        using turns_ok_keeps [OF keeps_startNextQueued] by (simp add: turn_open_def Let_def)
    next
      case False
      with f(4) ns have r: "free ?s S" "status rec = Running" by auto
      have ok1: "runs_ok [?r] {} ?S1"
        by (rule runs_ok_open [OF ok0]) (use f r free_nobusy in auto)
      obtain l where l: "c_heap ?S1 ?r = Some l" "?r \<in> set (c_live ?S1)" "l_status l = Running"
        using r(2) by (simp add: open_run_def)
      have "runs_ok [] {} (startAttempt H ?r False FromBegin now ?S1)" by (rule runs_ok_startAttempt [OF ok1 l])
      with turns_ok_keeps [OF keeps_startAttempt t1] ns False show ?thesis by (simp add: turn_open_def Let_def)
    qed
  qed
qed

subsection \<open>Every step\<close>

definition coord_ok :: "coord \<Rightarrow> bool" where
  "coord_ok S \<longleftrightarrow> runs_ok [] {} S \<and> turns_ok S"

lemma coord_ok_keeps: "coord_ok S \<Longrightarrow> runs_ok [] {} S' \<Longrightarrow> keeps S S' \<Longrightarrow> coord_ok S'"
  unfolding coord_ok_def using turns_ok_keeps by blast

lemma keeps_dropped: "keeps (drop_task t S) S' \<Longrightarrow> keeps S S'"
  using keeps_trans [OF keeps_tasks(2)] by blast

lemmas turns_ok_dropped = turns_ok_keeps [OF keeps_dropped [OF keeps_attempt_ends]]
  turns_ok_keeps [OF keeps_dropped [OF keeps_defer_written]]
  turns_ok_keeps [OF keeps_dropped [OF keeps_dequeue_written]]
  turns_ok_keeps [OF keeps_dropped [OF keeps_resume_written]]
  turns_ok_keeps [OF keeps_dropped [OF keeps_resume_read]]
  turns_ok_keeps [OF keeps_dropped [OF keeps_resume_loop]]

lemma runs_ok_wound: "runs_ok X Y (wound k S) = runs_ok X Y S"
  by (simp add: wound_def Let_def)

lemma coord_ok_begin: "coord_ok S \<Longrightarrow> coord_ok (begin_call n i S)"
proof -
  assume ok: "coord_ok S"
  have "coord_ok (supersedePending s S)" for s
    using ok turns_ok_supersede by (simp add: coord_ok_def)
  moreover have "coord_ok (T\<lparr>c_waiting := w\<rparr>) = coord_ok T" for T w
  proof -
    have "phase_fine (T\<lparr>c_waiting := w\<rparr>) k p = phase_fine T k p" for k p
      by (cases p) (simp_all add: free_def row_ids_def)
    then show ?thesis by (simp add: coord_ok_def runs_ok_def turns_ok_def row_ids_def accounted_def)
  qed
  ultimately show ?thesis using ok by (simp add: begin_call_def Let_def)
qed

lemma coord_ok_abortSession: "coord_ok S \<Longrightarrow> coord_ok (abortSession H sid S)"
proof -
  assume ok: "coord_ok S"
  then have "turns_ok (supersedePending sid S)" by (simp add: coord_ok_def turns_ok_supersede)
  moreover have "keeps (supersedePending sid S) (abortSession H sid S)"
  proof -
    have f: "keeps (supersedePending sid S)
        (fold (cancel_if H (\<lambda>l. l_session l = sid \<and> l_behind l)) (c_live S) (supersedePending sid S))"
      by (rule keeps_fold) simp
    then show ?thesis unfolding abortSession_def Let_def
      using keeps_trans [OF f keeps_cancelQueued] keeps_trans [OF f keeps_abortRun] by (auto split: option.split)
  qed
  ultimately show ?thesis
    using ok runs_ok_abortSession turns_ok_keeps unfolding coord_ok_def by blast
qed

lemma pack_steady: "steady (\<lambda>l. l\<lparr>l_buffer := pack_written (l_buffer l)\<rparr>)"
  "steady (\<lambda>l. l\<lparr>l_buffer := pack_failed (l_buffer l)\<rparr>)"
  by (rule steady_buffer; simp add: pack_written_def pack_failed_def split: list.split)+

lemma push_steady: "steady (\<lambda>l. l\<lparr>l_buffer := push_frame opts ev c d (l_buffer l)\<rparr>)"
  using push_frame_done(1) by (intro steady_buffer) simp_all

lemma coord_step_ok:
  assumes "coord_step H S S'" "coord_ok S"
  shows "coord_ok S'"
  using assms
proof (induction rule: coord_step.induct)
  case (s_closed rid out S l ok now)
  let ?S = "if ok then row_closed rid out now S else S"
  have r: "runs_ok [] {} ?S" "keeps S ?S"
    using s_closed runs_ok_row_closed by (auto simp: coord_ok_def)
  have "c_tasks (row_closed rid out now S) = c_tasks S"
    by (simp add: row_closed_def case_prod_unfold Let_def split: option.split)
  then have "Closing rid out \<in> set (c_tasks ?S)" using s_closed(1) by simp
  then have "runs_ok [] {} (add_task (Ending rid) (drop_task (Closing rid out) ?S))" by (rule runs_ok_to_ending [OF r(1)])
  moreover have "keeps S (add_task (Ending rid) (drop_task (Closing rid out) ?S))"
    by (rule keeps_trans [OF r(2) keeps_trans [OF keeps_tasks(2,1)]])
  ultimately have "coord_ok (add_task (Ending rid) (drop_task (Closing rid out) ?S))"
    using coord_ok_keeps s_closed.prems by blast
  then show ?case by (cases ok) (simp_all add: row_closed_tasks)
next
  case (s_ended rid S l)
  have "runs_ok [] (insert (l_session l) {}) (drop_task (Ending rid) S)"
    using s_ended by (intro runs_ok_drop_ending) (simp_all add: coord_ok_def)
  from runs_ok_startNextQueued [OF this, of "l_session l"]
  have "runs_ok [] {} (startNextQueued (l_session l) (drop_task (Ending rid) S))" by simp
  then show ?case by (rule coord_ok_keeps [OF s_ended.prems]) (rule keeps_dropped [OF keeps_startNextQueued])
next
  case (s_pack S rid l g gs ok)
  let ?f = "\<lambda>l. l\<lparr>l_buffer := pack_written (l_buffer l)\<rparr>" and ?g = "\<lambda>l. l\<lparr>l_buffer := pack_failed (l_buffer l)\<rparr>"
  have "runs_ok [] {} (upd rid ?f S)" "runs_ok [] {} (upd rid ?g S)"
    using s_pack by (auto simp: coord_ok_def pack_written_def pack_failed_def intro!: runs_ok_buffer split: list.split)
  moreover have "keeps S (upd rid ?f S)" "keeps S (upd rid ?g S)"
    using pack_steady by (auto intro: keeps_steady)
  moreover have "keeps S ((upd rid ?f S)\<lparr>c_db := appendSegment rid g (c_db S)\<rparr>)"
    by (rule keeps_db [OF keeps_steady]) (simp_all add: appendSegment_def pack_steady)
  ultimately show ?case using coord_ok_keeps [OF s_pack.prems] by (cases ok) simp_all
next
  case (s_frame rid r S ev content data)
  then obtain l where l: "c_heap S rid = Some l" using runs_okD(6) [of "[]" "{}" S] unfolding coord_ok_def by fastforce
  from s_frame have "runs_ok [] {} S" by (simp add: coord_ok_def)
  from runs_ok_buffer [OF this l, of "push_frame (h_opts H) ev content data"]
  show ?case by (intro coord_ok_keeps [OF s_frame.prems]) (simp_all add: keeps_steady push_steady)
next
  case (s_abort_all S sid)
  then have "coord_ok (supersedePending sid S)" using turns_ok_supersede by (simp add: coord_ok_def)
  then show ?case unfolding abortAllForSession_def
    using coord_ok_keeps [OF _ runs_ok_stop_runs keeps_stop_runs] by (simp add: coord_ok_def)
next
  case (s_keep_alive S now)
  have "runs_ok [] {} (touchKeepAlive H now S)"
    using s_keep_alive by (subst runs_ok_cong [of _ S]) (simp_all add: coord_ok_def)
  then show ?case by (rule coord_ok_keeps [OF s_keep_alive]) simp
next
  case (s_resume S due)
  have "rest_fine (c_heap S) (set (c_live S)) (c_live S)"
    using s_resume runs_okD(4) [of "[]" "{}" S] unfolding rest_fine_def coord_ok_def by fastforce
  then have "runs_ok [] {} (resumeDue due S)" unfolding resumeDue_def
    using s_resume by (intro runs_ok_resume_loop) (simp_all add: coord_ok_def)
  then show ?case by (rule coord_ok_keeps [OF s_resume]) (simp add: resumeDue_def)
next
  case (s_abort_ids S rids)
  have "runs_ok [] {} (abortByIds H rids S)"
    unfolding abortByIds_def using s_abort_ids by (intro runs_ok_stop_runs) (simp add: coord_ok_def)
  then show ?case by (rule coord_ok_keeps [OF s_abort_ids]) (simp add: abortByIds_def)
qed (auto simp: coord_ok_def turn_start_ok turn_create_ok turn_open_ok turns_ok_end_turn
    coord_ok_begin [unfolded coord_ok_def] coord_ok_abortSession [unfolded coord_ok_def]
    cancel_loop_ok turns_ok_wound in_turnI runs_ok_wound
    runs_ok_attempt_ends runs_ok_defer_written runs_ok_dequeue_written runs_ok_resume_written runs_ok_resume_read
    runs_ok_resume_next
    intro: turns_ok_dropped)

subsection \<open>Boot\<close>

text \<open>
  What the rows of an earlier incarnation must satisfy: the run id is the primary key, and at most
  one row of a session is running or recovering, which is what a coordinator keeps in memory (a row
  whose closing failed, or was cut off by the reset, can break it).
\<close>

definition boot_rows :: "run_record list \<Rightarrow> bool" where
  "boot_rows rows \<longleftrightarrow> distinct (map runId rows)
     \<and> (\<forall>a \<in> set rows. \<forall>b \<in> set rows. status a \<in> {Running, Recovering} \<longrightarrow> status b \<in> {Running, Recovering}
          \<longrightarrow> sessionId a = sessionId b \<longrightarrow> runId a = runId b)"

definition boot_inv :: "run_record list \<Rightarrow> coord \<Rightarrow> bool" where
  "boot_inv rs S \<longleftrightarrow> runs_ok [] UNIV S \<and> c_turns S = [] \<and> (\<forall>r. c_heap S r \<noteq> None \<longrightarrow> r \<in> row_ids S \<and> accounted S r)
     \<and> (\<forall>t \<in> set (c_tasks S). rest_of t = [])
     \<and> (\<forall>r \<in> set rs. c_heap S (runId r) = None \<and> runId r \<in> row_ids S
          \<and> (status r \<noteq> Queued \<longrightarrow> nobusy (sessionId r) S))"

lemma nobusy_open:
  "nobusy s S \<Longrightarrow> c_heap S (runId rec) = None \<Longrightarrow> (sessionId rec = s \<Longrightarrow> status rec = Queued)
    \<Longrightarrow> nobusy s (open_run rec n S)"
  unfolding nobusy_def open_run_def by auto

lemma nobusy_upd:
  "nobusy s S \<Longrightarrow> (\<And>l. l_session (f l) = l_session l \<and> l_record (f l) = l_record l) \<Longrightarrow> nobusy s (upd r f S)"
  unfolding nobusy_def upd_def by (auto split: if_splits)

lemma nobusy_finalize: "nobusy s S \<Longrightarrow> nobusy s (finalize H r out S)"
  unfolding nobusy_def finalize_def add_task_def upd_def by (auto split: if_splits)

lemma finalize_tasks: "t \<in> set (c_tasks (finalize H r out S)) \<Longrightarrow> t \<in> set (c_tasks S) \<or> t = Closing r out"
  by (auto simp: finalize_def add_task_def split: if_splits)

lemma finalize_others: "c_turns (finalize H r out S) = c_turns S" "row_ids (finalize H r out S) = row_ids S"
  "(c_heap (finalize H r out S) q = None) = (c_heap S q = None)"
  by (auto simp: finalize_def add_task_def upd_def row_ids_def)

lemma upd_others: "row_ids (upd r f S) = row_ids S" "(c_heap (upd r f S) q = None) = (c_heap S q = None)"
  by (auto simp: row_ids_def upd_def)

lemma open_run_others: "c_turns (open_run rec n S) = c_turns S" "c_tasks (open_run rec n S) = c_tasks S"
  "row_ids (open_run rec n S) = row_ids S"
  "(c_heap (open_run rec n S) q = None) = (q \<noteq> runId rec \<and> c_heap S q = None)"
  by (auto simp: open_run_def row_ids_def)

lemma accounted_open:
  "runId rec \<notin> set (c_live S) \<Longrightarrow> accounted S q \<or> q = runId rec \<Longrightarrow> accounted (open_run rec n S) q"
  by (auto simp: accounted_def open_run_def new_buffer_def)

lemma accounted_keeps: "keeps S S' \<Longrightarrow> accounted S q \<Longrightarrow> accounted S' q"
  by (simp add: keeps_def)

lemma boot_inv_write_row:
  assumes inv: "boot_inv (rec # rs) S" and q: "status rec \<in> {Running, Recovering}"
    and p: "p_status p \<in> {None, Some Recovering}"
    and dist: "\<forall>r \<in> set rs. runId r \<noteq> runId rec \<and> (status r \<noteq> Queued \<longrightarrow> sessionId r \<noteq> sessionId rec)"
    and w: "X = [runId rec] \<or> X = [] \<and> status (patchRunRecord rec p now) = Recovering
        \<and> nextAttemptAt (patchRunRecord rec p now) \<noteq> None"
  shows "runs_ok X UNIV (write_row rec p now n S)"
    and "runId rec \<notin> set (owners (c_tasks (write_row rec p now n S)))"
    and "\<exists>l. c_heap (write_row rec p now n S) (runId rec) = Some l \<and> runId rec \<in> set (c_live (write_row rec p now n S))"
    and "c_turns (write_row rec p now n S) = []" "c_tasks (write_row rec p now n S) = c_tasks S"
    and "row_ids (write_row rec p now n S) = row_ids S"
    and "(c_heap (write_row rec p now n S) q = None) = (q \<noteq> runId rec \<and> c_heap S q = None)"
    and "\<forall>r \<in> set rs. status r \<noteq> Queued \<longrightarrow> nobusy (sessionId r) (write_row rec p now n S)"
    and "c_heap (write_row rec p now n S) a \<noteq> None \<Longrightarrow> accounted (write_row rec p now n S) a"
proof -
  let ?rec = "patchRunRecord rec p now" and ?D = "snd (update_run (runId rec) p now (c_db S))"
  have e: "write_row rec p now n S = open_run ?rec n (S\<lparr>c_db := ?D\<rparr>)"
    by (simp add: write_row_def case_prod_unfold Let_def update_run_def)
  have ok: "runs_ok [] UNIV (S\<lparr>c_db := ?D\<rparr>)" using inv by (simp add: boot_inv_def)
  have h: "c_heap S (runId rec) = None" and nb: "nobusy (sessionId rec) S" using inv q unfolding boot_inv_def by auto
  have nb': "nobusy (sessionId rec) (S\<lparr>c_db := ?D\<rparr>)" using nb by (simp add: nobusy_def)
  have st: "status ?rec \<in> {Running, Recovering}" using q p by auto
  show "runs_ok X UNIV (write_row rec p now n S)"
    unfolding e by (rule runs_ok_open [OF ok]) (use h nb' st w in auto)
  show "runId rec \<notin> set (owners (c_tasks (write_row rec p now n S)))"
    using owner_inFlight [OF ok, of "runId rec"] h by (auto simp: e open_run_def)
  show "\<exists>l. c_heap (write_row rec p now n S) (runId rec) = Some l \<and> runId rec \<in> set (c_live (write_row rec p now n S))"
    by (simp add: e open_run_def)
  show "c_turns (write_row rec p now n S) = []" "c_tasks (write_row rec p now n S) = c_tasks S"
    using inv by (simp_all add: e open_run_def boot_inv_def)
  show "row_ids (write_row rec p now n S) = row_ids S"
    by (simp add: e open_run_def row_ids_def row_ids_update_run)
  show "(c_heap (write_row rec p now n S) q = None) = (q \<noteq> runId rec \<and> c_heap S q = None)"
    by (simp add: e open_run_def)
  have nl: "runId rec \<notin> set (c_live S)" using runs_okD(4) [OF ok, of "runId rec"] h by auto
  show "accounted (write_row rec p now n S) a" if "c_heap (write_row rec p now n S) a \<noteq> None"
  proof -
    from that have "a = runId rec \<or> c_heap S a \<noteq> None" by (auto simp: e open_run_others)
    with inv have "accounted S a \<or> a = runId rec" unfolding boot_inv_def by blast
    then have "accounted (S\<lparr>c_db := ?D\<rparr>) a \<or> a = runId ?rec" by (simp add: accounted_def)
    then show ?thesis unfolding e by (intro accounted_open) (use nl in simp_all)
  qed
  show "\<forall>r \<in> set rs. status r \<noteq> Queued \<longrightarrow> nobusy (sessionId r) (write_row rec p now n S)"
  proof (intro ballI impI)
    fix r assume r: "r \<in> set rs" "status r \<noteq> Queued"
    have "nobusy (sessionId r) (S\<lparr>c_db := ?D\<rparr>)" using inv r unfolding boot_inv_def nobusy_def by simp
    then show "nobusy (sessionId r) (write_row rec p now n S)"
      unfolding e by (rule nobusy_open) (use h dist r in auto)
  qed
qed

lemma boot_inv_row:
  assumes inv: "boot_inv (rec # rs) S" and act: "status rec \<in> {Queued, Running, Recovering}"
    and dist: "\<forall>r \<in> set rs. runId r \<noteq> runId rec
        \<and> (status rec \<noteq> Queued \<longrightarrow> status r \<noteq> Queued \<longrightarrow> sessionId r \<noteq> sessionId rec)"
  shows "boot_inv rs (fst (recover_row H cp now rec (S, e)))"
proof -
  have h: "c_heap S (runId rec) = None" "runId rec \<in> row_ids S" using inv by (auto simp: boot_inv_def)
  have ok: "runs_ok [] UNIV S" using inv by (simp add: boot_inv_def)
  have nl: "runId rec \<notin> set (c_live S)" using runs_okD(4) [OF ok] h(1) by fastforce
  show ?thesis
  proof (cases "status rec = Queued")
    case True
    have "runs_ok [] UNIV (open_run rec (lastSeq rec) S)" by (rule runs_ok_open [OF ok]) (use h True in auto)
    moreover have "nobusy s S \<Longrightarrow> nobusy s (open_run rec (lastSeq rec) S)" for s
      by (rule nobusy_open) (use h True in auto)
    ultimately have "boot_inv rs (open_run rec (lastSeq rec) S)"
      using inv dist accounted_open [OF nl] unfolding boot_inv_def by (auto simp: open_run_others)
    then show ?thesis using nl True by (simp add: recover_row_def)
  next
    case False
    with act have q: "status rec \<in> {Running, Recovering}" by auto
    have dist': "\<forall>r \<in> set rs. runId r \<noteq> runId rec \<and> (status r \<noteq> Queued \<longrightarrow> sessionId r \<noteq> sessionId rec)"
      using dist False by blast
    let ?n = "max (lastPacked rec (readSegments (runId rec) 0 (c_db S))) (attemptSeqBase (generation rec + 1))"
    let ?txt = "partialTextOf (framesOfSegments (readSegments (runId rec) 0 (c_db S)) 0)"
    show ?thesis
    proof (cases "decideOrphanRecovery rec (cp (sessionId rec)) now (h_cfg H)")
      case (Schedule at k)
      let ?p = "recover_patch (h_instance H) (cp (sessionId rec)) at k (generation rec + 1)"
      let ?W = "write_row rec ?p now ?n S"
      let ?f = "\<lambda>l. l\<lparr>l_continuation := (if runHasCheckpointed rec (cp (sessionId rec)) then non_empty ?txt else None)\<rparr>"
      have p: "p_status ?p \<in> {None, Some Recovering}" by (simp add: recover_patch_def)
      have w: "[] = [runId rec] \<or> [] = [] \<and> status (patchRunRecord rec ?p now) = Recovering
        \<and> nextAttemptAt (patchRunRecord rec ?p now) \<noteq> None" by (simp add: recover_patch_def)
      note W = boot_inv_write_row [OF inv q p dist' w, of ?n]
      obtain l where l: "c_heap ?W (runId rec) = Some l" using W(3) by blast
      have "runs_ok [] UNIV (upd (runId rec) ?f ?W)"
        by (rule runs_ok_upd [OF W(1) l])
          (use runs_okD(4) [OF W(1), of "runId rec"] l in \<open>auto simp: benign_def run_fine_def waits_def\<close>)
      moreover have "nobusy s ?W \<Longrightarrow> nobusy s (upd (runId rec) ?f ?W)" for s by (rule nobusy_upd) auto
      moreover have "accounted ?W a \<Longrightarrow> accounted (upd (runId rec) ?f ?W) a" for a
        by (rule accounted_keeps [OF keeps_upd]) simp_all
      ultimately have "boot_inv rs (upd (runId rec) ?f ?W)"
        using inv dist' h W(4-9) unfolding boot_inv_def by (auto simp: upd_others)
      then show ?thesis using nl False Schedule by (simp add: recover_row_def Let_def)
    next
      case (Interrupt k reason)
      let ?p = "no_patch\<lparr>p_generation := Some (generation rec + 1)\<rparr>"
      let ?W = "write_row rec ?p now ?n S"
      let ?f = "\<lambda>l. l\<lparr>l_continuation := non_empty ?txt,
                      l_buffer := push_frame (h_opts H) ''done'' None (h_json H (DoneData (runId rec) None EInterrupted))
                        (push_frame (h_opts H) ''error'' None
                          (h_json H (ErrorData ''interrupted'' True (sessionId rec) (requestId rec) (runId rec))) (l_buffer l))\<rparr>"
      let ?out = "\<lparr>o_status = EInterrupted, o_text = ?txt, o_messageId = None, o_error = None, o_usage = None\<rparr>"
      have w: "[runId rec] = [runId rec] \<or> [runId rec] = [] \<and> status (patchRunRecord rec ?p now) = Recovering
        \<and> nextAttemptAt (patchRunRecord rec ?p now) \<noteq> None" by simp
      have p: "p_status ?p \<in> {None, Some Recovering}" by simp
      note W = boot_inv_write_row [OF inv q p dist' w, of ?n]
      obtain l where l: "c_heap ?W (runId rec) = Some l" using W(3) by blast
      have a: "runs_ok [runId rec] UNIV (upd (runId rec) ?f ?W)"
        by (rule runs_ok_upd [OF W(1) l])
          (use runs_okD(4) [OF W(1), of "runId rec"] l in \<open>auto simp: benign_def run_fine_def waits_def\<close>)
      have "runs_ok (removeAll (runId rec) [runId rec]) UNIV (finalize H (runId rec) ?out (upd (runId rec) ?f ?W))"
        by (rule runs_ok_finalize [OF a]) (use W(2,5) inv in \<open>auto simp: boot_inv_def\<close>)
      moreover have "nobusy s ?W \<Longrightarrow> nobusy s (finalize H (runId rec) ?out (upd (runId rec) ?f ?W))" for s
        by (intro nobusy_finalize nobusy_upd) auto
      moreover have "steady ?f" using push_frame_done by (auto simp: steady_def told_def)
      then have "accounted ?W a \<Longrightarrow> accounted (finalize H (runId rec) ?out (upd (runId rec) ?f ?W)) a" for a
        by (rule accounted_keeps [OF keeps_trans [OF keeps_steady keeps_finalize]])
      ultimately have "boot_inv rs (finalize H (runId rec) ?out (upd (runId rec) ?f ?W))"
        using inv dist' h W(4-9) unfolding boot_inv_def
        by (auto simp: upd_others finalize_others dest!: finalize_tasks)
      then show ?thesis using nl False Interrupt by (simp add: recover_row_def Let_def)
    qed
  qed
qed

lemma boot_inv_fold:
  assumes "boot_inv rs S" "distinct (map runId rs)" "\<forall>r \<in> set rs. status r \<in> {Queued, Running, Recovering}"
    "\<forall>a \<in> set rs. \<forall>b \<in> set rs. status a \<noteq> Queued \<longrightarrow> status b \<noteq> Queued \<longrightarrow> sessionId a = sessionId b \<longrightarrow> runId a = runId b"
  shows "boot_inv [] (fst (fold (recover_row H cp now) rs (S, e)))"
  using assms
proof (induction rs arbitrary: S e)
  case (Cons rec rs)
  obtain T e' where T: "recover_row H cp now rec (S, e) = (T, e')" by fastforce
  have "boot_inv rs (fst (recover_row H cp now rec (S, e)))"
  proof (rule boot_inv_row [OF Cons.prems(1)])
    show "\<forall>r \<in> set rs. runId r \<noteq> runId rec
        \<and> (status rec \<noteq> Queued \<longrightarrow> status r \<noteq> Queued \<longrightarrow> sessionId r \<noteq> sessionId rec)"
    proof (intro ballI conjI impI)
      fix r assume r: "r \<in> set rs"
      from Cons.prems(2) r show n: "runId r \<noteq> runId rec" by (auto simp: image_iff)
      assume q: "status rec \<noteq> Queued" "status r \<noteq> Queued"
      have "r \<in> set (rec # rs)" "rec \<in> set (rec # rs)" using r by simp_all
      note e = Cons.prems(4) [rule_format, OF this q(2,1)]
      show "sessionId r \<noteq> sessionId rec"
      proof
        assume "sessionId r = sessionId rec"
        from e [OF this] n show False by contradiction
      qed
    qed
  qed (use Cons.prems(3) in simp)
  then have T2: "boot_inv rs T" by (simp add: T)
  have d: "distinct (map runId rs)" "\<forall>r \<in> set rs. status r \<in> {Queued, Running, Recovering}"
    using Cons.prems(2,3) by simp_all
  have s: "\<forall>a \<in> set rs. \<forall>b \<in> set rs. status a \<noteq> Queued \<longrightarrow> status b \<noteq> Queued \<longrightarrow> sessionId a = sessionId b
      \<longrightarrow> runId a = runId b" using Cons.prems(4) by (meson list.set_intros(2))
  from Cons.IH [OF T2 d s, of e'] T show ?case by simp
qed simp

lemma startNextQueued_queued:
  assumes ok: "runs_ok [] Y S" and q: "c_heap (startNextQueued sid S) a = Some l" "l_status l = Queued"
  shows "c_heap S a = Some l"
proof (cases rule: startNextQueued_cases [OF ok, of sid, case_names idle takes])
  case (takes r m)
  with q show ?thesis by (auto simp: add_task_def upd_def split: if_splits)
qed (use q in simp)

lemma startNextQueued_live: "c_live (startNextQueued sid S) = c_live S"
  by (simp add: startNextQueued_def add_task_def split: option.split)

lemma start_idle_fold:
  assumes "runs_ok [] Y S" "\<forall>a \<in> set seen. \<forall>l. c_heap S a = Some l \<longrightarrow> l_status l = Queued \<longrightarrow> l_session l \<notin> Y"
  shows "\<exists>Y'. runs_ok [] Y' (fold start_idle rids S) \<and> c_live (fold start_idle rids S) = c_live S
     \<and> keeps S (fold start_idle rids S)
     \<and> (\<forall>a \<in> set seen \<union> set rids. \<forall>l. c_heap (fold start_idle rids S) a = Some l \<longrightarrow> l_status l = Queued
          \<longrightarrow> l_session l \<notin> Y')"
  using assms
proof (induction rids arbitrary: S Y seen)
  case Nil
  then show ?case by auto
next
  case (Cons rid rids)
  show ?case
  proof (cases "\<exists>l. c_heap S rid = Some l \<and> l_status l = Queued")
    case True
    then obtain l where l: "c_heap S rid = Some l" "l_status l = Queued" by blast
    let ?T = "startNextQueued (l_session l) S"
    have T: "start_idle rid S = ?T" using l by (simp add: start_idle_def)
    have ok: "runs_ok [] (Y - {l_session l}) ?T" by (rule runs_ok_startNextQueued [OF Cons.prems(1)])
    have "\<forall>a \<in> set (rid # seen). \<forall>m. c_heap ?T a = Some m \<longrightarrow> l_status m = Queued \<longrightarrow> l_session m \<notin> Y - {l_session l}"
      using startNextQueued_queued [OF Cons.prems(1)] Cons.prems(2) l(1) by fastforce
    from Cons.IH [OF ok this] show ?thesis
      using T startNextQueued_live keeps_trans [OF keeps_startNextQueued] by auto
  next
    case False
    then have T: "start_idle rid S = S" by (auto simp: start_idle_def split: option.split)
    have "\<forall>a \<in> set (rid # seen). \<forall>m. c_heap S a = Some m \<longrightarrow> l_status m = Queued \<longrightarrow> l_session m \<notin> Y"
      using Cons.prems(2) False by auto
    from Cons.IH [OF Cons.prems(1) this] T show ?thesis by auto
  qed
qed

lemma runs_ok_no_exemption:
  assumes ok: "runs_ok X Y S"
    and q: "\<And>a l. a \<in> set (c_live S) \<Longrightarrow> c_heap S a = Some l \<Longrightarrow> l_status l = Queued \<Longrightarrow> l_session l \<notin> Y"
  shows "runs_ok X {} S"
proof -
  have "strand {} (c_heap S) (set (c_live S)) (c_tasks S)"
    using runs_okD(7) [OF ok] q unfolding strand_def by simp
  with ok show ?thesis by (simp add: runs_ok_def)
qed

lemma runs_ok_fresh: "runs_ok [] Y (fresh_coord db)"
  by (simp add: runs_ok_def fresh_coord_def heap_ok_def single_def strand_def)

lemma booted_ok:
  assumes rows: "boot_rows (turn_runs db)"
  shows "coord_ok (booted H cp now db)"
proof -
  let ?F = "fresh_coord db" and ?rs = "listActive db"
  have rs: "set ?rs = {r \<in> set (turn_runs db). status r \<in> {Queued, Running, Recovering}}"
    by (auto simp: listActive_def is_active_def ACTIVE_RUN_STATUSES_def)
  have "boot_inv ?rs ?F"
    using rs by (auto simp: boot_inv_def runs_ok_fresh) (auto simp: fresh_coord_def row_ids_def nobusy_def)
  moreover have "distinct (map runId ?rs)"
    using rows unfolding boot_rows_def listActive_def by (auto simp: distinct_map inj_on_def)
  ultimately have inv: "boot_inv [] (fst (fold (recover_row H cp now) ?rs (?F, None)))"
    by (rule boot_inv_fold) (use rs rows in \<open>auto simp: boot_rows_def\<close>)
  obtain S e where S: "fold (recover_row H cp now) ?rs (?F, None) = (S, e)" by fastforce
  with inv have i: "runs_ok [] UNIV S" "c_turns S = []" "\<forall>r. c_heap S r \<noteq> None \<longrightarrow> r \<in> row_ids S \<and> accounted S r"
    by (simp_all add: boot_inv_def)
  let ?T = "fold start_idle (c_live S) S"
  obtain Y where Y: "runs_ok [] Y ?T" "c_live ?T = c_live S" "keeps S ?T"
      "\<forall>a \<in> set (c_live S). \<forall>l. c_heap ?T a = Some l \<longrightarrow> l_status l = Queued \<longrightarrow> l_session l \<notin> Y"
    using start_idle_fold [OF i(1), of "[]" "c_live S"] by auto
  have "runs_ok [] {} ?T" by (rule runs_ok_no_exemption [OF Y(1)]) (use Y(2,4) in auto)
  moreover have "turns_ok S" using i by (simp add: turns_ok_def List.map_filter_simps)
  then have "turns_ok ?T" by (rule turns_ok_keeps [OF Y(3)])
  ultimately have ok: "coord_ok ?T" by (simp add: coord_ok_def)
  have "coord_ok (requestAlarm at ?T)" for at
    by (rule coord_ok_keeps [OF ok]) (use ok in \<open>auto simp: coord_ok_def\<close>)
  moreover have "c_db ?F = db" by (simp add: fresh_coord_def)
  ultimately show ?thesis using ok S
    by (simp add: booted_def recoverOrphans_def Let_def split: option.split)
qed

text \<open>Every state a coordinator reaches from a boot.\<close>

definition reachable :: "host \<Rightarrow> coord \<Rightarrow> bool" where
  "reachable H S \<longleftrightarrow> (\<exists>cp now db. boot_rows (turn_runs db) \<and> (coord_step H)\<^sup>*\<^sup>* (booted H cp now db) S)"

lemma reachable_ok: "reachable H S \<Longrightarrow> coord_ok S"
  unfolding reachable_def
proof (elim exE conjE)
  fix cp now db assume r: "boot_rows (turn_runs db)" "(coord_step H)\<^sup>*\<^sup>* (booted H cp now db) S"
  from r(2) show "coord_ok S"
    by (induction rule: rtranclp_induct) (auto intro: booted_ok [OF r(1)] coord_step_ok)
qed

end
