(* ===== verification/Run_Properties.thy ===== *)
theory Run_Properties
  imports Run_Safety
begin

text \<open>
  What the invariant of the run coordinator gives: at most one executing attempt per session, no run
  forgotten, a final frame for every reader, what an abort leaves, and the alarms that keep the
  object awake.
\<close>

subsection \<open>One attempt per session\<close>

definition attempts_of :: "string \<Rightarrow> coord \<Rightarrow> task list" where
  "attempts_of sid S = filter (\<lambda>t. case t of
      Attempt r b \<Rightarrow> (case c_heap S r of None \<Rightarrow> False | Some l \<Rightarrow> l_session l = sid) | _ \<Rightarrow> False) (c_tasks S)"

lemma single_owner_short:
  assumes "distinct (owners ts)" "\<And>t. t \<in> set ts \<Longrightarrow> owner t = Some r"
  shows "length ts \<le> 1"
proof (cases ts)
  case (Cons t us)
  show ?thesis
  proof (cases us)
    case (Cons u vs)
    with \<open>ts = t # us\<close> assms(2) [of t] assms(2) [of u] assms(1) show ?thesis by (simp add: set_owners)
  qed (use Cons in simp)
qed simp

lemma distinct_owners_filter: "distinct (owners ts) \<Longrightarrow> distinct (owners (filter P ts))"
proof (induction ts)
  case (Cons t ts)
  then show ?case by (cases "owner t") (auto simp: set_owners)
qed simp

text \<open>
  C27. At any moment at most one attempt of a session executes, whatever calls and aborts come in
  whatever order, whatever fails, and from whatever rows the object booted, as long as they held at
  most one run of a session past its queue.
\<close>

theorem one_attempt_per_session:
  assumes "reachable H S"
  shows "length (attempts_of sid S) \<le> 1"
proof -
  have ok: "runs_ok [] {} S" using reachable_ok [OF assms] by (simp add: coord_ok_def)
  note D = runs_okD [OF ok]
  have a: "\<exists>r l. owner t = Some r \<and> r \<in> set (c_live S) \<and> c_heap S r = Some l \<and> l_session l = sid \<and> l_status l \<noteq> Queued"
    if "t \<in> set (attempts_of sid S)" for t
  proof -
    from that have t: "t \<in> set (c_tasks S)" "\<exists>r b. t = Attempt r b" by (auto simp: attempts_of_def split: task.splits)
    from t(2) obtain r b where "t = Attempt r b" by blast
    with that D(6) [OF t(1)] show ?thesis by (auto simp: attempts_of_def)
  qed
  show ?thesis
  proof (cases "attempts_of sid S")
    case (Cons t ts)
    then obtain r l where r: "owner t = Some r" "r \<in> set (c_live S)" "c_heap S r = Some l" "l_session l = sid"
        "l_status l \<noteq> Queued" using a [of t] by auto
    have "owner u = Some r" if "u \<in> set (attempts_of sid S)" for u
    proof -
      from a [OF that] obtain q m where q: "owner u = Some q" "q \<in> set (c_live S)" "c_heap S q = Some m"
          "l_session m = sid" "l_status m \<noteq> Queued" by blast
      have "q = r" using D(5) q r unfolding single_def by blast
      with q(1) show ?thesis by simp
    qed
    moreover have "distinct (owners (attempts_of sid S))"
      using D(3) distinct_owners_filter unfolding attempts_of_def by simp
    ultimately show ?thesis by (intro single_owner_short)
  qed simp
qed

definition sample_host :: host where
  "sample_host = \<lparr>h_opts = \<lparr>ro_flushBytes = 9, ro_immediate = (\<lambda>_. False), ro_bytes = (\<lambda>_. 5)\<rparr>,
     h_cfg = runDurabilityConfig (\<lambda>_. None) [] None, h_instance = ''i2'', h_json = (\<lambda>_. [])\<rparr>"

definition sample_input :: "string \<Rightarrow> begin_input" where
  "sample_input rid = \<lparr>bi_runId = rid, bi_sessionId = ''s'', bi_requestId = rid, bi_client = Channel,
     bi_request = [], bi_enqueue = False, bi_taskRunId = None\<rparr>"

lemma reachable_boot: "boot_rows (turn_runs db) \<Longrightarrow> reachable H (booted H cp now db)"
  unfolding reachable_def by blast

lemma reachable_step: "reachable H S \<Longrightarrow> coord_step H S S' \<Longrightarrow> reachable H S'"
  unfolding reachable_def by (meson rtranclp.rtrancl_into_rtrancl)

definition sample_boot :: coord where
  "sample_boot = booted sample_host (\<lambda>_. None) 0 empty_db"

lemma sample_boot_reachable: "reachable sample_host sample_boot"
  unfolding sample_boot_def by (rule reachable_boot) (simp add: empty_db_def boot_rows_def)

text \<open>A first message, up to its attempt.\<close>

definition sample_ticket :: ticket where
  "sample_ticket = \<lparr>k_id = 1, k_input = sample_input ''r1'', k_superseded = False\<rparr>"

definition sample_turn :: coord where
  "sample_turn = turn_start sample_host sample_ticket (begin_call 1 (sample_input ''r1'') sample_boot)"

definition sample_created :: coord where
  "sample_created = turn_create sample_host sample_ticket False False True None 1 sample_turn"

definition sample_record :: run_record where
  "sample_record = new_record \<lparr>ci_runId = ''r1'', ci_sessionId = ''s'', ci_requestId = ''r1'', ci_client = Channel,
     ci_queued = False, ci_request = [], ci_checkpointId = None, ci_taskRunId = None, ci_instanceId = ''i2''\<rparr> 1"

definition sample_running :: coord where
  "sample_running = turn_open sample_host sample_ticket sample_record False False 1 sample_created"

lemma sample_running_reachable: "reachable sample_host sample_running"
proof -
  have a: "next_ticket ''s'' (begin_call 1 (sample_input ''r1'') sample_boot) = Some sample_ticket" by code_simp
  have b: "c_turns sample_turn = [(sample_ticket, Creating False False)]" by code_simp
  have c: "c_turns sample_created = [(sample_ticket, Created sample_record False False)]" by code_simp
  have "reachable sample_host sample_turn" unfolding sample_turn_def
    by (rule reachable_step [OF reachable_step [OF sample_boot_reachable s_begin] s_turn [OF a]])
  then have "reachable sample_host sample_created" unfolding sample_created_def
    by (rule reachable_step [OF _ s_create]) (simp add: b)
  then show ?thesis unfolding sample_running_def
    by (rule reachable_step [OF _ s_open]) (simp add: c)
qed

theorem one_attempt_per_session_witness:
  "attempts_of ''s'' sample_running = [Attempt ''r1'' False] \<and> length (attempts_of ''s'' sample_running) \<le> 1"
proof -
  have "attempts_of ''s'' sample_running = [Attempt ''r1'' False]" by code_simp
  with one_attempt_per_session [OF sample_running_reachable, of "''s''"] show ?thesis by simp
qed

subsection \<open>No run is forgotten\<close>

definition recovery_times :: "coord \<Rightarrow> int list" where
  "recovery_times S = List.map_filter (\<lambda>l. if l_status l = Recovering then nextAttemptAt (l_record l) else None) (live_runs S)"

lemma nextRecoveryAt_Min:
  "nextRecoveryAt S = (if recovery_times S = [] then None else Some (Min (set (recovery_times S))))"
proof -
  let ?t = "\<lambda>l. if l_status l = Recovering then nextAttemptAt (l_record l) else None"
  let ?f = "\<lambda>l at. if l_status l \<noteq> Recovering then at
        else case nextAttemptAt (l_record l) of None \<Rightarrow> at
             | Some t \<Rightarrow> (case at of None \<Rightarrow> Some t | Some a \<Rightarrow> Some (min a t))"
  have "fold ?f ls (Some a) = Some (Min (insert a (set (List.map_filter ?t ls))))" for ls a
  proof (induction ls arbitrary: a)
    case (Cons l ls)
    have f: "finite (set (List.map_filter ?t ls))" by (rule finite_set)
    show ?case
    proof (cases "?t l")
      case (Some t)
      then have "?f l (Some a) = Some (min a t)" by (auto split: if_splits)
      moreover have "Min (insert (min a t) (set (List.map_filter ?t ls)))
          = Min (insert a (insert t (set (List.map_filter ?t ls))))"
        using f by (cases "set (List.map_filter ?t ls) = {}") (simp_all add: min.assoc del: map_filter_set)
      ultimately show ?thesis using Cons.IH Some by (simp add: List.map_filter_simps del: map_filter_set)
    next
      case None
      then have "?f l (Some a) = Some a" by (auto split: if_splits)
      with None Cons.IH show ?thesis by (simp add: List.map_filter_simps del: map_filter_set)
    qed
  qed (simp add: List.map_filter_simps)
  then have "fold ?f ls None = (if List.map_filter ?t ls = [] then None else Some (Min (set (List.map_filter ?t ls))))" for ls
  proof (induction ls)
    case (Cons l ls)
    show ?case
    proof (cases "?t l")
      case (Some t)
      then have "?f l None = Some t" by (auto split: if_splits)
      with Some Cons.prems [of ls t] show ?thesis by (simp add: List.map_filter_simps del: map_filter_set)
    next
      case None
      then have "?f l None = None" by (auto split: if_splits)
      with None Cons.IH [OF Cons.prems] show ?thesis by (simp add: List.map_filter_simps del: map_filter_set)
    qed
  qed (simp add: List.map_filter_simps)
  then show ?thesis unfolding nextRecoveryAt_def recovery_times_def by simp
qed

text \<open>
  C28. Every run in the live map will be taken up: a queued one has a run of its session ahead of it or
  the end of one that is about to look at the queue; any other is held by a continuation in progress,
  or waits for a time that \<open>nextRecoveryAt\<close>, and so the alarm, does not exceed.
\<close>

theorem no_run_forgotten:
  assumes "reachable H S" and "r \<in> set (c_live S)"
  shows "\<exists>l. c_heap S r = Some l
     \<and> (l_status l = Queued \<and> covered (c_heap S) (set (c_live S)) (c_tasks S) (l_session l)
      \<or> (\<exists>t \<in> set (c_tasks S). owner t = Some r)
      \<or> (\<exists>at m. l_status l = Recovering \<and> \<not> l_inFlight l \<and> nextAttemptAt (l_record l) = Some at
            \<and> nextRecoveryAt S = Some m \<and> m \<le> at))"
proof -
  have ok: "runs_ok [] {} S" using reachable_ok [OF assms(1)] by (simp add: coord_ok_def)
  note D = runs_okD [OF ok]
  from D(4) [OF assms(2)] obtain l where l: "c_heap S r = Some l" "run_fine (set (owners (c_tasks S) @ [])) r l" by blast
  show ?thesis
  proof (cases "l_status l = Queued")
    case True
    with D(7) assms(2) l(1) have "covered (c_heap S) (set (c_live S)) (c_tasks S) (l_session l)"
      unfolding strand_def by blast
    with l(1) True show ?thesis by blast
  next
    case False
    with l(2) consider "r \<in> set (owners (c_tasks S))" | "waits l" by (auto simp: run_fine_def)
    then show ?thesis
    proof cases
      case 1
      then show ?thesis using l(1) by (auto simp: set_owners)
    next
      case 2
      then obtain at where at: "l_status l = Recovering" "\<not> l_inFlight l" "nextAttemptAt (l_record l) = Some at"
        by (auto simp: waits_def)
      have "l \<in> set (live_runs S)" using assms(2) l(1) by (auto simp: live_runs_mem)
      then have "at \<in> set (recovery_times S)" unfolding recovery_times_def using at by auto
      then have "nextRecoveryAt S = Some (Min (set (recovery_times S)))" "Min (set (recovery_times S)) \<le> at"
        by (auto simp: nextRecoveryAt_Min)
      with l(1) at show ?thesis by blast
    qed
  qed
qed

theorem no_run_forgotten_witness:
  "\<exists>l. c_heap sample_running ''r1'' = Some l \<and> l_status l = Running
     \<and> (\<exists>t \<in> set (c_tasks sample_running). owner t = Some ''r1'')"
proof -
  have r: "''r1'' \<in> set (c_live sample_running)" by code_simp
  have s: "map_option l_status (c_heap sample_running ''r1'') = Some Running" by code_simp
  from no_run_forgotten [OF sample_running_reachable r] s show ?thesis by auto
qed

subsection \<open>Readers are told\<close>

lemma tailAfter_done:
  assumes "rb_closed b" "rb_done b = Some d" "after < f_seq d"
  shows "f_seq d \<in> f_seq ` set (tailAfter after b)"
proof -
  let ?out = "filter (\<lambda>f. f_seq f > after) (concat (rb_inFlight b)) @ filter (\<lambda>f. f_seq f > after) (rb_tail b)"
  have e: "tailAfter after b = (if \<not> list_ex (\<lambda>f. f_seq f = f_seq d) ?out then ?out @ [d] else ?out)"
    using assms by (simp add: tailAfter_def Let_def)
  show ?thesis
  proof (cases "list_ex (\<lambda>f. f_seq f = f_seq d) ?out")
    case True
    then obtain f where "f \<in> set ?out" "f_seq f = f_seq d" unfolding list_ex_iff by blast
    with True e show ?thesis by (metis imageI)
  next
    case False
    then show ?thesis unfolding e by simp
  qed
qed

text \<open>
  C29. A run leaves the live map only with its buffer closed on a \<open>done\<close> frame, and stays so: a client
  that joins late learns that the run ended, however it ended.
\<close>

theorem ended_run_is_told:
  assumes "reachable H S" and "c_heap S r = Some l" and "r \<notin> set (c_live S)"
  shows "rb_closed (l_buffer l)
    \<and> (\<exists>d. rb_done (l_buffer l) = Some d \<and> (f_seq d \<le> after \<or> f_seq d \<in> f_seq ` set (tailAfter after (l_buffer l))))"
proof -
  have "accounted S r" using reachable_ok [OF assms(1)] assms(2) by (simp add: coord_ok_def turns_ok_def)
  with assms(2,3) have "told (l_buffer l)" by (simp add: accounted_def)
  then obtain d where d: "rb_closed (l_buffer l)" "rb_done (l_buffer l) = Some d" by (auto simp: told_def)
  then show ?thesis using tailAfter_done [OF d, of after] by fastforce
qed

definition sample_stopped :: coord where
  "sample_stopped = attempt_ends sample_host ''r1'' (Crashed ''boom'') 2 (drop_task (Attempt ''r1'' False) sample_running)"

theorem ended_run_is_told_witness:
  "\<exists>l d. c_heap sample_stopped ''r1'' = Some l \<and> rb_closed (l_buffer l) \<and> rb_done (l_buffer l) = Some d"
proof -
  have t: "Attempt ''r1'' False \<in> set (c_tasks sample_running)" by code_simp
  have r: "reachable sample_host sample_stopped" unfolding sample_stopped_def
    by (rule reachable_step [OF sample_running_reachable s_attempt [OF t]])
  have "c_heap sample_stopped ''r1'' \<noteq> None \<and> ''r1'' \<notin> set (c_live sample_stopped)"
    by (rule conjI; code_simp)
  then obtain l where "c_heap sample_stopped ''r1'' = Some l" "''r1'' \<notin> set (c_live sample_stopped)" by blast
  with ended_run_is_told [OF r this] show ?thesis by blast
qed

subsection \<open>Stopping\<close>

lemma fold_establishes:
  assumes "\<And>x T. P x (f x T)" "\<And>x y T. P x T \<Longrightarrow> P x (f y T)"
  shows "\<forall>x \<in> set xs. P x (fold f xs S)"
proof -
  have keep: "P x T \<Longrightarrow> P x (fold f ys T)" for x T ys
    using assms(2) by (induction ys arbitrary: T) auto
  show ?thesis using assms(1) keep by (induction xs arbitrary: S) auto
qed

text \<open>Stopping changes no record, session or flight, never clears an abort, and opens nothing.\<close>

definition only_stops :: "coord \<Rightarrow> coord \<Rightarrow> bool" where
  "only_stops S S' \<longleftrightarrow> set (c_live S') \<subseteq> set (c_live S)
     \<and> (\<forall>r. map_option (\<lambda>l. (l_session l, l_record l, l_inFlight l)) (c_heap S' r)
           = map_option (\<lambda>l. (l_session l, l_record l, l_inFlight l)) (c_heap S r))
     \<and> (\<forall>r l l'. c_heap S r = Some l \<longrightarrow> c_heap S' r = Some l' \<longrightarrow> l_aborted l \<longrightarrow> l_aborted l')"

lemma only_stops_trans:
  assumes a: "only_stops S1 S2" and b: "only_stops S2 S3" shows "only_stops S1 S3"
  unfolding only_stops_def
proof (intro conjI allI impI)
  show "set (c_live S3) \<subseteq> set (c_live S1)" using a b unfolding only_stops_def by blast
  fix r
  show "map_option (\<lambda>l. (l_session l, l_record l, l_inFlight l)) (c_heap S3 r)
           = map_option (\<lambda>l. (l_session l, l_record l, l_inFlight l)) (c_heap S1 r)"
    using a b unfolding only_stops_def by presburger
next
  fix r l l' assume l: "c_heap S1 r = Some l" "c_heap S3 r = Some l'" "l_aborted l"
  have "map_option (\<lambda>l. (l_session l, l_record l, l_inFlight l)) (c_heap S2 r) \<noteq> None"
    using a l(1) unfolding only_stops_def by simp
  then obtain m where m: "c_heap S2 r = Some m" by auto
  with a l have "l_aborted m" unfolding only_stops_def by blast
  with b m l(2) show "l_aborted l'" unfolding only_stops_def by blast
qed

lemma only_stops_fold:
  assumes "\<And>x T. only_stops T (f x T)" shows "only_stops S (fold f xs S)"
proof (induction xs arbitrary: S)
  case (Cons x xs)
  from only_stops_trans [OF assms Cons.IH] show ?case by simp
qed (simp add: only_stops_def)

lemma only_stops_refl [simp]: "only_stops S S"
  by (simp add: only_stops_def)

lemma only_stops_finalize [simp]: "only_stops S (finalize H r out S)"
  by (auto simp: only_stops_def finalize_def add_task_def upd_def option.map_comp o_def split: if_splits)

lemma only_stops_abortRun [simp]: "only_stops S (abortRun H r S)"
proof -
  have "only_stops S (upd r (\<lambda>l. l\<lparr>l_aborted := True\<rparr>) S)"
    by (auto simp: only_stops_def upd_def option.map_comp o_def split: if_splits)
  then show ?thesis
    by (auto simp: abortRun_def Let_def split: option.split intro: only_stops_trans [OF _ only_stops_finalize])
qed

lemma only_stops_each [simp]: "only_stops S (cancel_if H P r S)" "only_stops S (abort_if_busy H r S)"
  by (auto simp: cancel_if_def cancelQueued_def abort_if_busy_def split: option.split)

definition not_queued :: "string \<Rightarrow> coord \<Rightarrow> bool" where
  "not_queued r S \<longleftrightarrow> (\<forall>l. r \<in> set (c_live S) \<longrightarrow> c_heap S r = Some l \<longrightarrow> l_status l \<noteq> Queued)"

definition signalled :: "string \<Rightarrow> coord \<Rightarrow> bool" where
  "signalled r S \<longleftrightarrow> (\<forall>l. r \<in> set (c_live S) \<longrightarrow> c_heap S r = Some l \<longrightarrow> l_status l \<noteq> Queued \<longrightarrow> l_aborted l \<and> l_inFlight l)"

lemma only_stopsD:
  assumes "only_stops S S'" "r \<in> set (c_live S')" "c_heap S' r = Some l'"
  obtains l where "r \<in> set (c_live S)" "c_heap S r = Some l" "l_session l' = l_session l" "l_record l' = l_record l"
    "l_inFlight l' = l_inFlight l" "l_aborted l \<Longrightarrow> l_aborted l'"
proof -
  from assms(1) have "map_option (\<lambda>l. (l_session l, l_record l, l_inFlight l)) (c_heap S' r)
      = map_option (\<lambda>l. (l_session l, l_record l, l_inFlight l)) (c_heap S r)" unfolding only_stops_def by blast
  with assms(3) have "map_option (\<lambda>l. (l_session l, l_record l, l_inFlight l)) (c_heap S r)
      = Some (l_session l', l_record l', l_inFlight l')" by simp
  then obtain l where l: "c_heap S r = Some l" "l_session l' = l_session l" "l_record l' = l_record l"
      "l_inFlight l' = l_inFlight l" by auto
  moreover have "r \<in> set (c_live S)" "l_aborted l \<Longrightarrow> l_aborted l'"
    using assms l(1) unfolding only_stops_def by blast+
  ultimately show thesis using that by blast
qed

lemma not_queued_keep: "only_stops S S' \<Longrightarrow> not_queued r S \<Longrightarrow> not_queued r S'"
  unfolding not_queued_def by (metis only_stopsD)

lemma signalled_keep: "only_stops S S' \<Longrightarrow> signalled r S \<Longrightarrow> signalled r S'"
  unfolding signalled_def by (metis only_stopsD)

lemma not_queued_cancel: "not_queued r (cancel_if H (\<lambda>_. True) r S)"
  by (auto simp: not_queued_def cancel_if_def cancelQueued_def finalize_def add_task_def split: option.splits)

lemma signalled_abort: "signalled r (abort_if_busy H r S)"
proof (cases "c_heap S r")
  case (Some l)
  let ?S = "upd r (\<lambda>l. l\<lparr>l_aborted := True\<rparr>) S"
  have f: "r \<notin> set (c_live (finalize H r out T))" for out T by (simp add: finalize_def add_task_def)
  have u: "c_heap ?S r = Some (l\<lparr>l_aborted := True\<rparr>)" using Some by (simp add: upd_def)
  show ?thesis
  proof (cases "l_status l = Queued")
    case False
    then show ?thesis using Some u f unfolding signalled_def
      by (simp add: abort_if_busy_def abortRun_def Let_def)
  qed (use Some in \<open>simp add: signalled_def abort_if_busy_def\<close>)
qed (simp add: signalled_def abort_if_busy_def)

lemma stop_runs_stops:
  assumes "r \<in> set rids" "r \<in> set (c_live (stop_runs H rids S))" "c_heap (stop_runs H rids S) r = Some l"
  shows "l_aborted l \<and> l_inFlight l"
proof -
  let ?T = "fold (cancel_if H (\<lambda>_. True)) rids S"
  have "not_queued r ?T"
    using fold_establishes [of not_queued "cancel_if H (\<lambda>_. True)"] not_queued_cancel not_queued_keep only_stops_each(1)
      assms(1) by blast
  moreover have "only_stops U (fold (abort_if_busy H) rids U)" for U
    by (rule only_stops_fold) simp
  ultimately have "not_queued r (stop_runs H rids S)" unfolding stop_runs_def using not_queued_keep by blast
  moreover have "signalled r (stop_runs H rids S)" unfolding stop_runs_def
    using fold_establishes [of signalled "abort_if_busy H"] signalled_abort signalled_keep only_stops_each(2)
      assms(1) by blast
  ultimately show ?thesis using assms(2,3) unfolding not_queued_def signalled_def by blast
qed

text \<open>
  C30. After \<open>abortAllForSession\<close> nothing of the session is left to start: every call still in \<open>begin\<close>
  is superseded, no run is queued or waiting for a retry, and what is still live is an attempt in
  flight that has been signalled.
\<close>

theorem abort_all_leaves_nothing_to_start:
  assumes "reachable H S" and "S' = abortAllForSession H sid S"
  shows "(\<forall>k \<in> set (c_waiting S') \<union> fst ` set (c_turns S'). k_session k = sid \<longrightarrow> k_superseded k)
    \<and> (\<forall>r \<in> set (c_live S'). \<forall>l. c_heap S' r = Some l \<longrightarrow> l_session l = sid \<longrightarrow> l_aborted l \<and> l_inFlight l)"
proof
  have ok: "runs_ok [] {} S" using reachable_ok [OF assms(1)] by (simp add: coord_ok_def)
  let ?S = "supersedePending sid S" and ?ids = "map l_runId (filter (\<lambda>l. l_session l = sid) (live_runs S))"
  have e: "S' = stop_runs H ?ids ?S" by (simp add: assms(2) abortAllForSession_def)
  have o: "only_stops U (fold (abort_if_busy H) xs U)" "only_stops U (fold (cancel_if H P) xs U)" for U P xs
    by (rule only_stops_fold, simp)+
  have os: "only_stops ?S S'" unfolding e stop_runs_def by (rule only_stops_trans [OF o(2) o(1)])
  show "\<forall>r \<in> set (c_live S'). \<forall>l. c_heap S' r = Some l \<longrightarrow> l_session l = sid \<longrightarrow> l_aborted l \<and> l_inFlight l"
  proof (intro ballI allI impI)
    fix r l' assume r: "r \<in> set (c_live S')" "c_heap S' r = Some l'" "l_session l' = sid"
    obtain l where l: "r \<in> set (c_live ?S)" "c_heap ?S r = Some l" "l_session l' = l_session l"
      by (rule only_stopsD [OF os r(1,2)])
    then have "l \<in> set (live_runs S)" "l_runId l = r"
      using runs_okD(2) [OF ok] by (auto simp: live_runs_mem heap_ok_def)
    then have "r \<in> set ?ids" using l(3) r(3) by force
    then show "l_aborted l' \<and> l_inFlight l'" using stop_runs_stops r(1,2) unfolding e by blast
  qed
  have w: "c_waiting (stop_runs H xs T) = c_waiting T" for xs T
  proof -
    have "c_waiting (finalize H r out T) = c_waiting T" for r out T by (simp add: finalize_def add_task_def)
    then have a: "c_waiting (cancel_if H P r T) = c_waiting T" "c_waiting (abort_if_busy H r T) = c_waiting T" for P r T
      by (auto simp: cancel_if_def cancelQueued_def abort_if_busy_def abortRun_def Let_def split: option.split)
    have "c_waiting (fold (cancel_if H P) xs T) = c_waiting T" "c_waiting (fold (abort_if_busy H) xs T) = c_waiting T" for P T
      by (induction xs arbitrary: T) (simp_all add: a)
    then show ?thesis by (simp add: stop_runs_def)
  qed
  have t: "c_turns S' = c_turns ?S" unfolding e using keeps_stop_runs by (simp add: keeps_def)
  show "\<forall>k \<in> set (c_waiting S') \<union> fst ` set (c_turns S'). k_session k = sid \<longrightarrow> k_superseded k"
  proof (intro ballI impI)
    fix k assume k: "k \<in> set (c_waiting S') \<union> fst ` set (c_turns S')" "k_session k = sid"
    have "c_waiting S' = map (mark_superseded sid) (c_waiting S)" by (simp add: e w supersedePending_def)
    moreover have "c_turns S' = map (\<lambda>(k, p). (mark_superseded sid k, p)) (c_turns S)"
      unfolding t by (simp add: supersedePending_def)
    ultimately obtain k' where k': "k = mark_superseded sid k'" using k(1) by auto
    then have "k_session k' = sid" using k(2) by simp
    with k' show "k_superseded k" by (simp add: mark_superseded_def)
  qed
qed

theorem abort_all_leaves_nothing_to_start_witness:
  "\<exists>l. c_heap (abortAllForSession sample_host ''s'' sample_running) ''r1'' = Some l \<and> l_aborted l \<and> l_inFlight l"
proof -
  let ?S = "abortAllForSession sample_host ''s'' sample_running"
  have v: "''r1'' \<in> set (c_live ?S)" by code_simp
  have "map_option l_session (c_heap ?S ''r1'') = Some ''s''" by code_simp
  then obtain l where l: "c_heap ?S ''r1'' = Some l" "l_session l = ''s''" by auto
  have "l_aborted l \<and> l_inFlight l"
    using conjunct2 [OF abort_all_leaves_nothing_to_start [OF sample_running_reachable refl]] v l by blast
  with l show ?thesis by blast
qed

subsection \<open>Superseded calls\<close>

text \<open>
  A call of \<open>begin\<close> that was superseded while it waited leaves a run that was recorded and ended
  without an attempt: the live map is as it was, the only thing left to do is to close its row as
  aborted, and its readers are told at once.
\<close>

theorem superseded_begin_never_starts:
  assumes "reachable H S" and "(k, Created rec q bs) \<in> set (c_turns S)" and "k_superseded k"
    and "S' = turn_open H k rec q bs now S"
  shows "c_live S' = c_live S \<and> c_tasks S' = c_tasks S @ [Closing (runId rec) (aborted_outcome [])]
    \<and> (\<exists>l. c_heap S' (runId rec) = Some l \<and> told (l_buffer l))"
proof -
  have ok: "runs_ok [] {} S" "turns_ok S" using reachable_ok [OF assms(1)] by (simp_all add: coord_ok_def)
  have "phase_fine S k (Created rec q bs)" using ok(2) assms(2) unfolding turns_ok_def by blast
  then have "runId rec \<notin> set (c_live S)" using runs_okD(4) [OF ok(1), of "runId rec"] by auto
  moreover have "\<not> rb_closed (new_buffer 0)" by (simp add: new_buffer_def)
  ultimately show ?thesis using assms(3) told_closed
    by (auto simp: assms(4) turn_open_def Let_def cancelQueued_def finalize_def open_run_def upd_def add_task_def
        set_phase_def)
qed

definition sample_superseded :: ticket where
  "sample_superseded = sample_ticket\<lparr>k_superseded := True\<rparr>"

theorem superseded_begin_never_starts_witness:
  "c_live (turn_open sample_host sample_superseded sample_record False False 2
     (begin_call 2 (sample_input ''r2'') sample_created)) = []"
proof -
  let ?S = "begin_call 2 (sample_input ''r2'') sample_created"
  have a: "next_ticket ''s'' (begin_call 1 (sample_input ''r1'') sample_boot) = Some sample_ticket" by code_simp
  have b: "c_turns sample_turn = [(sample_ticket, Creating False False)]" by code_simp
  have "reachable sample_host sample_turn" unfolding sample_turn_def
    by (rule reachable_step [OF reachable_step [OF sample_boot_reachable s_begin] s_turn [OF a]])
  then have "reachable sample_host sample_created" unfolding sample_created_def
    by (rule reachable_step [OF _ s_create]) (simp add: b)
  then have r: "reachable sample_host ?S" by (rule reachable_step [OF _ s_begin])
  have "c_turns ?S = [(sample_superseded, Created sample_record False False)]" by code_simp
  then have t: "(sample_superseded, Created sample_record False False) \<in> set (c_turns ?S)" by simp
  have "k_superseded sample_superseded" by (simp add: sample_superseded_def)
  from superseded_begin_never_starts [OF r t this refl, of 2]
  have "c_live (turn_open sample_host sample_superseded sample_record False False 2 ?S) = c_live ?S" by simp
  moreover have "c_live ?S = []" by code_simp
  ultimately show ?thesis by simp
qed

subsection \<open>Keep-alive\<close>

text \<open>
  While an attempt executes, touching the keep-alive leaves the alarm armed for more than a
  quarter of the horizon from now, re-arms only when it has to, and asks for the alarm at the time it
  armed.
\<close>

theorem touch_keeps_awake:
  assumes "activeCount S > 0" and "keepAliveMs (h_cfg H) > 0"
  shows "4 * (c_armed (touchKeepAlive H now S) - now) > keepAliveMs (h_cfg H)
    \<and> (touchKeepAlive H now S = S
       \<or> 4 * (c_armed S - now) \<le> keepAliveMs (h_cfg H)
         \<and> c_alarms (touchKeepAlive H now S) = c_alarms S @ [c_armed (touchKeepAlive H now S)])"
  using assms by (auto simp: touchKeepAlive_def requestAlarm_def Let_def)

theorem touch_keeps_awake_witness:
  "4 * (c_armed (touchKeepAlive sample_host 19000 sample_running) - 19000) > 20000"
proof -
  have a: "activeCount sample_running > 0" by code_simp
  have "keepAliveMs (h_cfg sample_host) = 20000"
    by (simp add: sample_host_def runDurabilityConfig_def env_int_def Let_def)
  with touch_keeps_awake [OF a, of sample_host 19000] show ?thesis by simp
qed

end
