(* ===== verification/Run_Findings.thy ===== *)
theory Run_Findings
  imports Run_Properties
begin

text \<open>
  Histories of the coordinator, step by step, that end in a state its comments rule out.
\<close>

subsection \<open>A message, up to its attempt\<close>

definition message :: "string \<Rightarrow> string \<Rightarrow> begin_input" where
  "message rid sid = (sample_input rid)\<lparr>bi_sessionId := sid\<rparr>"

definition fresh_ticket :: "nat \<Rightarrow> begin_input \<Rightarrow> ticket" where
  "fresh_ticket n i = \<lparr>k_id = n, k_input = i, k_superseded = False\<rparr>"

definition row_of :: "begin_input \<Rightarrow> int \<Rightarrow> run_record" where
  "row_of i t = new_record \<lparr>ci_runId = bi_runId i, ci_sessionId = bi_sessionId i, ci_requestId = bi_requestId i,
     ci_client = bi_client i, ci_queued = False, ci_request = bi_request i, ci_checkpointId = None,
     ci_taskRunId = bi_taskRunId i, ci_instanceId = ''i2''\<rparr> t"

definition begun1 :: "nat \<Rightarrow> begin_input \<Rightarrow> coord \<Rightarrow> coord" where
  "begun1 n i S = turn_start sample_host (fresh_ticket n i) (begin_call n i S)"

definition begun2 :: "nat \<Rightarrow> begin_input \<Rightarrow> int \<Rightarrow> coord \<Rightarrow> coord" where
  "begun2 n i t S = turn_create sample_host (fresh_ticket n i) False False True None t (begun1 n i S)"

definition begun :: "nat \<Rightarrow> begin_input \<Rightarrow> int \<Rightarrow> coord \<Rightarrow> coord" where
  "begun n i t S = turn_open sample_host (fresh_ticket n i) (row_of i t) False False t (begun2 n i t S)"

lemma begun_reachable:
  assumes "reachable sample_host S"
    and "next_ticket (bi_sessionId i) (begin_call n i S) = Some (fresh_ticket n i)"
    and "find (\<lambda>p. fst p = fresh_ticket n i) (c_turns (begun1 n i S)) = Some (fresh_ticket n i, Creating False False)"
    and "find (\<lambda>p. fst p = fresh_ticket n i) (c_turns (begun2 n i t S))
      = Some (fresh_ticket n i, Created (row_of i t) False False)"
  shows "reachable sample_host (begun n i t S)"
proof -
  have f: "find P xs = Some x \<Longrightarrow> x \<in> set xs" for P and xs :: "(ticket \<times> turn_phase) list" and x
    by (auto simp: find_Some_iff)
  have "reachable sample_host (begun1 n i S)" unfolding begun1_def
    by (rule reachable_step [OF reachable_step [OF assms(1) s_begin] s_turn [OF assms(2)]])
  then have "reachable sample_host (begun2 n i t S)" unfolding begun2_def
    by (rule reachable_step [OF _ s_create]) (rule f [OF assms(3)])
  then show ?thesis unfolding begun_def
    by (rule reachable_step [OF _ s_open]) (rule f [OF assms(4)])
qed

text \<open>Its attempt finds an authority unreachable and is put back on the recovery schedule.\<close>

definition deferring :: "string \<Rightarrow> int \<Rightarrow> coord \<Rightarrow> coord" where
  "deferring rid t S = attempt_ends sample_host rid (DeferredBy ''busy'') t (drop_task (Attempt rid False) S)"

definition deferred :: "string \<Rightarrow> int \<Rightarrow> coord \<Rightarrow> coord" where
  "deferred rid t S = defer_written sample_host rid ''busy'' (t + 5000) 1 True t
     (drop_task (Deferring rid ''busy'' (t + 5000) 1) (deferring rid t S))"

lemma deferred_reachable:
  assumes "reachable sample_host S" and "Attempt rid False \<in> set (c_tasks S)"
    and "Deferring rid ''busy'' (t + 5000) 1 \<in> set (c_tasks (deferring rid t S))"
  shows "reachable sample_host (deferred rid t S)"
proof -
  have "reachable sample_host (deferring rid t S)" unfolding deferring_def
    by (rule reachable_step [OF assms(1) s_attempt [OF assms(2)]])
  then show ?thesis unfolding deferred_def by (rule reachable_step [OF _ s_deferred [OF assms(3)]])
qed

subsection \<open>A run aborted while another one resumes\<close>

text \<open>
  Two sessions have a run waiting for its recovery attempt; the alarm resumes what is due. While the
  row of the first run is written, the second session is stopped: its run leaves the live map and its
  row is closed. The loop then takes the second run from its snapshot, whose record still says
  \<open>recovering\<close>.
\<close>

definition race_begun :: coord where
  "race_begun = begun 2 (message ''b'' ''s2'') 1 (begun 1 (message ''a'' ''s1'') 1 sample_boot)"

definition race_waiting :: coord where
  "race_waiting = deferred ''b'' 2 (deferred ''a'' 2 race_begun)"

definition race_resuming :: coord where
  "race_resuming = resume_written sample_host ''a'' [''b''] 5002 True 5002
     (drop_task (ResumeWrite ''a'' [''b''] 5002) (resumeDue 5002 race_waiting))"

definition race_stopped :: coord where
  "race_stopped = abortAllForSession sample_host ''s2'' race_resuming"

definition race_taken :: coord where
  "race_taken = resume_read sample_host ''a'' [''b''] 5002 None 5002
     (drop_task (ResumeRead ''a'' [''b''] 5002) race_stopped)"

definition race_packed :: coord where
  "race_packed = (case rb_packs (l_buffer (the (c_heap race_taken ''b''))) of
     [] \<Rightarrow> race_taken
   | g # gs \<Rightarrow> (upd ''b'' (\<lambda>l. l\<lparr>l_buffer := pack_written (l_buffer l)\<rparr>) race_taken)
       \<lparr>c_db := appendSegment ''b'' g (c_db race_taken)\<rparr>)"

definition race_closed :: coord where
  "race_closed = add_task (Ending ''b'') (row_closed ''b'' (aborted_outcome []) 5003
     (drop_task (Closing ''b'' (aborted_outcome [])) race_packed))"

definition race_written :: coord where
  "race_written = resume_written sample_host ''b'' [] 5002 True 5004
     (drop_task (ResumeWrite ''b'' [] 5002) race_closed)"

definition race_over :: coord where
  "race_over = resume_read sample_host ''b'' [] 5002 None 5005 (drop_task (ResumeRead ''b'' [] 5002) race_written)"

definition race_settled :: coord where
  "race_settled = resume_loop [] 5002 (drop_task (Resuming [] 5002)
     (startNextQueued ''s2'' (drop_task (Ending ''b'') race_over)))"

lemma race_begun_reachable: "reachable sample_host race_begun"
proof -
  let ?S = "begun 1 (message ''a'' ''s1'') 1 sample_boot"
  have r: "reachable sample_host ?S" by (rule begun_reachable [OF sample_boot_reachable]; code_simp)
  show ?thesis unfolding race_begun_def by (rule begun_reachable [OF r]; code_simp)
qed

lemma race_waiting_reachable: "reachable sample_host race_waiting"
proof -
  have r: "reachable sample_host (deferred ''a'' 2 race_begun)"
    by (rule deferred_reachable [OF race_begun_reachable]; code_simp)
  show ?thesis unfolding race_waiting_def by (rule deferred_reachable [OF r]; code_simp)
qed

lemma race_taken_reachable: "reachable sample_host race_taken"
proof -
  have a: "ResumeWrite ''a'' [''b''] 5002 \<in> set (c_tasks (resumeDue 5002 race_waiting))" by code_simp
  have "reachable sample_host race_resuming" unfolding race_resuming_def
    by (rule reachable_step [OF reachable_step [OF race_waiting_reachable s_resume] s_resume_written [OF a]])
  then have s: "reachable sample_host race_stopped" unfolding race_stopped_def
    by (rule reachable_step [OF _ s_abort_all])
  have b: "ResumeRead ''a'' [''b''] 5002 \<in> set (c_tasks race_stopped)" by code_simp
  show ?thesis unfolding race_taken_def by (rule reachable_step [OF s s_resume_read [OF b]])
qed

lemma race_packed_reachable: "reachable sample_host race_packed"
proof (cases "c_heap race_taken ''b''")
  case None
  moreover have "c_heap race_taken ''b'' \<noteq> None" by code_simp
  ultimately show ?thesis by simp
next
  case (Some l)
  show ?thesis
  proof (cases "rb_packs (l_buffer l)")
    case Nil
    with Some race_taken_reachable show ?thesis by (simp add: race_packed_def)
  next
    case (Cons g gs)
    from reachable_step [OF race_taken_reachable s_pack [OF Some Cons, of _ True]] Some Cons
    show ?thesis by (simp add: race_packed_def)
  qed
qed

lemma race_closed_reachable: "reachable sample_host race_closed"
proof -
  have t: "Closing ''b'' (aborted_outcome []) \<in> set (c_tasks race_packed)" by code_simp
  have "map_option (\<lambda>l. rb_packs (l_buffer l)) (c_heap race_packed ''b'') = Some []" by code_simp
  then obtain l where l: "c_heap race_packed ''b'' = Some l" "rb_packs (l_buffer l) = []" by auto
  from reachable_step [OF race_packed_reachable s_closed [OF t l, of _ True 5003]]
  show ?thesis by (simp add: race_closed_def)
qed

lemma race_over_reachable: "reachable sample_host race_over"
proof -
  have a: "ResumeWrite ''b'' [] 5002 \<in> set (c_tasks race_closed)" by code_simp
  have r: "reachable sample_host race_written" unfolding race_written_def
    by (rule reachable_step [OF race_closed_reachable s_resume_written [OF a]])
  have b: "ResumeRead ''b'' [] 5002 \<in> set (c_tasks race_written)" by code_simp
  show ?thesis unfolding race_over_def by (rule reachable_step [OF r s_resume_read [OF b]])
qed

lemma race_settled_reachable: "reachable sample_host race_settled"
proof -
  let ?T = "startNextQueued ''s2'' (drop_task (Ending ''b'') race_over)"
  have a: "Ending ''b'' \<in> set (c_tasks race_over)" by code_simp
  have "map_option l_session (c_heap race_over ''b'') = Some ''s2''" by code_simp
  then obtain l where l: "c_heap race_over ''b'' = Some l" "l_session l = ''s2''" by auto
  from reachable_step [OF race_over_reachable s_ended [OF a l(1)]] have r: "reachable sample_host ?T" by (simp add: l(2))
  have b: "Resuming [] 5002 \<in> set (c_tasks ?T)" by code_simp
  show ?thesis unfolding race_settled_def by (rule reachable_step [OF r s_resuming [OF b]])
qed

text \<open>
  C32. A stopped run's row can say it is running although the run has ended: \<open>resumeDue\<close> takes an
  aborted run from its snapshot and its write lands after the row was closed. The run is aborted and
  held by nothing any more (the one task left is the attempt of another run), so the next boot takes
  its row for an orphan and attempts it again.
\<close>

theorem stopped_run_left_running:
  "\<exists>S r. reachable sample_host S \<and> r \<in> set (listActive (c_db S)) \<and> runId r = ''b'' \<and> status r = Running
     \<and> ''b'' \<notin> set (c_live S) \<and> map_option l_aborted (c_heap S ''b'') = Some True
     \<and> c_tasks S = [Attempt ''a'' False]"
proof -
  have "map (\<lambda>r. (runId r, status r)) (listActive (c_db race_settled)) = [(''a'', Running), (''b'', Running)]"
    by code_simp
  then have "(''b'', Running) \<in> set (map (\<lambda>r. (runId r, status r)) (listActive (c_db race_settled)))" by simp
  then obtain r where "r \<in> set (listActive (c_db race_settled))" "runId r = ''b''" "status r = Running" by auto
  moreover have "''b'' \<notin> set (c_live race_settled)" by code_simp
  moreover have "map_option l_aborted (c_heap race_settled ''b'') = Some True" by code_simp
  moreover have "c_tasks race_settled = [Attempt ''a'' False]" by code_simp
  ultimately show ?thesis using race_settled_reachable by blast
qed

end
