(* ===== verification/Do_Vfs.thy ===== *)
theory Do_Vfs
  imports Prelude "HOL-Library.AList" "HOL-Library.Word"
begin

text \<open>
  \<open>packages/oracle-runtime-workers/src/sqlite/do-vfs.ts\<close> and \<open>page-tier.ts\<close>: one persistent file of the
  VFS that keeps an SQLite database in the storage of a Durable Object, with its optional R2 tier. A
  buffer of a chunk is a function from byte offset to byte, a bit mask of pages or slots the set of its
  bits; the JavaScript maps are association lists where their order or size matters. What storage and
  the bucket hold survives a crash, the rest is memory. The statistics, the access bitmaps (which only
  choose what to evict, a parameter here) and the raw segment cache (immutable objects) are left out,
  the other files of the object appear only as pressure on the shared chunk cache.
\<close>

type_synonym byte = "8 word"
type_synonym buf = "nat \<Rightarrow> byte"
type_synonym pages = "nat set"

subsection \<open>Layout\<close>

definition VFS_PAGE_SIZE :: nat where "VFS_PAGE_SIZE = 4096"
definition PAGES_PER_CHUNK :: nat where "PAGES_PER_CHUNK = 16"
definition CHUNK_SIZE :: nat where "CHUNK_SIZE = VFS_PAGE_SIZE * PAGES_PER_CHUNK"
definition SEGMENT_CHUNKS :: nat where "SEGMENT_CHUNKS = 16"
definition SPILL_CHUNKS :: nat where "SPILL_CHUNKS = 32"

definition FULL_MASK :: pages where "FULL_MASK = {..<PAGES_PER_CHUNK}"

definition segmentOf :: "nat \<Rightarrow> nat" where "segmentOf c = c div SEGMENT_CHUNKS"
definition slotOf :: "nat \<Rightarrow> nat" where "slotOf c = c - segmentOf c * SEGMENT_CHUNKS"

text \<open>\<open>Math.ceil(a / b)\<close>.\<close>

definition ceil_div :: "nat \<Rightarrow> nat \<Rightarrow> nat" where "ceil_div a b = (a + b - 1) div b"

definition pagesOf :: "nat \<Rightarrow> nat \<Rightarrow> pages" where
  "pagesOf from len = {from div VFS_PAGE_SIZE .. (from + max 1 len - 1) div VFS_PAGE_SIZE}"

text \<open>\<open>new Uint8Array(CHUNK_SIZE)\<close>, \<open>chunk.set(bytes, off)\<close>, and the pages of \<open>ps\<close> copied from \<open>src\<close>.\<close>

definition zeros :: buf where "zeros = (\<lambda>_. 0)"

definition overlay :: "nat \<Rightarrow> byte list \<Rightarrow> buf \<Rightarrow> buf" where
  "overlay off bs d = (\<lambda>i. if off \<le> i \<and> i < off + length bs then bs ! (i - off) else d i)"

definition placeMasked :: "buf \<Rightarrow> pages \<Rightarrow> buf \<Rightarrow> buf" where
  "placeMasked src ps dst = (\<lambda>i. if i div VFS_PAGE_SIZE \<in> ps then src i else dst i)"

subsection \<open>Data\<close>

record segment_entry =
  sg_gen :: nat
  sg_mask :: "nat set"

text \<open>An object of the bucket, by segment number and generation: slot to bytes.\<close>

type_synonym objects = "nat \<times> nat \<Rightarrow> (nat \<Rightarrow> buf) option"

record page_tier =
  tr_segments :: "(nat \<times> segment_entry) list"
  tr_maxGen :: "nat option"
  tr_pending :: "(nat \<times> nat) list"
  tr_missPinBytes :: nat

text \<open>The rows of the file in \<open>vfs2_chunks\<close>, \<open>vfs2_files\<close>, \<open>vfs2_tier_segments\<close>, \<open>vfs2_tier_meta\<close>.\<close>

record storage =
  st_rows :: "nat \<Rightarrow> (buf \<times> pages) option"
  st_size :: nat
  st_gen :: nat
  st_segments :: "(nat \<times> segment_entry) list"
  st_maxGen :: "nat option"

record snapshot =
  sn_size :: nat
  sn_totalChunks :: nat
  sn_shadow :: "nat \<Rightarrow> (buf \<times> pages) option"
  sn_segments :: "(nat \<times> segment_entry) list"

datatype base_image = Known buf pages | Sparse | Cold

record pfile =
  f_size :: nat
  f_gen :: nat
  f_lock :: nat
  f_dirty :: "(nat \<times> buf \<times> pages) list"
  f_base :: "nat \<Rightarrow> base_image option"
  f_trunc :: "nat option"
  f_sizeDirty :: bool
  f_spill :: bool
  f_written :: "nat list option"

record vfs =
  v_file :: pfile
  v_cache :: "(nat \<times> buf) list"
  v_capacity :: nat
  v_pins :: "(nat \<times> buf) list"
  v_misses :: "nat list"
  v_snapshot :: "snapshot option"
  v_tier :: "page_tier option"
  v_epoch :: nat
  v_store :: storage
  v_objects :: objects

subsection \<open>The cache of clean chunks\<close>

definition cache_get :: "nat \<Rightarrow> (nat \<times> buf) list \<Rightarrow> buf option \<times> (nat \<times> buf) list" where
  "cache_get c es =
    (case map_of es c of
       None \<Rightarrow> (None, es)
     | Some d \<Rightarrow> (Some d, AList.delete c es @ [(c, d)]))"

definition cache_evict :: "nat \<Rightarrow> (nat \<times> buf) list \<Rightarrow> (nat \<times> buf) list" where
  "cache_evict cap es = drop (length es - cap) es"

definition cache_set :: "nat \<Rightarrow> nat \<Rightarrow> buf \<Rightarrow> (nat \<times> buf) list \<Rightarrow> (nat \<times> buf) list" where
  "cache_set cap c d es = cache_evict cap (AList.delete c es @ [(c, d)])"

definition dropFrom :: "nat \<Rightarrow> (nat \<times> 'a) list \<Rightarrow> (nat \<times> 'a) list" where
  "dropFrom k es = filter (\<lambda>e. fst e < k) es"

definition setCapacity :: "nat \<Rightarrow> vfs \<Rightarrow> vfs" where
  "setCapacity n S = S\<lparr>v_capacity := max 1 n, v_cache := cache_evict (max 1 n) (v_cache S)\<rparr>"

definition cache_put :: "nat \<Rightarrow> buf \<Rightarrow> vfs \<Rightarrow> vfs" where
  "cache_put c d S = S\<lparr>v_cache := cache_set (v_capacity S) c d (v_cache S)\<rparr>"

subsection \<open>The tier's map\<close>

definition segmentsOf :: "vfs \<Rightarrow> (nat \<times> segment_entry) list" where
  "segmentsOf S = (case v_tier S of None \<Rightarrow> [] | Some t \<Rightarrow> tr_segments t)"

definition slot_in :: "(nat \<times> segment_entry) list \<Rightarrow> nat \<Rightarrow> bool" where
  "slot_in segs c = (case map_of segs (segmentOf c) of None \<Rightarrow> False | Some e \<Rightarrow> slotOf c \<in> sg_mask e)"

definition slotInR2 :: "nat \<Rightarrow> vfs \<Rightarrow> bool" where
  "slotInR2 c S = slot_in (segmentsOf S) c"

text \<open>\<open>PageTier.truncate\<close>: what it keeps of an entry, and the keys it queues for deletion.\<close>

definition keep_segment :: "nat \<Rightarrow> nat \<times> segment_entry \<Rightarrow> (nat \<times> segment_entry) option" where
  "keep_segment keepChunks = (\<lambda>(segno, e).
     let boundary = segmentOf keepChunks in
     if segno > boundary \<or> segno = boundary \<and> keepChunks mod SEGMENT_CHUNKS = 0 then None
     else if segno = boundary then Some (segno, e\<lparr>sg_mask := sg_mask e \<inter> {..<keepChunks - boundary * SEGMENT_CHUNKS}\<rparr>)
     else Some (segno, e))"

definition truncate_segments :: "nat \<Rightarrow> (nat \<times> segment_entry) list \<Rightarrow> (nat \<times> segment_entry) list" where
  "truncate_segments keepChunks segs = List.map_filter (keep_segment keepChunks) segs"

definition dropped_keys :: "nat \<Rightarrow> (nat \<times> segment_entry) list \<Rightarrow> (nat \<times> nat) list" where
  "dropped_keys keepChunks segs =
     map (\<lambda>(segno, e). (segno, sg_gen e)) (filter (\<lambda>x. keep_segment keepChunks x = None) segs)"

definition tier_truncate :: "nat \<Rightarrow> page_tier \<Rightarrow> page_tier" where
  "tier_truncate keepChunks t = t\<lparr>tr_segments := truncate_segments keepChunks (tr_segments t),
     tr_pending := tr_pending t @ dropped_keys keepChunks (tr_segments t)\<rparr>"

definition queueDelete :: "nat \<times> nat \<Rightarrow> page_tier \<Rightarrow> page_tier" where
  "queueDelete key t = t\<lparr>tr_pending := tr_pending t @ [key]\<rparr>"

definition allocateGen :: "storage \<Rightarrow> page_tier \<Rightarrow> nat \<times> page_tier" where
  "allocateGen st t =
    (let known = (case tr_maxGen t of
           Some m \<Rightarrow> m
         | None \<Rightarrow> fold (\<lambda>(_, e) m. max m (sg_gen e)) (tr_segments t)
             (case st_maxGen st of None \<Rightarrow> 0 | Some m \<Rightarrow> m))
     in (known + 1, t\<lparr>tr_maxGen := Some (known + 1)\<rparr>))"

text \<open>\<open>setSegment\<close>: the entry in memory and in storage, with the generations handed out.\<close>

definition setSegment :: "nat \<Rightarrow> segment_entry \<Rightarrow> page_tier \<Rightarrow> storage \<Rightarrow> page_tier \<times> storage" where
  "setSegment segno e t st =
    (let m = max (case tr_maxGen t of None \<Rightarrow> 0 | Some x \<Rightarrow> x) (sg_gen e)
     in (t\<lparr>tr_segments := AList.update segno e (tr_segments t), tr_maxGen := Some m\<rparr>,
         st\<lparr>st_segments := AList.update segno e (st_segments st),
            st_maxGen := Some (case st_maxGen st of None \<Rightarrow> m | Some x \<Rightarrow> max x m)\<rparr>))"

text \<open>
  \<open>getSegmentAt\<close>, for one chunk: its bytes in the object of \<open>segs\<close>, \<open>None\<close> when the map has no valid
  slot. An object the map refers to is in the bucket (a missing one is an exception there).
\<close>

definition slotBytes :: "objects \<Rightarrow> (nat \<times> segment_entry) list \<Rightarrow> nat \<Rightarrow> buf option" where
  "slotBytes objs segs c =
    (case map_of segs (segmentOf c) of
       None \<Rightarrow> None
     | Some e \<Rightarrow> if slotOf c \<notin> sg_mask e then None
         else map_option (\<lambda>ob. ob (slotOf c)) (objs (segmentOf c, sg_gen e)))"

subsection \<open>Finding a chunk\<close>

definition truncated :: "nat \<Rightarrow> vfs \<Rightarrow> bool" where
  "truncated c S = (case f_trunc (v_file S) of None \<Rightarrow> False | Some k \<Rightarrow> c * PAGES_PER_CHUNK \<ge> k)"

definition lookupLocal :: "nat \<Rightarrow> vfs \<Rightarrow> (buf \<times> pages) option \<times> vfs" where
  "lookupLocal c S =
    (case map_of (v_pins S) c of
       Some d \<Rightarrow> (Some (d, FULL_MASK), S)
     | None \<Rightarrow>
       (case cache_get c (v_cache S) of
          (Some d, es) \<Rightarrow> (Some (d, FULL_MASK), S\<lparr>v_cache := es\<rparr>)
        | (None, es) \<Rightarrow>
            if truncated c S then (None, S)
            else (case st_rows (v_store S) c of
                None \<Rightarrow> (None, S)
              | Some (d, m) \<Rightarrow>
                  let ps = (if v_tier S = None then FULL_MASK else m)
                  in (Some (d, ps), if ps = FULL_MASK then cache_put c d S else S))))"

definition set_dirty :: "nat \<Rightarrow> buf \<Rightarrow> pages \<Rightarrow> vfs \<Rightarrow> vfs" where
  "set_dirty c d m S = S\<lparr>v_file := (v_file S)\<lparr>f_dirty := AList.update c (d, m) (f_dirty (v_file S))\<rparr>\<rparr>"

abbreviation dirty_of :: "vfs \<Rightarrow> nat \<Rightarrow> (buf \<times> pages) option" where
  "dirty_of S \<equiv> map_of (f_dirty (v_file S))"

datatype loaded = Chunk buf | Absent | ColdMiss

text \<open>\<open>this.pinned.get(...) ?? this.cache.get(...)\<close>.\<close>

definition fetched :: "nat \<Rightarrow> vfs \<Rightarrow> buf option \<times> vfs" where
  "fetched c S =
    (case map_of (v_pins S) c of
       Some d \<Rightarrow> (Some d, S)
     | None \<Rightarrow> (case cache_get c (v_cache S) of (r, es) \<Rightarrow> (r, S\<lparr>v_cache := es\<rparr>)))"

definition loadChunk :: "nat \<Rightarrow> pages \<Rightarrow> vfs \<Rightarrow> loaded \<times> vfs" where
  "loadChunk c wanted S =
    (case dirty_of S c of
       Some (d, m) \<Rightarrow>
         if m = FULL_MASK then (Chunk d, S)
         else (case fetched c S of
             (Some cold, S1) \<Rightarrow>
               let d' = placeMasked cold (FULL_MASK - m) d in (Chunk d', set_dirty c d' FULL_MASK S1)
           | (None, S1) \<Rightarrow>
               if \<not> slotInR2 c S1 then (Chunk d, set_dirty c d FULL_MASK S1)
               else if wanted \<subseteq> m then (Chunk d, S1)
               else (ColdMiss, S1))
     | None \<Rightarrow>
         (case lookupLocal c S of
            (Some (d, m), S1) \<Rightarrow>
              if m = FULL_MASK then (Chunk d, S1)
              else if slotInR2 c S1 then (if wanted \<subseteq> m then Chunk d else ColdMiss, S1)
              else (Chunk d, cache_put c d S1)
          | (None, S1) \<Rightarrow> if slotInR2 c S1 then (ColdMiss, S1) else (Absent, S1)))"

definition set_base :: "nat \<Rightarrow> base_image \<Rightarrow> vfs \<Rightarrow> vfs" where
  "set_base c b S = S\<lparr>v_file := (v_file S)\<lparr>f_base := (f_base (v_file S))(c \<mapsto> b)\<rparr>\<rparr>"

definition dirtyChunk :: "nat \<Rightarrow> vfs \<Rightarrow> vfs" where
  "dirtyChunk c S =
    (if dirty_of S c \<noteq> None then S
     else (case lookupLocal c S of
         (Some (d, m), S1) \<Rightarrow> set_dirty c d m (set_base c (Known d m) S1)
       | (None, S1) \<Rightarrow>
           let cold = slotInR2 c S1
           in set_dirty c zeros (if cold then {} else FULL_MASK) (set_base c (if cold then Cold else Sparse) S1)))"

subsection \<open>Reading\<close>

text \<open>The loop of \<open>readPersistent\<close> from \<open>pos\<close> to \<open>stop\<close>; \<open>Inl\<close> is the chunk that missed.\<close>

function read_loop :: "nat \<Rightarrow> nat \<Rightarrow> vfs \<Rightarrow> (nat + byte list) \<times> vfs" where
  "read_loop pos stop S =
    (if stop \<le> pos then (Inr [], S)
     else (let c = pos div CHUNK_SIZE; inChunk = pos - c * CHUNK_SIZE; n = min (CHUNK_SIZE - inChunk) (stop - pos)
       in case loadChunk c (pagesOf inChunk n) S of
            (ColdMiss, S1) \<Rightarrow> (Inl c, S1)
          | (r, S1) \<Rightarrow>
              let part = (case r of Chunk d \<Rightarrow> map d [inChunk..<inChunk + n] | _ \<Rightarrow> replicate n 0)
              in (case read_loop (pos + n) stop S1 of
                    (Inl m, S2) \<Rightarrow> (Inl m, S2)
                  | (Inr rest, S2) \<Rightarrow> (Inr (part @ rest), S2))))"
  by pat_completeness auto

lemma CHUNK_SIZE_pos: "0 < CHUNK_SIZE" and VFS_PAGE_SIZE_pos: "0 < VFS_PAGE_SIZE"
  by (simp_all add: CHUNK_SIZE_def VFS_PAGE_SIZE_def PAGES_PER_CHUNK_def)

lemma in_chunk_less: "pos - pos div CHUNK_SIZE * CHUNK_SIZE < CHUNK_SIZE"
  using CHUNK_SIZE_pos by (simp add: minus_div_mult_eq_mod)

lemma loop_progress:
  "pos < stop \<Longrightarrow> stop - (pos + min (CHUNK_SIZE - (pos - pos div CHUNK_SIZE * CHUNK_SIZE)) (stop - pos)) < stop - pos"
  using in_chunk_less [of pos] by linarith

termination read_loop
  by (relation "measure (\<lambda>(pos, stop, S). stop - pos)") (auto simp del: Nat.diff_diff_right intro: loop_progress)

declare read_loop.simps [simp del]

datatype sqlite_code = SQLITE_OK | SQLITE_IOERR_READ | SQLITE_IOERR_SHORT_READ | SQLITE_IOERR_WRITE
  | SQLITE_IOERR_TRUNCATE | SQLITE_IOERR_FSYNC | SQLITE_IOERR_UNLOCK | SQLITE_IOERR_CLOSE

definition miss :: "nat \<Rightarrow> vfs \<Rightarrow> vfs" where
  "miss c S = S\<lparr>v_misses := (if c \<in> set (v_misses S) then v_misses S else v_misses S @ [c])\<rparr>"

text \<open>A read of \<open>want\<close> bytes: the buffer is filled with zeros past the end of the file.\<close>

definition xRead :: "nat \<Rightarrow> nat \<Rightarrow> vfs \<Rightarrow> sqlite_code \<times> byte list \<times> vfs" where
  "xRead off want S =
    (let available = min want (f_size (v_file S) - off)
     in case read_loop off (off + available) S of
          (Inl c, S1) \<Rightarrow> (SQLITE_IOERR_READ, [], miss c S1)
        | (Inr bs, S1) \<Rightarrow>
            (if available < want then SQLITE_IOERR_SHORT_READ else SQLITE_OK,
             bs @ replicate (want - available) 0, S1))"

subsection \<open>Writing and truncating\<close>

text \<open>One round of \<open>writePersistent\<close>; over a cold base only whole pages can be claimed.\<close>

definition write_chunk :: "nat \<Rightarrow> nat \<Rightarrow> byte list \<Rightarrow> vfs \<Rightarrow> bool \<times> vfs" where
  "write_chunk c inChunk bs S =
    (let S1 = dirtyChunk c S
     in case dirty_of S1 c of
          None \<Rightarrow> (True, S1)
        | Some (d, m) \<Rightarrow>
            let d' = overlay inChunk bs d; n = length bs
            in if m = FULL_MASK then (True, set_dirty c d' m S1)
               else if inChunk mod VFS_PAGE_SIZE \<noteq> 0 \<or> n mod VFS_PAGE_SIZE \<noteq> 0 then (False, set_dirty c d' m S1)
               else (True, set_dirty c d'
                      (m \<union> {inChunk div VFS_PAGE_SIZE..<(inChunk + n) div VFS_PAGE_SIZE}) S1))"

function write_loop :: "nat \<Rightarrow> byte list \<Rightarrow> vfs \<Rightarrow> bool \<times> vfs" where
  "write_loop pos bs S =
    (if bs = [] then (True, S)
     else (let c = pos div CHUNK_SIZE; inChunk = pos - c * CHUNK_SIZE; n = min (CHUNK_SIZE - inChunk) (length bs)
       in case write_chunk c inChunk (take n bs) S of
            (False, S1) \<Rightarrow> (False, S1)
          | (True, S1) \<Rightarrow> write_loop (pos + n) (drop n bs) S1))"
  by pat_completeness auto

lemma write_progress:
  "bs \<noteq> [] \<Longrightarrow> length bs - min (CHUNK_SIZE - (pos - pos div CHUNK_SIZE * CHUNK_SIZE)) (length bs) < length bs"
  using in_chunk_less [of pos] by (cases bs) auto

termination write_loop
  by (relation "measure (\<lambda>(pos, bs, S). length bs)") (auto simp del: Nat.diff_diff_right intro: write_progress)

declare write_loop.simps [simp del]

definition chunkFloor :: "nat \<Rightarrow> nat" where
  "chunkFloor keepPages = ceil_div keepPages PAGES_PER_CHUNK"

definition truncatePersistent :: "nat \<Rightarrow> vfs \<Rightarrow> bool \<times> vfs" where
  "truncatePersistent iSize S =
    (let f = v_file S in
     if iSize \<ge> f_size f then (True, S)
     else
      (let keepPages = ceil_div iSize VFS_PAGE_SIZE;
           keepChunks = ceil_div keepPages PAGES_PER_CHUNK;
           S1 = S\<lparr>v_file := f\<lparr>f_dirty := dropFrom keepChunks (f_dirty f),
                    f_base := (\<lambda>c. if c \<ge> keepChunks \<and> map_of (f_dirty f) c \<noteq> None then None else f_base f c),
                    f_trunc := Some (case f_trunc f of None \<Rightarrow> keepPages | Some k \<Rightarrow> min k keepPages),
                    f_size := iSize, f_sizeDirty := True\<rparr>,
                  v_cache := dropFrom keepChunks (v_cache S), v_pins := dropFrom keepChunks (v_pins S)\<rparr>;
           tail = iSize - (keepChunks - 1) * CHUNK_SIZE
       in if keepChunks = 0 \<or> tail \<ge> CHUNK_SIZE then (True, S1)
          else (let S2 = dirtyChunk (keepChunks - 1) S1
            in case dirty_of S2 (keepChunks - 1) of
                 None \<Rightarrow> (True, S2)
               | Some (d, m) \<Rightarrow>
                   let d' = (\<lambda>i. if tail \<le> i \<and> i < CHUNK_SIZE then 0 else d i)
                   in if m = FULL_MASK then (True, set_dirty (keepChunks - 1) d' m S2)
                      else if tail mod VFS_PAGE_SIZE \<noteq> 0 then (False, set_dirty (keepChunks - 1) d' m S2)
                      else (True, set_dirty (keepChunks - 1) d'
                             (m \<union> {tail div VFS_PAGE_SIZE..<PAGES_PER_CHUNK}) S2))))"

subsection \<open>The flush\<close>

text \<open>Pre-images for an open snapshot: the clean state a dirty chunk started from, ...\<close>

definition shadow_dirty :: "(nat \<Rightarrow> base_image option) \<Rightarrow> nat \<Rightarrow> snapshot \<Rightarrow> snapshot" where
  "shadow_dirty base c sn =
    (if c \<ge> sn_totalChunks sn \<or> sn_shadow sn c \<noteq> None then sn
     else sn\<lparr>sn_shadow := (sn_shadow sn)(c \<mapsto> (case base c of
         None \<Rightarrow> (zeros, FULL_MASK)
       | Some Sparse \<Rightarrow> (zeros, FULL_MASK)
       | Some Cold \<Rightarrow> (zeros, {})
       | Some (Known d m) \<Rightarrow> (d, m)))\<rparr>)"

definition shadowDirtyPreImages :: "(nat \<Rightarrow> base_image option) \<Rightarrow> nat list \<Rightarrow> snapshot \<Rightarrow> snapshot" where
  "shadowDirtyPreImages base cs sn = fold (shadow_dirty base) cs sn"

text \<open>... and the stored content of the chunks a truncation deletes: from the cache, else from the rows.\<close>

definition shadow_stored :: "nat \<Rightarrow> vfs \<Rightarrow> snapshot \<Rightarrow> snapshot \<times> vfs" where
  "shadow_stored c S sn =
    (if c \<ge> sn_totalChunks sn \<or> sn_shadow sn c \<noteq> None then (sn, S)
     else (case cache_get c (v_cache S) of
         (Some d, es) \<Rightarrow> (sn\<lparr>sn_shadow := (sn_shadow sn)(c \<mapsto> (d, FULL_MASK))\<rparr>, S\<lparr>v_cache := es\<rparr>)
       | (None, es) \<Rightarrow> (sn\<lparr>sn_shadow := (sn_shadow sn)(c \<mapsto> (case st_rows (v_store S) c of
             Some (d, m) \<Rightarrow> (d, if v_tier S = None then FULL_MASK else m)
           | None \<Rightarrow> (zeros, {})))\<rparr>, S)))"

definition shadowStoredPreImages :: "nat list \<Rightarrow> vfs \<Rightarrow> snapshot \<Rightarrow> snapshot \<times> vfs" where
  "shadowStoredPreImages cs S sn = fold (\<lambda>c (sn, S). shadow_stored c S sn) cs (sn, S)"

definition sorted_dirty :: "vfs \<Rightarrow> (nat \<times> buf \<times> pages) list" where
  "sorted_dirty S = sort_key fst (f_dirty (v_file S))"

definition pin_preimages :: "vfs \<Rightarrow> vfs" where
  "pin_preimages S =
    (case v_snapshot S of
       None \<Rightarrow> S
     | Some sn \<Rightarrow>
         let sn1 = shadowDirtyPreImages (f_base (v_file S)) (map fst (sorted_dirty S)) sn
         in case f_trunc (v_file S) of
              None \<Rightarrow> S\<lparr>v_snapshot := Some sn1\<rparr>
            | Some k \<Rightarrow>
                (case shadowStoredPreImages [chunkFloor k..<sn_totalChunks sn1] S sn1 of
                   (sn2, S1) \<Rightarrow> S1\<lparr>v_snapshot := Some sn2\<rparr>))"

text \<open>The transaction on the storage.\<close>

definition truncate_rows :: "nat \<Rightarrow> (nat \<Rightarrow> (buf \<times> pages) option) \<Rightarrow> nat \<Rightarrow> (buf \<times> pages) option" where
  "truncate_rows keepChunks rows = (\<lambda>c. if c \<ge> keepChunks then None else rows c)"

definition upsertChunks :: "(nat \<times> buf \<times> pages) list \<Rightarrow> (nat \<Rightarrow> (buf \<times> pages) option) \<Rightarrow> nat \<Rightarrow> (buf \<times> pages) option" where
  "upsertChunks rows old = (\<lambda>c. case map_of rows c of None \<Rightarrow> old c | Some r \<Rightarrow> Some r)"

definition flush_store :: "vfs \<Rightarrow> storage" where
  "flush_store S =
    (let f = v_file S; st = v_store S;
         st1 = (case f_trunc f of
             None \<Rightarrow> st
           | Some k \<Rightarrow> st\<lparr>st_rows := truncate_rows (chunkFloor k) (st_rows st),
               st_segments := (if v_tier S = None then st_segments st
                 else truncate_segments (chunkFloor k) (st_segments st))\<rparr>)
     in st1\<lparr>st_rows := upsertChunks (sorted_dirty S) (st_rows st1), st_size := f_size f, st_gen := st_gen st + 1\<rparr>)"

definition flush_tier :: "vfs \<Rightarrow> page_tier option" where
  "flush_tier S = (case f_trunc (v_file S) of
     None \<Rightarrow> v_tier S | Some k \<Rightarrow> map_option (tier_truncate (chunkFloor k)) (v_tier S))"

text \<open>What a committed row does to the cache and to the pins.\<close>

definition settle_row :: "nat \<times> buf \<times> pages \<Rightarrow> vfs \<Rightarrow> vfs" where
  "settle_row = (\<lambda>(c, d, m) S.
     let S1 = (if m = FULL_MASK then cache_put c d S else S\<lparr>v_cache := AList.delete c (v_cache S)\<rparr>)
     in if map_of (v_pins S1) c = None then S1
        else if m = FULL_MASK then S1\<lparr>v_pins := AList.update c d (v_pins S1)\<rparr>
        else S1\<lparr>v_pins := AList.delete c (v_pins S1)\<rparr>)"

definition clean_file :: "nat list \<Rightarrow> pfile \<Rightarrow> pfile" where
  "clean_file cs f = f\<lparr>f_gen := f_gen f + 1, f_dirty := [], f_base := (\<lambda>_. None), f_trunc := None,
     f_sizeDirty := False, f_written := map_option (\<lambda>w. w @ cs) (f_written f)\<rparr>"

datatype flush_fate = Commits | RollsBack bool

text \<open>
  \<open>flush\<close>: nothing to do, a committed transaction, or one that was rolled back; then the rows are as
  they were, the pre-images stay pinned, and \<open>tier.truncate\<close> has changed the map in memory if the
  transaction got that far.
\<close>

definition flush_file :: "flush_fate \<Rightarrow> vfs \<Rightarrow> bool \<times> vfs" where
  "flush_file fate S =
    (let f = v_file S in
     if f_dirty f = [] \<and> f_trunc f = None \<and> \<not> f_sizeDirty f then (True, S)
     else
      (let S1 = pin_preimages S in
       case fate of
         RollsBack reached \<Rightarrow> (False, if reached then S1\<lparr>v_tier := flush_tier S1\<rparr> else S1)
       | Commits \<Rightarrow>
           (let rows = sorted_dirty S1;
                S2 = S1\<lparr>v_store := flush_store S1, v_tier := flush_tier S1,
                       v_epoch := (if f_trunc f = None then v_epoch S1 else v_epoch S1 + 1)\<rparr>;
                S3 = fold settle_row rows S2
            in (True, S3\<lparr>v_file := clean_file (map fst rows) (v_file S3)\<rparr>))))"

subsection \<open>What SQLite calls\<close>

definition xWrite :: "flush_fate \<Rightarrow> nat \<Rightarrow> byte list \<Rightarrow> vfs \<Rightarrow> sqlite_code \<times> vfs" where
  "xWrite fate off bs S =
    (case write_loop off bs S of
       (False, S1) \<Rightarrow> (SQLITE_IOERR_WRITE, S1)
     | (True, S1) \<Rightarrow>
         let stop = off + length bs; f = v_file S1;
             S2 = (if stop > f_size f then S1\<lparr>v_file := f\<lparr>f_size := stop, f_sizeDirty := True\<rparr>\<rparr> else S1)
         in if f_spill (v_file S2) \<and> length (f_dirty (v_file S2)) \<ge> SPILL_CHUNKS
            then (case flush_file fate S2 of (ok, S3) \<Rightarrow> (if ok then SQLITE_OK else SQLITE_IOERR_WRITE, S3))
            else (SQLITE_OK, S2))"

definition xTruncate :: "nat \<Rightarrow> vfs \<Rightarrow> sqlite_code \<times> vfs" where
  "xTruncate iSize S = (case truncatePersistent iSize S of
     (ok, S1) \<Rightarrow> (if ok then SQLITE_OK else SQLITE_IOERR_TRUNCATE, S1))"

definition xSync :: "flush_fate \<Rightarrow> vfs \<Rightarrow> sqlite_code \<times> vfs" where
  "xSync fate S = (case flush_file fate S of (ok, S1) \<Rightarrow> (if ok then SQLITE_OK else SQLITE_IOERR_FSYNC, S1))"

definition SQLITE_LOCK_NONE :: nat where "SQLITE_LOCK_NONE = 0"
definition SQLITE_LOCK_EXCLUSIVE :: nat where "SQLITE_LOCK_EXCLUSIVE = 4"

definition xLock :: "nat \<Rightarrow> vfs \<Rightarrow> vfs" where
  "xLock level S = S\<lparr>v_file := (v_file S)\<lparr>f_lock := level\<rparr>\<rparr>"

definition xUnlock :: "flush_fate \<Rightarrow> nat \<Rightarrow> vfs \<Rightarrow> sqlite_code \<times> vfs" where
  "xUnlock fate level S =
    (let hadExclusive = (f_lock (v_file S) \<ge> SQLITE_LOCK_EXCLUSIVE); S1 = xLock level S
     in if hadExclusive \<and> level < SQLITE_LOCK_EXCLUSIVE
        then (case flush_file fate S1 of (ok, S2) \<Rightarrow> (if ok then SQLITE_OK else SQLITE_IOERR_UNLOCK, S2))
        else (SQLITE_OK, S1))"

text \<open>\<open>xOpen\<close> of a file that is not open: its row is read, or made.\<close>

definition fresh_file :: "bool \<Rightarrow> storage \<Rightarrow> pfile" where
  "fresh_file spill st = \<lparr>f_size = st_size st, f_gen = st_gen st, f_lock = SQLITE_LOCK_NONE, f_dirty = [],
     f_base = (\<lambda>_. None), f_trunc = None, f_sizeDirty = False, f_spill = spill, f_written = None\<rparr>"

text \<open>
  The object is evicted and instantiated again in an isolate that still holds its VFS (\<open>attach\<close>, then
  \<open>xOpen\<close>): the files, the caches and the snapshot are discarded, and of the tier the map and the
  generations handed out, which are read from storage again. The queue of deletes stays.
\<close>

definition reattach :: "vfs \<Rightarrow> vfs" where
  "reattach S = S\<lparr>v_file := fresh_file (f_spill (v_file S)) (v_store S), v_cache := [], v_pins := [], v_misses := [],
     v_snapshot := None, v_epoch := v_epoch S + 1,
     v_tier := map_option (\<lambda>t. t\<lparr>tr_segments := st_segments (v_store S), tr_maxGen := None\<rparr>) (v_tier S)\<rparr>"

text \<open>The isolate is gone: a new VFS is made for the object, and only storage and the bucket are left.\<close>

definition restart :: "vfs \<Rightarrow> vfs" where
  "restart S = (reattach S)\<lparr>v_epoch := 0, v_tier := map_option (\<lambda>t. t\<lparr>tr_pending := []\<rparr>) (v_tier (reattach S))\<rparr>"

subsection \<open>Cold misses\<close>

definition totalChunks :: "vfs \<Rightarrow> nat" where
  "totalChunks S = ceil_div (f_size (v_file S)) CHUNK_SIZE"

definition chunks_of_segment :: "nat \<Rightarrow> nat \<Rightarrow> nat list" where
  "chunks_of_segment chunks segno = [segno * SEGMENT_CHUNKS..<min chunks (segno * SEGMENT_CHUNKS + SEGMENT_CHUNKS)]"

text \<open>The content of a chunk that is not a full row: the pages of its row over its slot.\<close>

definition effective :: "(buf \<times> pages) option \<Rightarrow> buf option \<Rightarrow> buf" where
  "effective row slot =
    (let full = (case slot of None \<Rightarrow> zeros | Some b \<Rightarrow> b)
     in case row of None \<Rightarrow> full | Some (d, m) \<Rightarrow> placeMasked d m full)"

definition slot_now :: "vfs \<Rightarrow> nat \<Rightarrow> buf option" where
  "slot_now S c = slotBytes (v_objects S) (segmentsOf S) c"

fun pin_chunks :: "nat list \<Rightarrow> vfs \<Rightarrow> bool \<times> vfs" where
  "pin_chunks [] S = (True, S)"
| "pin_chunks (c # cs) S =
    (let row = st_rows (v_store S) c in
     if map_of (v_pins S) c \<noteq> None then pin_chunks cs S
     else if map_option snd row = Some FULL_MASK then pin_chunks cs S
     else if row = None \<and> \<not> slotInR2 c S then pin_chunks cs S
     else if (case v_tier S of None \<Rightarrow> False
              | Some t \<Rightarrow> length (v_pins S) * CHUNK_SIZE + CHUNK_SIZE > tr_missPinBytes t) then (False, S)
     else pin_chunks cs (S\<lparr>v_pins := v_pins S @ [(c, effective row (slot_now S c))]\<rparr>))"

text \<open>
  One segment of \<open>resolveMisses\<close>, from the moment its bytes as the map references them are there
  (\<open>currentSegment\<close> fetches again until they are).
\<close>

definition pin_segment :: "nat \<Rightarrow> vfs \<Rightarrow> bool \<times> vfs" where
  "pin_segment segno S =
    (let cs = chunks_of_segment (totalChunks S) segno in
     if \<not> list_ex (\<lambda>c. map_of (v_pins S) c = None \<and> slotInR2 c S) cs then (True, S)
     else if (case map_of (segmentsOf S) segno of None \<Rightarrow> False
              | Some e \<Rightarrow> sg_mask e \<noteq> {} \<and> v_objects S (segno, sg_gen e) = None) then (False, S)
     else pin_chunks cs S)"

fun pin_segments :: "nat list \<Rightarrow> vfs \<Rightarrow> bool \<times> vfs" where
  "pin_segments [] S = (True, S)"
| "pin_segments (g # gs) S = (case pin_segment g S of (False, S1) \<Rightarrow> (False, S1) | (True, S1) \<Rightarrow> pin_segments gs S1)"

text \<open>With one segment of read-ahead for each missed one; the set keeps insertion order.\<close>

definition missed_segments :: "vfs \<Rightarrow> nat list" where
  "missed_segments S =
    (let lastSegment = segmentOf (totalChunks S - 1)
     in rev (remdups (rev (concat (map (\<lambda>c. segmentOf c #
          (if segmentOf c + 1 \<le> lastSegment then [segmentOf c + 1] else [])) (v_misses S))))))"

definition resolveMisses :: "vfs \<Rightarrow> bool \<times> vfs" where
  "resolveMisses S =
    (if v_tier S = None \<or> v_misses S = [] then (True, S\<lparr>v_misses := []\<rparr>)
     else pin_segments (missed_segments S) (S\<lparr>v_misses := []\<rparr>))"

definition releasePins :: "vfs \<Rightarrow> vfs" where
  "releasePins S = (fold (\<lambda>(c, d). cache_put c d) (v_pins S) S)\<lparr>v_pins := []\<rparr>"

subsection \<open>Snapshots and whole-file reads\<close>

definition openSnapshot :: "flush_fate \<Rightarrow> vfs \<Rightarrow> bool \<times> vfs" where
  "openSnapshot fate S =
    (if v_snapshot S \<noteq> None \<or> f_lock (v_file S) \<ge> SQLITE_LOCK_EXCLUSIVE then (False, S)
     else (case flush_file fate S of
         (False, S1) \<Rightarrow> (False, S1)
       | (True, S1) \<Rightarrow> (True, S1\<lparr>v_snapshot := Some \<lparr>sn_size = f_size (v_file S1), sn_totalChunks = totalChunks S1,
           sn_shadow = (\<lambda>_. None), sn_segments = segmentsOf S1\<rparr>\<rparr>)))"

definition closeSnapshot :: "vfs \<Rightarrow> vfs" where
  "closeSnapshot S = S\<lparr>v_snapshot := None\<rparr>"

text \<open>One chunk of \<open>readWindow\<close>: a pre-image, else the row; the other pages from the slot, else zeros.\<close>

definition window_chunk ::
  "(nat \<Rightarrow> (buf \<times> pages) option) \<Rightarrow> (nat \<Rightarrow> (buf \<times> pages) option) \<Rightarrow> objects \<Rightarrow> (nat \<times> segment_entry) list
    \<Rightarrow> nat \<Rightarrow> buf" where
  "window_chunk shadow rows objs segs c =
    (let image = (case shadow c of Some x \<Rightarrow> Some x | None \<Rightarrow> rows c);
         m = (case image of None \<Rightarrow> {} | Some (d, m) \<Rightarrow> m);
         out = (case image of None \<Rightarrow> zeros | Some (d, m) \<Rightarrow> placeMasked d m zeros)
     in if m = FULL_MASK then out
        else (case slotBytes objs segs c of None \<Rightarrow> out | Some cold \<Rightarrow> placeMasked cold (FULL_MASK - m) out))"

definition readWindow ::
  "nat \<Rightarrow> nat \<Rightarrow> nat \<Rightarrow> (nat \<Rightarrow> (buf \<times> pages) option) \<Rightarrow> (nat \<Rightarrow> (buf \<times> pages) option) \<Rightarrow> objects
    \<Rightarrow> (nat \<times> segment_entry) list \<Rightarrow> byte list" where
  "readWindow len start stop shadow rows objs segs =
     concat (map (\<lambda>c. map (window_chunk shadow rows objs segs c) [0..<min CHUNK_SIZE (len - c * CHUNK_SIZE)])
       [start..<stop])"

text \<open>What a snapshot's stream delivers for the window \<open>[start, stop)\<close> if it is pulled now.\<close>

definition snapshot_window :: "nat \<Rightarrow> nat \<Rightarrow> snapshot \<Rightarrow> vfs \<Rightarrow> byte list" where
  "snapshot_window start stop sn S =
     readWindow (sn_size sn) start stop (sn_shadow sn) (st_rows (v_store S)) (v_objects S) (sn_segments sn)"

subsection \<open>Eviction\<close>

record pass_plan =
  ps_total :: nat
  ps_candidates :: "nat list"
  ps_epoch :: nat

text \<open>\<open>recent\<close> is the access bitmap of the last periods (nothing is recent when eviction is forced).\<close>

definition planTierPass :: "(nat \<Rightarrow> bool) \<Rightarrow> flush_fate \<Rightarrow> vfs \<Rightarrow> pass_plan option \<times> vfs" where
  "planTierPass recent fate S =
    (if v_tier S = None \<or> v_snapshot S \<noteq> None \<or> f_lock (v_file S) \<ge> SQLITE_LOCK_EXCLUSIVE then (None, S)
     else (case flush_file fate S of
         (False, S1) \<Rightarrow> (None, S1)
       | (True, S1) \<Rightarrow> (Some \<lparr>ps_total = totalChunks S1,
             ps_candidates = filter (\<lambda>c. st_rows (v_store S1) c \<noteq> None \<and> c \<noteq> 0 \<and> \<not> recent c) [0..<totalChunks S1],
             ps_epoch = v_epoch S1\<rparr>,
           S1\<lparr>v_file := (v_file S1)\<lparr>f_written := Some []\<rparr>\<rparr>)))"

definition tierPassStillValid :: "pass_plan \<Rightarrow> vfs \<Rightarrow> bool" where
  "tierPassStillValid plan S \<longleftrightarrow> v_epoch S = ps_epoch plan \<and> v_snapshot S = None
     \<and> f_lock (v_file S) < SQLITE_LOCK_EXCLUSIVE"

record pass_read =
  pr_segno :: nat
  pr_entry :: "segment_entry option"
  pr_rows :: "nat \<Rightarrow> (buf \<times> pages) option"

definition read_segment :: "pass_plan \<Rightarrow> nat \<Rightarrow> vfs \<Rightarrow> pass_read option" where
  "read_segment plan segno S =
    (if \<not> tierPassStillValid plan S then None
     else Some \<lparr>pr_segno = segno, pr_entry = map_of (segmentsOf S) segno,
       pr_rows = (\<lambda>c. if c \<in> set (chunks_of_segment (ps_total plan) segno) then st_rows (v_store S) c else None)\<rparr>)"

definition entry_slot :: "segment_entry option \<Rightarrow> nat \<Rightarrow> bool" where
  "entry_slot entry c = (case entry of None \<Rightarrow> False | Some e \<Rightarrow> slotOf c \<in> sg_mask e)"

definition needs_old :: "pass_plan \<Rightarrow> pass_read \<Rightarrow> bool" where
  "needs_old plan r \<longleftrightarrow> list_ex (\<lambda>c. entry_slot (pr_entry r) c \<and> map_option snd (pr_rows r c) \<noteq> Some FULL_MASK)
     (chunks_of_segment (ps_total plan) (pr_segno r))"

text \<open>The new object, its slots from the old object (when it had to be fetched) and the rows, and its mask.\<close>

definition new_object :: "objects \<Rightarrow> pass_plan \<Rightarrow> pass_read \<Rightarrow> nat \<Rightarrow> buf" where
  "new_object objs plan r = (\<lambda>s.
     let c = pr_segno r * SEGMENT_CHUNKS + s;
         old = (case pr_entry r of
             Some e \<Rightarrow> if needs_old plan r \<and> s \<in> sg_mask e then (case objs (pr_segno r, sg_gen e) of
                 None \<Rightarrow> zeros | Some ob \<Rightarrow> ob s) else zeros
           | None \<Rightarrow> zeros)
     in if c \<notin> set (chunks_of_segment (ps_total plan) (pr_segno r)) then zeros
        else (case pr_rows r c of None \<Rightarrow> old | Some (d, m) \<Rightarrow> placeMasked d m old))"

definition new_mask :: "pass_plan \<Rightarrow> pass_read \<Rightarrow> nat set" where
  "new_mask plan r = set (map slotOf (filter (\<lambda>c. pr_rows r c \<noteq> None \<or> entry_slot (pr_entry r) c)
     (chunks_of_segment (ps_total plan) (pr_segno r))))"

definition put_object :: "nat \<times> nat \<Rightarrow> (nat \<Rightarrow> buf) \<Rightarrow> vfs \<Rightarrow> vfs" where
  "put_object key ob S = S\<lparr>v_objects := (v_objects S)(key \<mapsto> ob)\<rparr>"

definition upd_tier :: "(page_tier \<Rightarrow> page_tier) \<Rightarrow> vfs \<Rightarrow> vfs" where
  "upd_tier f S = S\<lparr>v_tier := map_option f (v_tier S)\<rparr>"

text \<open>The upload: a generation for the new object, which is then in the bucket.\<close>

definition upload_segment :: "pass_plan \<Rightarrow> pass_read \<Rightarrow> vfs \<Rightarrow> nat \<times> vfs" where
  "upload_segment plan r S =
    (case v_tier S of
       None \<Rightarrow> (0, S)
     | Some t \<Rightarrow> (case allocateGen (v_store S) t of
         (gen, t1) \<Rightarrow> (gen, put_object (pr_segno r, gen) (new_object (v_objects S) plan r) (S\<lparr>v_tier := Some t1\<rparr>))))"

text \<open>The commit, in one transaction; \<open>None\<close> when the file changed under the pass.\<close>

definition commit_segment :: "pass_plan \<Rightarrow> pass_read \<Rightarrow> nat \<Rightarrow> vfs \<Rightarrow> nat option \<times> vfs" where
  "commit_segment plan r gen S =
    (if \<not> tierPassStillValid plan S \<or> map_of (segmentsOf S) (pr_segno r) \<noteq> pr_entry r
     then (None, upd_tier (queueDelete (pr_segno r, gen)) S)
     else
      (let written = (case f_written (v_file S) of None \<Rightarrow> [] | Some w \<Rightarrow> w);
           evicted = filter (\<lambda>c. segmentOf c = pr_segno r \<and> c \<notin> set written) (ps_candidates plan)
       in case v_tier S of
            None \<Rightarrow> (None, S)
          | Some t \<Rightarrow>
              (case setSegment (pr_segno r) \<lparr>sg_gen = gen, sg_mask = new_mask plan r\<rparr> t (v_store S) of
                 (t1, st1) \<Rightarrow>
                   (Some (length evicted),
                    S\<lparr>v_tier := Some (case pr_entry r of
                        None \<Rightarrow> t1
                      | Some e \<Rightarrow> if sg_gen e = gen then t1 else queueDelete (pr_segno r, sg_gen e) t1),
                      v_store := st1\<lparr>st_rows := (\<lambda>c. if c \<in> set evicted then None else st_rows st1 c)\<rparr>\<rparr>))))"

definition end_pass :: "vfs \<Rightarrow> vfs" where
  "end_pass S = S\<lparr>v_file := (v_file S)\<lparr>f_written := None\<rparr>\<rparr>"

text \<open>\<open>maintenance\<close>: the queued objects are deleted, unless a snapshot may still read them.\<close>

definition tierMaintenance :: "vfs \<Rightarrow> vfs" where
  "tierMaintenance S =
    (case v_tier S of
       None \<Rightarrow> S
     | Some t \<Rightarrow> if v_snapshot S \<noteq> None then S
         else S\<lparr>v_objects := (\<lambda>k. if k \<in> set (tr_pending t) then None else v_objects S k),
                v_tier := Some (t\<lparr>tr_pending := []\<rparr>)\<rparr>)"

text \<open>The orphan sweep: objects no row of the map refers to; it runs while no pass has an upload in flight.\<close>

definition referenced :: "(nat \<times> segment_entry) list \<Rightarrow> (nat \<times> nat) list" where
  "referenced segs = map (\<lambda>(segno, e). (segno, sg_gen e)) segs"

definition orphan_sweep :: "(nat \<times> nat) list \<Rightarrow> vfs \<Rightarrow> vfs" where
  "orphan_sweep listed S =
    (if v_snapshot S \<noteq> None then S
     else S\<lparr>v_objects := (\<lambda>k. if k \<in> set listed \<and> k \<notin> set (referenced (st_segments (v_store S))) then None
              else v_objects S k)\<rparr>)"

text \<open>
  \<open>materialize\<close>, under the connection's mutex: every cold chunk becomes a full row, then the map is
  dropped.
\<close>

definition materialize_rows :: "vfs \<Rightarrow> nat \<Rightarrow> (buf \<times> pages) option" where
  "materialize_rows S = (\<lambda>c.
     let row = st_rows (v_store S) c in
     if c \<ge> totalChunks S \<or> map_option snd row = Some FULL_MASK then row
     else (case map_of (segmentsOf S) (segmentOf c) of
         None \<Rightarrow> row
       | Some e \<Rightarrow> if sg_mask e = {} \<or> slotOf c \<notin> sg_mask e \<and> row = None then row
           else Some (effective row (slot_now S c), FULL_MASK)))"

definition materialize :: "flush_fate \<Rightarrow> vfs \<Rightarrow> bool \<times> vfs" where
  "materialize fate S =
    (case v_tier S of
       None \<Rightarrow> (True, S)
     | Some _ \<Rightarrow>
         if v_snapshot S \<noteq> None then (False, S)
         else (case flush_file fate S of
             (False, S1) \<Rightarrow> (False, S1)
           | (True, S1) \<Rightarrow> (True, upd_tier (\<lambda>t. t\<lparr>tr_segments := [], tr_pending := tr_pending t @ referenced (tr_segments t)\<rparr>)
               (S1\<lparr>v_store := (v_store S1)\<lparr>st_rows := materialize_rows S1, st_segments := []\<rparr>,
                  v_epoch := v_epoch S1 + 1, v_cache := []\<rparr>))))"

end
