(* ===== verification/Vfs_Content.thy ===== *)
theory Vfs_Content
  imports Do_Vfs
begin

text \<open>
  What the representation of \<open>Do_Vfs\<close> means: the bytes storage and the bucket hold, the bytes SQLite
  sees over them, and the invariant that ties the caches, the pins, the dirty chunks and the tier's map
  to those bytes. Every internal move (a lookup, a fetch, a dirty copy) keeps both.
\<close>

named_theorems vfs_simps \<open>record and byte facts of the VFS\<close>

subsection \<open>Pages\<close>

lemma page_in_chunk [simp]: "i div VFS_PAGE_SIZE \<in> FULL_MASK \<longleftrightarrow> i < CHUNK_SIZE"
  by (simp add: FULL_MASK_def CHUNK_SIZE_def VFS_PAGE_SIZE_def PAGES_PER_CHUNK_def div_less_iff_less_mult)

lemma FULL_MASK_not_empty [simp]: "FULL_MASK \<noteq> {}" "{} \<noteq> FULL_MASK"
proof -
  have "0 \<in> FULL_MASK" by (simp add: FULL_MASK_def PAGES_PER_CHUNK_def)
  then show "FULL_MASK \<noteq> {}" "{} \<noteq> FULL_MASK" by auto
qed

lemma placeMasked_full: "i < CHUNK_SIZE \<Longrightarrow> placeMasked d FULL_MASK d' i = d i"
  by (simp add: placeMasked_def)

lemma placeMasked_empty [simp]: "placeMasked d {} d' = d'"
  by (simp add: placeMasked_def)

lemma zeros_apply [simp]: "zeros i = 0"
  by (simp add: zeros_def)

lemma ceil_div_le: "0 < b \<Longrightarrow> ceil_div a b \<le> c \<longleftrightarrow> a \<le> c * b"
  unfolding ceil_div_def using less_Suc_eq_le [of "(a + b - 1) div b" c]
  by (simp add: div_less_iff_less_mult flip: less_Suc_eq_le) arith

lemma less_ceil_div: "0 < b \<Longrightarrow> c < ceil_div a b \<longleftrightarrow> c * b < a"
  using ceil_div_le [of b a c] by linarith

lemma chunkFloor_le: "chunkFloor k \<le> c \<longleftrightarrow> k \<le> c * PAGES_PER_CHUNK"
  by (simp add: chunkFloor_def ceil_div_le PAGES_PER_CHUNK_def)

lemma truncated_floor: "truncated c S \<longleftrightarrow> (\<exists>k. f_trunc (v_file S) = Some k \<and> chunkFloor k \<le> c)"
  by (auto simp: truncated_def chunkFloor_le split: option.split)

subsection \<open>The stored and the current bytes\<close>

definition stored :: "vfs \<Rightarrow> nat \<Rightarrow> buf" where
  "stored S c = effective (st_rows (v_store S) c) (slot_now S c)"

definition clean :: "vfs \<Rightarrow> nat \<Rightarrow> buf" where
  "clean S c = (if truncated c S then zeros else stored S c)"

definition current :: "vfs \<Rightarrow> nat \<Rightarrow> buf" where
  "current S c = (case dirty_of S c of None \<Rightarrow> clean S c | Some (d, m) \<Rightarrow> placeMasked d m (clean S c))"

lemma effective_simps: "effective None slot i = (case slot of None \<Rightarrow> 0 | Some b \<Rightarrow> b i)"
  "effective (Some (d, m)) slot i =
    (if i div VFS_PAGE_SIZE \<in> m then d i else case slot of None \<Rightarrow> 0 | Some b \<Rightarrow> b i)"
  by (auto simp: effective_def Let_def placeMasked_def split: option.splits)

lemma slotInR2_slot_now: "slotInR2 c S \<Longrightarrow> slot_now S c \<noteq> None \<or> (\<exists>g. v_objects S (segmentOf c, g) = None)"
  "\<not> slotInR2 c S \<Longrightarrow> slot_now S c = None"
  by (auto simp: slotInR2_def slot_in_def slot_now_def slotBytes_def split: option.splits if_splits)

subsection \<open>The invariant\<close>

definition clean_entry :: "vfs \<Rightarrow> nat \<times> buf \<Rightarrow> bool" where
  "clean_entry S = (\<lambda>(c, d). \<not> truncated c S \<and> (\<forall>i < CHUNK_SIZE. d i = stored S c i))"

definition cache_ok :: "vfs \<Rightarrow> bool" where
  "cache_ok S \<longleftrightarrow> (\<forall>e \<in> set (v_cache S) \<union> set (v_pins S). clean_entry S e) \<and> distinct (map fst (v_pins S))"

text \<open>A partial buffer holds zeros outside its pages.\<close>

definition blank_outside :: "buf \<Rightarrow> pages \<Rightarrow> bool" where
  "blank_outside d m \<longleftrightarrow> m \<subseteq> FULL_MASK \<and> (\<forall>i < CHUNK_SIZE. i div VFS_PAGE_SIZE \<notin> m \<longrightarrow> d i = 0)"

definition rows_ok :: "vfs \<Rightarrow> bool" where
  "rows_ok S \<longleftrightarrow> (\<forall>c d m. st_rows (v_store S) c = Some (d, m) \<longrightarrow>
     blank_outside d m \<and> (v_tier S = None \<longrightarrow> m = FULL_MASK))"

definition dirty_ok :: "nat \<Rightarrow> vfs \<Rightarrow> bool" where
  "dirty_ok n S \<longleftrightarrow> distinct (map fst (f_dirty (v_file S))) \<and>
     (\<forall>c d m. dirty_of S c = Some (d, m) \<longrightarrow>
       blank_outside d m \<and> c * CHUNK_SIZE < n
       \<and> (m \<noteq> FULL_MASK \<longrightarrow> v_tier S \<noteq> None \<and> \<not> truncated c S
           \<and> (\<forall>r m0. st_rows (v_store S) c = Some (r, m0) \<longrightarrow> m0 \<subseteq> m)))"

lemma dirty_okI:
  assumes "distinct (map fst (f_dirty (v_file S)))"
    and "\<And>c d m. dirty_of S c = Some (d, m) \<Longrightarrow> blank_outside d m"
    and "\<And>c d m. dirty_of S c = Some (d, m) \<Longrightarrow> c * CHUNK_SIZE < n"
    and "\<And>c d m. dirty_of S c = Some (d, m) \<Longrightarrow> m \<noteq> FULL_MASK \<Longrightarrow> v_tier S \<noteq> None"
    and "\<And>c d m. dirty_of S c = Some (d, m) \<Longrightarrow> m \<noteq> FULL_MASK \<Longrightarrow> \<not> truncated c S"
    and "\<And>c d m r m0. dirty_of S c = Some (d, m) \<Longrightarrow> m \<noteq> FULL_MASK \<Longrightarrow> st_rows (v_store S) c = Some (r, m0) \<Longrightarrow> m0 \<subseteq> m"
  shows "dirty_ok n S"
  unfolding dirty_ok_def using assms by blast

lemma dirty_okD:
  assumes "dirty_ok n S" "dirty_of S c = Some (d, m)"
  shows "blank_outside d m" "c * CHUNK_SIZE < n"
    and "m \<noteq> FULL_MASK \<Longrightarrow> v_tier S \<noteq> None" "m \<noteq> FULL_MASK \<Longrightarrow> \<not> truncated c S"
    and "m \<noteq> FULL_MASK \<Longrightarrow> st_rows (v_store S) c = Some (r, m0) \<Longrightarrow> m0 \<subseteq> m"
  using assms unfolding dirty_ok_def by blast+

text \<open>
  The map in memory is the stored one, what it references is in the bucket and not queued for deletion,
  no generation is above the next one handed out, and no slot is past the stored size.
\<close>

definition stored_gen :: "storage \<Rightarrow> nat" where
  "stored_gen st = (case st_maxGen st of None \<Rightarrow> 0 | Some m \<Rightarrow> m)"

definition known_gen :: "storage \<Rightarrow> page_tier \<Rightarrow> nat" where
  "known_gen st t = (case tr_maxGen t of None \<Rightarrow> stored_gen st | Some g \<Rightarrow> g)"

definition tier_good :: "storage \<Rightarrow> objects \<Rightarrow> page_tier \<Rightarrow> bool" where
  "tier_good st objs t \<longleftrightarrow> tr_segments t = st_segments st \<and> distinct (map fst (tr_segments t))
     \<and> (\<forall>k \<in> set (referenced (tr_segments t)). objs k \<noteq> None \<and> k \<notin> set (tr_pending t) \<and> snd k \<le> stored_gen st)
     \<and> stored_gen st \<le> known_gen st t \<and> (\<forall>k \<in> set (tr_pending t). snd k \<le> known_gen st t)
     \<and> (\<forall>c. slot_in (tr_segments t) c \<longrightarrow> c * CHUNK_SIZE < st_size st)"

definition tier_ok :: "vfs \<Rightarrow> bool" where
  "tier_ok S \<longleftrightarrow> (case v_tier S of None \<Rightarrow> True | Some t \<Rightarrow> tier_good (v_store S) (v_objects S) t)"

text \<open>
  The chunks of storage that no truncation dropped are chunks of the file, and the file's size and
  generation are the stored ones unless the flush will store them.
\<close>

definition reach_ok :: "nat \<Rightarrow> vfs \<Rightarrow> bool" where
  "reach_ok n S \<longleftrightarrow> (\<forall>c. \<not> truncated c S \<longrightarrow> c * CHUNK_SIZE < st_size (v_store S) \<longrightarrow> c * CHUNK_SIZE < n)
     \<and> (f_sizeDirty (v_file S) \<or> f_size (v_file S) = st_size (v_store S)) \<and> f_gen (v_file S) = st_gen (v_store S)"

text \<open>Nothing grew past a truncation that is not flushed yet, unless the file has neither tier nor snapshot.\<close>

definition calm :: "nat \<Rightarrow> vfs \<Rightarrow> bool" where
  "calm n S \<longleftrightarrow> (case f_trunc (v_file S) of
     None \<Rightarrow> True
   | Some k \<Rightarrow> n \<le> chunkFloor k * CHUNK_SIZE \<or> v_snapshot S = None \<and> v_tier S = None)"

text \<open>
  With a snapshot open: the base of a dirty chunk is its clean state, and the slots the snapshot took
  are still those of the chunks it has no pre-image of.
\<close>

fun base_img :: "base_image \<Rightarrow> buf \<times> pages" where
  "base_img (Known d m) = (d, m)"
| "base_img Sparse = (zeros, FULL_MASK)"
| "base_img Cold = (zeros, {})"

definition base_ok :: "vfs \<Rightarrow> bool" where
  "base_ok S \<longleftrightarrow> (v_snapshot S \<noteq> None \<longrightarrow> (\<forall>c. dirty_of S c \<noteq> None \<longrightarrow> \<not> truncated c S \<longrightarrow>
     (\<exists>b. f_base (v_file S) c = Some b
       \<and> (\<forall>i < CHUNK_SIZE. effective (Some (base_img b)) (slot_now S c) i = stored S c i))))"

definition snap_gens :: "storage \<Rightarrow> page_tier option \<Rightarrow> snapshot \<Rightarrow> bool" where
  "snap_gens st tier sn \<longleftrightarrow> (case tier of None \<Rightarrow> sn_segments sn = []
     | Some t \<Rightarrow> \<forall>k \<in> set (referenced (sn_segments sn)). snd k \<le> known_gen st t)"

definition snap_ok :: "vfs \<Rightarrow> bool" where
  "snap_ok S \<longleftrightarrow> (\<forall>sn. v_snapshot S = Some sn \<longrightarrow> (\<forall>c < sn_totalChunks sn. sn_shadow sn c = None \<longrightarrow>
     slotBytes (v_objects S) (sn_segments sn) c = slot_now S c)
     \<and> snap_gens (v_store S) (v_tier S) sn \<and> sn_size sn \<le> sn_totalChunks sn * CHUNK_SIZE)"

definition blank_past :: "nat \<Rightarrow> (nat \<Rightarrow> buf) \<Rightarrow> bool" where
  "blank_past n B \<longleftrightarrow> (\<forall>p \<ge> n. B (p div CHUNK_SIZE) (p mod CHUNK_SIZE) = 0)"

lemma blank_chunk:
  assumes "blank_past n B" "i < CHUNK_SIZE" "n \<le> c * CHUNK_SIZE + i"
  shows "B c i = 0"
proof -
  have "B ((c * CHUNK_SIZE + i) div CHUNK_SIZE) ((c * CHUNK_SIZE + i) mod CHUNK_SIZE) = 0"
    using assms(1,3) unfolding blank_past_def by blast
  with assms(2) show ?thesis by simp
qed

text \<open>The size is a parameter: while a write runs, the file already reaches to its end.\<close>

definition vfs_at :: "nat \<Rightarrow> vfs \<Rightarrow> bool" where
  "vfs_at n S \<longleftrightarrow> cache_ok S \<and> rows_ok S \<and> dirty_ok n S \<and> tier_ok S \<and> calm n S \<and> reach_ok n S
     \<and> blank_past n (current S) \<and> blank_past (st_size (v_store S)) (stored S) \<and> base_ok S \<and> snap_ok S"

abbreviation vfs_ok :: "vfs \<Rightarrow> bool" where
  "vfs_ok S \<equiv> vfs_at (f_size (v_file S)) S"

lemma vfs_atI:
  assumes "cache_ok S" "rows_ok S" "dirty_ok n S" "tier_ok S" "calm n S" "reach_ok n S"
    "blank_past n (current S)" "blank_past (st_size (v_store S)) (stored S)" "base_ok S" "snap_ok S"
  shows "vfs_at n S"
  using assms by (simp add: vfs_at_def)

lemma vfs_atD:
  assumes "vfs_at n S"
  shows "cache_ok S" "rows_ok S" "dirty_ok n S" "tier_ok S" "calm n S" "reach_ok n S"
    "blank_past n (current S)" "blank_past (st_size (v_store S)) (stored S)" "base_ok S" "snap_ok S"
  using assms by (simp_all add: vfs_at_def)

lemma vfs_at_mono: "vfs_at n S \<Longrightarrow> n \<le> k \<Longrightarrow> calm k S \<Longrightarrow> vfs_at k S"
  by (fastforce simp: vfs_at_def dirty_ok_def blank_past_def reach_ok_def)

text \<open>A slot the map marks valid is there.\<close>

lemma slot_there:
  assumes "tier_ok S"
  shows "slotInR2 c S \<longleftrightarrow> slot_now S c \<noteq> None"
proof
  assume c: "slotInR2 c S"
  then obtain t e where t: "v_tier S = Some t" "map_of (tr_segments t) (segmentOf c) = Some e" "slotOf c \<in> sg_mask e"
    by (auto simp: slotInR2_def slot_in_def segmentsOf_def split: option.splits)
  then have "(segmentOf c, sg_gen e) \<in> set (referenced (tr_segments t))"
    by (force simp: referenced_def dest: map_of_SomeD)
  with assms t have "v_objects S (segmentOf c, sg_gen e) \<noteq> None" by (auto simp: tier_ok_def tier_good_def)
  with t show "slot_now S c \<noteq> None" by (auto simp: slot_now_def slotBytes_def segmentsOf_def)
next
  assume "slot_now S c \<noteq> None"
  then show "slotInR2 c S" using slotInR2_slot_now(2) [of c S] by (cases "slotInR2 c S") auto
qed

text \<open>The bytes depend on the storage, the bucket, the map and the file only.\<close>

definition same_view :: "vfs \<Rightarrow> vfs \<Rightarrow> bool" where
  "same_view S S' \<longleftrightarrow> v_store S' = v_store S \<and> v_objects S' = v_objects S \<and> v_tier S' = v_tier S \<and> v_file S' = v_file S"

lemma same_view_bytes:
  assumes "same_view S S'"
  shows "segmentsOf S' = segmentsOf S" "slot_now S' = slot_now S" "stored S' = stored S" "truncated c S' = truncated c S"
    "clean S' = clean S" "current S' = current S" "clean_entry S' = clean_entry S" "slotInR2 c S' = slotInR2 c S"
    "rows_ok S' = rows_ok S" "dirty_ok n S' = dirty_ok n S" "tier_ok S' = tier_ok S" "totalChunks S' = totalChunks S"
    "reach_ok n S' = reach_ok n S" "v_file S' = v_file S" "v_store S' = v_store S" "v_tier S' = v_tier S" "v_objects S' = v_objects S"
proof -
  have e: "v_store S' = v_store S" "v_objects S' = v_objects S" "v_tier S' = v_tier S" "v_file S' = v_file S"
    using assms by (simp_all add: same_view_def)
  show "v_file S' = v_file S" "v_store S' = v_store S" "v_tier S' = v_tier S" "v_objects S' = v_objects S" by (rule e)+
  show s: "segmentsOf S' = segmentsOf S" by (simp add: segmentsOf_def e)
  show t: "truncated c S' = truncated c S" for c by (simp add: truncated_def e)
  show n: "slot_now S' = slot_now S" by (simp add: fun_eq_iff slot_now_def e s)
  show b: "stored S' = stored S" by (simp add: fun_eq_iff stored_def e n)
  show c: "clean S' = clean S" by (simp add: fun_eq_iff clean_def t b)
  show "current S' = current S" by (auto simp: fun_eq_iff current_def c e split: option.split)
  show "clean_entry S' = clean_entry S" by (simp add: fun_eq_iff clean_entry_def t b)
  show "slotInR2 c S' = slotInR2 c S" by (simp add: slotInR2_def s)
  show "rows_ok S' = rows_ok S" "dirty_ok n S' = dirty_ok n S" "totalChunks S' = totalChunks S"
    "reach_ok n S' = reach_ok n S"
    by (simp_all add: rows_ok_def dirty_ok_def totalChunks_def reach_ok_def e t)
  show "tier_ok S' = tier_ok S" unfolding tier_ok_def e ..
qed

lemma same_view_updates [simp]:
  "same_view S (S\<lparr>v_cache := x1\<rparr>)" "same_view S (S\<lparr>v_pins := x2\<rparr>)" "same_view S (S\<lparr>v_misses := x3\<rparr>)"
  "same_view S (S\<lparr>v_capacity := x4\<rparr>)" "same_view S (S\<lparr>v_snapshot := x5\<rparr>)" "same_view S (S\<lparr>v_epoch := x6\<rparr>)"
  "same_view S S"
  by (simp_all add: same_view_def)

lemma same_view_trans: "same_view S S' \<Longrightarrow> same_view S' S'' \<Longrightarrow> same_view S S''"
  by (simp add: same_view_def)

lemma same_view_ok:
  assumes "same_view S S'" "vfs_at n S" "\<forall>e \<in> set (v_cache S') \<union> set (v_pins S'). clean_entry S e"
    and "distinct (map fst (v_pins S'))" and "v_snapshot S' = v_snapshot S \<or> v_snapshot S' = None"
  shows "vfs_at n S'"
proof (rule vfs_atI)
  note B = same_view_bytes [OF assms(1)] and D = vfs_atD [OF assms(2)]
  show "cache_ok S'" using assms(3,4) by (simp add: cache_ok_def B)
  show "calm n S'" using D(5) assms(5) by (auto simp: calm_def B split: option.splits)
  show "base_ok S'" using D(9) assms(5) by (auto simp: base_ok_def B)
  show "snap_ok S'" using D(10) assms(5) by (auto simp: snap_ok_def B)
qed (use vfs_atD [OF assms(2)] same_view_bytes [OF assms(1)] in simp_all)

subsection \<open>Moves of the cache only\<close>

text \<open>What a lookup may do: reorder, add and drop clean chunks.\<close>

definition tidy :: "vfs \<Rightarrow> vfs \<Rightarrow> bool" where
  "tidy S S' \<longleftrightarrow> (\<exists>es. S' = S\<lparr>v_cache := es\<rparr> \<and> (\<forall>e \<in> set es. clean_entry S e))"

lemma tidy_view: assumes "tidy S S'" shows "same_view S S'" "v_pins S' = v_pins S" "v_snapshot S' = v_snapshot S"
    "v_misses S' = v_misses S" "v_epoch S' = v_epoch S" "v_capacity S' = v_capacity S"
  using assms by (auto simp: tidy_def)

lemmas tidy_bytes = same_view_bytes [OF tidy_view(1)]

lemma tidy_ok: "tidy S S' \<Longrightarrow> vfs_at n S \<Longrightarrow> vfs_at n S'"
  by (rule same_view_ok [of S]) (auto simp: tidy_view vfs_at_def cache_ok_def tidy_def)

lemma tidy_refl: "cache_ok S \<Longrightarrow> tidy S S"
  unfolding tidy_def cache_ok_def by (intro exI [of _ "v_cache S"]) auto

lemma tidy_trans: assumes "tidy S S'" "tidy S' S''" shows "tidy S S''"
  using assms(2) tidy_bytes(7) [OF assms(1)] assms(1) unfolding tidy_def by auto

lemma delete_subset: "set (AList.delete c es) \<subseteq> set es"
  by (auto simp: AList.delete_eq)

lemma tidy_get:
  assumes "cache_ok S" "cache_get c (v_cache S) = (r, es)"
  shows "tidy S (S\<lparr>v_cache := es\<rparr>)" "r = Some d \<Longrightarrow> clean_entry S (c, d)"
proof -
  have e: "\<forall>e \<in> set (v_cache S). clean_entry S e" using assms(1) by (simp add: cache_ok_def)
  have k: "clean_entry S (c, d)" if "map_of (v_cache S) c = Some d" for d
    using e map_of_SomeD [OF that] by blast
  have "\<forall>e \<in> set es. clean_entry S e"
    using assms(2) e k delete_subset [of c "v_cache S"] by (force simp: cache_get_def split: option.splits)
  then show "tidy S (S\<lparr>v_cache := es\<rparr>)" unfolding tidy_def by blast
  show "r = Some d \<Longrightarrow> clean_entry S (c, d)"
    using assms(2) k by (auto simp: cache_get_def split: option.splits)
qed

lemma tidy_put:
  assumes "cache_ok S" "clean_entry S (c, d)"
  shows "tidy S (cache_put c d S)"
proof -
  have "set (cache_set (v_capacity S) c d (v_cache S)) \<subseteq> insert (c, d) (set (v_cache S))"
    unfolding cache_set_def cache_evict_def using delete_subset set_drop_subset by fastforce
  then have "\<forall>e \<in> set (cache_set (v_capacity S) c d (v_cache S)). clean_entry S e"
    using assms by (auto simp: cache_ok_def)
  then show ?thesis unfolding tidy_def cache_put_def by blast
qed

subsection \<open>Lookups\<close>

lemma lookupLocal_tidy:
  assumes ok: "vfs_at n S" and l: "lookupLocal c S = (r, S1)"
  shows "tidy S S1"
    and "r = Some (d, m) \<Longrightarrow> \<not> truncated c S \<and> blank_outside d m
      \<and> (if m = FULL_MASK then \<forall>i < CHUNK_SIZE. d i = stored S c i
         else st_rows (v_store S) c = Some (d, m) \<and> v_tier S \<noteq> None)"
    and "r = None \<Longrightarrow> truncated c S \<or> st_rows (v_store S) c = None"
proof -
  have co: "cache_ok S" and ro: "rows_ok S" using vfs_atD [OF ok] by simp_all
  have full: "blank_outside d FULL_MASK" for d by (simp add: blank_outside_def)
  obtain r0 es where g: "cache_get c (v_cache S) = (r0, es)" by fastforce
  show "tidy S S1 " "r = Some (d, m) \<Longrightarrow> \<not> truncated c S \<and> blank_outside d m
      \<and> (if m = FULL_MASK then \<forall>i < CHUNK_SIZE. d i = stored S c i
         else st_rows (v_store S) c = Some (d, m) \<and> v_tier S \<noteq> None)"
    "r = None \<Longrightarrow> truncated c S \<or> st_rows (v_store S) c = None"
  proof (atomize (full), cases "map_of (v_pins S) c")
    case (Some x)
    then have "clean_entry S (c, x)" using co map_of_SomeD [OF Some] by (auto simp: cache_ok_def)
    with Some l tidy_refl [OF co] full show "tidy S S1 \<and> (r = Some (d, m) \<longrightarrow> \<not> truncated c S \<and> blank_outside d m
      \<and> (if m = FULL_MASK then \<forall>i < CHUNK_SIZE. d i = stored S c i
         else st_rows (v_store S) c = Some (d, m) \<and> v_tier S \<noteq> None))
      \<and> (r = None \<longrightarrow> truncated c S \<or> st_rows (v_store S) c = None)"
      by (auto simp: lookupLocal_def clean_entry_def)
  next
    case None
    show "tidy S S1 \<and> (r = Some (d, m) \<longrightarrow> \<not> truncated c S \<and> blank_outside d m
      \<and> (if m = FULL_MASK then \<forall>i < CHUNK_SIZE. d i = stored S c i
         else st_rows (v_store S) c = Some (d, m) \<and> v_tier S \<noteq> None))
      \<and> (r = None \<longrightarrow> truncated c S \<or> st_rows (v_store S) c = None)"
    proof (cases r0)
      case (Some x)
      with None l g tidy_get [OF co g] full show ?thesis by (auto simp: lookupLocal_def clean_entry_def)
    next
      case N: None
      show ?thesis
      proof (cases "truncated c S \<or> st_rows (v_store S) c = None")
        case True
        with None N l g tidy_refl [OF co] show ?thesis
          by (auto simp: lookupLocal_def split: option.splits)
      next
        case False
        then obtain x n where x: "st_rows (v_store S) c = Some (x, n)" "\<not> truncated c S" by auto
        then have n: "blank_outside x n" "v_tier S = None \<Longrightarrow> n = FULL_MASK" using ro by (auto simp: rows_ok_def)
        have e: "clean_entry S (c, x)" if "n = FULL_MASK"
          using x that by (auto simp: clean_entry_def stored_def effective_simps)
        have "(if v_tier S = None then FULL_MASK else n) = n" using n(2) by simp
        with None N l g x have r: "r = Some (x, n)" "S1 = (if n = FULL_MASK then cache_put c x S else S)"
          by (auto simp: lookupLocal_def Let_def)
        show ?thesis
        proof (cases "n = FULL_MASK")
          case True
          with r x e [OF True] full tidy_put [OF co e [OF True]] show ?thesis by (auto simp: clean_entry_def)
        next
          case False
          with r x n tidy_refl [OF co] show ?thesis by auto
        qed
      qed
    qed
  qed
qed

subsection \<open>Dirty copies\<close>

lemma file_views [simp]:
  "stored (S\<lparr>v_file := f\<rparr>) = stored S" "slot_now (S\<lparr>v_file := f\<rparr>) = slot_now S"
  "segmentsOf (S\<lparr>v_file := f\<rparr>) = segmentsOf S" "slotInR2 c (S\<lparr>v_file := f\<rparr>) = slotInR2 c S"
  "rows_ok (S\<lparr>v_file := f\<rparr>) = rows_ok S" "tier_ok (S\<lparr>v_file := f\<rparr>) = tier_ok S" "snap_ok (S\<lparr>v_file := f\<rparr>) = snap_ok S"
proof -
  show g: "segmentsOf (S\<lparr>v_file := f\<rparr>) = segmentsOf S" by (simp add: segmentsOf_def)
  show n: "slot_now (S\<lparr>v_file := f\<rparr>) = slot_now S" by (simp add: fun_eq_iff slot_now_def g)
  show "stored (S\<lparr>v_file := f\<rparr>) = stored S" by (simp add: fun_eq_iff stored_def n)
  show "slotInR2 c (S\<lparr>v_file := f\<rparr>) = slotInR2 c S" by (simp add: slotInR2_def g)
  show "rows_ok (S\<lparr>v_file := f\<rparr>) = rows_ok S" "snap_ok (S\<lparr>v_file := f\<rparr>) = snap_ok S"
    by (simp_all add: rows_ok_def snap_ok_def n)
  show "tier_ok (S\<lparr>v_file := f\<rparr>) = tier_ok S"
    by (simp add: tier_ok_def split: option.split)
qed

lemma trunc_views:
  assumes "f_trunc f = f_trunc (v_file S)"
  shows "f_size f = f_size (v_file S) \<Longrightarrow> f_sizeDirty f = f_sizeDirty (v_file S) \<Longrightarrow> f_gen f = f_gen (v_file S)
      \<Longrightarrow> reach_ok n (S\<lparr>v_file := f\<rparr>) = reach_ok n S" "truncated c (S\<lparr>v_file := f\<rparr>) = truncated c S" "clean (S\<lparr>v_file := f\<rparr>) = clean S"
    "clean_entry (S\<lparr>v_file := f\<rparr>) = clean_entry S" "cache_ok (S\<lparr>v_file := f\<rparr>) = cache_ok S"
    "calm n (S\<lparr>v_file := f\<rparr>) = calm n S"
proof -
  show t: "truncated c (S\<lparr>v_file := f\<rparr>) = truncated c S" for c using assms by (simp add: truncated_def)
  show "f_size f = f_size (v_file S) \<Longrightarrow> f_sizeDirty f = f_sizeDirty (v_file S) \<Longrightarrow> f_gen f = f_gen (v_file S)
      \<Longrightarrow> reach_ok n (S\<lparr>v_file := f\<rparr>) = reach_ok n S" by (simp add: reach_ok_def t)
  show "clean (S\<lparr>v_file := f\<rparr>) = clean S" by (simp add: fun_eq_iff clean_def t)
  show e: "clean_entry (S\<lparr>v_file := f\<rparr>) = clean_entry S" by (simp add: fun_eq_iff clean_entry_def t)
  show "cache_ok (S\<lparr>v_file := f\<rparr>) = cache_ok S" by (simp add: cache_ok_def e)
  show "calm n (S\<lparr>v_file := f\<rparr>) = calm n S" using assms by (simp add: calm_def split: option.split)
qed

text \<open>
  What an operation on the file keeps while it only touches the cache, dirty copies and their bases; an
  internal move also keeps the bytes.
\<close>

definition kept :: "vfs \<Rightarrow> vfs \<Rightarrow> bool" where
  "kept S S' \<longleftrightarrow> v_store S' = v_store S \<and> v_objects S' = v_objects S \<and> v_tier S' = v_tier S
     \<and> v_snapshot S' = v_snapshot S \<and> v_epoch S' = v_epoch S \<and> v_pins S' = v_pins S \<and> v_misses S' = v_misses S
     \<and> v_capacity S' = v_capacity S
     \<and> (v_file S')\<lparr>f_dirty := [], f_base := (\<lambda>_. None)\<rparr> = (v_file S)\<lparr>f_dirty := [], f_base := (\<lambda>_. None)\<rparr>"

definition quiet :: "vfs \<Rightarrow> vfs \<Rightarrow> bool" where
  "quiet S S' \<longleftrightarrow> kept S S' \<and> (\<forall>c. \<forall>i < CHUNK_SIZE. current S' c i = current S c i)"

lemma kept_refl [simp]: "kept S S" and quiet_refl [simp]: "quiet S S"
  by (simp_all add: quiet_def kept_def)

lemma kept_trans: "kept S S' \<Longrightarrow> kept S' S'' \<Longrightarrow> kept S S''"
  by (simp add: kept_def)

lemma quiet_trans: "quiet S S' \<Longrightarrow> quiet S' S'' \<Longrightarrow> quiet S S''"
  by (auto simp: quiet_def intro: kept_trans)

lemma quiet_kept: "quiet S S' \<Longrightarrow> kept S S'"
  by (simp add: quiet_def)

lemma tidy_quiet: assumes "tidy S S'" shows "quiet S S'"
  using assms tidy_bytes(6) [OF assms] unfolding quiet_def kept_def tidy_def by auto

lemma kept_file:
  assumes "kept S S'"
  shows "f_size (v_file S') = f_size (v_file S)" "f_trunc (v_file S') = f_trunc (v_file S)"
    "f_spill (v_file S') = f_spill (v_file S)" "f_written (v_file S') = f_written (v_file S)"
    "f_gen (v_file S') = f_gen (v_file S)" "f_lock (v_file S') = f_lock (v_file S)"
    "f_sizeDirty (v_file S') = f_sizeDirty (v_file S)"
proof -
  have e: "(v_file S')\<lparr>f_dirty := [], f_base := (\<lambda>_. None)\<rparr> = (v_file S)\<lparr>f_dirty := [], f_base := (\<lambda>_. None)\<rparr>"
    using assms by (simp add: kept_def)
  show "f_size (v_file S') = f_size (v_file S)" "f_trunc (v_file S') = f_trunc (v_file S)"
    "f_spill (v_file S') = f_spill (v_file S)" "f_written (v_file S') = f_written (v_file S)"
    "f_gen (v_file S') = f_gen (v_file S)" "f_lock (v_file S') = f_lock (v_file S)"
    "f_sizeDirty (v_file S') = f_sizeDirty (v_file S)"
    using arg_cong [OF e, of f_size] arg_cong [OF e, of f_trunc] arg_cong [OF e, of f_spill] arg_cong [OF e, of f_written]
      arg_cong [OF e, of f_gen] arg_cong [OF e, of f_lock] arg_cong [OF e, of f_sizeDirty] by simp_all
qed

lemma kept_parts:
  assumes "kept S S'"
  shows "v_store S' = v_store S" "v_objects S' = v_objects S" "v_tier S' = v_tier S" "v_snapshot S' = v_snapshot S"
    "v_epoch S' = v_epoch S" "v_pins S' = v_pins S" "v_misses S' = v_misses S" "v_capacity S' = v_capacity S"
  using assms by (simp_all add: kept_def)

lemma kept_bytes:
  assumes "kept S S'"
  shows "segmentsOf S' = segmentsOf S" "stored S' = stored S" "slot_now S' = slot_now S"
    "slotInR2 c S' = slotInR2 c S" "truncated c S' = truncated c S" "clean S' = clean S" "calm n S' = calm n S"
    "clean_entry S' = clean_entry S" "reach_ok n S' = reach_ok n S"
proof -
  note q = kept_parts [OF assms] kept_file [OF assms]
  show g: "segmentsOf S' = segmentsOf S" by (simp add: segmentsOf_def q)
  show n: "slot_now S' = slot_now S" by (simp add: fun_eq_iff slot_now_def g q)
  show b: "stored S' = stored S" by (simp add: fun_eq_iff stored_def n q)
  show t: "truncated c S' = truncated c S" for c by (simp add: truncated_def q)
  show "slotInR2 c S' = slotInR2 c S" "clean S' = clean S" "calm n S' = calm n S" "clean_entry S' = clean_entry S"
    "reach_ok n S' = reach_ok n S"
    by (auto simp: slotInR2_def g fun_eq_iff clean_def t b clean_entry_def calm_def reach_ok_def q split: option.split)
qed

lemma quiet_current: "quiet S S' \<Longrightarrow> i < CHUNK_SIZE \<Longrightarrow> current S' c i = current S c i"
  by (simp add: quiet_def)

lemmas quiet_file = kept_file [OF quiet_kept]
lemmas quiet_parts = kept_parts [OF quiet_kept] quiet_current
lemmas quiet_bytes = kept_bytes [OF quiet_kept]

lemma current_at: "current S c i = (case dirty_of S c of None \<Rightarrow> clean S c i
    | Some (d, m) \<Rightarrow> if i div VFS_PAGE_SIZE \<in> m then d i else clean S c i)"
  by (simp add: current_def placeMasked_def split: option.split)

lemma calm_in:
  assumes "calm n S" "c * CHUNK_SIZE < n" "truncated c S"
  shows "v_snapshot S = None" "v_tier S = None"
proof -
  from assms(3) obtain k where k: "f_trunc (v_file S) = Some k" "k \<le> c * PAGES_PER_CHUNK"
    by (auto simp: truncated_def split: option.splits)
  then have "chunkFloor k * CHUNK_SIZE \<le> c * CHUNK_SIZE" by (simp add: chunkFloor_le)
  with assms(1,2) k show "v_snapshot S = None" "v_tier S = None" by (auto simp: calm_def)
qed

lemma set_dirty_views [simp]:
  "dirty_of (set_dirty c d m S) = (dirty_of S)(c \<mapsto> (d, m))" "v_store (set_dirty c d m S) = v_store S"
  "v_objects (set_dirty c d m S) = v_objects S" "v_tier (set_dirty c d m S) = v_tier S"
  "v_snapshot (set_dirty c d m S) = v_snapshot S" "v_epoch (set_dirty c d m S) = v_epoch S"
  "v_pins (set_dirty c d m S) = v_pins S" "v_cache (set_dirty c d m S) = v_cache S"
  "v_misses (set_dirty c d m S) = v_misses S" "v_capacity (set_dirty c d m S) = v_capacity S"
  "f_base (v_file (set_dirty c d m S)) = f_base (v_file S)" "f_size (v_file (set_dirty c d m S)) = f_size (v_file S)"
  "f_trunc (v_file (set_dirty c d m S)) = f_trunc (v_file S)"
  "stored (set_dirty c d m S) = stored S" "slot_now (set_dirty c d m S) = slot_now S" "clean (set_dirty c d m S) = clean S"
  "slotInR2 q (set_dirty c d m S) = slotInR2 q S" "truncated q (set_dirty c d m S) = truncated q S"
  "clean_entry (set_dirty c d m S) = clean_entry S" "calm n (set_dirty c d m S) = calm n S"
  "reach_ok n (set_dirty c d m S) = reach_ok n S"
  "cache_ok (set_dirty c d m S) = cache_ok S" "rows_ok (set_dirty c d m S) = rows_ok S"
  "tier_ok (set_dirty c d m S) = tier_ok S" "snap_ok (set_dirty c d m S) = snap_ok S"
  by (simp_all add: set_dirty_def trunc_views update_conv')

lemma set_base_views [simp]:
  "dirty_of (set_base c b S) = dirty_of S" "v_store (set_base c b S) = v_store S"
  "v_objects (set_base c b S) = v_objects S" "v_tier (set_base c b S) = v_tier S"
  "v_snapshot (set_base c b S) = v_snapshot S" "v_epoch (set_base c b S) = v_epoch S"
  "v_pins (set_base c b S) = v_pins S" "v_cache (set_base c b S) = v_cache S"
  "v_misses (set_base c b S) = v_misses S" "v_capacity (set_base c b S) = v_capacity S"
  "f_base (v_file (set_base c b S)) = (f_base (v_file S))(c \<mapsto> b)" "f_dirty (v_file (set_base c b S)) = f_dirty (v_file S)"
  "f_size (v_file (set_base c b S)) = f_size (v_file S)" "f_trunc (v_file (set_base c b S)) = f_trunc (v_file S)"
  "stored (set_base c b S) = stored S" "slot_now (set_base c b S) = slot_now S" "clean (set_base c b S) = clean S"
  "slotInR2 q (set_base c b S) = slotInR2 q S" "truncated q (set_base c b S) = truncated q S"
  "clean_entry (set_base c b S) = clean_entry S" "calm n (set_base c b S) = calm n S"
  "reach_ok n (set_base c b S) = reach_ok n S"
  "cache_ok (set_base c b S) = cache_ok S" "rows_ok (set_base c b S) = rows_ok S"
  "tier_ok (set_base c b S) = tier_ok S" "snap_ok (set_base c b S) = snap_ok S"
  by (simp_all add: set_base_def trunc_views)

lemma current_set_dirty [simp]: "current (set_dirty c d m S) = (current S)(c := placeMasked d m (clean S c))"
  by (auto simp: fun_eq_iff current_def split: option.split)

lemma current_set_base [simp]: "current (set_base c b S) = current S"
  by (auto simp: fun_eq_iff current_def split: option.split)

lemma set_dirty_file: "(v_file (set_dirty c d m S))\<lparr>f_dirty := [], f_base := x\<rparr> = (v_file S)\<lparr>f_dirty := [], f_base := x\<rparr>"
  "(v_file (set_base c b S))\<lparr>f_dirty := [], f_base := x\<rparr> = (v_file S)\<lparr>f_dirty := [], f_base := x\<rparr>"
  by (simp_all add: set_dirty_def set_base_def)

lemma dirty_distinct: "dirty_ok n S \<Longrightarrow> distinct (map fst (f_dirty (v_file (set_dirty c d m S))))"
  by (simp add: set_dirty_def dirty_ok_def distinct_update)

lemma blank_past_fun_upd:
  assumes "blank_past n B" "\<And>i. i < CHUNK_SIZE \<Longrightarrow> n \<le> c * CHUNK_SIZE + i \<Longrightarrow> d i = 0"
  shows "blank_past n (B(c := d))"
  unfolding blank_past_def
proof (intro allI impI)
  fix p assume p: "n \<le> p"
  show "(B(c := d)) (p div CHUNK_SIZE) (p mod CHUNK_SIZE) = 0"
  proof (cases "p div CHUNK_SIZE = c")
    case True
    have "c * CHUNK_SIZE + p mod CHUNK_SIZE = p" using div_mult_mod_eq [of p CHUNK_SIZE] True by simp
    with True assms(2) [of "p mod CHUNK_SIZE"] p CHUNK_SIZE_pos show ?thesis by simp
  next
    case False
    with assms(1) p show ?thesis by (simp add: blank_past_def)
  qed
qed

text \<open>A dirty chunk gets new bytes.\<close>

lemma vfs_at_set_dirty:
  assumes ok: "vfs_at n S" and b: "blank_outside d m" and c: "c * CHUNK_SIZE < n"
    and m: "m \<noteq> FULL_MASK \<Longrightarrow> v_tier S \<noteq> None \<and> \<not> truncated c S
      \<and> (\<forall>r m0. st_rows (v_store S) c = Some (r, m0) \<longrightarrow> m0 \<subseteq> m)"
    and z: "\<And>i. i < CHUNK_SIZE \<Longrightarrow> n \<le> c * CHUNK_SIZE + i \<Longrightarrow> placeMasked d m (clean S c) i = 0"
    and base: "v_snapshot S \<noteq> None \<Longrightarrow> \<not> truncated c S \<Longrightarrow> \<exists>b. f_base (v_file S) c = Some b
      \<and> (\<forall>i < CHUNK_SIZE. effective (Some (base_img b)) (slot_now S c) i = stored S c i)"
  shows "vfs_at n (set_dirty c d m S)"
proof (rule vfs_atI)
  note D = vfs_atD [OF ok]
  show "dirty_ok n (set_dirty c d m S)"
    using D(3) dirty_distinct [OF D(3)] b c m by (auto simp: dirty_ok_def split: if_splits)
  show "base_ok (set_dirty c d m S)" using D(9) base by (auto simp: base_ok_def)
  show "blank_past n (current (set_dirty c d m S))" unfolding current_set_dirty
    by (rule blank_past_fun_upd [OF D(7) z])
qed (use vfs_atD [OF ok] in simp_all)

lemma vfs_at_set_base:
  "vfs_at n S \<Longrightarrow> dirty_of S c = None \<Longrightarrow> vfs_at n (set_base c b S)"
  by (auto simp: vfs_at_def dirty_ok_def base_ok_def)

lemma quiet_set_dirty:
  assumes "\<And>i. i < CHUNK_SIZE \<Longrightarrow> placeMasked d m (clean S c) i = current S c i"
  shows "quiet S (set_dirty c d m S)"
  unfolding quiet_def kept_def using assms by (auto simp: set_dirty_file)

lemma clean_bytes: "\<not> truncated c S \<Longrightarrow> clean S c = stored S c"
  by (simp add: clean_def)

lemma stored_no_row: "st_rows (v_store S) c = None \<Longrightarrow> stored S c i = (case slot_now S c of None \<Rightarrow> 0 | Some b \<Rightarrow> b i)"
  by (simp add: stored_def effective_simps)

lemma stored_row: "st_rows (v_store S) c = Some (d, m) \<Longrightarrow>
    stored S c i = (if i div VFS_PAGE_SIZE \<in> m then d i else case slot_now S c of None \<Rightarrow> 0 | Some b \<Rightarrow> b i)"
  by (simp add: stored_def effective_simps)

lemma dirtyChunk_spec:
  assumes ok: "vfs_at n S" and c: "c * CHUNK_SIZE < n"
  shows "vfs_at n (dirtyChunk c S)" "quiet S (dirtyChunk c S)" "dirty_of (dirtyChunk c S) c \<noteq> None"
proof -
  have "vfs_at n (dirtyChunk c S) \<and> quiet S (dirtyChunk c S) \<and> dirty_of (dirtyChunk c S) c \<noteq> None"
  proof (cases "dirty_of S c")
    case None
    obtain r S1 where l: "lookupLocal c S = (r, S1)" by fastforce
    note L = lookupLocal_tidy [OF ok l]
    have ok1: "vfs_at n S1" by (rule tidy_ok [OF L(1) ok])
    note B = tidy_bytes [OF L(1)]
    have n1: "dirty_of S1 c = None" using None by (simp add: B)
    have sn: "v_snapshot S1 = v_snapshot S" by (rule tidy_view(3) [OF L(1)])
    have step: "vfs_at n (set_dirty c d m (set_base c b S1)) \<and> quiet S (set_dirty c d m (set_base c b S1))"
      if b: "blank_outside d m" and m: "m \<noteq> FULL_MASK \<Longrightarrow> v_tier S \<noteq> None \<and> \<not> truncated c S
            \<and> (\<forall>r m0. st_rows (v_store S) c = Some (r, m0) \<longrightarrow> m0 \<subseteq> m)"
        and e: "\<And>i. i < CHUNK_SIZE \<Longrightarrow> placeMasked d m (clean S c) i = clean S c i"
        and base: "v_snapshot S \<noteq> None \<Longrightarrow> \<not> truncated c S \<Longrightarrow>
          (\<forall>i < CHUNK_SIZE. effective (Some (base_img b)) (slot_now S c) i = stored S c i)" for d m b
    proof
      have cl: "current S c i = clean S c i" for i using None by (simp add: current_at)
      show "vfs_at n (set_dirty c d m (set_base c b S1))"
      proof (rule vfs_at_set_dirty [OF vfs_at_set_base [OF ok1 n1] b c])
        fix i assume i: "i < CHUNK_SIZE" "n \<le> c * CHUNK_SIZE + i"
        have "current S c i = 0" by (rule blank_chunk [OF vfs_atD(7) [OF ok] i])
        with e [OF i(1)] cl show "placeMasked d m (clean (set_base c b S1) c) i = 0" by (simp add: B)
      qed (use m base in \<open>auto simp: B sn\<close>)
      have "quiet S1 (set_base c b S1)" by (simp add: quiet_def kept_def set_dirty_file)
      moreover have "quiet (set_base c b S1) (set_dirty c d m (set_base c b S1))"
        by (rule quiet_set_dirty) (use e cl in \<open>simp add: B\<close>)
      ultimately show "quiet S (set_dirty c d m (set_base c b S1))"
        using tidy_quiet [OF L(1)] quiet_trans by blast
    qed
    show ?thesis
    proof (cases r)
      case (Some x)
      obtain d m where x: "x = (d, m)" by fastforce
      from L(2) Some x have r: "\<not> truncated c S" "blank_outside d m"
        "if m = FULL_MASK then \<forall>i < CHUNK_SIZE. d i = stored S c i
         else st_rows (v_store S) c = Some (d, m) \<and> v_tier S \<noteq> None" by auto
      have "vfs_at n (set_dirty c d m (set_base c (Known d m) S1)) \<and> quiet S (set_dirty c d m (set_base c (Known d m) S1))"
      proof (rule step [OF r(2)])
        show "placeMasked d m (clean S c) i = clean S c i" if "i < CHUNK_SIZE" for i
          using r that by (auto simp: placeMasked_def clean_bytes stored_row split: if_splits)
        show "\<forall>i < CHUNK_SIZE. effective (Some (base_img (Known d m))) (slot_now S c) i = stored S c i"
          using r by (auto simp: effective_simps stored_row split: if_splits)
      qed (use r in \<open>auto split: if_splits\<close>)
      moreover have "dirtyChunk c S = set_dirty c d m (set_base c (Known d m) S1)"
        using None l Some x by (simp add: dirtyChunk_def)
      ultimately show ?thesis by simp
    next
      case N: None
      define m where "m = (if slotInR2 c S then {} else FULL_MASK)"
      define b where "b = (if slotInR2 c S then Cold else Sparse)"
      have t: "\<not> truncated c S" if "slotInR2 c S" "v_tier S \<noteq> None"
        using calm_in [OF vfs_atD(5) [OF ok] c] that by blast
      have tier: "v_tier S \<noteq> None" if "slotInR2 c S"
        using that by (auto simp: slotInR2_def slot_in_def segmentsOf_def split: option.splits)
      have row: "truncated c S \<or> st_rows (v_store S) c = None" using L(3) N by simp
      note sl = slot_there [OF vfs_atD(4) [OF ok], of c]
      have "vfs_at n (set_dirty c zeros m (set_base c b S1)) \<and> quiet S (set_dirty c zeros m (set_base c b S1))"
      proof (rule step)
        show "blank_outside zeros m" by (simp add: blank_outside_def m_def)
        show "placeMasked zeros m (clean S c) i = clean S c i" if "i < CHUNK_SIZE" for i
        proof (cases "slotInR2 c S")
          case False
          with row sl that show ?thesis by (auto simp: m_def placeMasked_full clean_def stored_no_row)
        qed (simp add: m_def)
        show "\<forall>i < CHUNK_SIZE. effective (Some (base_img b)) (slot_now S c) i = stored S c i" if "\<not> truncated c S"
          using row sl that by (auto simp: b_def effective_simps stored_no_row)
        show "m \<noteq> FULL_MASK \<Longrightarrow> v_tier S \<noteq> None \<and> \<not> truncated c S
            \<and> (\<forall>r m0. st_rows (v_store S) c = Some (r, m0) \<longrightarrow> m0 \<subseteq> m)"
          using t tier row by (auto simp: m_def split: if_splits)
      qed
      moreover have "dirtyChunk c S = set_dirty c zeros m (set_base c b S1)"
        using None l N by (simp add: dirtyChunk_def m_def b_def Let_def B)
      ultimately show ?thesis by simp
    qed
  qed (use ok in \<open>simp add: dirtyChunk_def\<close>)
  then show "vfs_at n (dirtyChunk c S)" "quiet S (dirtyChunk c S)" "dirty_of (dirtyChunk c S) c \<noteq> None" by simp_all
qed

lemma fetched_tidy:
  assumes "cache_ok S" "fetched c S = (r, S1)"
  shows "tidy S S1" "r = Some d \<Longrightarrow> clean_entry S (c, d)" "r = None \<Longrightarrow> map_of (v_pins S) c = None"
proof -
  have p: "clean_entry S (c, d)" if "map_of (v_pins S) c = Some d" for d
    using assms(1) map_of_SomeD [OF that] by (auto simp: cache_ok_def)
  obtain r0 es where g: "cache_get c (v_cache S) = (r0, es)" by fastforce
  note G = tidy_get [OF assms(1) g]
  show "tidy S S1" "r = Some d \<Longrightarrow> clean_entry S (c, d)" "r = None \<Longrightarrow> map_of (v_pins S) c = None"
    using assms(2) p tidy_refl [OF assms(1)] G g by (auto simp: fetched_def split: option.splits)
qed

lemma current_dirty_full: "dirty_of S c = Some (d, FULL_MASK) \<Longrightarrow> i < CHUNK_SIZE \<Longrightarrow> current S c i = d i"
  by (simp add: current_at)

text \<open>What a load answers, and that it is an internal move.\<close>

definition load_fine :: "vfs \<Rightarrow> nat \<Rightarrow> pages \<Rightarrow> loaded \<Rightarrow> bool" where
  "load_fine S c wanted r \<longleftrightarrow> (case r of
     Chunk d \<Rightarrow> \<forall>i < CHUNK_SIZE. i div VFS_PAGE_SIZE \<in> wanted \<longrightarrow> d i = current S c i
   | Absent \<Rightarrow> \<forall>i < CHUNK_SIZE. current S c i = 0
   | ColdMiss \<Rightarrow> slotInR2 c S \<and> map_of (v_pins S) c = None
       \<and> map_option snd (st_rows (v_store S) c) \<noteq> Some FULL_MASK)"

lemma loadChunk_spec:
  assumes ok: "vfs_at n S" and c: "c * CHUNK_SIZE < n" and l: "loadChunk c wanted S = (r, S1)"
  shows "vfs_at n S1 \<and> quiet S S1 \<and> load_fine S c wanted r"
proof (cases "dirty_of S c")
  case (Some x)
  obtain d m where x: "x = (d, m)" by fastforce
  note D = vfs_atD [OF ok]
  from D(3) Some x have dm: "blank_outside d m"
      "m \<noteq> FULL_MASK \<Longrightarrow> v_tier S \<noteq> None \<and> \<not> truncated c S
           \<and> (\<forall>r m0. st_rows (v_store S) c = Some (r, m0) \<longrightarrow> m0 \<subseteq> m)"
    by (auto simp: dirty_ok_def)
  show ?thesis
  proof (cases "m = FULL_MASK")
    case True
    with l Some x ok show ?thesis by (auto simp: loadChunk_def load_fine_def current_at)
  next
    case False
    note part = dm(2) [OF False]
    obtain f S2 where f: "fetched c S = (f, S2)" by fastforce
    note F = fetched_tidy [OF D(1) f]
    have ok2: "vfs_at n S2" by (rule tidy_ok [OF F(1) ok])
    note B = tidy_bytes [OF F(1)]
    have base: "\<exists>b. f_base (v_file S2) c = Some b
      \<and> (\<forall>i < CHUNK_SIZE. effective (Some (base_img b)) (slot_now S2 c) i = stored S2 c i)"
      if "v_snapshot S2 \<noteq> None" "\<not> truncated c S2"
      using vfs_atD(9) [OF ok2] Some that by (auto simp: base_ok_def B)
    text \<open>The chunk is completed.\<close>
    have complete: "vfs_at n (set_dirty c d' FULL_MASK S2) \<and> quiet S (set_dirty c d' FULL_MASK S2)"
      if d': "\<And>i. i < CHUNK_SIZE \<Longrightarrow> d' i = current S c i" for d'
    proof
      show "vfs_at n (set_dirty c d' FULL_MASK S2)"
      proof (rule vfs_at_set_dirty [OF ok2 _ c _ _ base])
        fix i assume i: "i < CHUNK_SIZE" "n \<le> c * CHUNK_SIZE + i"
        from blank_chunk [OF D(7) i] i(1) d' show "placeMasked d' FULL_MASK (clean S2 c) i = 0" by (simp add: placeMasked_full)
      qed (simp_all add: blank_outside_def)
      have "quiet S2 (set_dirty c d' FULL_MASK S2)"
        by (rule quiet_set_dirty) (simp add: placeMasked_full d' B)
      with tidy_quiet [OF F(1)] quiet_trans show "quiet S (set_dirty c d' FULL_MASK S2)" by blast
    qed
    show ?thesis
    proof (cases f)
      case (Some cold)
      have e: "clean_entry S (c, cold)" using F(2) Some by simp
      let ?d = "placeMasked cold (FULL_MASK - m) d"
      have d': "?d i = current S c i" if "i < CHUNK_SIZE" for i
        using \<open>dirty_of S c = Some x\<close> x that e
        by (auto simp: current_at placeMasked_def clean_entry_def clean_bytes)
      have "r = Chunk ?d" "S1 = set_dirty c ?d FULL_MASK S2"
        using l \<open>dirty_of S c = Some x\<close> x False f Some by (simp_all add: loadChunk_def Let_def)
      with complete [OF d'] d' show ?thesis by (simp add: load_fine_def)
    next
      case N: None
      show ?thesis
      proof (cases "slotInR2 c S2")
        case False
        have nz: "clean S c i = 0" if "i < CHUNK_SIZE" "i div VFS_PAGE_SIZE \<notin> m" for i
        proof -
          have "slot_now S c = None" using False slot_there [OF D(4), of c] by (simp add: B)
          moreover have "blank_outside a b" if "st_rows (v_store S) c = Some (a, b)" for a b
            using D(2) that by (auto simp: rows_ok_def)
          ultimately show ?thesis using part that
            by (cases "st_rows (v_store S) c") (auto simp: clean_bytes stored_no_row stored_row blank_outside_def)
        qed
        have d': "d i = current S c i" if "i < CHUNK_SIZE" for i
          using \<open>dirty_of S c = Some x\<close> x that nz [OF that] dm(1) by (auto simp: current_at blank_outside_def)
        have "r = Chunk d" "S1 = set_dirty c d FULL_MASK S2"
          using l \<open>dirty_of S c = Some x\<close> x \<open>m \<noteq> FULL_MASK\<close> f N False by (simp_all add: loadChunk_def)
        with complete [OF d'] d' show ?thesis by (simp add: load_fine_def)
      next
        case True
        have "(if wanted \<subseteq> m then (Chunk d, S2) else (ColdMiss, S2)) = (r, S1)"
          using l \<open>dirty_of S c = Some x\<close> x False f N True by (simp add: loadChunk_def)
        then have r: "S1 = S2" "r = (if wanted \<subseteq> m then Chunk d else ColdMiss)" by (simp_all split: if_splits)
        have "st_rows (v_store S) c \<noteq> Some (a, FULL_MASK)" for a
          using part dm(1) False by (auto simp: blank_outside_def)
        then have "map_option snd (st_rows (v_store S) c) \<noteq> Some FULL_MASK" by auto
        with r \<open>dirty_of S c = Some x\<close> x True F(3) N tidy_quiet [OF F(1)] ok2 show ?thesis
          by (auto simp: load_fine_def current_at B)
      qed
    qed
  qed
next
  case None
  note D = vfs_atD [OF ok]
  obtain q S2 where q: "lookupLocal c S = (q, S2)" by fastforce
  note L = lookupLocal_tidy [OF ok q]
  have ok2: "vfs_at n S2" by (rule tidy_ok [OF L(1) ok])
  note B = tidy_bytes [OF L(1)]
  have cur: "current S c i = clean S c i" for i using None by (simp add: current_at)
  have unpinned: "map_of (v_pins S) c = None" if "q = None \<or> (\<exists>d m. q = Some (d, m) \<and> m \<noteq> FULL_MASK)"
    using q that by (auto simp: lookupLocal_def split: option.splits)
  show ?thesis
  proof (cases q)
    case N: None
    have r: "S1 = S2" "r = (if slotInR2 c S then ColdMiss else Absent)"
      using l None q N by (auto simp: loadChunk_def B split: if_splits)
    have nt: "\<not> truncated c S" if "slotInR2 c S"
    proof
      assume "truncated c S"
      then have "v_tier S = None" using calm_in [OF D(5) c] by blast
      with that show False by (simp add: slotInR2_def slot_in_def segmentsOf_def)
    qed
    have row: "truncated c S \<or> st_rows (v_store S) c = None" using L(3) N by simp
    have z: "current S c i = 0" if "\<not> slotInR2 c S" for i
      using row slot_there [OF D(4), of c] that by (auto simp: cur clean_def stored_no_row)
    show ?thesis using r z nt row ok2 tidy_quiet [OF L(1)] unpinned N by (auto simp: load_fine_def)
  next
    case (Some x)
    obtain d m where x: "x = (d, m)" by fastforce
    from L(2) Some x have L2: "\<not> truncated c S" "blank_outside d m"
        "if m = FULL_MASK then \<forall>i < CHUNK_SIZE. d i = stored S c i
         else st_rows (v_store S) c = Some (d, m) \<and> v_tier S \<noteq> None" by auto
    show ?thesis
    proof (cases "m = FULL_MASK")
      case True
      with l None q Some x L2 ok2 tidy_quiet [OF L(1)] show ?thesis
        by (auto simp: loadChunk_def load_fine_def cur clean_bytes)
    next
      case False
      show ?thesis
      proof (cases "slotInR2 c S")
        case True
        have r: "S1 = S2" "r = (if wanted \<subseteq> m then Chunk d else ColdMiss)"
          using l None q Some x False True by (simp_all add: loadChunk_def B split: if_splits)
        with L2 False True ok2 tidy_quiet [OF L(1)] unpinned Some x show ?thesis
          by (auto simp: load_fine_def cur clean_bytes stored_row)
      next
        case N: False
        have r: "S1 = cache_put c d S2" "r = Chunk d"
          using l None q Some x False N by (auto simp: loadChunk_def B)
        have "slot_now S c = None" using N slot_there [OF D(4), of c] by simp
        then have e: "d i = stored S c i" if "i < CHUNK_SIZE" for i
          using L2 False that by (auto simp: stored_row blank_outside_def)
        then have "clean_entry S2 (c, d)" using L2 by (simp add: B clean_entry_def)
        from tidy_put [OF vfs_atD(1) [OF ok2] this] r tidy_trans [OF L(1)] have t: "tidy S S1" by simp
        from t tidy_ok [OF t ok] tidy_quiet [OF t] r e L2 show ?thesis
          by (auto simp: load_fine_def cur clean_bytes)
      qed
    qed
  qed
qed

end
