(* ===== verification/Vfs_Refinement.thy ===== *)
theory Vfs_Refinement
  imports Vfs_Content
begin

text \<open>
  The file as SQLite and the runtime may think of it: a size and the bytes, the current ones and the
  saved ones. The operations of \<open>Do_Vfs\<close> refine the operations on it, and everything the VFS does
  behind them (caching, cold misses, eviction to the bucket, maintenance) leaves it as it is.
\<close>

subsection \<open>The abstract file\<close>

type_synonym afile = "nat \<times> (nat \<Rightarrow> byte)"

definition a_read :: "nat \<Rightarrow> nat \<Rightarrow> afile \<Rightarrow> byte list" where
  "a_read off len a = map (snd a) [off..<off + len]"

definition a_write :: "nat \<Rightarrow> byte list \<Rightarrow> afile \<Rightarrow> afile" where
  "a_write off bs a = (max (fst a) (off + length bs),
     \<lambda>p. if off \<le> p \<and> p < off + length bs then bs ! (p - off) else snd a p)"

definition a_truncate :: "nat \<Rightarrow> afile \<Rightarrow> afile" where
  "a_truncate n a = (if n \<ge> fst a then a else (n, \<lambda>p. if p < n then snd a p else 0))"

definition flat :: "(nat \<Rightarrow> buf) \<Rightarrow> nat \<Rightarrow> byte" where
  "flat B p = B (p div CHUNK_SIZE) (p mod CHUNK_SIZE)"

definition content :: "vfs \<Rightarrow> afile" where
  "content S = (f_size (v_file S), flat (current S))"

definition saved :: "vfs \<Rightarrow> afile" where
  "saved S = (st_size (v_store S), flat (stored S))"

lemma mod_chunk [simp]: "p mod CHUNK_SIZE < CHUNK_SIZE"
  using CHUNK_SIZE_pos by simp

lemma flat_cong: "(\<And>c i. i < CHUNK_SIZE \<Longrightarrow> A c i = B c i) \<Longrightarrow> flat A = flat B"
  by (simp add: flat_def fun_eq_iff)

lemma flat_chunk: "i < CHUNK_SIZE \<Longrightarrow> flat B (c * CHUNK_SIZE + i) = B c i"
  by (simp add: flat_def)

lemma quiet_content: "quiet S S' \<Longrightarrow> content S' = content S \<and> saved S' = saved S"
  using flat_cong [of "current S'" "current S"]
  by (simp add: content_def saved_def quiet_parts quiet_file quiet_bytes)

subsection \<open>Reading\<close>

lemma round_bounds:
  fixes pos stop :: nat
  assumes "pos < stop"
  defines "c \<equiv> pos div CHUNK_SIZE"
  defines "i \<equiv> pos - c * CHUNK_SIZE"
  defines "k \<equiv> min (CHUNK_SIZE - i) (stop - pos)"
  shows "i < CHUNK_SIZE" "pos = c * CHUNK_SIZE + i" "0 < k" "i + k \<le> CHUNK_SIZE" "pos + k \<le> stop"
proof -
  show i: "i < CHUNK_SIZE" unfolding i_def c_def by (rule in_chunk_less)
  show "pos = c * CHUNK_SIZE + i" unfolding i_def c_def by simp
  show "0 < k" "i + k \<le> CHUNK_SIZE" "pos + k \<le> stop" using i assms(1) unfolding k_def by auto
qed

lemma pagesOf_covers: "from \<le> i \<Longrightarrow> i < from + k \<Longrightarrow> i div VFS_PAGE_SIZE \<in> pagesOf from k"
  unfolding pagesOf_def by (auto intro: div_le_mono)

definition missed :: "vfs \<Rightarrow> nat \<Rightarrow> bool" where
  "missed S c \<longleftrightarrow> slotInR2 c S \<and> map_of (v_pins S) c = None \<and> map_option snd (st_rows (v_store S) c) \<noteq> Some FULL_MASK"

lemma missed_quiet: "quiet S S' \<Longrightarrow> missed S' c = missed S c"
  by (simp add: missed_def quiet_parts quiet_bytes)

definition round_part :: "loaded \<Rightarrow> nat \<Rightarrow> nat \<Rightarrow> byte list" where
  "round_part x i k = (case x of Chunk d \<Rightarrow> map d [i..<i + k] | _ \<Rightarrow> replicate k 0)"

lemma read_loop_round:
  assumes "pos < stop" and l: "loadChunk c (pagesOf i k) S = (x, S2)"
    and d: "c = pos div CHUNK_SIZE" "i = pos - c * CHUNK_SIZE" "k = min (CHUNK_SIZE - i) (stop - pos)"
  shows "read_loop pos stop S = (if x = ColdMiss then (Inl c, S2)
    else (case read_loop (pos + k) stop S2 of
        (Inl m, S3) \<Rightarrow> (Inl m, S3)
      | (Inr rest, S3) \<Rightarrow> (Inr (round_part x i k @ rest), S3)))"
proof -
  have "read_loop pos stop S = (case loadChunk c (pagesOf i k) S of
            (ColdMiss, S1) \<Rightarrow> (Inl c, S1)
          | (r, S1) \<Rightarrow>
              (case read_loop (pos + k) stop S1 of
                    (Inl m, S2) \<Rightarrow> (Inl m, S2)
                  | (Inr rest, S2) \<Rightarrow> (Inr (round_part r i k @ rest), S2)))"
    unfolding read_loop.simps [of pos stop S] Let_def d round_part_def using assms(1) by (simp only: if_False not_le [symmetric])
  then show ?thesis unfolding l
    by (cases x; cases "read_loop (pos + k) stop S2") (simp_all split: sum.split)
qed

lemma read_loop_spec:
  assumes "vfs_at n S" "stop \<le> n" "read_loop pos stop S = (r, S1)"
  shows "vfs_at n S1 \<and> quiet S S1 \<and> (case r of
      Inr bs \<Rightarrow> bs = map (flat (current S)) [pos..<stop]
    | Inl c \<Rightarrow> missed S c \<and> c * CHUNK_SIZE < stop \<and> pos div CHUNK_SIZE \<le> c)"
  using assms
proof (induction pos stop S arbitrary: r S1 rule: read_loop.induct)
  case (1 pos stop S)
  show ?case
  proof (cases "stop \<le> pos")
    case True
    then have "r = Inr []" "S1 = S" using "1.prems"(3) by (simp_all add: read_loop.simps [of pos stop S])
    with True "1.prems"(1) show ?thesis by simp
  next
    case False
    define c i where "c = pos div CHUNK_SIZE" and "i = pos - c * CHUNK_SIZE"
    define k where "k = min (CHUNK_SIZE - i) (stop - pos)"
    have b: "i < CHUNK_SIZE" "pos = c * CHUNK_SIZE + i" "0 < k" "i + k \<le> CHUNK_SIZE" "pos + k \<le> stop"
      using round_bounds [of pos stop] False unfolding k_def i_def c_def by auto
    obtain x S2 where l: "loadChunk c (pagesOf i k) S = (x, S2)" by fastforce
    have cn: "c * CHUNK_SIZE < n" using b "1.prems"(2) by linarith
    note L = loadChunk_spec [OF "1.prems"(1) cn l]
    have eq: "(r, S1) = (if x = ColdMiss then (Inl c, S2)
      else (case read_loop (pos + k) stop S2 of
          (Inl m, S3) \<Rightarrow> (Inl m, S3)
        | (Inr rest, S3) \<Rightarrow> (Inr (round_part x i k @ rest), S3)))"
      using read_loop_round [OF _ l c_def i_def k_def] False "1.prems"(3) by simp
    show ?thesis
    proof (cases "x = ColdMiss")
      case True
      with eq have "r = Inl c" "S1 = S2" by simp_all
      moreover have "c * CHUNK_SIZE < stop" "pos div CHUNK_SIZE \<le> c" using b by (linarith, simp add: c_def)
      ultimately show ?thesis using L True by (simp add: load_fine_def missed_def)
    next
      case hit: False
      define part where "part = round_part x i k"
      obtain r2 S3 where rest: "read_loop (pos + k) stop S2 = (r2, S3)" by fastforce
      have e: "(case r2 of Inl m \<Rightarrow> (Inl m, S3) | Inr rest \<Rightarrow> (Inr (part @ rest), S3)) = (r, S1)"
        using eq hit rest by (simp add: part_def split: sum.splits)
      have IH: "vfs_at n S3 \<and> quiet S2 S3 \<and> (case r2 of
          Inr bs \<Rightarrow> bs = map (flat (current S2)) [pos + k..<stop]
        | Inl c \<Rightarrow> missed S2 c \<and> c * CHUNK_SIZE < stop \<and> (pos + k) div CHUNK_SIZE \<le> c)"
      proof (cases x)
        case (Chunk d)
        show ?thesis
          by (rule "1.IH"(1)) (use False l L "1.prems"(2) rest Chunk in \<open>auto simp: c_def i_def k_def\<close>)
      next
        case Absent
        show ?thesis
          by (rule "1.IH"(2)) (use False l L "1.prems"(2) rest Absent in \<open>auto simp: c_def i_def k_def\<close>)
      qed (use hit in simp)
      have fl: "flat (current S2) = flat (current S)" by (rule flat_cong) (use L in \<open>simp add: quiet_parts\<close>)
      have "part = map (flat (current S)) [pos..<pos + k]"
      proof (rule nth_equalityI)
        show "length part = length (map (flat (current S)) [pos..<pos + k])" by (cases x) (simp_all add: part_def round_part_def)
        fix j assume j: "j < length part"
        then have jk: "j < k" by (cases x) (simp_all add: part_def round_part_def)
        have "flat (current S) (pos + j) = current S c (i + j)"
          using flat_chunk [of "i + j" "current S" c] b jk by (simp add: add.assoc)
        moreover have "part ! j = current S c (i + j)"
          using L hit jk b pagesOf_covers [of i "i + j" k] by (cases x) (auto simp: part_def round_part_def load_fine_def)
        ultimately show "part ! j = map (flat (current S)) [pos..<pos + k] ! j" using jk by simp
      qed
      moreover have "[pos..<stop] = [pos..<pos + k] @ [pos + k..<stop]"
        using b upt_add_eq_append [of pos "pos + k" "stop - (pos + k)"] by simp
      moreover have "pos div CHUNK_SIZE \<le> (pos + k) div CHUNK_SIZE" by (simp add: div_le_mono)
      ultimately show ?thesis
        using e IH L fl missed_quiet [of S S2] quiet_trans [of S S2 S3] by (cases r2) auto
    qed
  qed
qed

text \<open>
  A read is the read of the abstract file, short when it passes the end, or it misses a chunk that only
  the bucket holds; the file stays as it is.
\<close>

lemma xRead_spec:
  assumes ok: "vfs_ok S" and x: "xRead off want S = (code, bs, S')"
  shows "vfs_ok S' \<and> content S' = content S \<and> saved S' = saved S \<and>
    (if code = SQLITE_IOERR_READ then \<exists>c. missed S c \<and> c \<in> set (v_misses S')
         \<and> off div CHUNK_SIZE \<le> c \<and> c * CHUNK_SIZE < min (off + want) (fst (content S))
     else bs = a_read off want (content S)
       \<and> code = (if off + want \<le> fst (content S) \<or> want = 0 then SQLITE_OK else SQLITE_IOERR_SHORT_READ))"
proof -
  define n where "n = f_size (v_file S)"
  define av where "av = min want (n - off)"
  have ok': "vfs_at n S" using ok by (simp add: n_def)
  obtain r S1 where l: "read_loop off (off + av) S = (r, S1)" by fastforce
  have R: "vfs_at n S1 \<and> quiet S S1 \<and> (case r of
      Inr bs \<Rightarrow> bs = map (flat (current S)) [off..<off + av]
    | Inl c \<Rightarrow> missed S c \<and> c * CHUNK_SIZE < off + av \<and> off div CHUNK_SIZE \<le> c \<and> off + av \<le> n)"
  proof (cases "av = 0")
    case True
    then have "r = Inr [] \<and> S1 = S" using l by (simp add: read_loop.simps [of off])
    with True ok' show ?thesis by simp
  next
    case False
    then have le: "off + av \<le> n" unfolding av_def by linarith
    from read_loop_spec [OF ok' this l] le show ?thesis by (simp split: sum.splits)
  qed
  have same: "content S1 = content S" "saved S1 = saved S" "f_size (v_file S1) = n"
    using R quiet_content [of S S1] quiet_file(1) [of S S1] by (simp_all add: n_def)
  have n: "fst (content S) = n" by (simp add: content_def n_def)
  show ?thesis
  proof (cases r)
    case (Inl c)
    have e: "code = SQLITE_IOERR_READ" "S' = miss c S1"
      using x l Inl by (simp_all add: xRead_def Let_def n_def [symmetric] av_def [symmetric])
    have sv: "same_view S1 S'" unfolding e miss_def by simp
    have "vfs_at n S'"
      by (rule same_view_ok [OF sv]) (use R in \<open>simp_all add: e miss_def vfs_at_def cache_ok_def\<close>)
    moreover have "content S' = content S1" "saved S' = saved S1" "f_size (v_file S') = n"
      using same by (simp_all add: content_def saved_def same_view_bytes [OF sv])
    moreover have "c * CHUNK_SIZE < min (off + want) n"
      using R Inl by (auto simp: av_def)
    moreover have "c \<in> set (v_misses S')" by (simp add: e miss_def)
    ultimately show ?thesis using R Inl same e by (auto simp: n)
  next
    case (Inr b)
    have e: "code = (if av < want then SQLITE_IOERR_SHORT_READ else SQLITE_OK)"
        "bs = b @ replicate (want - av) 0" "S' = S1"
      using x l Inr by (auto simp: xRead_def Let_def n_def [symmetric] av_def [symmetric])
    have z: "snd (content S) p = 0" if "n \<le> p" for p
      using vfs_atD(7) [OF ok'] that by (simp add: content_def flat_def blank_past_def)
    have "[off..<off + want] = [off..<off + av] @ [off + av..<off + want]"
      using upt_add_eq_append [of off "off + av" "want - av"] by (simp add: av_def)
    moreover have "map (snd (content S)) [off + av..<off + want] = replicate (want - av) 0"
      by (rule nth_equalityI) (use z in \<open>auto simp: av_def\<close>)
    ultimately have "bs = a_read off want (content S)"
      using R Inr e by (simp add: a_read_def content_def)
    moreover have "av < want \<longleftrightarrow> \<not> (off + want \<le> n \<or> want = 0)" by (auto simp: av_def)
    ultimately show ?thesis using e R same n by (simp split: if_splits)
  qed
qed

end
