(* ===== verification/Vfs_Writes.thy ===== *)
theory Vfs_Writes
  imports Vfs_Refinement
begin

text \<open>
  Writing and truncating: they refine the write and the truncation of the abstract file, on dirty copies
  only. With a tier SQLite writes whole pages, as the code checks.
\<close>

subsection \<open>Writing\<close>

text \<open>Whole pages of \<open>n\<close> bytes at \<open>off\<close>.\<close>

definition paged :: "nat \<Rightarrow> nat \<Rightarrow> bool" where
  "paged off n \<longleftrightarrow> off mod VFS_PAGE_SIZE = 0 \<and> n mod VFS_PAGE_SIZE = 0"

lemma page_range:
  assumes "paged i n"
  shows "j div VFS_PAGE_SIZE \<in> {i div VFS_PAGE_SIZE..<(i + n) div VFS_PAGE_SIZE} \<longleftrightarrow> i \<le> j \<and> j < i + n"
proof -
  obtain a b where ab: "i = a * VFS_PAGE_SIZE" "n = b * VFS_PAGE_SIZE"
    using assms unfolding paged_def by (metis mod_0_imp_dvd dvd_def mult.commute)
  have e: "(i + n) div VFS_PAGE_SIZE = a + b" "i div VFS_PAGE_SIZE = a" "i + n = (a + b) * VFS_PAGE_SIZE"
    using VFS_PAGE_SIZE_pos by (simp_all add: ab flip: distrib_right)
  have "a \<le> j div VFS_PAGE_SIZE \<longleftrightarrow> i \<le> j" using VFS_PAGE_SIZE_pos by (simp add: ab less_eq_div_iff_mult_less_eq)
  moreover have "j div VFS_PAGE_SIZE < a + b \<longleftrightarrow> j < i + n"
    using VFS_PAGE_SIZE_pos by (simp add: e(3) div_less_iff_less_mult)
  ultimately show ?thesis by (simp add: e)
qed

lemma write_chunk_spec:
  assumes ok: "vfs_at N S" and bs: "bs \<noteq> []" "i + length bs \<le> CHUNK_SIZE" "c * CHUNK_SIZE + i + length bs \<le> N"
    and page: "v_tier S = None \<or> paged i (length bs)"
  obtains S1 where "write_chunk c i bs S = (True, S1)" "vfs_at N S1" "kept S S1"
    "\<And>q j. j < CHUNK_SIZE \<Longrightarrow>
       current S1 q j = (if q = c \<and> i \<le> j \<and> j < i + length bs then bs ! (j - i) else current S q j)"
proof -
  define S0 where "S0 = dirtyChunk c S"
  have cN: "c * CHUNK_SIZE < N" using bs by (cases bs) auto
  have ok0: "vfs_at N S0" and q0: "quiet S S0" and "dirty_of S0 c \<noteq> None"
    using dirtyChunk_spec [OF ok cN] by (simp_all add: S0_def)
  then obtain d m where dm: "dirty_of S0 c = Some (d, m)" by auto
  note D = vfs_atD [OF ok0]
  have tier: "v_tier S0 = v_tier S" using q0 by (rule quiet_parts(3))
  have old: "blank_outside d m" "m \<noteq> FULL_MASK \<Longrightarrow> v_tier S0 \<noteq> None \<and> \<not> truncated c S0
      \<and> (\<forall>r m0. st_rows (v_store S0) c = Some (r, m0) \<longrightarrow> m0 \<subseteq> m)"
    using D(3) dm by (auto simp: dirty_ok_def)
  define new where "new = {i div VFS_PAGE_SIZE..<(i + length bs) div VFS_PAGE_SIZE}"
  define m' where "m' = (if m = FULL_MASK then m else m \<union> new)"
  define S1 where "S1 = set_dirty c (overlay i bs d) m' S0"
  have part: "paged i (length bs)" if "m \<noteq> FULL_MASK" using that old page tier by auto
  have w: "write_chunk c i bs S = (True, S1)"
    using dm part by (auto simp: write_chunk_def S0_def [symmetric] Let_def S1_def m'_def new_def paged_def)
  have inn: "j div VFS_PAGE_SIZE \<in> new \<longleftrightarrow> i \<le> j \<and> j < i + length bs" if "m \<noteq> FULL_MASK" for j
    unfolding new_def by (rule page_range [OF part [OF that]])
  have byte: "placeMasked (overlay i bs d) m' (clean S0 c) j
      = (if i \<le> j \<and> j < i + length bs then bs ! (j - i) else current S0 c j)" if "j < CHUNK_SIZE" for j
    using that dm inn [of j] by (auto simp: placeMasked_def overlay_def m'_def current_at)
  have "m' \<subseteq> FULL_MASK"
  proof (cases "m = FULL_MASK")
    case False
    have "p < PAGES_PER_CHUNK" if p: "p \<in> new" for p
    proof -
      have "p < (i + length bs) div VFS_PAGE_SIZE" using p by (simp add: new_def)
      also have "\<dots> \<le> CHUNK_SIZE div VFS_PAGE_SIZE" using bs(2) by (rule div_le_mono)
      finally show ?thesis using VFS_PAGE_SIZE_pos by (simp add: CHUNK_SIZE_def)
    qed
    then show ?thesis using old(1) False by (auto simp: m'_def blank_outside_def FULL_MASK_def)
  qed (simp add: m'_def)
  then have bo: "blank_outside (overlay i bs d) m'"
    using old(1) inn by (auto simp: blank_outside_def overlay_def m'_def split: if_splits)
  have "vfs_at N S1" unfolding S1_def
  proof (rule vfs_at_set_dirty [OF ok0 bo cN])
    show "v_tier S0 \<noteq> None \<and> \<not> truncated c S0 \<and> (\<forall>r m0. st_rows (v_store S0) c = Some (r, m0) \<longrightarrow> m0 \<subseteq> m')"
      if "m' \<noteq> FULL_MASK" using that old(2) by (auto simp: m'_def split: if_splits)
    show "placeMasked (overlay i bs d) m' (clean S0 c) j = 0" if j: "j < CHUNK_SIZE" "N \<le> c * CHUNK_SIZE + j" for j
    proof -
      have "current S0 c j = 0" by (rule blank_chunk [OF D(7) j])
      with byte [OF j(1)] j(2) bs(3) show ?thesis by simp
    qed
    show "\<exists>b. f_base (v_file S0) c = Some b
        \<and> (\<forall>i < CHUNK_SIZE. effective (Some (base_img b)) (slot_now S0 c) i = stored S0 c i)"
      if "v_snapshot S0 \<noteq> None" "\<not> truncated c S0" using D(9) that dm by (auto simp: base_ok_def)
  qed
  moreover have "kept S0 S1" by (simp add: kept_def S1_def set_dirty_file)
  then have "kept S S1" by (rule kept_trans [OF quiet_kept [OF q0]])
  moreover have "current S1 q j = (if q = c \<and> i \<le> j \<and> j < i + length bs then bs ! (j - i) else current S q j)"
    if "j < CHUNK_SIZE" for q j using byte [OF that] quiet_current [OF q0 that] by (simp add: S1_def)
  ultimately show thesis using that w by blast
qed

lemma write_loop_round:
  assumes "bs \<noteq> []" and w: "write_chunk c i (take k bs) S = (True, S1)"
    and d: "c = pos div CHUNK_SIZE" "i = pos - c * CHUNK_SIZE" "k = min (CHUNK_SIZE - i) (length bs)"
  shows "write_loop pos bs S = write_loop (pos + k) (drop k bs) S1"
  using assms(1) w unfolding write_loop.simps [of pos bs S] Let_def d by simp

lemma round_paged:
  assumes "paged pos n" "i = pos - pos div CHUNK_SIZE * CHUNK_SIZE" "k = min (CHUNK_SIZE - i) n"
  shows "paged i k" "paged (pos + k) (n - k)"
proof -
  have c: "VFS_PAGE_SIZE dvd CHUNK_SIZE" by (simp add: CHUNK_SIZE_def)
  have p: "VFS_PAGE_SIZE dvd pos" "VFS_PAGE_SIZE dvd n" using assms(1) by (auto simp: paged_def mod_eq_0_iff_dvd)
  have i: "VFS_PAGE_SIZE dvd i" unfolding assms(2) by (rule dvd_diff_nat) (use p c in simp_all)
  have k: "VFS_PAGE_SIZE dvd k" unfolding assms(3) using i p c by (simp add: min_def)
  show "paged i k" "paged (pos + k) (n - k)" using i k p by (simp_all add: paged_def)
qed

lemma write_loop_spec:
  assumes "vfs_at N S" "pos + length bs \<le> N" "v_tier S = None \<or> paged pos (length bs)"
  shows "\<exists>S1. write_loop pos bs S = (True, S1) \<and> vfs_at N S1 \<and> kept S S1
    \<and> (\<forall>p. flat (current S1) p = (if pos \<le> p \<and> p < pos + length bs then bs ! (p - pos) else flat (current S) p))"
  using assms
proof (induction "length bs" arbitrary: pos bs S rule: less_induct)
  case less
  show ?case
  proof (cases "bs = []")
    case True
    then have "write_loop pos bs S = (True, S)" by (subst write_loop.simps) simp
    with True less.prems(1) show ?thesis by (auto intro!: exI [of _ S])
  next
    case False
    define c i where "c = pos div CHUNK_SIZE" and "i = pos - c * CHUNK_SIZE"
    define k where "k = min (CHUNK_SIZE - i) (length bs)"
    have i: "i < CHUNK_SIZE" unfolding i_def c_def by (rule in_chunk_less)
    have pos: "pos = c * CHUNK_SIZE + i" unfolding i_def c_def by simp
    have k: "0 < k" "k \<le> length bs" "i + k \<le> CHUNK_SIZE" "length (take k bs) = k" using i False by (auto simp: k_def)
    have pg: "v_tier S = None \<or> paged i k \<and> paged (pos + k) (length bs - k)"
      using less.prems(3) round_paged [of pos "length bs" i k] by (auto simp: i_def c_def k_def)
    obtain S1 where S1: "write_chunk c i (take k bs) S = (True, S1)" "vfs_at N S1" "kept S S1"
      "\<And>q j. j < CHUNK_SIZE \<Longrightarrow>
         current S1 q j = (if q = c \<and> i \<le> j \<and> j < i + k then take k bs ! (j - i) else current S q j)"
      by (rule write_chunk_spec [OF less.prems(1), of "take k bs" i c]) (use False k pg less.prems(2) pos in auto)
    have fl: "flat (current S1) p = (if pos \<le> p \<and> p < pos + k then bs ! (p - pos) else flat (current S) p)" for p
    proof -
      have "p div CHUNK_SIZE = c \<and> i \<le> p mod CHUNK_SIZE \<and> p mod CHUNK_SIZE < i + k \<longleftrightarrow> pos \<le> p \<and> p < pos + k"
      proof
        assume "p div CHUNK_SIZE = c \<and> i \<le> p mod CHUNK_SIZE \<and> p mod CHUNK_SIZE < i + k"
        then show "pos \<le> p \<and> p < pos + k" using div_mult_mod_eq [of p CHUNK_SIZE] pos by auto
      next
        assume p: "pos \<le> p \<and> p < pos + k"
        then obtain j where j: "p = c * CHUNK_SIZE + j" "i \<le> j" "j < i + k"
          using pos by (metis add.assoc le_add1 le_iff_add nat_add_left_cancel_less)
        with k(3) show "p div CHUNK_SIZE = c \<and> i \<le> p mod CHUNK_SIZE \<and> p mod CHUNK_SIZE < i + k" by simp
      qed
      moreover have "p mod CHUNK_SIZE - i = p - pos" if "p div CHUNK_SIZE = c"
        using div_mult_mod_eq [of p CHUNK_SIZE] pos unfolding that by linarith
      ultimately show ?thesis using S1(4) [of "p mod CHUNK_SIZE" "p div CHUNK_SIZE"] by (auto simp: flat_def)
    qed
    have "\<exists>S2. write_loop (pos + k) (drop k bs) S1 = (True, S2) \<and> vfs_at N S2 \<and> kept S1 S2
      \<and> (\<forall>p. flat (current S2) p = (if pos + k \<le> p \<and> p < pos + k + length (drop k bs)
            then drop k bs ! (p - (pos + k)) else flat (current S1) p))"
      by (rule less.hyps) (use k False less.prems(2) S1 pg kept_parts(3) [OF S1(3)] in auto)
    then obtain S2 where S2: "write_loop (pos + k) (drop k bs) S1 = (True, S2)" "vfs_at N S2" "kept S1 S2"
      "\<And>p. flat (current S2) p = (if pos + k \<le> p \<and> p < pos + k + length (drop k bs)
            then drop k bs ! (p - (pos + k)) else flat (current S1) p)" by blast
    have "write_loop pos bs S = (True, S2)"
      using write_loop_round [OF False S1(1) c_def i_def k_def] S2(1) by simp
    moreover have "flat (current S2) p = (if pos \<le> p \<and> p < pos + length bs then bs ! (p - pos) else flat (current S) p)" for p
      using k(2) by (auto simp: S2(4) fl)
    ultimately show ?thesis using S2 kept_trans [OF S1(3) S2(3)] by blast
  qed
qed

subsection \<open>Truncating\<close>

lemma vfs_at_lower:
  assumes "vfs_at n S" "k \<le> n" "blank_past k (current S)" "\<And>c. dirty_of S c \<noteq> None \<Longrightarrow> c * CHUNK_SIZE < k"
    and "reach_ok k S"
  shows "vfs_at k S"
proof (rule vfs_atI)
  note D = vfs_atD [OF assms(1)]
  show "dirty_ok k S" using D(3) assms(4) by (fastforce simp: dirty_ok_def)
  show "calm k S" using D(5) assms(2) by (auto simp: calm_def split: option.splits)
qed (use vfs_atD [OF assms(1)] assms in simp_all)

lemma dropFrom_map_of: "map_of (dropFrom k es) c = (if c < k then map_of es c else None)"
  unfolding dropFrom_def by (induction es) (auto split: if_splits)

lemma dropFrom_distinct: "distinct (map fst es) \<Longrightarrow> distinct (map fst (dropFrom k es))"
  by (simp add: dropFrom_def distinct_map_filter)

lemma chunkFloor_pages: "chunkFloor (ceil_div n VFS_PAGE_SIZE) \<le> c \<longleftrightarrow> n \<le> c * CHUNK_SIZE"
  by (simp add: chunkFloor_le ceil_div_le VFS_PAGE_SIZE_pos CHUNK_SIZE_def ac_simps)

text \<open>The file cut to \<open>n\<close> bytes, before the zeros behind them in the last chunk.\<close>

definition cut :: "nat \<Rightarrow> vfs \<Rightarrow> vfs" where
  "cut n S =
    (let f = v_file S; keepPages = ceil_div n VFS_PAGE_SIZE; keepChunks = chunkFloor keepPages
     in S\<lparr>v_file := f\<lparr>f_dirty := dropFrom keepChunks (f_dirty f),
                    f_base := (\<lambda>c. if c \<ge> keepChunks \<and> map_of (f_dirty f) c \<noteq> None then None else f_base f c),
                    f_trunc := Some (case f_trunc f of None \<Rightarrow> keepPages | Some k \<Rightarrow> min k keepPages),
                    f_size := n, f_sizeDirty := True\<rparr>,
                  v_cache := dropFrom keepChunks (v_cache S), v_pins := dropFrom keepChunks (v_pins S)\<rparr>)"

lemma cut_parts:
  "v_store (cut n S) = v_store S" "v_objects (cut n S) = v_objects S" "v_tier (cut n S) = v_tier S"
  "v_snapshot (cut n S) = v_snapshot S" "v_epoch (cut n S) = v_epoch S" "v_capacity (cut n S) = v_capacity S"
  "v_misses (cut n S) = v_misses S" "f_size (v_file (cut n S)) = n" "f_gen (v_file (cut n S)) = f_gen (v_file S)"
  "f_written (v_file (cut n S)) = f_written (v_file S)" "f_spill (v_file (cut n S)) = f_spill (v_file S)"
  "f_lock (v_file (cut n S)) = f_lock (v_file S)" "f_sizeDirty (v_file (cut n S))"
  "f_trunc (v_file (cut n S)) = Some (case f_trunc (v_file S) of None \<Rightarrow> ceil_div n VFS_PAGE_SIZE
     | Some k \<Rightarrow> min k (ceil_div n VFS_PAGE_SIZE))"
  by (simp_all add: cut_def Let_def)

lemma cut_views:
  "stored (cut n S) = stored S" "slot_now (cut n S) = slot_now S" "slotInR2 q (cut n S) = slotInR2 q S"
  "rows_ok (cut n S) = rows_ok S" "tier_ok (cut n S) = tier_ok S" "snap_ok (cut n S) = snap_ok S"
proof -
  define T where "T = S\<lparr>v_file := v_file (cut n S)\<rparr>"
  have s: "same_view T (cut n S)" by (simp add: same_view_def T_def cut_parts)
  show "stored (cut n S) = stored S" "slot_now (cut n S) = slot_now S" "slotInR2 q (cut n S) = slotInR2 q S"
    "rows_ok (cut n S) = rows_ok S" "tier_ok (cut n S) = tier_ok S"
    unfolding same_view_bytes(2,3,8,9,11) [OF s] by (simp_all add: T_def)
  then show "snap_ok (cut n S) = snap_ok S" by (simp add: snap_ok_def cut_parts)
qed

lemma truncated_cut: "truncated c (cut n S) \<longleftrightarrow> truncated c S \<or> n \<le> c * CHUNK_SIZE"
  unfolding truncated_floor cut_parts chunkFloor_pages [symmetric]
  by (auto simp: chunkFloor_le min_le_iff_disj split: option.split)

lemma dirty_cut: "dirty_of (cut n S) c = (if c * CHUNK_SIZE < n then dirty_of S c else None)"
proof -
  have "dirty_of (cut n S) c = (if c < chunkFloor (ceil_div n VFS_PAGE_SIZE) then dirty_of S c else None)"
    by (simp add: cut_def Let_def dropFrom_map_of)
  then show ?thesis using chunkFloor_pages [of n c] by (simp add: not_le [symmetric])
qed

lemma current_cut: "current (cut n S) c i = (if c * CHUNK_SIZE < n then current S c i else 0)"
  by (auto simp: current_at dirty_cut clean_def truncated_cut cut_views split: option.split)

lemma cut_ok:
  assumes ok: "vfs_ok S" and n: "n < f_size (v_file S)"
  defines "k \<equiv> min (f_size (v_file S)) (chunkFloor (ceil_div n VFS_PAGE_SIZE) * CHUNK_SIZE)"
  shows "vfs_at k (cut n S)"
proof (rule vfs_atI)
  note D = vfs_atD [OF ok]
  define keep where "keep = chunkFloor (ceil_div n VFS_PAGE_SIZE)"
  have keep: "keep \<le> c \<longleftrightarrow> n \<le> c * CHUNK_SIZE" for c unfolding keep_def by (rule chunkFloor_pages)
  have nk: "n \<le> k" using n keep [of keep] by (simp add: k_def keep_def)
  have ck: "c * CHUNK_SIZE < k \<longleftrightarrow> c * CHUNK_SIZE < n" for c
  proof
    assume "c * CHUNK_SIZE < k"
    then have "c < keep" using CHUNK_SIZE_pos by (simp add: k_def keep_def)
    then show "c * CHUNK_SIZE < n" using keep [of c] by simp
  qed (use nk in simp)
  have e: "clean_entry (cut n S) x \<longleftrightarrow> clean_entry S x \<and> fst x < keep" for x
    using keep [of "fst x"] by (auto simp: clean_entry_def truncated_cut cut_views split: prod.split)
  have dr: "v_cache (cut n S) = dropFrom keep (v_cache S)" "v_pins (cut n S) = dropFrom keep (v_pins S)"
    "f_dirty (v_file (cut n S)) = dropFrom keep (f_dirty (v_file S))"
    by (simp_all add: cut_def Let_def keep_def)
  show "cache_ok (cut n S)" using D(1)
    by (auto simp: cache_ok_def e dr dropFrom_distinct) (auto simp: dropFrom_def)
  show "dirty_ok k (cut n S)" unfolding dirty_ok_def
  proof (intro conjI allI impI)
    show "distinct (map fst (f_dirty (v_file (cut n S))))" using D(3) by (simp add: dirty_ok_def dr dropFrom_distinct)
    fix c d m assume "dirty_of (cut n S) c = Some (d, m)"
    then have "dirty_of S c = Some (d, m)" and cn: "c * CHUNK_SIZE < n" by (simp_all add: dirty_cut split: if_splits)
    note dirty_okD [OF D(3) this(1)]
    with cn show "blank_outside d m" "c * CHUNK_SIZE < k"
      "m \<noteq> FULL_MASK \<Longrightarrow> v_tier (cut n S) \<noteq> None" "m \<noteq> FULL_MASK \<Longrightarrow> \<not> truncated c (cut n S)"
      "m \<noteq> FULL_MASK \<Longrightarrow> st_rows (v_store (cut n S)) c = Some (r, m0) \<Longrightarrow> m0 \<subseteq> m" for r m0
      by (simp_all add: truncated_cut ck cut_parts)
  qed
  have "k \<le> f_size (v_file S)" "k \<le> keep * CHUNK_SIZE" by (simp_all add: k_def keep_def)
  then show "calm k (cut n S)" using D(5)
    by (auto simp: calm_def cut_parts keep_def min_def split: option.splits)
  show "reach_ok k (cut n S)" using D(6) by (auto simp: reach_ok_def truncated_cut ck cut_parts)
  show "base_ok (cut n S)" using D(9)
    by (auto simp: base_ok_def cut_parts cut_views truncated_cut dirty_cut split: if_splits)
       (auto simp: cut_def Let_def keep_def [symmetric] keep)
  show "blank_past k (current (cut n S))" unfolding blank_past_def
  proof (intro allI impI)
    fix p assume p: "k \<le> p"
    show "current (cut n S) (p div CHUNK_SIZE) (p mod CHUNK_SIZE) = 0"
    proof (cases "f_size (v_file S) \<le> p")
      case True
      with D(7) show ?thesis by (simp add: current_cut blank_past_def)
    next
      case False
      with p have "keep * CHUNK_SIZE \<le> p" by (auto simp: k_def keep_def min_def split: if_splits)
      then have "keep \<le> p div CHUNK_SIZE" using CHUNK_SIZE_pos by (simp add: less_eq_div_iff_mult_less_eq)
      then show ?thesis using keep [of "p div CHUNK_SIZE"] by (simp add: current_cut)
    qed
  qed
qed (use vfs_atD [OF ok] in \<open>simp_all add: cut_views cut_parts\<close>)

text \<open>
  What SQLite's calls leave alone until the flush: storage, the bucket, the map, a snapshot, a pass.
\<close>

definition held :: "vfs \<Rightarrow> vfs \<Rightarrow> bool" where
  "held S S' \<longleftrightarrow> v_store S' = v_store S \<and> v_objects S' = v_objects S \<and> v_tier S' = v_tier S
     \<and> v_snapshot S' = v_snapshot S \<and> v_epoch S' = v_epoch S \<and> f_written (v_file S') = f_written (v_file S)
     \<and> f_spill (v_file S') = f_spill (v_file S) \<and> f_gen (v_file S') = f_gen (v_file S)"

lemma heldD:
  assumes "held S S'"
  shows "v_store S' = v_store S" "v_objects S' = v_objects S" "v_tier S' = v_tier S" "v_snapshot S' = v_snapshot S"
    "v_epoch S' = v_epoch S" "f_written (v_file S') = f_written (v_file S)" "f_spill (v_file S') = f_spill (v_file S)"
    "f_gen (v_file S') = f_gen (v_file S)"
  using assms by (simp_all add: held_def)

lemma kept_held: "kept S S' \<Longrightarrow> held S S'"
  by (simp add: held_def kept_parts kept_file)

lemma held_trans: "held S S' \<Longrightarrow> held S' S'' \<Longrightarrow> held S S''" and held_refl [simp]: "held S S"
  by (simp_all add: held_def)

lemma held_saved: assumes "held S S'" shows "stored S' = stored S" "saved S' = saved S"
proof -
  have g: "segmentsOf S' = segmentsOf S" by (simp add: segmentsOf_def heldD [OF assms])
  show "stored S' = stored S" by (simp add: fun_eq_iff stored_def slot_now_def g heldD [OF assms])
  then show "saved S' = saved S" by (simp add: saved_def heldD [OF assms])
qed

lemma cut_held: "held S (cut n S)"
  by (simp add: held_def cut_parts)

lemma truncate_unfold:
  fixes n :: nat and S :: vfs
  defines "keep \<equiv> chunkFloor (ceil_div n VFS_PAGE_SIZE)"
  defines "tail \<equiv> n - (keep - 1) * CHUNK_SIZE"
  shows "truncatePersistent n S =
    (if n \<ge> f_size (v_file S) then (True, S)
     else if keep = 0 \<or> tail \<ge> CHUNK_SIZE then (True, cut n S)
     else (case dirty_of (dirtyChunk (keep - 1) (cut n S)) (keep - 1) of
         None \<Rightarrow> (True, dirtyChunk (keep - 1) (cut n S))
       | Some (d, m) \<Rightarrow>
           let d' = (\<lambda>i. if tail \<le> i \<and> i < CHUNK_SIZE then 0 else d i); S2 = dirtyChunk (keep - 1) (cut n S)
           in if m = FULL_MASK then (True, set_dirty (keep - 1) d' m S2)
              else if tail mod VFS_PAGE_SIZE \<noteq> 0 then (False, set_dirty (keep - 1) d' m S2)
              else (True, set_dirty (keep - 1) d' (m \<union> {tail div VFS_PAGE_SIZE..<PAGES_PER_CHUNK}) S2)))"
  unfolding truncatePersistent_def keep_def tail_def cut_def chunkFloor_def Let_def by (rule refl)

lemma blank_tail:
  assumes ok: "vfs_at k S" and c: "c * CHUNK_SIZE < k" and t: "t < CHUNK_SIZE" and d: "dirty_of S c = Some (d, m)"
    and page: "m = FULL_MASK \<or> t mod VFS_PAGE_SIZE = 0"
  defines "d' \<equiv> (\<lambda>i. if t \<le> i \<and> i < CHUNK_SIZE then 0 else d i)"
    and "m' \<equiv> (if m = FULL_MASK then m else m \<union> {t div VFS_PAGE_SIZE..<PAGES_PER_CHUNK})"
  shows "vfs_at k (set_dirty c d' m' S)"
    and "\<And>q i. i < CHUNK_SIZE \<Longrightarrow> current (set_dirty c d' m' S) q i = (if q = c \<and> t \<le> i then 0 else current S q i)"
proof -
  note D = vfs_atD [OF ok] and old = dirty_okD [OF vfs_atD(3) [OF ok] d]
  have inn: "i div VFS_PAGE_SIZE \<in> {t div VFS_PAGE_SIZE..<PAGES_PER_CHUNK} \<longleftrightarrow> t \<le> i \<and> i < CHUNK_SIZE" if "m \<noteq> FULL_MASK" for i
  proof -
    have "CHUNK_SIZE - t + t = CHUNK_SIZE" using t by simp
    moreover have "VFS_PAGE_SIZE dvd CHUNK_SIZE - t"
      by (rule dvd_diff_nat) (use page that in \<open>auto simp: CHUNK_SIZE_def mod_eq_0_iff_dvd\<close>)
    ultimately have "paged t (CHUNK_SIZE - t)" "(t + (CHUNK_SIZE - t)) div VFS_PAGE_SIZE = PAGES_PER_CHUNK"
      using page that t VFS_PAGE_SIZE_pos by (auto simp: paged_def CHUNK_SIZE_def)
    with page_range [of t "CHUNK_SIZE - t" i] t show ?thesis by simp
  qed
  have byte: "placeMasked d' m' (clean S c) i = (if t \<le> i then 0 else current S c i)" if "i < CHUNK_SIZE" for i
    using that d inn [of i] by (auto simp: placeMasked_def d'_def m'_def current_at)
  then show "\<And>q i. i < CHUNK_SIZE \<Longrightarrow> current (set_dirty c d' m' S) q i = (if q = c \<and> t \<le> i then 0 else current S q i)"
    by simp
  show "vfs_at k (set_dirty c d' m' S)"
  proof (rule vfs_at_set_dirty [OF ok _ c])
    show "blank_outside d' m'" using old(1) by (auto simp: blank_outside_def d'_def m'_def FULL_MASK_def)
    show "m' \<noteq> FULL_MASK \<Longrightarrow> v_tier S \<noteq> None \<and> \<not> truncated c S
        \<and> (\<forall>r m0. st_rows (v_store S) c = Some (r, m0) \<longrightarrow> m0 \<subseteq> m')"
      using old(3-5) by (auto simp: m'_def split: if_splits)
    show "placeMasked d' m' (clean S c) i = 0" if "i < CHUNK_SIZE" "k \<le> c * CHUNK_SIZE + i" for i
      using byte [OF that(1)] blank_chunk [OF D(7) that] by simp
    show "\<exists>b. f_base (v_file S) c = Some b
        \<and> (\<forall>i < CHUNK_SIZE. effective (Some (base_img b)) (slot_now S c) i = stored S c i)"
      if "v_snapshot S \<noteq> None" "\<not> truncated c S" using D(9) that d by (auto simp: base_ok_def)
  qed
qed

lemma div_chunk: "p div CHUNK_SIZE < c \<longleftrightarrow> p < c * CHUNK_SIZE"
  using CHUNK_SIZE_pos by (simp add: div_less_iff_less_mult)

lemma below_tail:
  assumes "t < CHUNK_SIZE"
  shows "p < c * CHUNK_SIZE + t \<longleftrightarrow> p div CHUNK_SIZE < Suc c \<and> \<not> (p div CHUNK_SIZE = c \<and> t \<le> p mod CHUNK_SIZE)"
proof (cases "p div CHUNK_SIZE = c")
  case True
  have "p = c * CHUNK_SIZE + p mod CHUNK_SIZE" using div_mult_mod_eq [of p CHUNK_SIZE] unfolding True by simp
  with True show ?thesis by linarith
next
  case False
  then have "p div CHUNK_SIZE < Suc c \<longleftrightarrow> p div CHUNK_SIZE < c" by linarith
  moreover have "p < c * CHUNK_SIZE + t \<Longrightarrow> p < Suc c * CHUNK_SIZE" using assms by simp
  ultimately show ?thesis using False div_chunk [of p c] div_chunk [of p "Suc c"] by auto
qed

lemma cut_reach: "vfs_ok S \<Longrightarrow> reach_ok n (cut n S)"
  using vfs_atD(6) [of "f_size (v_file S)" S] by (auto simp: reach_ok_def truncated_cut cut_parts)

text \<open>A state reached from the cut one by dirty copies whose bytes are the truncated ones.\<close>

lemma truncate_close:
  assumes ok: "vfs_ok S" and cut: "n < f_size (v_file S)" "n \<le> k" and v: "vfs_at k S1" "kept (cut n S) S1"
    and b: "\<And>p. flat (current S1) p = (if p < n then flat (current S) p else 0)"
    and dr: "\<And>c. dirty_of S1 c \<noteq> None \<Longrightarrow> c * CHUNK_SIZE < n"
  shows "vfs_ok S1 \<and> held S S1 \<and> f_lock (v_file S1) = f_lock (v_file S) \<and> content S1 = a_truncate n (content S)"
proof -
  have f: "f_size (v_file S1) = n" "f_lock (v_file S1) = f_lock (v_file S)"
    using kept_file [OF v(2)] by (simp_all add: cut_parts)
  have "reach_ok n S1" unfolding kept_bytes(9) [OF v(2)] by (rule cut_reach [OF ok])
  moreover have "blank_past n (current S1)" using b by (simp add: blank_past_def flat_def)
  ultimately have "vfs_at n S1" using vfs_at_lower [OF v(1) cut(2) _ dr] by blast
  moreover have "content S1 = a_truncate n (content S)"
    using cut(1) b by (auto simp: content_def a_truncate_def f)
  ultimately show ?thesis using f held_trans [OF cut_held kept_held [OF v(2)]] by auto
qed

lemma truncate_spec:
  assumes ok: "vfs_ok S" and page: "v_tier S = None \<or> n mod VFS_PAGE_SIZE = 0"
  shows "\<exists>S1. truncatePersistent n S = (True, S1) \<and> vfs_ok S1 \<and> held S S1 \<and> f_lock (v_file S1) = f_lock (v_file S)
    \<and> content S1 = a_truncate n (content S)"
proof (cases "f_size (v_file S) \<le> n")
  case True
  then have "truncatePersistent n S = (True, S)" "a_truncate n (content S) = content S"
    by (simp_all add: truncate_unfold a_truncate_def content_def)
  with ok show ?thesis by auto
next
  case False
  then have lt: "n < f_size (v_file S)" by simp
  define keep where "keep = chunkFloor (ceil_div n VFS_PAGE_SIZE)"
  define tail where "tail = n - (keep - 1) * CHUNK_SIZE"
  define k where "k = min (f_size (v_file S)) (keep * CHUNK_SIZE)"
  have keep: "keep \<le> c \<longleftrightarrow> n \<le> c * CHUNK_SIZE" for c unfolding keep_def by (rule chunkFloor_pages)
  have ok1: "vfs_at k (cut n S)" using cut_ok [OF ok lt] by (simp add: k_def keep_def)
  have nk: "n \<le> k" using lt keep [of keep] by (simp add: k_def)
  have flc: "flat (current (cut n S)) p = (if p div CHUNK_SIZE < keep then flat (current S) p else 0)" for p
    using keep [of "p div CHUNK_SIZE"] by (auto simp: flat_def current_cut not_le)
  show ?thesis
  proof (cases "keep = 0 \<or> tail \<ge> CHUNK_SIZE")
    case True
    have n: "n = keep * CHUNK_SIZE"
    proof (cases keep)
      case 0 then show ?thesis using keep [of 0] by simp
    next
      case (Suc j)
      with True have "CHUNK_SIZE \<le> n - j * CHUNK_SIZE" by (simp add: tail_def)
      with keep [of keep] Suc CHUNK_SIZE_pos show ?thesis by simp
    qed
    have "flat (current (cut n S)) p = (if p < n then flat (current S) p else 0)" for p
      using flc [of p] unfolding div_chunk n [symmetric] .
    then have "vfs_ok (cut n S) \<and> held S (cut n S) \<and> f_lock (v_file (cut n S)) = f_lock (v_file S)
        \<and> content (cut n S) = a_truncate n (content S)"
      by (rule truncate_close [OF ok lt nk ok1 kept_refl]) (simp add: dirty_cut split: if_splits)
    moreover have "truncatePersistent n S = (True, cut n S)"
      using True lt unfolding truncate_unfold keep_def tail_def by simp
    ultimately show ?thesis by blast
  next
    case part: False
    define c where "c = keep - 1"
    have keepc: "keep = Suc c" using part by (simp add: c_def)
    have cn: "c * CHUNK_SIZE < n" using keep [of c] keepc by simp
    have n: "n = c * CHUNK_SIZE + tail" "tail < CHUNK_SIZE" using part cn by (simp_all add: tail_def c_def)
    define S2 where "S2 = dirtyChunk c (cut n S)"
    have ck: "c * CHUNK_SIZE < k" using cn nk by simp
    have ok2: "vfs_at k S2" and q2: "quiet (cut n S) S2" and "dirty_of S2 c \<noteq> None"
      using dirtyChunk_spec [OF ok1 ck] by (simp_all add: S2_def)
    then obtain d m where dm: "dirty_of S2 c = Some (d, m)" by auto
    have tp: "m = FULL_MASK \<or> tail mod VFS_PAGE_SIZE = 0"
    proof (rule disjCI)
      assume "tail mod VFS_PAGE_SIZE \<noteq> 0"
      moreover have "VFS_PAGE_SIZE dvd n - c * CHUNK_SIZE" if "VFS_PAGE_SIZE dvd n"
        by (rule dvd_diff_nat) (use that in \<open>simp_all add: CHUNK_SIZE_def\<close>)
      ultimately have "\<not> VFS_PAGE_SIZE dvd n" by (auto simp: n(1) mod_eq_0_iff_dvd)
      with page have "v_tier S2 = None" using quiet_parts(3) [OF q2] by (simp add: cut_parts mod_eq_0_iff_dvd)
      with dirty_okD(3) [OF vfs_atD(3) [OF ok2] dm] show "m = FULL_MASK" by blast
    qed
    define S3 where "S3 = set_dirty c (\<lambda>i. if tail \<le> i \<and> i < CHUNK_SIZE then 0 else d i)
      (if m = FULL_MASK then m else m \<union> {tail div VFS_PAGE_SIZE..<PAGES_PER_CHUNK}) S2"
    note B = blank_tail [OF ok2 ck n(2) dm tp, folded S3_def]
    have t: "truncatePersistent n S = (True, S3)"
      using lt part dm tp
      unfolding truncate_unfold unfolding keep_def [symmetric] unfolding tail_def [symmetric]
      unfolding c_def [symmetric] unfolding S2_def [symmetric]
      by (auto simp: S3_def Let_def)
    have k3: "kept (cut n S) S3"
      using quiet_kept [OF q2] by (rule kept_trans) (simp add: S3_def kept_def set_dirty_file)
    have "flat (current S3) p = (if p < n then flat (current S) p else 0)" for p
    proof -
      have "flat (current S3) p = (if p div CHUNK_SIZE = c \<and> tail \<le> p mod CHUNK_SIZE then 0
          else flat (current (cut n S)) p)"
        using B(2) [of "p mod CHUNK_SIZE" "p div CHUNK_SIZE"] quiet_current [OF q2] by (simp add: flat_def)
      moreover have "p < n \<longleftrightarrow> p div CHUNK_SIZE < keep \<and> \<not> (p div CHUNK_SIZE = c \<and> tail \<le> p mod CHUNK_SIZE)"
        unfolding n(1) keepc by (rule below_tail [OF n(2)])
      ultimately show ?thesis unfolding flc by auto
    qed
    moreover have "q * CHUNK_SIZE < n" if q: "dirty_of S3 q \<noteq> None" for q
    proof -
      have "dirty_of S2 q \<noteq> None" using q dm by (auto simp: S3_def split: if_splits)
      then have "q * CHUNK_SIZE < k" using dirty_okD(2) [OF vfs_atD(3) [OF ok2]] by fastforce
      then have "q < keep" using CHUNK_SIZE_pos by (simp add: k_def)
      then show ?thesis using keep [of q] by linarith
    qed
    ultimately show ?thesis using t truncate_close [OF ok lt nk B(1) k3] by blast
  qed
qed

end
