(* ===== verification/Vfs_Flush.thy ===== *)
theory Vfs_Flush
  imports Vfs_Writes
begin

text \<open>
  The flush: what it commits is the current file, an open snapshot keeps its bytes because the flush
  pins what it overwrites first, and a transaction that is rolled back leaves the file as it was.
\<close>

subsection \<open>The bytes of a snapshot\<close>

lemma window_effective:
  "i < CHUNK_SIZE \<Longrightarrow> window_chunk shadow rows objs segs c i =
    effective (case shadow c of Some x \<Rightarrow> Some x | None \<Rightarrow> rows c) (slotBytes objs segs c) i"
  by (auto simp: window_chunk_def effective_simps Let_def placeMasked_def split: option.splits prod.splits)

definition snap_bytes :: "snapshot \<Rightarrow> vfs \<Rightarrow> nat \<Rightarrow> buf" where
  "snap_bytes sn S = window_chunk (sn_shadow sn) (st_rows (v_store S)) (v_objects S) (sn_segments sn)"

text \<open>The snapshot of \<open>S\<close> is still open in \<open>S'\<close> and reads the same.\<close>

definition snap_kept :: "vfs \<Rightarrow> vfs \<Rightarrow> bool" where
  "snap_kept S S' \<longleftrightarrow> (case v_snapshot S of
     None \<Rightarrow> v_snapshot S' = None
   | Some sn \<Rightarrow> (\<exists>sn'. v_snapshot S' = Some sn' \<and> sn_size sn' = sn_size sn \<and> sn_totalChunks sn' = sn_totalChunks sn
       \<and> (\<forall>c < sn_totalChunks sn. \<forall>i < CHUNK_SIZE. snap_bytes sn' S' c i = snap_bytes sn S c i)))"

lemma snap_kept_refl [simp]: "snap_kept S S"
  by (simp add: snap_kept_def split: option.split)

lemma snap_kept_trans: "snap_kept S S' \<Longrightarrow> snap_kept S' S'' \<Longrightarrow> snap_kept S S''"
  unfolding snap_kept_def by (fastforce split: option.splits)

lemma snap_kept_same:
  assumes "v_snapshot S' = v_snapshot S" "v_store S' = v_store S" "v_objects S' = v_objects S"
  shows "snap_kept S S'"
  using assms by (simp add: snap_kept_def snap_bytes_def split: option.split)

lemma held_snap: "held S S' \<Longrightarrow> snap_kept S S'"
  by (rule snap_kept_same) (simp_all add: heldD)

subsection \<open>Pre-images\<close>

definition preimage_of :: "vfs \<Rightarrow> nat \<Rightarrow> buf \<times> pages \<Rightarrow> bool" where
  "preimage_of S c x \<longleftrightarrow> (\<forall>i < CHUNK_SIZE. effective (Some x) (slot_now S c) i = stored S c i)"

text \<open>\<open>sn'\<close> has pinned true pre-images of the chunks \<open>cs\<close>, as far as \<open>sn\<close> had none.\<close>

definition snap_more :: "vfs \<Rightarrow> nat set \<Rightarrow> snapshot \<Rightarrow> snapshot \<Rightarrow> bool" where
  "snap_more S cs sn sn' \<longleftrightarrow> sn_size sn' = sn_size sn \<and> sn_totalChunks sn' = sn_totalChunks sn
     \<and> sn_segments sn' = sn_segments sn
     \<and> (\<forall>c. sn_shadow sn' c = sn_shadow sn c \<or>
          sn_shadow sn c = None \<and> (\<exists>x. sn_shadow sn' c = Some x \<and> preimage_of S c x))
     \<and> (\<forall>c \<in> cs. c < sn_totalChunks sn \<longrightarrow> sn_shadow sn' c \<noteq> None)"

lemma snap_more_none: "snap_more S {} sn sn"
  by (simp add: snap_more_def)

lemma snap_more_trans: "snap_more S cs sn sn' \<Longrightarrow> snap_more S ds sn' sn'' \<Longrightarrow> snap_more S (cs \<union> ds) sn sn''"
  unfolding snap_more_def by (auto, metis+)

lemma preimage_view: "same_view S S' \<Longrightarrow> preimage_of S' c x = preimage_of S c x"
  by (simp add: preimage_of_def same_view_bytes)

lemma snap_more_view: "same_view S S' \<Longrightarrow> snap_more S' cs sn sn' = snap_more S cs sn sn'"
  by (simp add: snap_more_def preimage_view)

lemma shadow_one:
  assumes "preimage_of S c x" "sn' = (if c \<ge> sn_totalChunks sn \<or> sn_shadow sn c \<noteq> None then sn
    else sn\<lparr>sn_shadow := (sn_shadow sn)(c \<mapsto> x)\<rparr>)"
  shows "snap_more S {c} sn sn'"
  using assms by (cases x) (auto simp: snap_more_def)

lemma shadow_dirty_more:
  assumes "base c = Some b" "preimage_of S c (base_img b)"
  shows "snap_more S {c} sn (shadow_dirty base c sn)"
  by (rule shadow_one [OF assms(2)]) (cases b; simp add: shadow_dirty_def assms(1))

lemma shadowDirty_more:
  assumes "\<And>c. c \<in> set cs \<Longrightarrow> \<exists>b. base c = Some b \<and> preimage_of S c (base_img b)"
  shows "snap_more S (set cs) sn (shadowDirtyPreImages base cs sn)"
  using assms
proof (induction cs arbitrary: sn)
  case Nil
  show ?case by (simp add: shadowDirtyPreImages_def snap_more_none)
next
  case (Cons c cs)
  obtain b where b: "base c = Some b" "preimage_of S c (base_img b)" using Cons.prems [of c] by auto
  have "snap_more S (set cs) (shadow_dirty base c sn) (shadowDirtyPreImages base cs (shadow_dirty base c sn))"
    by (rule Cons.IH) (simp add: Cons.prems)
  from snap_more_trans [OF shadow_dirty_more [where base = base and c = c, OF b] this] show ?case by (simp add: shadowDirtyPreImages_def)
qed

lemma shadow_stored_more:
  assumes "vfs_at n S" "shadow_stored c S sn = (sn', S')"
  shows "snap_more S {c} sn sn' \<and> tidy S S'"
proof -
  have co: "cache_ok S" and ro: "rows_ok S" using vfs_atD [OF assms(1)] by simp_all
  obtain r es where g: "cache_get c (v_cache S) = (r, es)" by fastforce
  note G = tidy_get [OF co g]
  have img: "preimage_of S c (case st_rows (v_store S) c of
      Some (d, m) \<Rightarrow> (d, if v_tier S = None then FULL_MASK else m) | None \<Rightarrow> (zeros, {}))"
  proof (cases "st_rows (v_store S) c")
    case (Some x)
    obtain d m where x: "x = (d, m)" by fastforce
    with ro Some have "(if v_tier S = None then FULL_MASK else m) = m" by (auto simp: rows_ok_def)
    with Some x show ?thesis by (simp add: preimage_of_def stored_def)
  qed (simp add: preimage_of_def stored_def effective_simps)
  show ?thesis
  proof (cases r)
    case None
    then have e: "es = v_cache S" using g by (simp add: cache_get_def split: option.splits)
    have "snap_more S {c} sn sn'"
      by (rule shadow_one [OF img]) (use assms(2) g None in \<open>auto simp: shadow_stored_def split: if_splits\<close>)
    moreover have "S' = S" using assms(2) g None by (auto simp: shadow_stored_def split: if_splits)
    ultimately show ?thesis using tidy_refl [OF co] by simp
  next
    case (Some d)
    have "preimage_of S c (d, FULL_MASK)"
      using G(2) [OF Some] by (auto simp: preimage_of_def effective_simps clean_entry_def)
    then have "snap_more S {c} sn sn'"
      by (rule shadow_one) (use assms(2) g Some in \<open>auto simp: shadow_stored_def split: if_splits\<close>)
    moreover have "S' = S \<or> S' = S\<lparr>v_cache := es\<rparr>"
      using assms(2) g Some by (auto simp: shadow_stored_def split: if_splits)
    ultimately show ?thesis using tidy_refl [OF co] G(1) by auto
  qed
qed

lemma shadowStored_more:
  assumes "vfs_at n S" "shadowStoredPreImages cs S sn = (sn', S')"
  shows "snap_more S (set cs) sn sn' \<and> tidy S S'"
  using assms
proof (induction cs arbitrary: S sn)
  case Nil
  then show ?case by (simp add: shadowStoredPreImages_def snap_more_none tidy_refl vfs_atD)
next
  case (Cons c cs)
  obtain sn1 S1 where s: "shadow_stored c S sn = (sn1, S1)" by fastforce
  note one = shadow_stored_more [OF Cons.prems(1) s]
  have rest: "shadowStoredPreImages cs S1 sn1 = (sn', S')"
    using Cons.prems(2) s by (simp add: shadowStoredPreImages_def)
  have "snap_more S1 (set cs) sn1 sn' \<and> tidy S1 S'"
    by (rule Cons.IH [OF tidy_ok [OF _ Cons.prems(1)] rest]) (use one in simp)
  with one show ?case
    using snap_more_trans [of S "{c}" sn sn1 "set cs" sn'] snap_more_view [OF tidy_view(1), of S S1] tidy_trans [of S S1 S']
    by auto
qed

text \<open>The chunks a flush is about to change.\<close>

definition changing :: "vfs \<Rightarrow> nat set" where
  "changing S = {c. dirty_of S c \<noteq> None \<or> truncated c S}"

lemma snap_more_kept:
  assumes ok: "vfs_at n S" and sn: "v_snapshot S = Some sn" and more: "snap_more S cs sn sn'"
  shows "\<And>c i. c < sn_totalChunks sn \<Longrightarrow> i < CHUNK_SIZE \<Longrightarrow> snap_bytes sn' S c i = snap_bytes sn S c i"
    and "snap_ok (S\<lparr>v_snapshot := Some sn'\<rparr>)"
proof -
  have so: "\<And>c. c < sn_totalChunks sn \<Longrightarrow> sn_shadow sn c = None \<Longrightarrow>
      slotBytes (v_objects S) (sn_segments sn) c = slot_now S c"
    and g: "snap_gens (v_store S) (v_tier S) sn" "sn_size sn \<le> sn_totalChunks sn * CHUNK_SIZE"
    using vfs_atD(10) [OF ok] sn by (auto simp: snap_ok_def)
  note m = more [unfolded snap_more_def]
  show "snap_bytes sn' S c i = snap_bytes sn S c i" if c: "c < sn_totalChunks sn" "i < CHUNK_SIZE" for c i
  proof (cases "sn_shadow sn' c = sn_shadow sn c")
    case False
    then obtain x where x: "sn_shadow sn c = None" "sn_shadow sn' c = Some x" "preimage_of S c x" using m by blast
    have "effective (Some x) (slot_now S c) i = effective (st_rows (v_store S) c) (slot_now S c) i"
      using x(3) c(2) by (simp add: preimage_of_def stored_def)
    then show ?thesis using x m c by (simp add: snap_bytes_def window_effective so)
  qed (use m c in \<open>simp add: snap_bytes_def window_effective\<close>)
  have n: "sn_shadow sn c = None" if "sn_shadow sn' c = None" for c
    using m that by (metis option.distinct(1))
  have v: "slot_now (S\<lparr>v_snapshot := Some sn'\<rparr>) = slot_now S" by (rule same_view_bytes) simp
  show "snap_ok (S\<lparr>v_snapshot := Some sn'\<rparr>)"
    using m so g n by (auto simp: snap_ok_def v snap_gens_def split: option.splits)
qed

lemma sorted_dirty_set: "set (sorted_dirty S) = set (f_dirty (v_file S))"
  by (simp add: sorted_dirty_def)

lemma dirty_keys: "fst ` set (f_dirty (v_file S)) = {c. dirty_of S c \<noteq> None}"
  by (auto simp: map_of_eq_None_iff image_iff)

lemma pin_preimages_spec:
  assumes ok: "vfs_ok S"
  defines "S1 \<equiv> pin_preimages S"
  shows "vfs_ok S1" "same_view S S1" "v_pins S1 = v_pins S" "v_misses S1 = v_misses S" "v_epoch S1 = v_epoch S"
    "snap_kept S S1"
    "v_snapshot S1 = Some sn' \<Longrightarrow> c \<in> changing S \<Longrightarrow> c < sn_totalChunks sn' \<Longrightarrow> sn_shadow sn' c \<noteq> None"
    "v_snapshot S = None \<Longrightarrow> S1 = S"
proof -
  define n where "n = f_size (v_file S)"
  have ok': "vfs_at n S" using ok by (simp add: n_def)
  note D = vfs_atD [OF ok']
  have "vfs_ok S1 \<and> same_view S S1 \<and> v_pins S1 = v_pins S \<and> v_misses S1 = v_misses S \<and> v_epoch S1 = v_epoch S
    \<and> snap_kept S S1 \<and> (\<forall>sn' c. v_snapshot S1 = Some sn' \<longrightarrow> c \<in> changing S \<longrightarrow> c < sn_totalChunks sn' \<longrightarrow> sn_shadow sn' c \<noteq> None)
    \<and> (v_snapshot S = None \<longrightarrow> S1 = S)"
  proof (cases "v_snapshot S")
    case None
    then show ?thesis using ok by (simp add: S1_def pin_preimages_def same_view_def)
  next
    case (Some sn)
    define sn1 where "sn1 = shadowDirtyPreImages (f_base (v_file S)) (map fst (sorted_dirty S)) sn"
    have m1: "snap_more S {c. dirty_of S c \<noteq> None} sn sn1"
    proof -
      have "\<exists>b. f_base (v_file S) c = Some b \<and> preimage_of S c (base_img b)" if "c \<in> set (map fst (sorted_dirty S))" for c
      proof -
        have c: "dirty_of S c \<noteq> None" using that sorted_dirty_set [of S] dirty_keys [of S] by auto
        then have "c * CHUNK_SIZE < n" using dirty_okD(2) [OF D(3), of c] by fastforce
        then have "\<not> truncated c S" using calm_in [OF D(5)] Some by fastforce
        with D(9) Some c show ?thesis by (auto simp: base_ok_def preimage_of_def)
      qed
      from shadowDirty_more [of "map fst (sorted_dirty S)", OF this] show ?thesis
        unfolding sn1_def using sorted_dirty_set [of S] dirty_keys [of S] by simp
    qed
    obtain sn2 S2 where 2: "S1 = S2\<lparr>v_snapshot := Some sn2\<rparr>" "tidy S S2" "snap_more S (changing S) sn sn2"
    proof (cases "f_trunc (v_file S)")
      case None
      have "changing S = {c. dirty_of S c \<noteq> None}" using None by (auto simp: changing_def truncated_def)
      with None Some m1 that [of sn1 S] tidy_refl [OF D(1)] show thesis
        by (simp add: S1_def pin_preimages_def sn1_def)
    next
      case (Some k)
      obtain sn2 S2 where s: "shadowStoredPreImages [chunkFloor k..<sn_totalChunks sn1] S sn1 = (sn2, S2)" by fastforce
      note m2 = shadowStored_more [OF ok' s]
      have "snap_more S ({c. dirty_of S c \<noteq> None} \<union> {chunkFloor k..<sn_totalChunks sn1}) sn sn2"
        using snap_more_trans [OF m1] m2 by auto
      moreover have "truncated c S \<longleftrightarrow> chunkFloor k \<le> c" for c using Some by (simp add: truncated_floor)
      ultimately have "snap_more S (changing S) sn sn2"
        using m1 unfolding snap_more_def changing_def by auto
      with that [of sn2 S2] m2 s Some \<open>v_snapshot S = Some sn\<close> show thesis
        by (simp add: S1_def pin_preimages_def sn1_def)
    qed
    have v: "same_view S S1" using tidy_view(1) [OF 2(2)] by (simp add: 2(1) same_view_def)
    have sn2: "v_snapshot S1 = Some sn2" by (simp add: 2(1))
    have ok2: "vfs_at n S2" by (rule tidy_ok [OF 2(2) ok'])
    have v2: "same_view S2 S1" by (simp add: 2(1))
    have more2: "snap_more S2 (changing S) sn sn2" unfolding snap_more_view [OF tidy_view(1) [OF 2(2)]] by (rule 2(3))
    note K = snap_more_kept [OF ok2 _ more2]
    have s2: "v_snapshot S2 = Some sn" using Some tidy_view(3) [OF 2(2)] by simp
    have "vfs_at n S1"
    proof (rule vfs_atI)
      note D2 = vfs_atD [OF ok2] and B = same_view_bytes [OF v2]
      show "cache_ok S1" using D2(1) by (simp add: cache_ok_def B) (simp add: 2(1))
      show "calm n S1" using D2(5) s2 sn2 by (simp add: calm_def B split: option.splits)
      show "base_ok S1" using D2(9) s2 sn2 by (simp add: base_ok_def B)
      show "snap_ok S1" unfolding 2(1) by (rule K(2) [OF s2])
    qed (use vfs_atD [OF ok2] in \<open>simp_all add: same_view_bytes [OF v2]\<close>)
    moreover have "snap_kept S S1"
    proof -
      have "snap_bytes x S1 = snap_bytes x S" "snap_bytes x S2 = snap_bytes x S" for x
        using same_view_bytes [OF v] tidy_bytes [OF 2(2)] by (simp_all add: snap_bytes_def)
      with K(1) [OF s2] 2(3) Some sn2 show ?thesis by (simp add: snap_kept_def snap_more_def)
    qed
    ultimately show ?thesis
      using v tidy_view [OF 2(2)] 2 Some same_view_bytes [OF v] by (auto simp: n_def snap_more_def)
  qed
  then show "vfs_ok S1" "same_view S S1" "v_pins S1 = v_pins S" "v_misses S1 = v_misses S" "v_epoch S1 = v_epoch S"
    "snap_kept S S1"
    "v_snapshot S1 = Some sn' \<Longrightarrow> c \<in> changing S \<Longrightarrow> c < sn_totalChunks sn' \<Longrightarrow> sn_shadow sn' c \<noteq> None"
    "v_snapshot S = None \<Longrightarrow> S1 = S" by blast+
qed

subsection \<open>Truncating the map\<close>

definition dropped :: "nat \<Rightarrow> nat \<Rightarrow> bool" where
  "dropped k g \<longleftrightarrow> g > segmentOf k \<or> g = segmentOf k \<and> k mod SEGMENT_CHUNKS = 0"

definition restricted :: "nat \<Rightarrow> nat \<Rightarrow> segment_entry \<Rightarrow> segment_entry" where
  "restricted k g e = (if g = segmentOf k then e\<lparr>sg_mask := sg_mask e \<inter> {..<k - segmentOf k * SEGMENT_CHUNKS}\<rparr> else e)"

lemma keep_segment_eq: "keep_segment k (g, e) = (if dropped k g then None else Some (g, restricted k g e))"
  by (auto simp: keep_segment_def dropped_def restricted_def Let_def)

lemma truncate_segments_simps [simp]:
  "truncate_segments k [] = []"
  "truncate_segments k ((g, e) # xs) =
    (if dropped k g then truncate_segments k xs else (g, restricted k g e) # truncate_segments k xs)"
  by (simp_all add: truncate_segments_def map_filter_simps keep_segment_eq)

lemma truncated_map: "map_of (truncate_segments k segs) g = (if dropped k g then None else map_option (restricted k g) (map_of segs g))"
  by (induction segs) auto

lemma truncated_keys: "set (map fst (truncate_segments k segs)) \<subseteq> set (map fst segs)"
proof (induction segs)
  case (Cons x segs)
  then show ?case by (cases x; cases "dropped k (fst x)") (simp_all add: subset_insertI2)
qed simp

lemma truncated_distinct: "distinct (map fst segs) \<Longrightarrow> distinct (map fst (truncate_segments k segs))"
proof (induction segs)
  case (Cons x segs)
  then show ?case using truncated_keys [of k segs] by (cases x) auto
qed simp

lemma referenced_simps [simp]: "referenced [] = []" "referenced ((g, e) # xs) = (g, sg_gen e) # referenced xs"
  by (simp_all add: referenced_def)

lemma restricted_gen [simp]: "sg_gen (restricted k g e) = sg_gen e"
  by (simp add: restricted_def)

lemma truncated_referenced: "x \<in> set (referenced (truncate_segments k segs)) \<Longrightarrow> x \<in> set (referenced segs) \<and> \<not> dropped k (fst x)"
  by (induction segs) (auto split: if_splits)

lemma dropped_key: "x \<in> set (dropped_keys k segs) \<Longrightarrow> x \<in> set (referenced segs) \<and> dropped k (fst x)"
  by (force simp: dropped_keys_def referenced_def keep_segment_eq split: if_splits)

lemma segment_bounds: "segmentOf c * SEGMENT_CHUNKS \<le> c" "c < segmentOf c * SEGMENT_CHUNKS + SEGMENT_CHUNKS"
    "slotOf c < SEGMENT_CHUNKS" "c = segmentOf c * SEGMENT_CHUNKS + slotOf c"
  by (simp_all add: segmentOf_def slotOf_def SEGMENT_CHUNKS_def)

lemma dropped_chunk:
  "dropped k (segmentOf c) \<Longrightarrow> k \<le> c"
  "\<not> dropped k (segmentOf c) \<Longrightarrow> segmentOf c = segmentOf k \<Longrightarrow> slotOf c < k - segmentOf k * SEGMENT_CHUNKS \<longleftrightarrow> c < k"
  "\<not> dropped k (segmentOf c) \<Longrightarrow> segmentOf c \<noteq> segmentOf k \<Longrightarrow> c < k"
proof -
  have k: "k = segmentOf k * SEGMENT_CHUNKS + k mod SEGMENT_CHUNKS" by (simp add: segmentOf_def)
  note c = segment_bounds [of c]
  show "dropped k (segmentOf c) \<Longrightarrow> k \<le> c"
    using k c segment_bounds [of k] by (auto simp: dropped_def SEGMENT_CHUNKS_def)
  show "\<not> dropped k (segmentOf c) \<Longrightarrow> segmentOf c = segmentOf k \<Longrightarrow> slotOf c < k - segmentOf k * SEGMENT_CHUNKS \<longleftrightarrow> c < k"
    using c by (auto simp: less_diff_conv)
  show "\<not> dropped k (segmentOf c) \<Longrightarrow> segmentOf c \<noteq> segmentOf k \<Longrightarrow> c < k"
    using c segment_bounds [of k] by (auto simp: dropped_def SEGMENT_CHUNKS_def)
qed

lemma slotBytes_truncate: "slotBytes objs (truncate_segments k segs) c = (if c < k then slotBytes objs segs c else None)"
  using dropped_chunk(1,3) [of k c] dropped_chunk(2) [of k c]
  by (cases "dropped k (segmentOf c)"; cases "segmentOf c = segmentOf k")
    (auto simp: slotBytes_def truncated_map restricted_def split: option.splits)

lemma slot_in_truncate: "slot_in (truncate_segments k segs) c \<longleftrightarrow> c < k \<and> slot_in segs c"
  using dropped_chunk(1,3) [of k c] dropped_chunk(2) [of k c]
  by (cases "dropped k (segmentOf c)"; cases "segmentOf c = segmentOf k")
    (auto simp: slot_in_def truncated_map restricted_def split: option.splits)

lemma tier_truncate_good:
  assumes good: "tier_good st objs t"
    and st': "st_segments st' = truncate_segments k (st_segments st)" "st_maxGen st' = st_maxGen st"
    and size: "\<And>c. c < k \<Longrightarrow> c * CHUNK_SIZE < st_size st \<Longrightarrow> c * CHUNK_SIZE < st_size st'"
  shows "tier_good st' objs (tier_truncate k t)"
proof -
  have e: "tr_segments (tier_truncate k t) = truncate_segments k (tr_segments t)"
    "tr_pending (tier_truncate k t) = tr_pending t @ dropped_keys k (tr_segments t)"
    "stored_gen st' = stored_gen st" "known_gen st' (tier_truncate k t) = known_gen st t"
    using st'(2) by (simp_all add: tier_truncate_def stored_gen_def known_gen_def split: option.split)
  note g = good [unfolded tier_good_def]
  show ?thesis unfolding tier_good_def e
  proof (intro conjI ballI)
    show "distinct (map fst (truncate_segments k (tr_segments t)))" by (rule truncated_distinct) (use g in blast)
    fix x assume x: "x \<in> set (referenced (truncate_segments k (tr_segments t)))"
    note r = truncated_referenced [OF x]
    show "objs x \<noteq> None" "snd x \<le> stored_gen st" using g r by blast+
    show "x \<notin> set (tr_pending t @ dropped_keys k (tr_segments t))" using g r dropped_key [of x] by auto
  next
    fix x assume "x \<in> set (tr_pending t @ dropped_keys k (tr_segments t))"
    then show "snd x \<le> known_gen st t" using g dropped_key [of x] by (fastforce intro: order_trans)
  qed (use g st' size in \<open>auto simp: slot_in_truncate\<close>)
qed

subsection \<open>What a commit stores\<close>

lemma map_of_sorted: "map_of (sorted_dirty S) = dirty_of S"
proof
  fix c
  have f: "map_of xs c = map_option snd (List.find (\<lambda>x. fst x = c) xs)" for xs :: "(nat \<times> buf \<times> pages) list"
    by (induction xs) auto
  have h: "List.find P xs = (case filter P xs of [] \<Rightarrow> None | x # _ \<Rightarrow> Some x)" for P and xs :: "(nat \<times> buf \<times> pages) list"
    by (induction xs) auto
  show "map_of (sorted_dirty S) c = dirty_of S c"
    unfolding f h sorted_dirty_def by (simp add: sort_key_stable)
qed

lemma flush_rows: "st_rows (flush_store S) c = (case dirty_of S c of Some r \<Rightarrow> Some r
    | None \<Rightarrow> if truncated c S then None else st_rows (v_store S) c)"
  by (auto simp: flush_store_def Let_def upsertChunks_def map_of_sorted truncate_rows_def truncated_floor split: option.split)

lemma flush_store_parts [simp]: "st_size (flush_store S) = f_size (v_file S)" "st_gen (flush_store S) = st_gen (v_store S) + 1"
    "st_maxGen (flush_store S) = st_maxGen (v_store S)"
  by (simp_all add: flush_store_def Let_def split: option.split)

lemma flush_segments: "st_segments (flush_store S) = (case f_trunc (v_file S) of None \<Rightarrow> st_segments (v_store S)
    | Some k \<Rightarrow> if v_tier S = None then st_segments (v_store S)
        else truncate_segments (chunkFloor k) (st_segments (v_store S)))"
  by (simp add: flush_store_def Let_def split: option.split)

text \<open>A state with the flushed storage and map.\<close>

definition flushed :: "vfs \<Rightarrow> vfs \<Rightarrow> bool" where
  "flushed S T \<longleftrightarrow> v_store T = flush_store S \<and> v_tier T = flush_tier S \<and> v_objects T = v_objects S"

lemma slotBytes_nil [simp]: "slotBytes objs [] c = None"
  by (simp add: slotBytes_def)

lemma flushed_slot: "flushed S T \<Longrightarrow> slot_now T c = (if truncated c S then None else slot_now S c)"
  by (auto simp: flushed_def slot_now_def segmentsOf_def flush_tier_def tier_truncate_def slotBytes_truncate
      truncated_floor split: option.split)

lemma flushed_stored:
  assumes ok: "vfs_at n S" and f: "flushed S T" and i: "i < CHUNK_SIZE"
  shows "stored T c i = current S c i"
proof -
  have row: "st_rows (v_store T) c = (case dirty_of S c of Some r \<Rightarrow> Some r
    | None \<Rightarrow> if truncated c S then None else st_rows (v_store S) c)"
    using f by (simp add: flushed_def flush_rows)
  note sl = flushed_slot [OF f, of c]
  show ?thesis
  proof (cases "dirty_of S c")
    case None
    then show ?thesis using row sl by (simp add: current_at clean_def stored_def effective_simps)
  next
    case (Some x)
    obtain d m where x: "x = (d, m)" by fastforce
    note o = dirty_okD [OF vfs_atD(3) [OF ok] Some [unfolded x]]
    show ?thesis
    proof (cases "i div VFS_PAGE_SIZE \<in> m")
      case True
      then show ?thesis using row Some x by (simp add: current_at stored_def effective_simps)
    next
      case False
      then have m: "m \<noteq> FULL_MASK" using i by auto
      have "stored S c i = (case slot_now S c of None \<Rightarrow> 0 | Some b \<Rightarrow> b i)"
      proof (cases "st_rows (v_store S) c")
        case (Some y)
        with o(5) [OF m, of "fst y" "snd y"] False show ?thesis by (cases y) (auto simp: stored_row)
      qed (simp add: stored_no_row)
      then show ?thesis using row Some x sl False o(4) [OF m]
        by (simp add: current_at clean_def stored_def effective_simps)
    qed
  qed
qed

lemma flushed_tier:
  assumes ok: "vfs_ok S" and f: "flushed S T"
  shows "tier_ok T"
proof (cases "v_tier S")
  case None
  with f show ?thesis by (simp add: flushed_def flush_tier_def tier_ok_def split: option.splits)
next
  case (Some t)
  have good: "tier_good (v_store S) (v_objects S) t" and r: "reach_ok (f_size (v_file S)) S"
    using vfs_atD(4,6) [OF ok] Some by (simp_all add: tier_ok_def)
  show ?thesis
  proof (cases "f_trunc (v_file S)")
    case None
    have "known_gen (flush_store S) t = known_gen (v_store S) t" "stored_gen (flush_store S) = stored_gen (v_store S)"
      by (simp_all add: known_gen_def stored_gen_def split: option.split)
    then have "tier_good (flush_store S) (v_objects S) t"
      using good r None by (auto simp: tier_good_def flush_segments reach_ok_def truncated_def)
    with None Some f show ?thesis by (simp add: flushed_def flush_tier_def tier_ok_def)
  next
    case k: (Some k)
    have "tier_good (flush_store S) (v_objects S) (tier_truncate (chunkFloor k) t)"
      by (rule tier_truncate_good [OF good]) (use k Some r in \<open>auto simp: flush_segments reach_ok_def truncated_floor\<close>)
    with k Some f show ?thesis by (simp add: flushed_def flush_tier_def tier_ok_def)
  qed
qed

subsection \<open>The cache after a commit\<close>

definition settled :: "(nat \<times> buf \<times> pages) list \<Rightarrow> (nat \<times> buf) set \<Rightarrow> (nat \<times> buf) set" where
  "settled rows es = {e \<in> es. fst e \<notin> fst ` set rows} \<union> {(c, d). (c, d, FULL_MASK) \<in> set rows}"

lemma cache_set_keys: "set (cache_set n c d es) \<subseteq> {e \<in> set es. fst e \<noteq> c} \<union> {(c, d)}"
  unfolding cache_set_def cache_evict_def AList.delete_eq using set_drop_subset by fastforce

lemma update_keys: "distinct (map fst es) \<Longrightarrow> set (AList.update c d es) \<subseteq> {e \<in> set es. fst e \<noteq> c} \<union> {(c, d)}"
  by (induction es) (auto simp: image_iff)

text \<open>Only the cache and the pins change, and every entry of a committed chunk is the committed one.\<close>

definition settles :: "(nat \<times> buf \<times> pages) list \<Rightarrow> vfs \<Rightarrow> vfs \<Rightarrow> bool" where
  "settles rows S T \<longleftrightarrow> (\<exists>es ps. T = S\<lparr>v_cache := es, v_pins := ps\<rparr> \<and> set es \<subseteq> settled rows (set (v_cache S))
     \<and> set ps \<subseteq> settled rows (set (v_pins S)) \<and> distinct (map fst ps))"

lemma settle_row_spec:
  assumes p: "distinct (map fst (v_pins S))"
  shows "settles [(c, d, m)] S (settle_row (c, d, m) S)"
proof -
  define es where "es = (if m = FULL_MASK then cache_set (v_capacity S) c d (v_cache S) else AList.delete c (v_cache S))"
  define ps where "ps = (if map_of (v_pins S) c = None then v_pins S
    else if m = FULL_MASK then AList.update c d (v_pins S) else AList.delete c (v_pins S))"
  have "settle_row (c, d, m) S = S\<lparr>v_cache := es, v_pins := ps\<rparr>"
    by (simp add: settle_row_def Let_def cache_put_def es_def ps_def)
  moreover have "set es \<subseteq> settled [(c, d, m)] (set (v_cache S))"
    using cache_set_keys [of "v_capacity S" c d "v_cache S"] by (auto simp: es_def settled_def AList.delete_eq)
  moreover have "set ps \<subseteq> settled [(c, d, m)] (set (v_pins S))"
  proof (cases "map_of (v_pins S) c")
    case None
    then have "c \<notin> fst ` set (v_pins S)" by (simp add: map_of_eq_None_iff)
    with None show ?thesis by (force simp: ps_def settled_def)
  next
    case (Some x)
    then show ?thesis using update_keys [OF p, of c d] by (auto simp: ps_def settled_def AList.delete_eq)
  qed
  moreover have "distinct (map fst ps)" using p by (simp add: ps_def distinct_update distinct_delete)
  ultimately show ?thesis unfolding settles_def by blast
qed

lemma settled_trans: "X \<subseteq> settled rows Y \<Longrightarrow> Y \<subseteq> settled [r] Z \<Longrightarrow> X \<subseteq> settled (r # rows) Z"
proof
  fix e assume X: "X \<subseteq> settled rows Y" and Y: "Y \<subseteq> settled [r] Z" and "e \<in> X"
  then have "e \<in> settled rows Y" by blast
  then consider "e \<in> Y" "fst e \<notin> fst ` set rows" | "(fst e, snd e, FULL_MASK) \<in> set rows" by (auto simp: settled_def)
  then show "e \<in> settled (r # rows) Z"
  proof cases
    case 1
    then have "e \<in> settled [r] Z" using Y by blast
    with 1(2) show ?thesis by (auto simp: settled_def)
  qed (auto simp: settled_def)
qed

lemma settle_fold: "distinct (map fst (v_pins S)) \<Longrightarrow> settles rows S (fold settle_row rows S)"
proof (induction rows arbitrary: S)
  case Nil
  then show ?case unfolding settles_def
    by (intro exI [of _ "v_cache S"] exI [of _ "v_pins S"]) (auto simp: settled_def)
next
  case (Cons r rows)
  obtain c d m where r: "r = (c, d, m)" by (cases r) auto
  obtain es ps where 1: "settle_row r S = S\<lparr>v_cache := es, v_pins := ps\<rparr>" "set es \<subseteq> settled [r] (set (v_cache S))"
    "set ps \<subseteq> settled [r] (set (v_pins S))" "distinct (map fst ps)"
    using settle_row_spec [OF Cons.prems, of c d m, folded r] unfolding settles_def by blast
  have "settles rows (S\<lparr>v_cache := es, v_pins := ps\<rparr>) (fold settle_row rows (S\<lparr>v_cache := es, v_pins := ps\<rparr>))"
    by (rule Cons.IH) (simp add: 1)
  then obtain es2 ps2 where 2: "fold settle_row (r # rows) S = S\<lparr>v_cache := es2, v_pins := ps2\<rparr>"
    "set es2 \<subseteq> settled rows (set es)" "set ps2 \<subseteq> settled rows (set ps)" "distinct (map fst ps2)"
    unfolding settles_def by (auto simp: 1)
  show ?case unfolding settles_def
    using 2 settled_trans [OF 2(2) 1(2)] settled_trans [OF 2(3) 1(3)] by blast
qed

subsection \<open>What a pass of the eviction may rely on\<close>

definition written_of :: "vfs \<Rightarrow> nat set" where
  "written_of S = (case f_written (v_file S) of None \<Rightarrow> {} | Some w \<Rightarrow> set w)"

text \<open>
  What happens besides the pass: unless the epoch moves, the map stays, rows change only when they are
  recorded as written, and their masks only grow.
\<close>

definition row_grows :: "(buf \<times> pages) option \<Rightarrow> (buf \<times> pages) option \<Rightarrow> bool" where
  "row_grows r r' \<longleftrightarrow> (\<forall>d0 m0. r = Some (d0, m0) \<longrightarrow> (\<exists>d m. r' = Some (d, m) \<and> m0 \<subseteq> m))"

definition drifts_rows :: "vfs \<Rightarrow> vfs \<Rightarrow> bool" where
  "drifts_rows S S' \<longleftrightarrow> segmentsOf S' = segmentsOf S
     \<and> (f_written (v_file S) \<noteq> None \<longrightarrow> f_written (v_file S') \<noteq> None \<and> written_of S \<subseteq> written_of S'
        \<and> (\<forall>c. c \<in> written_of S' \<or> st_rows (v_store S') c = st_rows (v_store S) c))
     \<and> (\<forall>c. row_grows (st_rows (v_store S) c) (st_rows (v_store S') c))
     \<and> (\<forall>c. c * CHUNK_SIZE < st_size (v_store S) \<longrightarrow> c * CHUNK_SIZE < st_size (v_store S'))"

definition drifts_tier :: "vfs \<Rightarrow> vfs \<Rightarrow> bool" where
  "drifts_tier S S' \<longleftrightarrow> (\<forall>t. v_tier S = Some t \<longrightarrow> (\<exists>t'. v_tier S' = Some t' \<and> set (tr_pending t') \<subseteq> set (tr_pending t)
     \<and> (\<forall>g. tr_maxGen t = Some g \<longrightarrow> (\<exists>g'. tr_maxGen t' = Some g' \<and> g \<le> g'))))"

text \<open>Whatever happens, the map only loses references and no generation is handed out twice.\<close>

definition tier_goes :: "vfs \<Rightarrow> vfs \<Rightarrow> bool" where
  "tier_goes S S' \<longleftrightarrow> (\<forall>t. v_tier S = Some t \<longrightarrow> (\<exists>t'. v_tier S' = Some t'
     \<and> set (referenced (tr_segments t')) \<subseteq> set (referenced (tr_segments t))
     \<and> known_gen (v_store S) t \<le> known_gen (v_store S') t'))"

definition drifts :: "vfs \<Rightarrow> vfs \<Rightarrow> bool" where
  "drifts S S' \<longleftrightarrow> tier_goes S S' \<and> v_epoch S \<le> v_epoch S' \<and> (v_epoch S' = v_epoch S \<longrightarrow> drifts_rows S S' \<and> drifts_tier S S')"

lemma row_grows_refl [simp]: "row_grows r r"
  by (simp add: row_grows_def)

lemma drifts_held:
  assumes "v_store S' = v_store S" "v_tier S' = v_tier S" "v_epoch S' = v_epoch S"
    "f_written (v_file S') = f_written (v_file S)"
  shows "drifts S S'"
  using assms by (simp add: drifts_def tier_goes_def drifts_rows_def drifts_tier_def segmentsOf_def written_of_def)

lemma tier_goes_trans: "tier_goes S S' \<Longrightarrow> tier_goes S' S'' \<Longrightarrow> tier_goes S S''"
  unfolding tier_goes_def by (meson order_trans)

lemma drifts_trans: assumes "drifts S S'" "drifts S' S''" shows "drifts S S''"
proof (cases "v_epoch S'' = v_epoch S")
  case True
  with assms have "v_epoch S' = v_epoch S" "v_epoch S'' = v_epoch S'" by (simp_all add: drifts_def)
  with assms have d: "drifts_rows S S'" "drifts_rows S' S''" "drifts_tier S S'" "drifts_tier S' S''"
    by (simp_all add: drifts_def)
  have "row_grows r r' \<Longrightarrow> row_grows r' r'' \<Longrightarrow> row_grows r r''" for r r' r''
    by (cases r; cases r') (force simp: row_grows_def)+
  with d(1,2) have "drifts_rows S S''" unfolding drifts_rows_def by (metis (no_types, lifting) subset_iff)
  moreover from d(3,4) have "drifts_tier S S''" unfolding drifts_tier_def by (meson order_trans)
  ultimately show ?thesis using True assms by (auto simp: drifts_def intro: tier_goes_trans)
qed (use assms in \<open>auto simp: drifts_def intro: tier_goes_trans\<close>)

subsection \<open>The flush\<close>

text \<open>A flush that the host does not roll back after the tier's map was cut in memory.\<close>

definition sound_fate :: "flush_fate \<Rightarrow> vfs \<Rightarrow> bool" where
  "sound_fate fate S \<longleftrightarrow> fate = RollsBack True \<longrightarrow> f_trunc (v_file S) = None \<or> v_tier S = None"

lemma commit_cache:
  assumes ok: "vfs_ok S" and f: "flushed S T" and t: "f_trunc (v_file T) = None"
    and e: "e \<in> settled (sorted_dirty S) (set (v_cache S) \<union> set (v_pins S))"
  shows "clean_entry T e"
proof -
  obtain c d where cd: "e = (c, d)" by fastforce
  have nt: "\<not> truncated c T" using t by (simp add: truncated_def)
  have "d i = current S c i" if i: "i < CHUNK_SIZE" for i
  proof (cases "c \<in> fst ` set (sorted_dirty S)")
    case True
    with e cd have "(c, d, FULL_MASK) \<in> set (f_dirty (v_file S))" by (auto simp: settled_def sorted_dirty_set)
    then have "dirty_of S c = Some (d, FULL_MASK)" using vfs_atD(3) [OF ok] by (simp add: dirty_ok_def)
    with i show ?thesis by (simp add: current_at)
  next
    case False
    with e cd have "clean_entry S (c, d)" using vfs_atD(1) [OF ok] by (force simp: settled_def cache_ok_def image_iff)
    moreover have "dirty_of S c = None"
      using False dirty_keys [of S] by (cases "dirty_of S c") (auto simp: sorted_dirty_set)
    ultimately show ?thesis using i by (simp add: current_at clean_entry_def clean_def)
  qed
  with nt show ?thesis by (simp add: cd clean_entry_def flushed_stored [OF ok f])
qed

lemma commit_rows:
  assumes ok: "vfs_at n S" and f: "flushed S T"
  shows "rows_ok T"
  unfolding rows_ok_def
proof (intro allI impI)
  fix c d m assume r: "st_rows (v_store T) c = Some (d, m)"
  have t: "v_tier T = None \<longleftrightarrow> v_tier S = None"
    using f by (simp add: flushed_def flush_tier_def split: option.split)
  show "blank_outside d m \<and> (v_tier T = None \<longrightarrow> m = FULL_MASK)"
  proof (cases "dirty_of S c")
    case None
    then have "st_rows (v_store S) c = Some (d, m)" using r f by (simp add: flushed_def flush_rows split: if_splits)
    then show ?thesis using vfs_atD(2) [OF ok] by (simp add: rows_ok_def t)
  next
    case (Some x)
    then have "dirty_of S c = Some (d, m)" using r f by (simp add: flushed_def flush_rows)
    note o = dirty_okD [OF vfs_atD(3) [OF ok] this]
    show ?thesis unfolding t using o(1,3) by blast
  qed
qed

lemma commit_snapshot:
  assumes ok: "vfs_at n S" and f: "flushed S T" and sn: "v_snapshot T = v_snapshot S"
    and more: "\<And>sn c. v_snapshot S = Some sn \<Longrightarrow> c \<in> changing S \<Longrightarrow> c < sn_totalChunks sn \<Longrightarrow> sn_shadow sn c \<noteq> None"
  shows "snap_ok T \<and> snap_kept S T"
proof (cases "v_snapshot S")
  case None
  then show ?thesis by (simp add: snap_ok_def snap_kept_def sn)
next
  case (Some s)
  have o: "v_objects T = v_objects S" using f by (simp add: flushed_def)
  have row: "st_rows (v_store T) c = st_rows (v_store S) c" "slot_now T c = slot_now S c"
    if "c < sn_totalChunks s" "sn_shadow s c = None" for c
  proof -
    have "c \<notin> changing S" using more [OF Some, of c] that by blast
    then have "dirty_of S c = None" "\<not> truncated c S" unfolding changing_def by blast+
    with f flushed_slot [OF f, of c] show "st_rows (v_store T) c = st_rows (v_store S) c" "slot_now T c = slot_now S c"
      by (simp_all add: flushed_def flush_rows)
  qed
  have "snap_gens (v_store T) (v_tier T) s" if "snap_gens (v_store S) (v_tier S) s"
    using that f by (auto simp: snap_gens_def flushed_def flush_tier_def tier_truncate_def known_gen_def stored_gen_def split: option.splits)
  then have "snap_ok T" using vfs_atD(10) [OF ok] Some row by (auto simp: snap_ok_def sn o)
  moreover have "snap_bytes s T c i = snap_bytes s S c i" if "c < sn_totalChunks s" "i < CHUNK_SIZE" for c i
    using row(1) [OF that(1)] that(2) by (auto simp: snap_bytes_def window_effective o split: option.split)
  ultimately show ?thesis using Some by (simp add: snap_kept_def sn)
qed

lemma flush_rolled_back:
  assumes ok: "vfs_ok S" and safe: "reached \<longrightarrow> f_trunc (v_file S) = None \<or> v_tier S = None"
  defines "S1 \<equiv> pin_preimages S"
  shows "(if reached then S1\<lparr>v_tier := flush_tier S1\<rparr> else S1) = S1"
proof -
  have "v_tier S1 = v_tier S" "f_trunc (v_file S1) = f_trunc (v_file S)"
    using same_view_bytes [OF pin_preimages_spec(2) [OF ok]] by (simp_all add: S1_def)
  then show ?thesis using safe by (auto simp: flush_tier_def split: option.split)
qed

lemma commit_tier_goes:
  assumes "flushed S T"
  shows "tier_goes S T"
  unfolding tier_goes_def
proof (intro allI impI)
  fix t assume t: "v_tier S = Some t"
  show "\<exists>t'. v_tier T = Some t' \<and> set (referenced (tr_segments t')) \<subseteq> set (referenced (tr_segments t))
     \<and> known_gen (v_store S) t \<le> known_gen (v_store T) t'"
    using assms t truncated_referenced
    by (auto simp: flushed_def flush_tier_def tier_truncate_def known_gen_def stored_gen_def split: option.split)
qed

lemma commit_drifts:
  assumes ok: "vfs_ok S" and f: "flushed S T"
    and e: "v_epoch T = (if f_trunc (v_file S) = None then v_epoch S else v_epoch S + 1)"
    and w: "f_written (v_file T) = map_option (\<lambda>w. w @ map fst (sorted_dirty S)) (f_written (v_file S))"
  shows "drifts S T"
proof (cases "f_trunc (v_file S)")
  case None
  note D = vfs_atD [OF ok] and G = commit_tier_goes [OF f]
  have row: "st_rows (v_store T) c = (case dirty_of S c of Some r \<Rightarrow> Some r | None \<Rightarrow> st_rows (v_store S) c)" for c
    using f None by (simp add: flushed_def flush_rows truncated_def split: option.split)
  have tier: "v_tier T = v_tier S" using f None by (simp add: flushed_def flush_tier_def)
  have "row_grows (st_rows (v_store S) c) (st_rows (v_store T) c)" for c
  proof (cases "dirty_of S c")
    case (Some x)
    obtain d m where x: "x = (d, m)" by fastforce
    have "m0 \<subseteq> m" if r: "st_rows (v_store S) c = Some (d0, m0)" for d0 m0
    proof (cases "m = FULL_MASK")
      case True
      with D(2) r show ?thesis by (simp add: rows_ok_def blank_outside_def)
    next
      case False
      from dirty_okD(5) [OF D(3) Some [unfolded x] False r] show ?thesis .
    qed
    with Some x show ?thesis by (simp add: row row_grows_def)
  qed (simp add: row)
  moreover have "c \<in> written_of T \<or> st_rows (v_store T) c = st_rows (v_store S) c"
    if "f_written (v_file S) \<noteq> None" for c
    using that dirty_keys [of S] by (cases "dirty_of S c") (auto simp: written_of_def w row sorted_dirty_set)
  moreover have "c * CHUNK_SIZE < st_size (v_store S) \<Longrightarrow> c * CHUNK_SIZE < st_size (v_store T)" for c
    using D(6) None f by (simp add: reach_ok_def truncated_def flushed_def)
  ultimately show ?thesis using None e w G
    by (auto simp: drifts_def drifts_rows_def drifts_tier_def segmentsOf_def tier written_of_def)
qed (simp add: drifts_def e commit_tier_goes [OF f])

lemma flush_spec:
  assumes ok: "vfs_ok S" and safe: "sound_fate fate S" and fl: "flush_file fate S = (done, S')"
  shows "vfs_ok S' \<and> content S' = content S \<and> snap_kept S S' \<and> v_objects S' = v_objects S
    \<and> saved S' = (if done then content S else saved S) \<and> drifts S S'
    \<and> f_lock (v_file S') = f_lock (v_file S) \<and> f_spill (v_file S') = f_spill (v_file S)
    \<and> (done \<longrightarrow> f_dirty (v_file S') = [] \<and> f_trunc (v_file S') = None) \<and> (v_tier S' = None \<longleftrightarrow> v_tier S = None)
    \<and> st_gen (v_store S') \<ge> st_gen (v_store S) \<and> (st_gen (v_store S') = st_gen (v_store S) \<longrightarrow> saved S' = saved S)"
proof -
  define S1 where "S1 = pin_preimages S"
  note P = pin_preimages_spec [OF ok, folded S1_def]
  note B = same_view_bytes [OF P(2)] and D = vfs_atD [OF ok]
  show ?thesis
  proof (cases "f_dirty (v_file S) = [] \<and> f_trunc (v_file S) = None \<and> \<not> f_sizeDirty (v_file S)")
    case True
    then have "current S = clean S" "clean S = stored S"
      by (simp_all add: fun_eq_iff current_def clean_def truncated_def)
    then have "saved S = content S" using D(6) True by (simp add: saved_def content_def reach_ok_def)
    moreover have "done \<and> S' = S" using fl True by (simp add: flush_file_def)
    ultimately show ?thesis using ok True by (simp add: drifts_held)
  next
    case pending: False
    show ?thesis
    proof (cases fate)
      case (RollsBack reached)
      have "reached \<longrightarrow> f_trunc (v_file S) = None \<or> v_tier S = None"
        using safe RollsBack by (simp add: sound_fate_def)
      then have "\<not> done \<and> S' = S1"
        using fl pending RollsBack flush_rolled_back [OF ok] by (auto simp: flush_file_def Let_def S1_def split: if_splits)
      with P B show ?thesis by (simp add: content_def saved_def drifts_held)
    next
      case Commits
      define S2 where "S2 = S1\<lparr>v_store := flush_store S1, v_tier := flush_tier S1,
        v_epoch := (if f_trunc (v_file S) = None then v_epoch S1 else v_epoch S1 + 1)\<rparr>"
      have "settles (sorted_dirty S1) S2 (fold settle_row (sorted_dirty S1) S2)"
        by (rule settle_fold) (use vfs_atD(1) [OF P(1)] in \<open>simp add: S2_def cache_ok_def\<close>)
      then obtain es ps where 3: "fold settle_row (sorted_dirty S1) S2 = S2\<lparr>v_cache := es, v_pins := ps\<rparr>"
        "set es \<subseteq> settled (sorted_dirty S1) (set (v_cache S1))" "set ps \<subseteq> settled (sorted_dirty S1) (set (v_pins S1))"
        "distinct (map fst ps)" unfolding settles_def by (auto simp: S2_def)
      have S': "done" "S' = S2\<lparr>v_cache := es, v_pins := ps,
          v_file := clean_file (map fst (sorted_dirty S1)) (v_file S)\<rparr>"
        using fl pending Commits 3(1) by (simp_all add: flush_file_def Let_def S1_def [symmetric] S2_def B del: fold_simps)
      have f: "flushed S1 S'" by (simp add: flushed_def S' S2_def)
      have fil: "f_dirty (v_file S') = []" "f_trunc (v_file S') = None" "f_size (v_file S') = f_size (v_file S)"
          "\<not> f_sizeDirty (v_file S')" "f_gen (v_file S') = f_gen (v_file S) + 1" "st_size (v_store S') = f_size (v_file S)"
          "st_gen (v_store S') = st_gen (v_store S) + 1" "v_snapshot S' = v_snapshot S1"
        by (simp_all add: S' clean_file_def S2_def B)
      have st: "stored S' c i = current S c i" if "i < CHUNK_SIZE" for c i
        using flushed_stored [OF P(1) f that] by (simp add: B)
      have cur: "current S' = stored S'"
        by (simp add: fun_eq_iff current_def clean_def truncated_def fil)
      have fla: "flat (stored S') = flat (current S)" by (rule flat_cong) (simp add: st)
      have blank: "blank_past (f_size (v_file S)) (stored S')" using D(7) st by (simp add: blank_past_def)
      have ch: "changing S1 = changing S" by (simp add: changing_def B)
      have sn: "snap_ok S' \<and> snap_kept S1 S'" by (rule commit_snapshot [OF P(1) f fil(8)]) (use P(7) ch in blast)
      have "vfs_ok S'"
      proof (rule vfs_atI)
        show "cache_ok S'" unfolding cache_ok_def
          using commit_cache [OF P(1) f fil(2)] 3 by (auto simp: S' settled_def)
        show "rows_ok S'" by (rule commit_rows [OF P(1) f])
        show "dirty_ok (f_size (v_file S')) S'" "calm (f_size (v_file S')) S'" "base_ok S'"
          by (simp_all add: dirty_ok_def calm_def base_ok_def fil)
        show "tier_ok S'" by (rule flushed_tier [OF P(1) f])
        show "reach_ok (f_size (v_file S')) S'" using D(6) by (simp add: reach_ok_def fil)
        show "blank_past (f_size (v_file S')) (current S')" "blank_past (st_size (v_store S')) (stored S')"
          using blank by (simp_all add: cur fil)
      qed (use sn in simp)
      moreover have "content S' = content S" "saved S' = content S"
        by (simp_all add: content_def saved_def cur fla fil)
      moreover have "drifts S1 S'"
        by (rule commit_drifts [OF P(1) f]) (simp_all add: S' S2_def clean_file_def B)
      then have "drifts S S'" by (rule drifts_trans [rotated]) (simp add: drifts_held P B)
      ultimately show ?thesis using S' sn snap_kept_trans [OF P(6)] B fil
        by (simp add: S2_def clean_file_def flush_tier_def split: option.split)
    qed
  qed
qed

end
