(* ===== verification/Vfs_Calls.thy ===== *)
theory Vfs_Calls
  imports Vfs_Flush
begin

text \<open>
  The calls of SQLite and of the runtime on the file, each as a step of the abstract file, and what the
  VFS does in the background, which leaves the abstract file as it is.
\<close>

subsection \<open>Sound moves\<close>

definition objects_kept :: "vfs \<Rightarrow> vfs \<Rightarrow> bool" where
  "objects_kept S S' \<longleftrightarrow> (\<forall>k. (\<exists>t. v_tier S = Some t \<and> k \<in> set (tr_pending t)) \<or> v_objects S' k = v_objects S k)"

lemma objects_keptD:
  "objects_kept S S' \<Longrightarrow> v_tier S = Some t \<Longrightarrow> k \<notin> set (tr_pending t) \<Longrightarrow> v_objects S' k = v_objects S k"
  unfolding objects_kept_def by (metis option.inject)

text \<open>The stored bytes change with the generation only.\<close>

definition gen_counts :: "vfs \<Rightarrow> vfs \<Rightarrow> bool" where
  "gen_counts S S' \<longleftrightarrow> st_gen (v_store S) \<le> st_gen (v_store S')
     \<and> (st_gen (v_store S') = st_gen (v_store S) \<longrightarrow> saved S' = saved S)"

definition sound_move :: "vfs \<Rightarrow> vfs \<Rightarrow> bool" where
  "sound_move S S' \<longleftrightarrow> vfs_ok S' \<and> snap_kept S S' \<and> drifts S S' \<and> objects_kept S S' \<and> gen_counts S S'"

lemma gen_counts_same: "v_store S' = v_store S \<Longrightarrow> saved S' = saved S \<Longrightarrow> gen_counts S S'"
  by (simp add: gen_counts_def)

lemma gen_counts_trans: "gen_counts S S' \<Longrightarrow> gen_counts S' S'' \<Longrightarrow> gen_counts S S''"
  by (auto simp: gen_counts_def)

lemma held_drifts: "held S S' \<Longrightarrow> drifts S S'"
  by (rule drifts_held) (simp_all add: heldD)

lemma held_objects: "held S S' \<Longrightarrow> objects_kept S S'"
  by (simp add: objects_kept_def heldD)

lemma held_sound: "vfs_ok S' \<Longrightarrow> held S S' \<Longrightarrow> sound_move S S'"
  by (simp add: sound_move_def held_snap held_drifts held_objects gen_counts_same heldD held_saved)

text \<open>A flush after a move that held everything back.\<close>

lemma held_then_flush:
  assumes "held S S1" "vfs_ok S1" "sound_fate fate S1" "flush_file fate S1 = (done, S')"
  shows "sound_move S S' \<and> content S' = content S1 \<and> saved S' = (if done then content S1 else saved S)
    \<and> f_spill (v_file S') = f_spill (v_file S)"
proof -
  note F = flush_spec [OF assms(2-4)]
  have g: "gen_counts S1 S'" unfolding gen_counts_def using F by blast
  have "objects_kept S S'" using F heldD(2) [OF assms(1)] by (simp add: objects_kept_def)
  with F g show ?thesis
    using snap_kept_trans [OF held_snap [OF assms(1)]] drifts_trans [OF held_drifts [OF assms(1)]]
      gen_counts_trans [OF gen_counts_same [OF heldD(1) held_saved(2)], OF assms(1) assms(1)] held_saved(2) [OF assms(1)]
      heldD(7) [OF assms(1)]
    by (simp add: sound_move_def)
qed

subsection \<open>Reads, writes and truncations\<close>

lemma vfs_at_grow:
  assumes "vfs_at n S"
  shows "vfs_at n (S\<lparr>v_file := (v_file S)\<lparr>f_size := k, f_sizeDirty := True\<rparr>\<rparr>)"
    "current (S\<lparr>v_file := (v_file S)\<lparr>f_size := k, f_sizeDirty := True\<rparr>\<rparr>) = current S"
proof -
  define f where "f = (v_file S)\<lparr>f_size := k, f_sizeDirty := True\<rparr>"
  have t: "f_trunc f = f_trunc (v_file S)" "f_dirty f = f_dirty (v_file S)" "f_base f = f_base (v_file S)"
    "f_sizeDirty f" "f_gen f = f_gen (v_file S)"
    by (simp_all add: f_def)
  note T = trunc_views [OF t(1)] and D = vfs_atD [OF assms]
  have cur: "current (S\<lparr>v_file := f\<rparr>) = current S"
    by (auto simp: fun_eq_iff current_def T t split: option.split)
  have "vfs_at n (S\<lparr>v_file := f\<rparr>)"
  proof (rule vfs_atI)
    show "dirty_ok n (S\<lparr>v_file := f\<rparr>)" using D(3) by (simp add: dirty_ok_def T t)
    show "reach_ok n (S\<lparr>v_file := f\<rparr>)" using D(6) by (simp add: reach_ok_def T t)
    show "base_ok (S\<lparr>v_file := f\<rparr>)" using D(9) by (simp add: base_ok_def T t)
  qed (use vfs_atD [OF assms] in \<open>simp_all add: T cur\<close>)
  with cur show "vfs_at n (S\<lparr>v_file := (v_file S)\<lparr>f_size := k, f_sizeDirty := True\<rparr>\<rparr>)"
    "current (S\<lparr>v_file := (v_file S)\<lparr>f_size := k, f_sizeDirty := True\<rparr>\<rparr>) = current S"
    by (simp_all add: f_def)
qed

text \<open>
  What SQLite and the runtime ensure: whole pages on a tiered file, and no growth past a truncation that
  is not flushed while a tier or a snapshot is there.
\<close>

definition write_guard :: "nat \<Rightarrow> nat \<Rightarrow> vfs \<Rightarrow> bool" where
  "write_guard off n S \<longleftrightarrow> (v_tier S = None \<or> paged off n) \<and> calm (max (f_size (v_file S)) (off + n)) S"

lemma xWrite_spec:
  assumes ok: "vfs_ok S" and g: "write_guard off (length bs) S" and fate: "sound_fate fate S"
    and x: "xWrite fate off bs S = (code, S')"
  shows "sound_move S S' \<and> content S' = a_write off bs (content S)
    \<and> (saved S' = saved S \<or> f_spill (v_file S) \<and> saved S' = content S') \<and> f_spill (v_file S') = f_spill (v_file S)
    \<and> code \<in> {SQLITE_OK, SQLITE_IOERR_WRITE} \<and> (fate = Commits \<longrightarrow> code = SQLITE_OK)"
proof -
  define N where "N = max (f_size (v_file S)) (off + length bs)"
  have okN: "vfs_at N S" by (rule vfs_at_mono [OF ok]) (use g in \<open>simp_all add: N_def write_guard_def\<close>)
  obtain S1 where w: "write_loop off bs S = (True, S1)" "vfs_at N S1" "kept S S1"
    "\<And>p. flat (current S1) p = (if off \<le> p \<and> p < off + length bs then bs ! (p - off) else flat (current S) p)"
    using write_loop_spec [OF okN, of off bs] g by (auto simp: N_def write_guard_def)
  define S2 where "S2 = (if off + length bs > f_size (v_file S1)
    then S1\<lparr>v_file := (v_file S1)\<lparr>f_size := off + length bs, f_sizeDirty := True\<rparr>\<rparr> else S1)"
  have size: "f_size (v_file S1) = f_size (v_file S)" by (rule kept_file [OF w(3)])
  then have N: "f_size (v_file S2) = N" by (simp add: S2_def N_def)
  have ok2: "vfs_ok S2" unfolding N using vfs_at_grow(1) [OF w(2)] w(2) by (simp add: S2_def)
  have "current S2 = current S1" using vfs_at_grow(2) [OF w(2)] by (simp add: S2_def)
  then have c2: "content S2 = a_write off bs (content S)"
    using w(4) N by (auto simp: content_def a_write_def N_def)
  have h: "held S S2" using kept_held [OF w(3)] by (simp add: held_def S2_def)
  have fate2: "sound_fate fate S2"
    using fate heldD(3) [OF h] kept_file(2) [OF w(3)] by (simp add: sound_fate_def S2_def)
  have e: "xWrite fate off bs S = (if f_spill (v_file S2) \<and> length (f_dirty (v_file S2)) \<ge> SPILL_CHUNKS
            then (case flush_file fate S2 of (ok, S3) \<Rightarrow> (if ok then SQLITE_OK else SQLITE_IOERR_WRITE, S3))
            else (SQLITE_OK, S2))"
    unfolding xWrite_def w(1) Let_def prod.case bool.case S2_def by (rule refl)
  show ?thesis
  proof (cases "f_spill (v_file S2) \<and> length (f_dirty (v_file S2)) \<ge> SPILL_CHUNKS")
    case False
    then have "code = SQLITE_OK" "S' = S2" using x e by auto
    then show ?thesis using held_sound [OF ok2 h] c2 held_saved [OF h] heldD(7) [OF h] by simp
  next
    case True
    obtain b S3 where fl: "flush_file fate S2 = (b, S3)" by fastforce
    have "fate = Commits \<Longrightarrow> b" using fl by (auto simp: flush_file_def Let_def split: if_splits)
    moreover have "S' = S3" "code = (if b then SQLITE_OK else SQLITE_IOERR_WRITE)"
      using x e True fl by (auto split: if_splits)
    ultimately show ?thesis
      using held_then_flush [OF h ok2 fate2 fl] c2 True heldD(7) [OF h] by auto
  qed
qed

definition truncate_guard :: "nat \<Rightarrow> vfs \<Rightarrow> bool" where
  "truncate_guard n S \<longleftrightarrow> v_tier S = None \<or> n mod VFS_PAGE_SIZE = 0"

lemma xTruncate_spec:
  assumes "vfs_ok S" "truncate_guard n S" "xTruncate n S = (code, S')"
  shows "sound_move S S' \<and> content S' = a_truncate n (content S) \<and> saved S' = saved S \<and> code = SQLITE_OK
    \<and> f_spill (v_file S') = f_spill (v_file S)"
proof -
  obtain S1 where S1: "truncatePersistent n S = (True, S1)" "vfs_ok S1" "held S S1" "content S1 = a_truncate n (content S)"
    using truncate_spec [OF assms(1), of n] assms(2) by (auto simp: truncate_guard_def)
  then have "code = SQLITE_OK" "S' = S1" using assms(3) by (simp_all add: xTruncate_def)
  then show ?thesis using S1 held_sound [OF S1(2,3)] held_saved [OF S1(3)] heldD(7) [OF S1(3)] by simp
qed

lemma xSync_spec:
  assumes "vfs_ok S" "sound_fate fate S" "xSync fate S = (code, S')"
  shows "sound_move S S' \<and> content S' = content S \<and> saved S' = (if code = SQLITE_OK then content S else saved S)
    \<and> f_spill (v_file S') = f_spill (v_file S) \<and> code \<in> {SQLITE_OK, SQLITE_IOERR_FSYNC} \<and> (fate = Commits \<longrightarrow> code = SQLITE_OK)"
proof -
  obtain b S1 where fl: "flush_file fate S = (b, S1)" by fastforce
  have "fate = Commits \<Longrightarrow> b" using fl by (auto simp: flush_file_def Let_def split: if_splits)
  moreover have "S' = S1" "code = (if b then SQLITE_OK else SQLITE_IOERR_FSYNC)" using assms(3) fl by (auto simp: xSync_def)
  ultimately show ?thesis using held_then_flush [OF held_refl assms(1,2) fl] by auto
qed

lemma vfs_at_file:
  assumes ok: "vfs_at n S"
    and t: "f_trunc f = f_trunc (v_file S)" "f_dirty f = f_dirty (v_file S)" "f_base f = f_base (v_file S)"
      "f_size f = f_size (v_file S)" "f_sizeDirty f = f_sizeDirty (v_file S)" "f_gen f = f_gen (v_file S)"
  shows "vfs_at n (S\<lparr>v_file := f\<rparr>)" "current (S\<lparr>v_file := f\<rparr>) = current S"
proof -
  note T = trunc_views [OF t(1)] and D = vfs_atD [OF ok]
  show cur: "current (S\<lparr>v_file := f\<rparr>) = current S"
    by (auto simp: fun_eq_iff current_def T t split: option.split)
  show "vfs_at n (S\<lparr>v_file := f\<rparr>)"
  proof (rule vfs_atI)
    show "dirty_ok n (S\<lparr>v_file := f\<rparr>)" using D(3) by (simp add: dirty_ok_def T t)
    show "base_ok (S\<lparr>v_file := f\<rparr>)" using D(9) by (simp add: base_ok_def T t)
    show "blank_past n (current (S\<lparr>v_file := f\<rparr>))" using D(7) by (simp add: cur)
  qed (use vfs_atD [OF ok] in \<open>simp_all add: T t\<close>)
qed

lemma xLock_ok: "vfs_at n S \<Longrightarrow> vfs_at n (xLock level S)" "vfs_at n S \<Longrightarrow> current (xLock level S) = current S"
    "held S (xLock level S)"
  unfolding xLock_def by (rule vfs_at_file(1), simp_all) (rule vfs_at_file(2), simp_all add: held_def)

lemma xLock_spec: "vfs_ok S \<Longrightarrow> sound_move S (xLock level S) \<and> content (xLock level S) = content S
    \<and> saved (xLock level S) = saved S \<and> f_spill (v_file (xLock level S)) = f_spill (v_file S)"
  using xLock_ok(1,2) [of "f_size (v_file S)" S level] xLock_ok(3) [of S level] held_sound [of "xLock level S" S] held_saved [of S "xLock level S"]
  by (simp add: content_def xLock_def)

lemma xUnlock_spec:
  assumes ok: "vfs_ok S" and fate: "sound_fate fate S" and x: "xUnlock fate level S = (code, S')"
  shows "sound_move S S' \<and> content S' = content S \<and> f_spill (v_file S') = f_spill (v_file S)
    \<and> saved S' = (if f_lock (v_file S) \<ge> SQLITE_LOCK_EXCLUSIVE \<and> level < SQLITE_LOCK_EXCLUSIVE \<and> code = SQLITE_OK
          then content S else saved S)"
proof -
  define S1 where "S1 = xLock level S"
  note L = xLock_spec [OF ok, of level, folded S1_def] and H = xLock_ok(3) [of S level, folded S1_def]
  have ok1: "vfs_ok S1" using L by (simp add: sound_move_def)
  have fate1: "sound_fate fate S1" using fate by (simp add: sound_fate_def S1_def xLock_def)
  show ?thesis
  proof (cases "f_lock (v_file S) \<ge> SQLITE_LOCK_EXCLUSIVE \<and> level < SQLITE_LOCK_EXCLUSIVE")
    case False
    then have "code = SQLITE_OK" "S' = S1" using x unfolding xUnlock_def Let_def S1_def [symmetric] by (auto split: if_splits)
    with L False show ?thesis by auto
  next
    case True
    obtain b S2 where fl: "flush_file fate S1 = (b, S2)" by fastforce
    have "S' = S2" "code = (if b then SQLITE_OK else SQLITE_IOERR_UNLOCK)"
      using x True fl unfolding xUnlock_def Let_def S1_def [symmetric] by auto
    then show ?thesis using held_then_flush [OF H ok1 fate1 fl] L True by auto
  qed
qed

lemma xRead_held:
  assumes "vfs_ok S" "xRead off want S = (code, bs, S')"
  shows "held S S'"
proof -
  obtain r S1 where l: "read_loop off (off + min want (f_size (v_file S) - off)) S = (r, S1)" by fastforce
  have le: "off + min want (f_size (v_file S) - off) \<le> f_size (v_file S) \<or> off + min want (f_size (v_file S) - off) = off"
    by auto
  have "quiet S S1"
  proof (cases "off + min want (f_size (v_file S) - off) = off")
    case True
    then have "S1 = S" using l by (simp add: read_loop.simps [of off])
    then show ?thesis by simp
  next
    case False
    with le have "off + min want (f_size (v_file S) - off) \<le> f_size (v_file S)" by blast
    from read_loop_spec [OF assms(1) this l] show ?thesis by blast
  qed
  then have "held S S1" by (rule kept_held [OF quiet_kept])
  moreover have "S' = S1 \<or> (\<exists>c. S' = miss c S1)" using assms(2) l by (auto simp: xRead_def Let_def split: sum.splits)
  ultimately show ?thesis by (auto simp: held_def miss_def)
qed

lemma xRead_sound: "vfs_ok S \<Longrightarrow> xRead off want S = (code, bs, S') \<Longrightarrow> sound_move S S'"
  using held_sound xRead_held xRead_spec by blast

end
