(* ===== verification/Vfs_Background.thy ===== *)
theory Vfs_Background
  imports Vfs_Calls
begin

text \<open>
  What happens to the file besides SQLite's calls: a new object attaches to the storage, snapshots are
  opened and closed, missed chunks are fetched and pinned, objects of the bucket are deleted, the file
  is made hot again. The abstract file stays as it is, except that an attach falls back to the saved one.
\<close>

subsection \<open>Attaching to the storage\<close>

text \<open>A VFS that has just opened the file: storage, the bucket, and what is left of the tier's queue.\<close>

definition newly_opened :: "(page_tier \<Rightarrow> (nat \<times> nat) list) \<Rightarrow> vfs \<Rightarrow> vfs \<Rightarrow> bool" where
  "newly_opened q S T \<longleftrightarrow> v_store T = v_store S \<and> v_objects T = v_objects S \<and> v_snapshot T = None \<and> v_pins T = [] \<and> v_cache T = []
     \<and> v_misses T = [] \<and> v_file T = fresh_file (f_spill (v_file S)) (v_store S)
     \<and> v_tier T = map_option (\<lambda>t. t\<lparr>tr_segments := st_segments (v_store S), tr_maxGen := None, tr_pending := q t\<rparr>) (v_tier S)"

lemma newly_openedD:
  assumes "newly_opened q S T"
  shows "v_store T = v_store S" "v_objects T = v_objects S" "v_snapshot T = None" "v_pins T = []" "v_cache T = []"
    "v_misses T = []" "v_file T = fresh_file (f_spill (v_file S)) (v_store S)"
    "v_tier T = map_option (\<lambda>t. t\<lparr>tr_segments := st_segments (v_store S), tr_maxGen := None, tr_pending := q t\<rparr>) (v_tier S)"
  using assms by (simp_all add: newly_opened_def)

lemma opened_stored:
  assumes "newly_opened q S T" "tier_ok S"
  shows "slot_now T = slot_now S" "stored T = stored S" "current T = stored S"
proof -
  note R = newly_openedD [OF assms(1)]
  have g: "segmentsOf T = segmentsOf S"
    using assms(2) by (auto simp: segmentsOf_def R(8) tier_ok_def tier_good_def split: option.splits)
  show n: "slot_now T = slot_now S" by (simp add: fun_eq_iff slot_now_def g R(1-7))
  show st: "stored T = stored S" by (simp add: fun_eq_iff stored_def n R(1-7))
  show "current T = stored S"
    by (simp add: fun_eq_iff current_def clean_def truncated_def st R(1-7) fresh_file_def)
qed

lemma opened_content:
  assumes "newly_opened q S T" "vfs_ok S"
  shows "content T = saved S" "saved T = saved S" "gen_counts S T"
proof -
  note B = opened_stored [OF assms(1) vfs_atD(4) [OF assms(2)]] and R = newly_openedD [OF assms(1)]
  show "content T = saved S" "saved T = saved S" by (simp_all add: content_def saved_def B R(1-7) fresh_file_def)
  then show "gen_counts S T" by (simp add: gen_counts_def R(1-7))
qed

lemma opened_ok:
  assumes o: "newly_opened q S T" and ok: "vfs_ok S"
    and q: "\<And>t k. v_tier S = Some t \<Longrightarrow> k \<in> set (q t) \<Longrightarrow> k \<in> set (tr_pending t) \<and> snd k \<le> stored_gen (v_store S)"
  shows "vfs_ok T"
proof -
  note D = vfs_atD [OF ok] and R = newly_openedD [OF o]
  note B = opened_stored [OF o D(4)]
  have t: "v_tier T = None \<longleftrightarrow> v_tier S = None" by (simp add: R(8))
  show ?thesis
  proof (rule vfs_atI)
    show "cache_ok T" by (simp add: cache_ok_def R(1-7))
    show "rows_ok T" using D(2) by (simp add: rows_ok_def R(1-7) t)
    show "dirty_ok (f_size (v_file T)) T" "calm (f_size (v_file T)) T" "reach_ok (f_size (v_file T)) T" "base_ok T" "snap_ok T"
      by (simp_all add: dirty_ok_def calm_def reach_ok_def base_ok_def snap_ok_def R(1-7) fresh_file_def)
    show "tier_ok T"
    proof (cases "v_tier S")
      case (Some t)
      have old: "set (q t) \<subseteq> set (tr_pending t)" "\<forall>k \<in> set (q t). snd k \<le> stored_gen (v_store S)"
        using q [OF Some] by blast+
      have "tier_good (v_store S) (v_objects S) (t\<lparr>tr_segments := st_segments (v_store S), tr_maxGen := None, tr_pending := q t\<rparr>)"
        using D(4) Some old by (simp add: tier_ok_def tier_good_def known_gen_def) (metis subsetD)
      with Some show ?thesis by (simp add: tier_ok_def R)
    qed (simp add: tier_ok_def R)
    show "blank_past (f_size (v_file T)) (current T)" "blank_past (st_size (v_store T)) (stored T)"
      using D(8) by (simp_all add: B R(1-7) fresh_file_def)
  qed
qed

text \<open>
  An attach forgets the generations that were handed out but not stored, and keeps the queue of deletes:
  it is safe when storage knows every queued generation. A new isolate has an empty queue.
\<close>

definition attach_guard :: "vfs \<Rightarrow> bool" where
  "attach_guard S \<longleftrightarrow> (case v_tier S of None \<Rightarrow> True | Some t \<Rightarrow> \<forall>k \<in> set (tr_pending t). snd k \<le> stored_gen (v_store S))"

lemma reattach_opened: "newly_opened tr_pending S (reattach S)"
  by (simp add: newly_opened_def reattach_def)

lemma restart_opened: "newly_opened (\<lambda>_. []) S (restart S)"
  by (simp add: newly_opened_def restart_def reattach_def option.map_comp comp_def)

lemma reattach_spec:
  assumes "vfs_ok S"
  shows "content (reattach S) = saved S" "saved (reattach S) = saved S" "gen_counts S (reattach S)"
    "attach_guard S \<Longrightarrow> vfs_ok (reattach S)"
  using opened_content [OF reattach_opened assms] by simp_all (rule opened_ok [OF reattach_opened assms], simp_all add: attach_guard_def)

lemma restart_spec:
  assumes "vfs_ok S"
  shows "content (restart S) = saved S" "saved (restart S) = saved S" "gen_counts S (restart S)" "vfs_ok (restart S)"
  using opened_content [OF restart_opened assms] opened_ok [OF restart_opened assms] by simp_all

subsection \<open>Snapshots\<close>

lemma openSnapshot_spec:
  assumes ok: "vfs_ok S" and fate: "sound_fate fate S" and x: "openSnapshot fate S = (done, S')"
  shows "vfs_ok S' \<and> drifts S S' \<and> objects_kept S S' \<and> gen_counts S S' \<and> content S' = content S
    \<and> saved S' \<in> {saved S, content S} \<and> f_spill (v_file S') = f_spill (v_file S)
    \<and> (v_snapshot S \<noteq> None \<longrightarrow> snap_kept S S')
    \<and> (done \<longrightarrow> v_snapshot S = None \<and> saved S' = content S \<and> (\<exists>sn. v_snapshot S' = Some sn \<and> sn_size sn = fst (content S)
          \<and> sn_totalChunks sn = ceil_div (sn_size sn) CHUNK_SIZE
          \<and> (\<forall>c. \<forall>i < CHUNK_SIZE. snap_bytes sn S' c i = stored S' c i)))"
proof (cases "v_snapshot S \<noteq> None \<or> f_lock (v_file S) \<ge> SQLITE_LOCK_EXCLUSIVE")
  case True
  then have "S' = S" "\<not> done" using x by (auto simp: openSnapshot_def)
  with ok show ?thesis by (simp add: drifts_held objects_kept_def gen_counts_def)
next
  case False
  obtain b S1 where fl: "flush_file fate S = (b, S1)" by fastforce
  note F = held_then_flush [OF held_refl ok fate fl] and F2 = flush_spec [OF ok fate fl]
  have no: "v_snapshot S1 = None" using F False by (simp add: sound_move_def snap_kept_def)
  show ?thesis
  proof (cases b)
    case False
    then have "S' = S1" "\<not> done" using x fl \<open>\<not> (_ \<or> _)\<close> by (simp_all add: openSnapshot_def)
    with F show ?thesis by (simp add: sound_move_def)
  next
    case True
    define sn where "sn = \<lparr>sn_size = f_size (v_file S1), sn_totalChunks = totalChunks S1,
      sn_shadow = (\<lambda>_. None), sn_segments = segmentsOf S1\<rparr>"
    have S': "done" "S' = S1\<lparr>v_snapshot := Some sn\<rparr>"
      using x fl True \<open>\<not> (_ \<or> _)\<close> by (simp_all add: openSnapshot_def sn_def)
    have v: "same_view S1 S'" by (simp add: S')
    note B = same_view_bytes [OF v]
    have ok1: "vfs_ok S1" and fil: "f_dirty (v_file S1) = []" "f_trunc (v_file S1) = None"
      using F2 True by simp_all
    note D = vfs_atD [OF ok1]
    have "vfs_ok S'"
    proof (rule vfs_atI)
      show "cache_ok S'" using D(1) by (simp add: cache_ok_def B) (simp add: S')
      show "calm (f_size (v_file S')) S'" "base_ok S'" by (simp_all add: calm_def base_ok_def B fil)
      show "snap_ok S'"
      proof -
        have "snap_gens (v_store S1) (v_tier S1) sn"
          using D(4) by (fastforce simp: snap_gens_def sn_def segmentsOf_def tier_ok_def tier_good_def split: option.split)
        moreover have "sn_size sn \<le> sn_totalChunks sn * CHUNK_SIZE"
          using ceil_div_le [OF CHUNK_SIZE_pos, of "sn_size sn" "sn_totalChunks sn"] by (simp add: sn_def totalChunks_def)
        moreover have "slotBytes (v_objects S1) (sn_segments sn) = slot_now S1"
          by (simp add: fun_eq_iff slot_now_def sn_def)
        ultimately show ?thesis by (simp add: snap_ok_def S'(2)) (simp add: B(2) [unfolded S'(2)])
      qed
    qed (use vfs_atD [OF ok1] in \<open>simp_all add: B\<close>)
    moreover have "drifts S1 S'" by (rule drifts_held) (simp_all add: S')
    moreover have "snap_bytes sn S' c i = stored S' c i" if "i < CHUNK_SIZE" for c i
      using that by (simp add: snap_bytes_def window_effective B stored_def slot_now_def sn_def)
    moreover have "content S' = content S1" "saved S' = saved S1" by (simp_all add: content_def saved_def B)
    ultimately show ?thesis
      using F F2 True S' drifts_trans [of S S1 S'] \<open>\<not> (_ \<or> _)\<close>
      by (auto simp: sound_move_def objects_kept_def gen_counts_def B content_def sn_def totalChunks_def)
  qed
qed

lemma closeSnapshot_spec:
  assumes "vfs_ok S"
  shows "vfs_ok (closeSnapshot S)" "drifts S (closeSnapshot S)" "objects_kept S (closeSnapshot S)"
    "gen_counts S (closeSnapshot S)" "content (closeSnapshot S) = content S" "saved (closeSnapshot S) = saved S"
proof -
  have v: "same_view S (closeSnapshot S)" by (simp add: closeSnapshot_def)
  note B = same_view_bytes [OF v]
  show "vfs_ok (closeSnapshot S)" unfolding B
    by (rule same_view_ok [OF v assms]) (use vfs_atD(1) [OF assms] in \<open>auto simp: closeSnapshot_def cache_ok_def\<close>)
  show "drifts S (closeSnapshot S)" by (rule drifts_held) (simp_all add: closeSnapshot_def)
  show "objects_kept S (closeSnapshot S)" by (simp add: objects_kept_def B)
  show "content (closeSnapshot S) = content S" "saved (closeSnapshot S) = saved S" by (simp_all add: content_def saved_def B)
  then show "gen_counts S (closeSnapshot S)" by (simp add: gen_counts_def B)
qed

subsection \<open>Pins\<close>

lemma same_view_sound:
  assumes v: "same_view S S'" and ok: "vfs_ok S'" and sn: "v_snapshot S' = v_snapshot S" and e: "v_epoch S' = v_epoch S"
  shows "sound_move S S'" "content S' = content S" "saved S' = saved S"
proof -
  note B = same_view_bytes [OF v]
  show c: "content S' = content S" "saved S' = saved S" by (simp_all add: content_def saved_def B)
  have "held S S'" using v sn e by (simp add: held_def same_view_def)
  then show "sound_move S S'" by (rule held_sound [OF ok])
qed

lemma pin_ok:
  assumes ok: "vfs_ok S" and c: "c * CHUNK_SIZE < f_size (v_file S)" and t: "v_tier S \<noteq> None"
    and p: "map_of (v_pins S) c = None"
  defines "S' \<equiv> S\<lparr>v_pins := v_pins S @ [(c, effective (st_rows (v_store S) c) (slot_now S c))]\<rparr>"
  shows "vfs_ok S'"
proof -
  note D = vfs_atD [OF ok]
  have "\<not> truncated c S" using calm_in [OF D(5) c] t by blast
  then have "clean_entry S (c, effective (st_rows (v_store S) c) (slot_now S c))" by (simp add: clean_entry_def stored_def)
  moreover have "distinct (map fst (v_pins S'))"
    using D(1) p by (auto simp: S'_def cache_ok_def map_of_eq_None_iff)
  ultimately have "vfs_at (f_size (v_file S)) S'"
    by (intro same_view_ok [OF _ ok]) (use D(1) in \<open>auto simp: S'_def cache_ok_def\<close>)
  then show ?thesis by (simp add: S'_def)
qed

text \<open>What pinning does: more pins, and the misses it was asked for are gone if it succeeds.\<close>

definition pins_more :: "vfs \<Rightarrow> vfs \<Rightarrow> bool" where
  "pins_more S S' \<longleftrightarrow> (\<exists>ps. S' = S\<lparr>v_pins := v_pins S @ ps\<rparr> \<and> (\<forall>c \<in> fst ` set ps. c * CHUNK_SIZE < f_size (v_file S)))"

lemma pins_more_refl [simp]: "pins_more S S"
  unfolding pins_more_def by (intro exI [of _ "[]"]) simp

lemma pins_more_trans: assumes "pins_more S S'" "pins_more S' S''" shows "pins_more S S''"
proof -
  obtain ps where ps: "S' = S\<lparr>v_pins := v_pins S @ ps\<rparr>" "\<forall>c \<in> fst ` set ps. c * CHUNK_SIZE < f_size (v_file S)"
    using assms(1) unfolding pins_more_def by blast
  obtain qs where qs: "S'' = S'\<lparr>v_pins := v_pins S' @ qs\<rparr>" "\<forall>c \<in> fst ` set qs. c * CHUNK_SIZE < f_size (v_file S')"
    using assms(2) unfolding pins_more_def by blast
  show ?thesis unfolding pins_more_def
    by (rule exI [of _ "ps @ qs"]) (use ps qs in auto)
qed

lemma pins_more_view:
  assumes "pins_more S S'"
  shows "same_view S S'" "v_snapshot S' = v_snapshot S" "v_epoch S' = v_epoch S" "v_misses S' = v_misses S"
    "v_capacity S' = v_capacity S" "v_cache S' = v_cache S"
  using assms by (auto simp: pins_more_def)

lemma missed_more:
  assumes p: "pins_more S S'" and m: "missed S' c"
  shows "missed S c"
proof -
  obtain ps where "v_pins S' = v_pins S @ ps" using p unfolding pins_more_def by auto
  then show ?thesis using m by (simp add: missed_def same_view_bytes [OF pins_more_view(1) [OF p]])
qed

definition pin_skip :: "nat \<Rightarrow> vfs \<Rightarrow> bool" where
  "pin_skip c S \<longleftrightarrow> map_of (v_pins S) c \<noteq> None \<or> map_option snd (st_rows (v_store S) c) = Some FULL_MASK
     \<or> st_rows (v_store S) c = None \<and> \<not> slotInR2 c S"

definition pin_full :: "vfs \<Rightarrow> bool" where
  "pin_full S \<longleftrightarrow> (case v_tier S of None \<Rightarrow> False
     | Some t \<Rightarrow> length (v_pins S) * CHUNK_SIZE + CHUNK_SIZE > tr_missPinBytes t)"

lemma pin_chunks_Cons: "pin_chunks (c # cs) S = (if pin_skip c S then pin_chunks cs S else if pin_full S then (False, S)
    else pin_chunks cs (S\<lparr>v_pins := v_pins S @ [(c, effective (st_rows (v_store S) c) (slot_now S c))]\<rparr>))"
  by (simp add: pin_skip_def pin_full_def Let_def)

declare pin_chunks.simps(2) [simp del]

lemma pin_chunks_spec:
  assumes "vfs_ok S" "v_tier S \<noteq> None" "\<forall>c \<in> set cs. c * CHUNK_SIZE < f_size (v_file S)" "pin_chunks cs S = (r, S')"
  shows "vfs_ok S' \<and> pins_more S S' \<and> (r \<longrightarrow> (\<forall>c \<in> set cs. \<not> missed S' c))"
  using assms
proof (induction cs arbitrary: S)
  case Nil
  then show ?case by simp
next
  case (Cons c cs)
  have rest: ?case if s: "vfs_ok T" "pins_more S T" "\<not> missed T c" "pin_chunks cs T = (r, S')" for T
  proof -
    note B = same_view_bytes [OF pins_more_view(1) [OF s(2)]]
    have "vfs_ok S' \<and> pins_more T S' \<and> (r \<longrightarrow> (\<forall>c \<in> set cs. \<not> missed S' c))"
      by (rule Cons.IH) (use s Cons.prems in \<open>simp_all add: B\<close>)
    then show ?thesis using pins_more_trans [OF s(2), of S'] missed_more [of T S' c] s(3) by auto
  qed
  show ?case
  proof (cases "pin_skip c S")
    case True
    then have "\<not> missed S c" by (auto simp: missed_def pin_skip_def)
    with True rest [of S] Cons.prems show ?thesis by (simp add: pin_chunks_Cons)
  next
    case False
    define T where "T = S\<lparr>v_pins := v_pins S @ [(c, effective (st_rows (v_store S) c) (slot_now S c))]\<rparr>"
    have p: "map_of (v_pins S) c = None" using False by (simp add: pin_skip_def)
    show ?thesis
    proof (cases "pin_full S")
      case True
      with False Cons.prems show ?thesis by (simp add: pin_chunks_Cons)
    next
      case hit: False
      have "vfs_ok T" unfolding T_def by (rule pin_ok) (use Cons.prems p in simp_all)
      moreover have "pins_more S T" unfolding pins_more_def T_def
        by (rule exI [of _ "[(c, effective (st_rows (v_store S) c) (slot_now S c))]"]) (use Cons.prems(3) in simp)
      moreover have "\<not> missed T c" using p by (simp add: missed_def T_def)
      moreover have "pin_chunks cs T = (r, S')" using Cons.prems(4) False hit by (simp add: pin_chunks_Cons T_def)
      ultimately show ?thesis by (rule rest)
    qed
  qed
qed

lemma chunks_of_segment_set:
  "c \<in> set (chunks_of_segment n g) \<longleftrightarrow> c < n \<and> segmentOf c = g"
proof -
  have "g * SEGMENT_CHUNKS \<le> c \<and> c < g * SEGMENT_CHUNKS + SEGMENT_CHUNKS \<longleftrightarrow> segmentOf c = g"
    by (auto simp: segmentOf_def SEGMENT_CHUNKS_def)
  then show ?thesis by (auto simp: chunks_of_segment_def)
qed

lemma less_totalChunks: "c < totalChunks S \<longleftrightarrow> c * CHUNK_SIZE < f_size (v_file S)"
  by (simp add: totalChunks_def less_ceil_div CHUNK_SIZE_pos)

lemma pin_segment_spec:
  assumes "vfs_ok S" "v_tier S \<noteq> None" "pin_segment g S = (r, S')"
  shows "vfs_ok S' \<and> pins_more S S' \<and> (r \<longrightarrow> (\<forall>c < totalChunks S. segmentOf c = g \<longrightarrow> \<not> missed S' c))"
proof -
  define cs where "cs = chunks_of_segment (totalChunks S) g"
  define lost where "lost \<longleftrightarrow> (case map_of (segmentsOf S) g of None \<Rightarrow> False
    | Some e \<Rightarrow> sg_mask e \<noteq> {} \<and> v_objects S (g, sg_gen e) = None)"
  have e: "(r, S') = (if \<not> list_ex (\<lambda>c. map_of (v_pins S) c = None \<and> slotInR2 c S) cs then (True, S)
      else if lost then (False, S) else pin_chunks cs S)"
    using assms(3) unfolding pin_segment_def Let_def cs_def lost_def by (rule sym)
  have cs: "c \<in> set cs \<longleftrightarrow> c < totalChunks S \<and> segmentOf c = g" for c by (simp add: cs_def chunks_of_segment_set)
  show ?thesis
  proof (cases "list_ex (\<lambda>c. map_of (v_pins S) c = None \<and> slotInR2 c S) cs")
    case False
    have "\<not> missed S c" if "c < totalChunks S" "segmentOf c = g" for c
      using False that cs unfolding list_ex_iff missed_def by blast
    with e False assms(1) show ?thesis by simp
  next
    case True
    show ?thesis
    proof (cases lost)
      case False
      with e True have p: "pin_chunks cs S = (r, S')" by simp
      have "\<forall>c \<in> set cs. c * CHUNK_SIZE < f_size (v_file S)" by (simp add: cs less_totalChunks)
      from pin_chunks_spec [OF assms(1,2) this p] show ?thesis by (simp add: cs)
    qed (use e True assms(1) in simp)
  qed
qed

lemma pin_segments_spec:
  assumes "vfs_ok S" "v_tier S \<noteq> None" "pin_segments gs S = (r, S')"
  shows "vfs_ok S' \<and> pins_more S S' \<and> (r \<longrightarrow> (\<forall>c < totalChunks S. segmentOf c \<in> set gs \<longrightarrow> \<not> missed S' c))"
  using assms
proof (induction gs arbitrary: S)
  case (Cons g gs)
  obtain b T where p: "pin_segment g S = (b, T)" by fastforce
  note G = pin_segment_spec [OF Cons.prems(1,2) p]
  show ?case
  proof (cases b)
    case False
    then show ?thesis using Cons.prems(3) p G by simp
  next
    case True
    note B = same_view_bytes [OF pins_more_view(1), of S T]
    have "vfs_ok S' \<and> pins_more T S' \<and> (r \<longrightarrow> (\<forall>c < totalChunks T. segmentOf c \<in> set gs \<longrightarrow> \<not> missed S' c))"
      by (rule Cons.IH) (use True Cons.prems p G B in simp_all)
    then show ?thesis using G True pins_more_trans [of S T S'] missed_more [of T S'] B by auto
  qed
qed simp

lemma resolveMisses_spec:
  assumes ok: "vfs_ok S" and x: "resolveMisses S = (r, S')"
  shows "vfs_ok S' \<and> same_view S S' \<and> v_snapshot S' = v_snapshot S \<and> v_epoch S' = v_epoch S
    \<and> pins_more (S\<lparr>v_misses := []\<rparr>) S'
    \<and> (r \<longrightarrow> v_tier S \<noteq> None \<longrightarrow> (\<forall>c \<in> set (v_misses S). c < totalChunks S \<longrightarrow>
         (\<forall>q < totalChunks S. segmentOf q = segmentOf c \<longrightarrow> \<not> missed S' q)))"
proof -
  define T where "T = S\<lparr>v_misses := []\<rparr>"
  have v: "same_view S T" by (simp add: T_def)
  note B = same_view_bytes [OF v]
  have okT: "vfs_ok T" unfolding B
    by (rule same_view_ok [OF v ok]) (use vfs_atD(1) [OF ok] in \<open>simp_all add: T_def cache_ok_def\<close>)
  show ?thesis
  proof (cases "v_tier S = None \<or> v_misses S = []")
    case True
    then have "S' = T" using x by (simp add: resolveMisses_def T_def)
    with True okT v show ?thesis by (auto simp: T_def)
  next
    case False
    have p: "pin_segments (missed_segments S) T = (r, S')" using x unfolding resolveMisses_def T_def if_not_P [OF False] .
    have "v_tier T \<noteq> None" using False by (simp add: B)
    note P = pin_segments_spec [OF okT this p]
    have "segmentOf c \<in> set (missed_segments S)" if "c \<in> set (v_misses S)" for c
      using that by (auto simp: missed_segments_def Let_def)
    then show ?thesis
      using P B pins_more_view [of T S'] same_view_trans [OF v, of S'] by (auto simp: T_def)
  qed
qed

lemma releasePins_spec:
  assumes ok: "vfs_ok S"
  shows "vfs_ok (releasePins S) \<and> same_view S (releasePins S) \<and> v_snapshot (releasePins S) = v_snapshot S
    \<and> v_epoch (releasePins S) = v_epoch S"
proof -
  have "tidy S (fold (\<lambda>(c, d). cache_put c d) ps S)" if "set ps \<subseteq> set (v_pins S)" "vfs_ok S" for ps S
    using that
  proof (induction ps arbitrary: S)
    case Nil
    then show ?case by (simp add: tidy_refl vfs_atD)
  next
    case (Cons p ps)
    obtain c d where p: "p = (c, d)" by fastforce
    note D = vfs_atD [OF Cons.prems(2)]
    have t: "tidy S (cache_put c d S)" by (rule tidy_put [OF D(1)]) (use Cons.prems p D(1) in \<open>auto simp: cache_ok_def\<close>)
    have "tidy (cache_put c d S) (fold (\<lambda>(c, d). cache_put c d) ps (cache_put c d S))"
      by (rule Cons.IH) (use Cons.prems tidy_ok [OF t] tidy_view(2) [OF t] tidy_bytes [OF t] in auto)
    with t show ?case using tidy_trans by (simp add: p)
  qed
  then have t: "tidy S (fold (\<lambda>(c, d). cache_put c d) (v_pins S) S)" (is "tidy S ?T") using ok by blast
  have okT: "vfs_ok ?T" using tidy_ok [OF t ok] tidy_bytes [OF t] by simp
  have v: "same_view ?T (releasePins S)" by (simp add: releasePins_def)
  have "vfs_ok (releasePins S)" unfolding same_view_bytes [OF v]
    by (rule same_view_ok [OF v okT]) (use vfs_atD(1) [OF okT] in \<open>auto simp: releasePins_def cache_ok_def\<close>)
  then show ?thesis using same_view_trans [OF tidy_view(1) [OF t] v] tidy_view [OF t] by (simp add: releasePins_def)
qed

end
