(* ===== verification/Vfs_Evict.thy ===== *)
theory Vfs_Evict
  imports Vfs_Background
begin

text \<open>
  The tier's own work: deleting objects nobody refers to, making the file hot again, and the eviction
  pass, whose three phases may interleave with everything else. None of it changes the abstract file.
\<close>

subsection \<open>Deleting objects\<close>

lemma slotBytes_cong:
  assumes "\<And>k. k \<in> set (referenced segs) \<Longrightarrow> objs' k = objs k"
  shows "slotBytes objs' segs c = slotBytes objs segs c"
proof (cases "map_of segs (segmentOf c)")
  case (Some e)
  then have "(segmentOf c, sg_gen e) \<in> set (referenced segs)"
    by (force simp: referenced_def dest: map_of_SomeD)
  with assms Some show ?thesis by (simp add: slotBytes_def)
qed (simp add: slotBytes_def)

text \<open>A move behind the file: storage, bucket and map may change, the stored bytes do not.\<close>

lemma background_move:
  assumes ok: "vfs_ok S"
    and same: "v_file S' = v_file S" "v_snapshot S' = v_snapshot S" "v_pins S' = v_pins S"
      "st_size (v_store S') = st_size (v_store S)" "st_gen (v_store S') = st_gen (v_store S)"
      "v_tier S' = None \<longleftrightarrow> v_tier S = None" "set (v_cache S') \<subseteq> set (v_cache S)"
    and st: "\<And>c i. i < CHUNK_SIZE \<Longrightarrow> stored S' c i = stored S c i"
    and parts: "rows_ok S'" "tier_ok S'" "base_ok S'" "snap_ok S'"
    and dirty: "\<And>c d m r m0. dirty_of S c = Some (d, m) \<Longrightarrow> m \<noteq> FULL_MASK
      \<Longrightarrow> st_rows (v_store S') c = Some (r, m0) \<Longrightarrow> m0 \<subseteq> m"
  shows "vfs_ok S'" "content S' = content S" "saved S' = saved S" "gen_counts S S'"
proof -
  note D = vfs_atD [OF ok]
  have tr: "truncated c S' = truncated c S" for c by (simp add: truncated_def same)
  have cur: "current S' c i = current S c i" if "i < CHUNK_SIZE" for c i
    using that by (simp add: current_at clean_def tr st same split: option.split)
  show c: "content S' = content S" "saved S' = saved S"
    using flat_cong [of "current S'" "current S"] flat_cong [of "stored S'" "stored S"] cur st
    by (simp_all add: content_def saved_def same)
  then show "gen_counts S S'" by (simp add: gen_counts_def same)
  have e: "clean_entry S' = clean_entry S" by (auto simp: fun_eq_iff clean_entry_def tr st)
  show "vfs_ok S'"
  proof (rule vfs_atI)
    show "cache_ok S'" using D(1) same(7) unfolding cache_ok_def e same(3) by blast
    show "dirty_ok (f_size (v_file S')) S'"
    proof (rule dirty_okI)
      show "distinct (map fst (f_dirty (v_file S')))" using D(3) by (simp add: dirty_ok_def same)
      fix c d m assume "dirty_of S' c = Some (d, m)"
      then have d: "dirty_of S c = Some (d, m)" by (simp add: same)
      note o = dirty_okD [OF D(3) d]
      show "blank_outside d m" "c * CHUNK_SIZE < f_size (v_file S')" using o by (simp_all add: same)
      assume m: "m \<noteq> FULL_MASK"
      show "v_tier S' \<noteq> None" "\<not> truncated c S'" unfolding same(6) tr using o m by blast+
      show "m0 \<subseteq> m" if "st_rows (v_store S') c = Some (r, m0)" for r m0 using dirty [OF d m that] .
    qed
    show "calm (f_size (v_file S')) S'" using D(5) unfolding calm_def same(1,2,6) .
    show "reach_ok (f_size (v_file S')) S'" using D(6) by (simp add: reach_ok_def tr same)
    show "blank_past (f_size (v_file S')) (current S')" "blank_past (st_size (v_store S')) (stored S')"
      using D(7,8) by (simp_all add: blank_past_def cur st same)
  qed (use parts in simp_all)
qed

text \<open>A change of the bucket and of the tier's queues that spares what the map references.\<close>

lemma objects_move:
  assumes ok: "vfs_ok S" and t: "v_tier S = Some t"
    and o: "\<And>k. k \<in> set (referenced (tr_segments t)) \<Longrightarrow> objs k = v_objects S k"
    and t': "tr_segments t' = tr_segments t" "tier_good (v_store S) objs t'" "known_gen (v_store S) t \<le> known_gen (v_store S) t'"
    and sn: "\<And>sn k. v_snapshot S = Some sn \<Longrightarrow> k \<in> set (referenced (sn_segments sn)) \<Longrightarrow> objs k = v_objects S k"
  defines "S' \<equiv> S\<lparr>v_tier := Some t', v_objects := objs\<rparr>"
  shows "vfs_ok S'" "content S' = content S" "saved S' = saved S" "snap_kept S S'" "gen_counts S S'"
    "slot_now S' = slot_now S"
proof -
  note D = vfs_atD [OF ok]
  show n: "slot_now S' = slot_now S"
    using slotBytes_cong [of "tr_segments t" objs "v_objects S"] o t t'(1)
    by (simp add: fun_eq_iff slot_now_def segmentsOf_def S'_def)
  have st: "stored S' = stored S" by (simp add: fun_eq_iff stored_def n) (simp add: S'_def)
  have tr: "truncated c S' = truncated c S" for c by (simp add: truncated_def S'_def)
  have sb: "slotBytes objs (sn_segments sn) c = slotBytes (v_objects S) (sn_segments sn) c" if "v_snapshot S = Some sn" for sn c
    by (rule slotBytes_cong) (use sn [OF that] in simp)
  show "snap_kept S S'" using sb by (auto simp: snap_kept_def snap_bytes_def window_effective S'_def split: option.split)
  have "snap_ok S'" unfolding snap_ok_def
  proof (intro allI impI)
    fix s assume s: "v_snapshot S' = Some s"
    then have s0: "v_snapshot S = Some s" by (simp add: S'_def)
    with D(10) have so: "\<forall>c < sn_totalChunks s. sn_shadow s c = None \<longrightarrow> slotBytes (v_objects S) (sn_segments s) c = slot_now S c"
      "snap_gens (v_store S) (v_tier S) s" "sn_size s \<le> sn_totalChunks s * CHUNK_SIZE" by (auto simp: snap_ok_def)
    moreover have "snap_gens (v_store S') (v_tier S') s"
      using so(2) t t'(3) by (auto simp: snap_gens_def S'_def intro: order_trans)
    moreover have "slotBytes (v_objects S') (sn_segments s) c = slotBytes (v_objects S) (sn_segments s) c" for c
      using sb [OF s0] by (simp add: S'_def)
    ultimately show "(\<forall>c < sn_totalChunks s. sn_shadow s c = None \<longrightarrow>
        slotBytes (v_objects S') (sn_segments s) c = slot_now S' c)
        \<and> snap_gens (v_store S') (v_tier S') s \<and> sn_size s \<le> sn_totalChunks s * CHUNK_SIZE"
      by (simp add: n)
  qed
  moreover have "base_ok S'" using D(9) by (simp add: base_ok_def tr st n) (simp add: S'_def)
  moreover have "rows_ok S'" using D(2) t by (simp add: rows_ok_def S'_def)
  moreover have "tier_ok S'" using t'(2) by (simp add: tier_ok_def S'_def)
  ultimately show "vfs_ok S'" "content S' = content S" "saved S' = saved S" "gen_counts S S'"
    by (intro background_move [OF ok]; use st t dirty_okD(5) [OF D(3)] in \<open>simp add: S'_def\<close>)+
qed

lemma tier_okD: "vfs_at n S \<Longrightarrow> v_tier S = Some t \<Longrightarrow> tier_good (v_store S) (v_objects S) t"
  using vfs_atD(4) [of n S] by (simp add: tier_ok_def)

lemma maintenance_spec:
  assumes ok: "vfs_ok S"
  shows "sound_move S (tierMaintenance S)" "content (tierMaintenance S) = content S" "saved (tierMaintenance S) = saved S"
proof -
  have "sound_move S (tierMaintenance S) \<and> content (tierMaintenance S) = content S \<and> saved (tierMaintenance S) = saved S"
  proof (cases "v_tier S = None \<or> v_snapshot S \<noteq> None")
    case True
    then have "tierMaintenance S = S" by (auto simp: tierMaintenance_def split: option.split)
    with ok show ?thesis by (simp add: held_sound)
  next
    case False
    then obtain t where t: "v_tier S = Some t" and sn: "v_snapshot S = None" by auto
    define objs where "objs = (\<lambda>k. if k \<in> set (tr_pending t) then None else v_objects S k)"
    note G = tier_okD [OF ok t]
    have e: "tierMaintenance S = S\<lparr>v_tier := Some (t\<lparr>tr_pending := []\<rparr>), v_objects := objs\<rparr>"
      by (simp add: tierMaintenance_def t sn objs_def)
    have good: "tier_good (v_store S) objs (t\<lparr>tr_pending := []\<rparr>)"
      using G by (auto simp: tier_good_def objs_def known_gen_def)
    note M = objects_move [OF ok t, of objs "t\<lparr>tr_pending := []\<rparr>", folded e]
    have "vfs_ok (tierMaintenance S) \<and> content (tierMaintenance S) = content S \<and> saved (tierMaintenance S) = saved S
      \<and> snap_kept S (tierMaintenance S) \<and> gen_counts S (tierMaintenance S)"
      using G good sn by (intro conjI M) (auto simp: tier_good_def objs_def known_gen_def)
    moreover have "drifts S (tierMaintenance S)"
      by (simp add: e drifts_def tier_goes_def known_gen_def drifts_rows_def drifts_tier_def segmentsOf_def written_of_def t)
    moreover have "objects_kept S (tierMaintenance S)" by (simp add: e objects_kept_def t objs_def)
    ultimately show ?thesis by (simp add: sound_move_def)
  qed
  then show "sound_move S (tierMaintenance S)" "content (tierMaintenance S) = content S" "saved (tierMaintenance S) = saved S"
    by blast+
qed

lemma sweep_spec:
  fixes listed :: "(nat \<times> nat) list"
  assumes ok: "vfs_ok S"
  defines "S' \<equiv> orphan_sweep listed S"
  shows "vfs_ok S' \<and> content S' = content S \<and> saved S' = saved S \<and> snap_kept S S' \<and> drifts S S' \<and> gen_counts S S'"
proof (cases "v_snapshot S")
  case (Some s)
  then have "S' = S" by (simp add: S'_def orphan_sweep_def)
  with ok show ?thesis by (simp add: drifts_held gen_counts_def)
next
  case sn: None
  have e: "S' = S\<lparr>v_objects := v_objects S'\<rparr>" by (simp add: S'_def orphan_sweep_def)
  have d: "drifts S S'" by (rule drifts_held) (simp_all add: S'_def orphan_sweep_def)
  show ?thesis
  proof (cases "v_tier S")
    case None
    have p: "v_file S' = v_file S" "v_snapshot S' = v_snapshot S" "v_pins S' = v_pins S" "v_store S' = v_store S"
      "v_tier S' = v_tier S" "v_cache S' = v_cache S" by (simp_all add: S'_def orphan_sweep_def)
    have n: "slot_now S' = slot_now S" by (simp add: fun_eq_iff slot_now_def segmentsOf_def None p)
    have st: "stored S' = stored S" by (simp add: fun_eq_iff stored_def n p)
    note D = vfs_atD [OF ok]
    have "rows_ok S'" "tier_ok S'" "base_ok S'" "snap_ok S'"
      using D(2) None sn by (simp_all add: rows_ok_def tier_ok_def base_ok_def snap_ok_def p)
    then have "vfs_ok S'" "content S' = content S" "saved S' = saved S" "gen_counts S S'"
      by (intro background_move [OF ok]; (simp add: st p)?; use dirty_okD(5) [OF D(3)] p in blast)+
    with d show ?thesis by (simp add: snap_kept_def sn p)
  next
    case (Some t)
    note G = tier_okD [OF ok Some]
    have e': "S' = S\<lparr>v_tier := Some t, v_objects := v_objects S'\<rparr>" by (simp add: S'_def orphan_sweep_def sn Some)
    have o: "v_objects S' k = v_objects S k" if "k \<in> set (referenced (tr_segments t))" for k
      using that G by (simp add: S'_def orphan_sweep_def sn tier_good_def)
    have good: "tier_good (v_store S) (v_objects S') t" using G o by (auto simp: tier_good_def)
    have "vfs_ok S'" "content S' = content S" "saved S' = saved S" "snap_kept S S'" "gen_counts S S'"
      by (rule objects_move [OF ok Some _ refl good order_refl, folded e']; use o sn in simp)+
    with d show ?thesis by blast
  qed
qed

subsection \<open>Making the file hot\<close>

lemma materialized:
  assumes "totalChunks S \<le> c \<Longrightarrow> slot_now S c = None" "i < CHUNK_SIZE"
  shows "effective (materialize_rows S c) None i = effective (st_rows (v_store S) c) (slot_now S c) i"
proof -
  let ?row = "st_rows (v_store S) c"
  have full: "effective ?row s i = effective ?row None i" if "map_option snd ?row = Some FULL_MASK" for s
    using that assms(2) by (cases ?row) (auto simp: effective_simps)
  consider "totalChunks S \<le> c" | "map_option snd ?row = Some FULL_MASK"
    | "c < totalChunks S" "map_option snd ?row \<noteq> Some FULL_MASK" by linarith
  then show ?thesis
  proof cases
    case 3
    show ?thesis
    proof (cases "map_of (segmentsOf S) (segmentOf c)")
      case None
      then have "slot_now S c = None" by (simp add: slot_now_def slotBytes_def)
      with None show ?thesis by (simp add: materialize_rows_def Let_def)
    next
      case (Some e)
      have "slot_now S c = None" if "slotOf c \<notin> sg_mask e" using Some that by (simp add: slot_now_def slotBytes_def)
      with 3 Some assms(2) show ?thesis
        by (auto simp: materialize_rows_def Let_def effective_simps)
    qed
  qed (use assms(1) full [of "slot_now S c"] in \<open>simp_all add: materialize_rows_def Let_def\<close>)
qed

lemma materialize_spec:
  assumes ok: "vfs_ok S" and fate: "sound_fate fate S" and x: "materialize fate S = (done, S')"
  shows "sound_move S S' \<and> content S' = content S \<and> saved S' \<in> {saved S, content S}
    \<and> f_spill (v_file S') = f_spill (v_file S)
    \<and> (done \<longrightarrow> segmentsOf S' = [] \<and> (v_tier S \<noteq> None \<longrightarrow> saved S' = content S))"
proof (cases "v_tier S = None \<or> v_snapshot S \<noteq> None")
  case True
  then have "S' = S" "done \<longrightarrow> v_tier S = None" using x by (auto simp: materialize_def split: option.splits)
  with ok show ?thesis by (simp add: held_sound segmentsOf_def)
next
  case False
  obtain b S1 where fl: "flush_file fate S = (b, S1)" by fastforce
  note F = held_then_flush [OF held_refl ok fate fl] and F2 = flush_spec [OF ok fate fl]
  show ?thesis
  proof (cases b)
    case False
    then have "S' = S1" "\<not> done" using x fl \<open>\<not> (_ \<or> _)\<close> by (auto simp: materialize_def split: option.splits)
    with F show ?thesis by simp
  next
    case True
    have ok1: "vfs_ok S1" and fil: "f_dirty (v_file S1) = []" "f_trunc (v_file S1) = None"
      using F2 True by simp_all
    note D = vfs_atD [OF ok1]
    have "v_tier S1 \<noteq> None" using F2 \<open>\<not> (_ \<or> _)\<close> by simp
    then obtain t where t: "v_tier S1 = Some t" by auto
    have sn: "v_snapshot S1 = None" using F \<open>\<not> (_ \<or> _)\<close> by (simp add: sound_move_def snap_kept_def)
    note G = tier_okD [OF ok1 t]
    define t' where "t' = t\<lparr>tr_segments := [], tr_pending := tr_pending t @ referenced (tr_segments t)\<rparr>"
    have S': "done" "S' = S1\<lparr>v_tier := Some t', v_store := (v_store S1)\<lparr>st_rows := materialize_rows S1, st_segments := []\<rparr>,
        v_epoch := v_epoch S1 + 1, v_cache := []\<rparr>"
      using x fl True \<open>\<not> (_ \<or> _)\<close> by (auto simp: materialize_def upd_tier_def t t'_def split: option.splits)
    have row: "st_rows (v_store S') c = materialize_rows S1 c" for c by (simp add: S')
    have slot: "slot_now S' c = None" for c by (simp add: slot_now_def segmentsOf_def S' t'_def)
    have past: "slot_now S1 c = None" if "totalChunks S1 \<le> c" for c
    proof -
      have "\<not> c * CHUNK_SIZE < f_size (v_file S1)" using that less_totalChunks [of c S1] by linarith
      then have "\<not> c * CHUNK_SIZE < st_size (v_store S1)" using D(6) fil by (auto simp: reach_ok_def truncated_def)
      then have "\<not> slotInR2 c S1" using G t by (auto simp: slotInR2_def segmentsOf_def tier_good_def)
      then show ?thesis by (rule slotInR2_slot_now)
    qed
    have st: "stored S' c i = stored S1 c i" if i: "i < CHUNK_SIZE" for c i
      using materialized [OF past, of c] i by (simp add: stored_def slot row)
    have sg: "stored_gen (v_store S') = stored_gen (v_store S1)" "known_gen (v_store S') t' = known_gen (v_store S1) t"
      by (simp_all add: stored_gen_def known_gen_def S' t'_def split: option.split)
    have "rows_ok S'" unfolding rows_ok_def row
    proof (intro allI impI)
      fix c d m assume "materialize_rows S1 c = Some (d, m)"
      then consider "m = FULL_MASK" | "st_rows (v_store S1) c = Some (d, m)"
        by (auto simp: materialize_rows_def Let_def split: if_splits option.splits)
      then show "blank_outside d m \<and> (v_tier S' = None \<longrightarrow> m = FULL_MASK)"
        using D(2) by cases (auto simp: rows_ok_def blank_outside_def S')
    qed
    moreover have "tier_ok S'"
      using G sg by (auto simp: tier_ok_def S'(2)) (auto simp: tier_good_def S' t'_def sg slot_in_def intro: order_trans)
    moreover have "base_ok S'" "snap_ok S'" by (simp_all add: base_ok_def snap_ok_def S' sn)
    ultimately have "vfs_ok S'" "content S' = content S1" "saved S' = saved S1" "gen_counts S1 S'"
      by (intro background_move [OF ok1]; use st fil in \<open>simp add: S' t sn\<close>)+
    moreover have "drifts S S'"
    proof -
      have "v_tier S' = Some t'" "tr_segments t' = []" by (simp_all add: S' t'_def)
      then have "tier_goes S1 S'" using sg(2) by (auto simp: tier_goes_def t)
      with F show ?thesis using tier_goes_trans [of S S1 S'] by (simp add: sound_move_def drifts_def S')
    qed
    moreover have "objects_kept S S'" "snap_kept S S'" "segmentsOf S' = []"
      using F \<open>\<not> (_ \<or> _)\<close> by (simp_all add: sound_move_def objects_kept_def snap_kept_def S' sn segmentsOf_def t'_def)
    ultimately show ?thesis
      using F True S' gen_counts_trans [of S S1 S'] by (simp add: sound_move_def)
  qed
qed

end
