(* ===== verification/Vfs_Pass.thy ===== *)
theory Vfs_Pass
  imports Vfs_Evict
begin

text \<open>
  The eviction pass: what its plan, its read of a segment and its upload may rely on while everything
  else goes on, and that the commit then changes where the bytes are, not what they are.
\<close>

subsection \<open>What a pass relies on\<close>

definition plan_ok :: "pass_plan \<Rightarrow> vfs \<Rightarrow> bool" where
  "plan_ok plan S \<longleftrightarrow> v_tier S \<noteq> None \<and> set (ps_candidates plan) \<subseteq> {..<ps_total plan} \<and> v_epoch S \<ge> ps_epoch plan
     \<and> (v_epoch S = ps_epoch plan \<longrightarrow> f_written (v_file S) \<noteq> None
        \<and> (\<forall>c < ps_total plan. c * CHUNK_SIZE < st_size (v_store S)) \<and> (\<forall>c. slotInR2 c S \<longrightarrow> c < ps_total plan))"

definition pass_chunks :: "pass_plan \<Rightarrow> pass_read \<Rightarrow> nat set" where
  "pass_chunks plan r = set (chunks_of_segment (ps_total plan) (pr_segno r))"

lemma pass_chunks_iff: "c \<in> pass_chunks plan r \<longleftrightarrow> c < ps_total plan \<and> segmentOf c = pr_segno r"
  by (simp add: pass_chunks_def chunks_of_segment_set)

text \<open>The pass was not overtaken: neither the epoch nor the segment's entry moved.\<close>

definition on_track :: "pass_plan \<Rightarrow> pass_read \<Rightarrow> vfs \<Rightarrow> bool" where
  "on_track plan r S \<longleftrightarrow> v_epoch S = ps_epoch plan \<and> map_of (segmentsOf S) (pr_segno r) = pr_entry r"

definition read_ok :: "pass_plan \<Rightarrow> pass_read \<Rightarrow> vfs \<Rightarrow> bool" where
  "read_ok plan r S \<longleftrightarrow> (\<forall>c. c \<notin> pass_chunks plan r \<longrightarrow> pr_rows r c = None)
     \<and> (on_track plan r S \<longrightarrow> (\<forall>c \<in> pass_chunks plan r.
          (c \<in> written_of S \<or> st_rows (v_store S) c = pr_rows r c) \<and> row_grows (pr_rows r c) (st_rows (v_store S) c)))"

text \<open>The uploaded object: nobody refers to it, and it holds the segment as it was read.\<close>

definition upload_ok :: "pass_plan \<Rightarrow> pass_read \<Rightarrow> nat \<Rightarrow> vfs \<Rightarrow> bool" where
  "upload_ok plan r gen S \<longleftrightarrow> (\<exists>t. v_tier S = Some t \<and> (pr_segno r, gen) \<notin> set (referenced (tr_segments t))
       \<and> gen \<le> known_gen (v_store S) t
       \<and> (on_track plan r S \<longrightarrow> (\<exists>g. tr_maxGen t = Some g \<and> gen \<le> g) \<and> (pr_segno r, gen) \<notin> set (tr_pending t)))
     \<and> (on_track plan r S \<longrightarrow> (\<exists>ob. v_objects S (pr_segno r, gen) = Some ob
       \<and> (\<forall>c \<in> pass_chunks plan r. \<forall>i < CHUNK_SIZE. ob (slotOf c) i = effective (pr_rows r c) (slot_now S c) i)))"

lemma drifts_on_track: "drifts S S' \<Longrightarrow> v_epoch S \<ge> ps_epoch plan \<Longrightarrow> on_track plan r S' \<Longrightarrow> on_track plan r S \<and> v_epoch S' = v_epoch S"
  by (auto simp: drifts_def on_track_def drifts_rows_def)

lemma plan_drifts:
  assumes p: "plan_ok plan S" and d: "drifts S S'"
  shows "plan_ok plan S'"
proof -
  have "v_tier S' \<noteq> None" "v_epoch S \<le> v_epoch S'" using p d by (auto simp: plan_ok_def drifts_def tier_goes_def)
  moreover have "f_written (v_file S') \<noteq> None \<and> (\<forall>c < ps_total plan. c * CHUNK_SIZE < st_size (v_store S'))
      \<and> (\<forall>c. slotInR2 c S' \<longrightarrow> c < ps_total plan)" if e: "v_epoch S' = ps_epoch plan"
  proof -
    have "v_epoch S = ps_epoch plan" "v_epoch S' = v_epoch S" using e p \<open>v_epoch S \<le> v_epoch S'\<close> by (simp_all add: plan_ok_def)
    moreover have "drifts_rows S S'" using d calculation by (simp add: drifts_def)
    ultimately show ?thesis using p unfolding plan_ok_def drifts_rows_def slotInR2_def by metis
  qed
  ultimately show ?thesis using p by (simp add: plan_ok_def)
qed

lemma row_grows_trans: "row_grows r r' \<Longrightarrow> row_grows r' r'' \<Longrightarrow> row_grows r r''"
  by (cases r; cases r') (force simp: row_grows_def)+

lemma read_drifts:
  assumes p: "plan_ok plan S" and r: "read_ok plan r S" and d: "drifts S S'"
  shows "read_ok plan r S'"
proof -
  have "(c \<in> written_of S' \<or> st_rows (v_store S') c = pr_rows r c) \<and> row_grows (pr_rows r c) (st_rows (v_store S') c)"
    if t: "on_track plan r S'" and c: "c \<in> pass_chunks plan r" for c
  proof -
    have on: "on_track plan r S" "v_epoch S' = v_epoch S"
      using drifts_on_track [OF d _ t] p by (auto simp: plan_ok_def)
    then have w: "f_written (v_file S) \<noteq> None" and dr: "drifts_rows S S'"
      using p d by (simp_all add: plan_ok_def on_track_def drifts_def)
    have old: "c \<in> written_of S \<or> st_rows (v_store S) c = pr_rows r c" "row_grows (pr_rows r c) (st_rows (v_store S) c)"
      using r on(1) c unfolding read_ok_def by blast+
    have new: "written_of S \<subseteq> written_of S'" "c \<in> written_of S' \<or> st_rows (v_store S') c = st_rows (v_store S) c"
      "row_grows (st_rows (v_store S) c) (st_rows (v_store S') c)"
      using dr w unfolding drifts_rows_def by blast+
    show ?thesis using old new row_grows_trans [OF old(2) new(3)] by auto
  qed
  then show ?thesis using r by (simp add: read_ok_def)
qed

lemma slots_kept:
  assumes ok: "vfs_ok S" and o: "objects_kept S S'" and g: "segmentsOf S' = segmentsOf S"
  shows "slot_now S' = slot_now S"
proof -
  have "v_objects S' k = v_objects S k" if k: "k \<in> set (referenced (segmentsOf S))" for k
  proof (cases "v_tier S")
    case None
    then show ?thesis using k by (simp add: segmentsOf_def)
  next
    case (Some t)
    have "k \<notin> set (tr_pending t)" using tier_okD [OF ok Some] k Some by (simp add: tier_good_def segmentsOf_def)
    then show ?thesis by (rule objects_keptD [OF o Some])
  qed
  then have "slotBytes (v_objects S') (segmentsOf S) c = slotBytes (v_objects S) (segmentsOf S) c" for c
    by (rule slotBytes_cong)
  then show ?thesis by (simp add: fun_eq_iff slot_now_def g)
qed

lemma upload_drifts:
  assumes ok: "vfs_ok S" and p: "plan_ok plan S" and u: "upload_ok plan r gen S"
    and d: "drifts S S'" and o: "objects_kept S S'"
  shows "upload_ok plan r gen S'"
proof -
  obtain t where t: "v_tier S = Some t" "(pr_segno r, gen) \<notin> set (referenced (tr_segments t))"
    "gen \<le> known_gen (v_store S) t" using u by (auto simp: upload_ok_def)
  obtain t' where t': "v_tier S' = Some t'" "set (referenced (tr_segments t')) \<subseteq> set (referenced (tr_segments t))"
    "known_gen (v_store S) t \<le> known_gen (v_store S') t'" using d t(1) by (auto simp: drifts_def tier_goes_def)
  have on: "(\<exists>g. tr_maxGen t' = Some g \<and> gen \<le> g) \<and> (pr_segno r, gen) \<notin> set (tr_pending t')
      \<and> (\<exists>ob. v_objects S' (pr_segno r, gen) = Some ob
       \<and> (\<forall>c \<in> pass_chunks plan r. \<forall>i < CHUNK_SIZE. ob (slotOf c) i = effective (pr_rows r c) (slot_now S' c) i))"
    if tr: "on_track plan r S'"
  proof -
    have on: "on_track plan r S" "v_epoch S' = v_epoch S"
      using drifts_on_track [OF d _ tr] p by (auto simp: plan_ok_def)
    obtain g ob where s: "tr_maxGen t = Some g" "gen \<le> g" "(pr_segno r, gen) \<notin> set (tr_pending t)"
      "v_objects S (pr_segno r, gen) = Some ob"
      "\<forall>c \<in> pass_chunks plan r. \<forall>i < CHUNK_SIZE. ob (slotOf c) i = effective (pr_rows r c) (slot_now S c) i"
      using u on(1) t(1) by (auto simp: upload_ok_def)
    have dd: "drifts_rows S S'" "drifts_tier S S'" using d on(2) by (simp_all add: drifts_def)
    obtain g' where g': "set (tr_pending t') \<subseteq> set (tr_pending t)" "tr_maxGen t' = Some g'" "g \<le> g'"
      using dd(2) t(1) t'(1) s(1) by (auto simp: drifts_tier_def)
    have "segmentsOf S' = segmentsOf S" using dd(1) by (simp add: drifts_rows_def)
    then have "slot_now S' = slot_now S" by (rule slots_kept [OF ok o])
    moreover have "v_objects S' (pr_segno r, gen) = Some ob" using objects_keptD [OF o t(1) s(3)] s(4) by simp
    ultimately show ?thesis using s g' by auto
  qed
  have "gen \<le> known_gen (v_store S') t'" "(pr_segno r, gen) \<notin> set (referenced (tr_segments t'))" using t t' by auto
  with on t'(1) show ?thesis by (simp add: upload_ok_def)
qed

subsection \<open>Planning\<close>

lemma plan_spec:
  assumes ok: "vfs_ok S" and fate: "sound_fate fate S" and x: "planTierPass recent fate S = (plan, S')"
  shows "vfs_ok S' \<and> snap_kept S S' \<and> gen_counts S S' \<and> content S' = content S \<and> saved S' \<in> {saved S, content S}
    \<and> f_spill (v_file S') = f_spill (v_file S) \<and> (\<forall>p. plan = Some p \<longrightarrow> plan_ok p S' \<and> saved S' = content S)"
proof (cases "v_tier S = None \<or> v_snapshot S \<noteq> None \<or> f_lock (v_file S) \<ge> SQLITE_LOCK_EXCLUSIVE")
  case True
  then have "S' = S" "plan = None" using x by (auto simp: planTierPass_def)
  with ok show ?thesis by (simp add: gen_counts_def)
next
  case neg: False
  obtain b S1 where fl: "flush_file fate S = (b, S1)" by fastforce
  have x: "(plan, S') = (if b then (Some \<lparr>ps_total = totalChunks S1,
      ps_candidates = filter (\<lambda>c. st_rows (v_store S1) c \<noteq> None \<and> c \<noteq> 0 \<and> \<not> recent c) [0..<totalChunks S1],
      ps_epoch = v_epoch S1\<rparr>, S1\<lparr>v_file := (v_file S1)\<lparr>f_written := Some []\<rparr>\<rparr>) else (None, S1))"
    using x unfolding planTierPass_def if_not_P [OF neg] fl by (simp split: bool.splits)
  note F = held_then_flush [OF held_refl ok fate fl] and F2 = flush_spec [OF ok fate fl]
  show ?thesis
  proof (cases b)
    case False
    with F x show ?thesis by (simp add: sound_move_def)
  next
    case True
    define f where "f = (v_file S1)\<lparr>f_written := Some []\<rparr>"
    have S': "S' = S1\<lparr>v_file := f\<rparr>" and plan: "plan = Some \<lparr>ps_total = totalChunks S1,
      ps_candidates = filter (\<lambda>c. st_rows (v_store S1) c \<noteq> None \<and> c \<noteq> 0 \<and> \<not> recent c) [0..<totalChunks S1],
      ps_epoch = v_epoch S1\<rparr>"
      using x True by (simp_all add: f_def)
    have ok1: "vfs_ok S1" and fil: "f_trunc (v_file S1) = None" and sz: "st_size (v_store S1) = f_size (v_file S1)"
      using F2 True unfolding saved_def content_def by auto
    note D = vfs_atD [OF ok1] and V = vfs_at_file [OF ok1, of f]
    have okS: "vfs_ok S'" and cur: "current S' = current S1" unfolding S' using V by (simp_all add: f_def)
    obtain t where t: "v_tier S1 = Some t" using F2 neg by auto
    have "c < totalChunks S1" if "slotInR2 c S'" for c
    proof -
      have "c * CHUNK_SIZE < st_size (v_store S1)"
        using that tier_okD [OF ok1 t] by (simp add: S' slotInR2_def segmentsOf_def tier_good_def t)
      then show ?thesis by (simp add: less_totalChunks sz)
    qed
    then have pl: "plan_ok p S'" if "plan = Some p" for p
      using that plan t sz by (auto simp: plan_ok_def S' f_def less_totalChunks)
    have c: "content S' = content S1" "saved S' = saved S1" by (simp_all add: content_def saved_def cur) (simp_all add: S' f_def)
    have "snap_kept S1 S'" by (rule snap_kept_same) (simp_all add: S')
    moreover have "gen_counts S1 S'" by (rule gen_counts_same) (simp_all add: S' c [unfolded S'])
    moreover have "snap_kept S S1" "gen_counts S S1" using F unfolding sound_move_def by blast+
    ultimately have "snap_kept S S'" "gen_counts S S'" using snap_kept_trans gen_counts_trans by blast+
    with okS have "vfs_ok S'" "snap_kept S S'" "gen_counts S S'" by simp_all
    with F2 True c pl show ?thesis by (simp add: S' f_def)
  qed
qed

subsection \<open>Reading and uploading\<close>

lemma read_segment_spec: "read_segment plan g S = Some r \<Longrightarrow> read_ok plan r S"
  by (auto simp: read_segment_def read_ok_def pass_chunks_def split: if_splits)

lemma segment_chunk: "segmentOf c = g \<Longrightarrow> g * SEGMENT_CHUNKS + slotOf c = c"
  using segment_bounds(4) [of c] by simp

lemma new_object_bytes:
  assumes ok: "vfs_ok S" and c: "c \<in> pass_chunks plan r" and tr: "on_track plan r S" and i: "i < CHUNK_SIZE"
  shows "new_object (v_objects S) plan r (slotOf c) i = effective (pr_rows r c) (slot_now S c) i"
proof -
  have g: "segmentOf c = pr_segno r" and e: "map_of (segmentsOf S) (segmentOf c) = pr_entry r"
    using c tr by (simp_all add: pass_chunks_iff on_track_def)
  have in_seg: "pr_segno r * SEGMENT_CHUNKS + slotOf c = c" by (rule segment_chunk [OF g])
  define old where "old = (case pr_entry r of
      Some e \<Rightarrow> if needs_old plan r \<and> slotOf c \<in> sg_mask e then (case v_objects S (pr_segno r, sg_gen e) of
          None \<Rightarrow> zeros | Some ob \<Rightarrow> ob (slotOf c)) else zeros
    | None \<Rightarrow> zeros)"
  have n: "new_object (v_objects S) plan r (slotOf c) = (case pr_rows r c of None \<Rightarrow> old | Some (d, m) \<Rightarrow> placeMasked d m old)"
    using c unfolding new_object_def Let_def in_seg old_def pass_chunks_def by simp
  show ?thesis
  proof (cases "entry_slot (pr_entry r) c")
    case False
    then have "slot_now S c = None" "old = zeros"
      using e g by (auto simp: slot_now_def slotBytes_def entry_slot_def old_def split: option.splits)
    then show ?thesis by (auto simp: n effective_simps placeMasked_def split: option.split)
  next
    case True
    then obtain en where en: "pr_entry r = Some en" "slotOf c \<in> sg_mask en" by (auto simp: entry_slot_def split: option.splits)
    show ?thesis
    proof (cases "map_option snd (pr_rows r c) = Some FULL_MASK")
      case full: True
      then obtain d where "pr_rows r c = Some (d, FULL_MASK)" by auto
      with i show ?thesis by (simp add: n effective_simps placeMasked_def)
    next
      case False
      then have "needs_old plan r" using True c unfolding needs_old_def list_ex_iff pass_chunks_def by blast
      moreover have "slotInR2 c S" using e en by (simp add: slotInR2_def slot_in_def)
      then have "slot_now S c \<noteq> None" using slot_there [OF vfs_atD(4) [OF ok], of c] by simp
      ultimately have "slot_now S c = Some old" using e en g by (auto simp: slot_now_def slotBytes_def old_def)
      then show ?thesis by (auto simp: n effective_simps placeMasked_def split: option.split)
    qed
  qed
qed

lemma allocateGen_spec:
  assumes "allocateGen st t = (gen, t1)" "stored_gen st \<le> known_gen st t"
  shows "known_gen st t < gen" "t1 = t\<lparr>tr_maxGen := Some gen\<rparr>" "known_gen st t1 = gen"
proof -
  have f: "m \<le> fold (\<lambda>(_, e) m. max m (sg_gen e)) segs m" for segs :: "(nat \<times> segment_entry) list" and m
    by (induction segs arbitrary: m) (auto intro: order_trans [OF max.cobounded1])
  show "known_gen st t < gen" "t1 = t\<lparr>tr_maxGen := Some gen\<rparr>" "known_gen st t1 = gen"
    using assms(1) f [of "stored_gen st" "tr_segments t"]
    by (auto simp: allocateGen_def Let_def known_gen_def stored_gen_def split: option.splits)
qed

lemma upload_spec:
  assumes ok: "vfs_ok S" and p: "plan_ok plan S" and x: "upload_segment plan r S = (gen, S')"
  shows "vfs_ok S' \<and> snap_kept S S' \<and> gen_counts S S' \<and> content S' = content S \<and> saved S' = saved S
    \<and> v_file S' = v_file S \<and> drifts S S' \<and> upload_ok plan r gen S'"
proof -
  obtain t where t: "v_tier S = Some t" using p by (auto simp: plan_ok_def)
  obtain g0 t1 where a: "allocateGen (v_store S) t = (g0, t1)" by fastforce
  note G = tier_okD [OF ok t, unfolded tier_good_def]
  have A: "known_gen (v_store S) t < gen" "t1 = t\<lparr>tr_maxGen := Some gen\<rparr>" "known_gen (v_store S) t1 = gen"
    using allocateGen_spec [OF a] G x a t by (auto simp: upload_segment_def)
  define objs where "objs = (v_objects S)((pr_segno r, gen) \<mapsto> new_object (v_objects S) plan r)"
  have S': "S' = S\<lparr>v_tier := Some t1, v_objects := objs\<rparr>"
    using x a t by (auto simp: upload_segment_def put_object_def objs_def)
  have new: "k \<noteq> (pr_segno r, gen)" if "snd k \<le> known_gen (v_store S) t" for k using that A(1) by auto
  have ref: "snd k \<le> known_gen (v_store S) t" if "k \<in> set (referenced (tr_segments t))" for k
    using that G by (meson order_trans)
  have o: "objs k = v_objects S k" if "snd k \<le> known_gen (v_store S) t" for k using new [OF that] by (simp add: objs_def)
  have good: "tier_good (v_store S) objs t1"
    using G o ref A(1) unfolding tier_good_def A(3) by (auto simp: A(2) intro: order_trans)
  have sn: "objs k = v_objects S k" if "v_snapshot S = Some sn" "k \<in> set (referenced (sn_segments sn))" for sn k
    using vfs_atD(10) [OF ok] that t by (intro o) (auto simp: snap_ok_def snap_gens_def)
  have M: "vfs_ok S'" "content S' = content S" "saved S' = saved S" "snap_kept S S'" "gen_counts S S'" "slot_now S' = slot_now S"
    unfolding S' by (rule objects_move [OF ok t _ _ good]; use o ref sn A in simp)+
  have seg: "segmentsOf S' = segmentsOf S" by (simp add: segmentsOf_def S' t A(2))
  have d: "drifts S S'" using A seg
    by (auto simp: drifts_def tier_goes_def drifts_rows_def drifts_tier_def written_of_def t S' known_gen_def split: option.splits)
  have tr: "on_track plan r S' \<longleftrightarrow> on_track plan r S" by (simp add: on_track_def seg) (simp add: S')
  have free: "(pr_segno r, gen) \<notin> set (referenced (tr_segments t))" "(pr_segno r, gen) \<notin> set (tr_pending t)"
    using ref [of "(pr_segno r, gen)"] G A(1) by fastforce+
  have "upload_ok plan r gen S'" unfolding upload_ok_def
  proof (intro conjI impI)
    show "\<exists>t. v_tier S' = Some t \<and> (pr_segno r, gen) \<notin> set (referenced (tr_segments t))
        \<and> gen \<le> known_gen (v_store S') t
        \<and> (on_track plan r S' \<longrightarrow> (\<exists>g. tr_maxGen t = Some g \<and> gen \<le> g) \<and> (pr_segno r, gen) \<notin> set (tr_pending t))"
      using free by (simp add: S' A(2) known_gen_def)
    assume "on_track plan r S'"
    then show "\<exists>ob. v_objects S' (pr_segno r, gen) = Some ob
       \<and> (\<forall>c \<in> pass_chunks plan r. \<forall>i < CHUNK_SIZE. ob (slotOf c) i = effective (pr_rows r c) (slot_now S' c) i)"
      unfolding tr M(6) using new_object_bytes [OF ok] by (simp add: S' objs_def)
  qed
  with M d plan_drifts [OF p d] show ?thesis by (simp add: S')
qed

subsection \<open>Committing\<close>

lemma slotOf_inj: "segmentOf c = segmentOf q \<Longrightarrow> slotOf c = slotOf q \<Longrightarrow> c = q"
  using segment_bounds(4) [of c] segment_bounds(4) [of q] by simp

lemma new_mask_iff:
  assumes "segmentOf c = pr_segno r"
  shows "slotOf c \<in> new_mask plan r \<longleftrightarrow> c \<in> pass_chunks plan r \<and> (pr_rows r c \<noteq> None \<or> entry_slot (pr_entry r) c)"
proof -
  have "x = c" if "slotOf c = slotOf x" "segmentOf x = pr_segno r" for x
    using slotOf_inj [of c x] that assms by simp
  then show ?thesis using assms by (auto simp: new_mask_def pass_chunks_iff chunks_of_segment_set)
qed

lemma queued_ok:
  assumes ok: "vfs_ok S" and t: "v_tier S = Some t" and k: "k \<notin> set (referenced (tr_segments t))" "snd k \<le> known_gen (v_store S) t"
  defines "S' \<equiv> S\<lparr>v_tier := Some (queueDelete k t)\<rparr>"
  shows "vfs_ok S'" "content S' = content S" "saved S' = saved S" "snap_kept S S'" "gen_counts S S'"
proof -
  have e: "S' = S\<lparr>v_tier := Some (queueDelete k t), v_objects := v_objects S\<rparr>" by (simp add: S'_def)
  have g: "known_gen (v_store S) (queueDelete k t) = known_gen (v_store S) t" "tr_segments (queueDelete k t) = tr_segments t"
    by (simp_all add: queueDelete_def known_gen_def)
  have "tier_good (v_store S) (v_objects S) (queueDelete k t)"
    using tier_okD [OF ok t] k unfolding tier_good_def g by (auto simp: queueDelete_def)
  then show "vfs_ok S'" "content S' = content S" "saved S' = saved S" "snap_kept S S'" "gen_counts S S'"
    unfolding e by (intro objects_move [OF ok t]; simp add: g)+
qed

text \<open>What the commit makes of storage and map.\<close>

definition evicted_of :: "pass_plan \<Rightarrow> pass_read \<Rightarrow> vfs \<Rightarrow> nat list" where
  "evicted_of plan r S = filter (\<lambda>c. segmentOf c = pr_segno r \<and> c \<notin> written_of S) (ps_candidates plan)"

definition committed :: "pass_plan \<Rightarrow> pass_read \<Rightarrow> nat \<Rightarrow> page_tier \<Rightarrow> vfs \<Rightarrow> vfs" where
  "committed plan r gen t S =
    (case setSegment (pr_segno r) \<lparr>sg_gen = gen, sg_mask = new_mask plan r\<rparr> t (v_store S) of
       (t1, st1) \<Rightarrow> S\<lparr>v_tier := Some (case pr_entry r of None \<Rightarrow> t1
             | Some e \<Rightarrow> if sg_gen e = gen then t1 else queueDelete (pr_segno r, sg_gen e) t1),
           v_store := st1\<lparr>st_rows := (\<lambda>c. if c \<in> set (evicted_of plan r S) then None else st_rows st1 c)\<rparr>\<rparr>)"

lemma commit_segment_eq:
  assumes "v_tier S = Some t"
  shows "commit_segment plan r gen S =
    (if \<not> tierPassStillValid plan S \<or> map_of (segmentsOf S) (pr_segno r) \<noteq> pr_entry r
     then (None, S\<lparr>v_tier := Some (queueDelete (pr_segno r, gen) t)\<rparr>)
     else (Some (length (evicted_of plan r S)), committed plan r gen t S))"
proof -
  have w: "set (case f_written (v_file S) of None \<Rightarrow> [] | Some w \<Rightarrow> w) = written_of S"
    by (simp add: written_of_def split: option.split)
  show ?thesis
    by (simp add: commit_segment_def Let_def assms upd_tier_def committed_def evicted_of_def w split: prod.split)
qed

lemma referenced_update:
  assumes "distinct (map fst es)" "k \<in> set (referenced (AList.update g e es))"
  shows "k = (g, sg_gen e) \<or> k \<in> set (referenced es) \<and> fst k \<noteq> g"
proof -
  obtain x where "x \<in> set (AList.update g e es)" "k = (fst x, sg_gen (snd x))"
    using assms(2) by (auto simp: referenced_def)
  moreover from this(1) have "x \<in> {x \<in> set es. fst x \<noteq> g} \<union> {(g, e)}" using update_keys [OF assms(1), of g e] by blast
  ultimately show ?thesis by (force simp: referenced_def)
qed

text \<open>The byte of a chunk before and after: its row may be evicted, its slot may come from the new object.\<close>

lemma commit_byte:
  assumes "row_grows R row" "ob i = effective R slot i" "ev \<Longrightarrow> row = R" "in_mask \<longleftrightarrow> R \<noteq> None \<or> slot \<noteq> None"
  shows "effective (if ev then None else row) (if in_mask then Some ob else None) i = effective row slot i"
proof (cases R)
  case None
  then show ?thesis using assms by (cases row; cases slot) (auto simp: effective_simps)
next
  case (Some x)
  obtain d0 m0 where x: "x = (d0, m0)" by fastforce
  then obtain d m where row: "row = Some (d, m)" "m0 \<subseteq> m" using assms(1) Some by (auto simp: row_grows_def)
  show ?thesis
  proof (cases "i div VFS_PAGE_SIZE \<in> m")
    case True
    then show ?thesis using assms Some x row by (auto simp: effective_simps)
  next
    case False
    then have "i div VFS_PAGE_SIZE \<notin> m0" using row(2) by blast
    then have "ob i = (case slot of None \<Rightarrow> 0 | Some b \<Rightarrow> b i)" using assms(2) Some x by (simp add: effective_simps)
    with False row assms(3,4) Some show ?thesis by (simp add: effective_simps)
  qed
qed

text \<open>A pass at its commit.\<close>

definition at_commit :: "pass_plan \<Rightarrow> pass_read \<Rightarrow> nat \<Rightarrow> page_tier \<Rightarrow> vfs \<Rightarrow> bool" where
  "at_commit plan r gen t S \<longleftrightarrow> vfs_ok S \<and> v_tier S = Some t \<and> plan_ok plan S \<and> read_ok plan r S
     \<and> upload_ok plan r gen S \<and> on_track plan r S \<and> v_snapshot S = None"

lemma at_commitD:
  assumes "at_commit plan r gen t S"
  obtains g ob where "tier_good (v_store S) (v_objects S) t" "tr_maxGen t = Some g" "gen \<le> g" "known_gen (v_store S) t = g"
    "(pr_segno r, gen) \<notin> set (tr_pending t)" "(pr_segno r, gen) \<notin> set (referenced (tr_segments t))"
    "v_objects S (pr_segno r, gen) = Some ob"
    "\<And>c i. c \<in> pass_chunks plan r \<Longrightarrow> i < CHUNK_SIZE \<Longrightarrow> ob (slotOf c) i = effective (pr_rows r c) (slot_now S c) i"
    "map_of (tr_segments t) (pr_segno r) = pr_entry r"
proof -
  have a: "vfs_ok S" "v_tier S = Some t" "upload_ok plan r gen S" "on_track plan r S" using assms by (simp_all add: at_commit_def)
  then obtain g ob where g: "tr_maxGen t = Some g" "gen \<le> g" "(pr_segno r, gen) \<notin> set (tr_pending t)"
    "(pr_segno r, gen) \<notin> set (referenced (tr_segments t))" "v_objects S (pr_segno r, gen) = Some ob"
    "\<And>c i. c \<in> pass_chunks plan r \<Longrightarrow> i < CHUNK_SIZE \<Longrightarrow> ob (slotOf c) i = effective (pr_rows r c) (slot_now S c) i"
    unfolding upload_ok_def by auto
  have "known_gen (v_store S) t = g" using g(1) by (simp add: known_gen_def)
  moreover have "map_of (tr_segments t) (pr_segno r) = pr_entry r" using a by (simp add: on_track_def segmentsOf_def)
  ultimately show thesis using that tier_okD [OF a(1,2)] g by blast
qed

lemma committed_parts:
  assumes "at_commit plan r gen t S"
  defines "S' \<equiv> committed plan r gen t S"
  shows "v_file S' = v_file S" "v_snapshot S' = v_snapshot S" "v_pins S' = v_pins S" "v_cache S' = v_cache S"
    "v_objects S' = v_objects S" "v_epoch S' = v_epoch S" "st_size (v_store S') = st_size (v_store S)"
    "st_gen (v_store S') = st_gen (v_store S)"
    "st_rows (v_store S') c = (if c \<in> set (evicted_of plan r S) then None else st_rows (v_store S) c)"
    "segmentsOf S' = AList.update (pr_segno r) \<lparr>sg_gen = gen, sg_mask = new_mask plan r\<rparr> (segmentsOf S)"
    "v_tier S' \<noteq> None"
proof -
  have t: "v_tier S = Some t" using assms(1) by (simp add: at_commit_def)
  show "v_file S' = v_file S" "v_snapshot S' = v_snapshot S" "v_pins S' = v_pins S" "v_cache S' = v_cache S"
    "v_objects S' = v_objects S" "v_epoch S' = v_epoch S" "st_size (v_store S') = st_size (v_store S)"
    "st_gen (v_store S') = st_gen (v_store S)"
    "st_rows (v_store S') c = (if c \<in> set (evicted_of plan r S) then None else st_rows (v_store S) c)" "v_tier S' \<noteq> None"
    by (simp_all add: S'_def committed_def setSegment_def Let_def)
  show "segmentsOf S' = AList.update (pr_segno r) \<lparr>sg_gen = gen, sg_mask = new_mask plan r\<rparr> (segmentsOf S)"
    by (simp add: S'_def committed_def setSegment_def Let_def segmentsOf_def t queueDelete_def split: option.split)
qed

lemma committed_slot:
  assumes "at_commit plan r gen t S" "v_objects S (pr_segno r, gen) = Some ob"
  shows "slot_now (committed plan r gen t S) c =
    (if segmentOf c \<noteq> pr_segno r then slot_now S c else if slotOf c \<in> new_mask plan r then Some (ob (slotOf c)) else None)"
  using assms(2) by (auto simp: slot_now_def committed_parts [OF assms(1)] slotBytes_def update_conv')

lemma committed_stored:
  assumes a: "at_commit plan r gen t S" and i: "i < CHUNK_SIZE"
  shows "stored (committed plan r gen t S) c i = stored S c i"
proof -
  obtain g ob where g: "v_objects S (pr_segno r, gen) = Some ob"
    "\<And>c i. c \<in> pass_chunks plan r \<Longrightarrow> i < CHUNK_SIZE \<Longrightarrow> ob (slotOf c) i = effective (pr_rows r c) (slot_now S c) i"
    using at_commitD [OF a] by metis
  have ok: "vfs_ok S" and p: "plan_ok plan S" and rd: "read_ok plan r S" and tr: "on_track plan r S"
    using a by (simp_all add: at_commit_def)
  have ep: "v_epoch S = ps_epoch plan" and e: "map_of (segmentsOf S) (pr_segno r) = pr_entry r"
    using tr by (simp_all add: on_track_def)
  note row = committed_parts(9) [OF a, of c] and slot = committed_slot [OF a g(1), of c]
  have there: "slotInR2 c S \<longleftrightarrow> slot_now S c \<noteq> None" by (rule slot_there [OF vfs_atD(4) [OF ok]])
  show ?thesis
  proof (cases "segmentOf c = pr_segno r")
    case False
    then have "c \<notin> set (evicted_of plan r S)" by (simp add: evicted_of_def)
    with False row slot show ?thesis by (simp add: stored_def)
  next
    case seg: True
    have en: "entry_slot (pr_entry r) c \<longleftrightarrow> slotInR2 c S" using e seg by (simp add: entry_slot_def slotInR2_def slot_in_def)
    show ?thesis
    proof (cases "c \<in> pass_chunks plan r")
      case False
      then have c: "\<not> c < ps_total plan" using seg by (simp add: pass_chunks_iff)
      then have "c \<notin> set (evicted_of plan r S)" using p by (auto simp: evicted_of_def plan_ok_def)
      moreover have "slot_now S c = None" using p ep c there by (auto simp: plan_ok_def)
      moreover have "slotOf c \<notin> new_mask plan r" using False new_mask_iff [OF seg] by simp
      ultimately show ?thesis using row slot seg by (simp add: stored_def)
    next
      case True
      have R: "row_grows (pr_rows r c) (st_rows (v_store S) c)"
        "c \<in> set (evicted_of plan r S) \<Longrightarrow> st_rows (v_store S) c = pr_rows r c"
        using rd tr True by (auto simp: read_ok_def evicted_of_def)
      show ?thesis unfolding stored_def row slot
        using commit_byte [of "pr_rows r c" "st_rows (v_store S) c" "ob (slotOf c)" i "slot_now S c"
            "c \<in> set (evicted_of plan r S)" "slotOf c \<in> new_mask plan r"]
          R g(2) [OF True i] new_mask_iff [OF seg, of plan] True en there seg by auto
    qed
  qed
qed

lemma committed_tier:
  assumes a: "at_commit plan r gen t S"
  shows "tier_ok (committed plan r gen t S)" "slotInR2 c (committed plan r gen t S) \<Longrightarrow> c < ps_total plan"
proof -
  obtain g ob where A: "tier_good (v_store S) (v_objects S) t" "tr_maxGen t = Some g" "gen \<le> g" "known_gen (v_store S) t = g"
    "(pr_segno r, gen) \<notin> set (tr_pending t)" "(pr_segno r, gen) \<notin> set (referenced (tr_segments t))"
    "v_objects S (pr_segno r, gen) = Some ob" "map_of (tr_segments t) (pr_segno r) = pr_entry r"
    using at_commitD [OF a] by metis
  note G = A(1) [unfolded tier_good_def]
  have t: "v_tier S = Some t" and p: "plan_ok plan S" and ep: "v_epoch S = ps_epoch plan"
    using a by (simp_all add: at_commit_def on_track_def)
  define en where "en = \<lparr>sg_gen = gen, sg_mask = new_mask plan r\<rparr>"
  define segs where "segs = AList.update (pr_segno r) en (tr_segments t)"
  have slots: "c < ps_total plan" if "slot_in segs c" for c
  proof (cases "segmentOf c = pr_segno r")
    case True
    then have "slotOf c \<in> new_mask plan r" using that by (simp add: slot_in_def segs_def update_conv' en_def)
    then show ?thesis using new_mask_iff [OF True] by (simp add: pass_chunks_iff)
  next
    case False
    then have "slotInR2 c S" using that by (simp add: slot_in_def segs_def update_conv' slotInR2_def segmentsOf_def t)
    then show ?thesis using p ep by (simp add: plan_ok_def)
  qed
  show "slotInR2 c (committed plan r gen t S) \<Longrightarrow> c < ps_total plan"
  proof -
    have "segmentsOf S = tr_segments t" by (simp add: segmentsOf_def t)
    then have "segmentsOf (committed plan r gen t S) = segs"
      using committed_parts(10) [OF a] by (simp add: segs_def en_def)
    then show "slotInR2 c (committed plan r gen t S) \<Longrightarrow> c < ps_total plan" using slots [of c] by (simp add: slotInR2_def)
  qed
  define t1 where "t1 = t\<lparr>tr_segments := segs, tr_maxGen := Some g\<rparr>"
  define t2 where "t2 = (case pr_entry r of None \<Rightarrow> t1
             | Some e \<Rightarrow> if sg_gen e = gen then t1 else queueDelete (pr_segno r, sg_gen e) t1)"
  have tier: "v_tier (committed plan r gen t S) = Some t2"
    using A(2,3) by (simp add: committed_def setSegment_def Let_def t2_def t1_def segs_def en_def max_def split: option.split)
  have t2: "tr_segments t2 = segs" "tr_maxGen t2 = Some g"
    by (simp_all add: t2_def t1_def queueDelete_def split: option.split)
  have pend: "k \<in> set (tr_pending t) \<or> (\<exists>e. pr_entry r = Some e \<and> sg_gen e \<noteq> gen \<and> k = (pr_segno r, sg_gen e))"
    if "k \<in> set (tr_pending t2)" for k
    using that by (auto simp: t2_def t1_def queueDelete_def split: option.splits if_splits)
  have oldref: "(pr_segno r, sg_gen e) \<in> set (referenced (tr_segments t))" if "pr_entry r = Some e" for e
    using that A(8) by (force simp: referenced_def dest: map_of_SomeD)
  have sg: "stored_gen (v_store (committed plan r gen t S)) = g"
    using G A(2,3,4) by (auto simp: committed_def setSegment_def Let_def stored_gen_def max_def split: option.splits)
  have kg: "known_gen st t2 = g" for st by (simp add: known_gen_def t2)
  have "tier_good (v_store (committed plan r gen t S)) (v_objects S) t2" unfolding tier_good_def t2 sg kg
  proof (intro conjI ballI allI impI order_refl)
    show "segs = st_segments (v_store (committed plan r gen t S))"
      using G by (simp add: committed_def setSegment_def Let_def segs_def en_def)
    show "distinct (map fst segs)" unfolding segs_def by (rule distinct_update) (use G in blast)
    fix k assume k: "k \<in> set (referenced segs)"
    have dist: "distinct (map fst (tr_segments t))" using G by blast
    from referenced_update [OF dist k [unfolded segs_def]]
    consider "k = (pr_segno r, gen)" | "k \<in> set (referenced (tr_segments t))" "fst k \<noteq> pr_segno r" by (auto simp: en_def)
    then have "v_objects S k \<noteq> None \<and> k \<notin> set (tr_pending t2) \<and> snd k \<le> g"
    proof cases
      case 1
      then show ?thesis using A(3,5,7) pend [of k] by auto
    next
      case 2
      then have "v_objects S k \<noteq> None" "k \<notin> set (tr_pending t)" "snd k \<le> stored_gen (v_store S)" using G by blast+
      moreover have "stored_gen (v_store S) \<le> g" using G A(4) by simp
      ultimately show ?thesis using pend [of k] 2(2) by auto
    qed
    then show "v_objects S k \<noteq> None" "k \<notin> set (tr_pending t2)" "snd k \<le> g" by blast+
  next
    fix k assume "k \<in> set (tr_pending t2)"
    then show "snd k \<le> g" using pend [of k] oldref G A(4) by fastforce
  next
    fix c assume "slot_in segs c"
    then show "c * CHUNK_SIZE < st_size (v_store (committed plan r gen t S))"
      using slots [of c] p ep by (simp add: committed_parts [OF a] plan_ok_def)
  qed
  then show "tier_ok (committed plan r gen t S)" by (simp add: tier_ok_def tier committed_parts [OF a])
qed

lemma commit_spec:
  assumes ok: "vfs_ok S" and p: "plan_ok plan S" and rd: "read_ok plan r S" and up: "upload_ok plan r gen S"
    and x: "commit_segment plan r gen S = (n, S')"
  shows "vfs_ok S' \<and> snap_kept S S' \<and> gen_counts S S' \<and> content S' = content S \<and> saved S' = saved S
    \<and> v_file S' = v_file S \<and> plan_ok plan S'"
proof -
  obtain t where t: "v_tier S = Some t" using p by (auto simp: plan_ok_def)
  note e = commit_segment_eq [OF t, of plan r gen]
  show ?thesis
  proof (cases "\<not> tierPassStillValid plan S \<or> map_of (segmentsOf S) (pr_segno r) \<noteq> pr_entry r")
    case True
    have S': "S' = S\<lparr>v_tier := Some (queueDelete (pr_segno r, gen) t)\<rparr>" using x e True by simp
    have "(pr_segno r, gen) \<notin> set (referenced (tr_segments t))" "snd (pr_segno r, gen) \<le> known_gen (v_store S) t"
      using up t by (auto simp: upload_ok_def)
    note Q = queued_ok [OF ok t this, folded S']
    have "segmentsOf S' = segmentsOf S" by (simp add: segmentsOf_def S' t queueDelete_def)
    then have "plan_ok plan S'" using p by (simp add: plan_ok_def slotInR2_def) (simp add: S')
    then show ?thesis using Q by (simp add: S')
  next
    case False
    then have v: "v_epoch S = ps_epoch plan" "v_snapshot S = None" by (simp_all add: tierPassStillValid_def)
    have a: "at_commit plan r gen t S" using assms t v False by (simp add: at_commit_def on_track_def)
    have S': "S' = committed plan r gen t S" using x e False by simp
    note P = committed_parts [OF a, folded S'] and D = vfs_atD [OF ok]
    have parts: "rows_ok S'" "tier_ok S'" "base_ok S'" "snap_ok S'"
      using D(2) committed_tier(1) [OF a] t v(2) P(11)
      by (auto simp: S' [symmetric] rows_ok_def P base_ok_def snap_ok_def)
    have M: "vfs_ok S'" "content S' = content S" "saved S' = saved S" "gen_counts S S'"
      by (rule background_move [OF ok]; use P(1-8,11) parts t committed_stored [OF a, folded S'] dirty_okD(5) [OF D(3)] in
          \<open>auto simp: P(9) split: if_splits\<close>)+
    have "plan_ok plan S'"
      using p P(11) committed_tier(2) [OF a, folded S'] by (simp add: plan_ok_def P)
    moreover have "snap_kept S S'" using v(2) by (simp add: snap_kept_def P)
    ultimately show ?thesis using M by (simp add: P)
  qed
qed

end
