(* ===== verification/Vfs_Steps.thy ===== *)
theory Vfs_Steps
  imports Vfs_Pass
begin

text \<open>
  The life of a file: SQLite's calls, the runtime's snapshots, cold misses, the phases of an eviction
  pass, deletions of objects and new attachments, in any order. Every history of the VFS is a history of
  a plain file with a saved copy.
\<close>

subsection \<open>The abstract file's histories\<close>

datatype event =
    Saw nat nat "byte list"
  | Wrote nat "byte list"
  | Cut nat
  | Saved
  | Fell_back

text \<open>The current file and the saved one; \<open>None\<close> when a read saw something else.\<close>

fun a_event :: "event \<Rightarrow> afile \<times> afile \<Rightarrow> (afile \<times> afile) option" where
  "a_event (Saw off len bs) (c, s) = (if bs = a_read off len c then Some (c, s) else None)"
| "a_event (Wrote off bs) (c, s) = Some (a_write off bs c, s)"
| "a_event (Cut n) (c, s) = Some (a_truncate n c, s)"
| "a_event Saved (c, s) = Some (c, c)"
| "a_event Fell_back (c, s) = Some (s, s)"

fun a_events :: "event list \<Rightarrow> afile \<times> afile \<Rightarrow> (afile \<times> afile) option" where
  "a_events [] x = Some x"
| "a_events (e # es) x = (case a_event e x of None \<Rightarrow> None | Some y \<Rightarrow> a_events es y)"

lemma a_events_append: "a_events (es @ ds) x = (case a_events es x of None \<Rightarrow> None | Some y \<Rightarrow> a_events ds y)"
  by (induction es arbitrary: x) (auto split: option.split)

subsection \<open>The steps\<close>

datatype phase = Idle | Planned pass_plan | Segment_read pass_plan pass_read | Uploaded pass_plan pass_read nat

definition saved_now :: "bool \<Rightarrow> event list" where
  "saved_now b = (if b then [Saved] else [])"

inductive vfs_step :: "vfs \<times> phase \<Rightarrow> event list \<Rightarrow> vfs \<times> phase \<Rightarrow> bool" where
  s_read: "xRead off len S = (code, bs, S') \<Longrightarrow>
    vfs_step (S, ph) (if code = SQLITE_IOERR_READ then [] else [Saw off len bs]) (S', ph)"
| s_write: "write_guard off (length bs) S \<Longrightarrow> sound_fate fate S \<Longrightarrow> xWrite fate off bs S = (code, S') \<Longrightarrow>
    vfs_step (S, ph) (Wrote off bs # saved_now (saved S' \<noteq> saved S)) (S', ph)"
| s_truncate: "truncate_guard n S \<Longrightarrow> xTruncate n S = (code, S') \<Longrightarrow> vfs_step (S, ph) [Cut n] (S', ph)"
| s_sync: "sound_fate fate S \<Longrightarrow> xSync fate S = (code, S') \<Longrightarrow> vfs_step (S, ph) (saved_now (code = SQLITE_OK)) (S', ph)"
| s_lock: "vfs_step (S, ph) [] (xLock level S, ph)"
| s_unlock: "sound_fate fate S \<Longrightarrow> xUnlock fate level S = (code, S') \<Longrightarrow>
    vfs_step (S, ph) (saved_now (f_lock (v_file S) \<ge> SQLITE_LOCK_EXCLUSIVE \<and> level < SQLITE_LOCK_EXCLUSIVE \<and> code = SQLITE_OK)) (S', ph)"
| s_attach: "attach_guard S \<Longrightarrow> vfs_step (S, ph) [Fell_back] (reattach S, Idle)"
| s_restart: "vfs_step (S, ph) [Fell_back] (restart S, Idle)"
| s_open_snapshot: "sound_fate fate S \<Longrightarrow> openSnapshot fate S = (b, S') \<Longrightarrow>
    vfs_step (S, ph) (saved_now (saved S' \<noteq> saved S)) (S', ph)"
| s_close_snapshot: "vfs_step (S, ph) [] (closeSnapshot S, ph)"
| s_resolve: "resolveMisses S = (b, S') \<Longrightarrow> vfs_step (S, ph) [] (S', ph)"
| s_release: "vfs_step (S, ph) [] (releasePins S, ph)"
| s_maintenance: "vfs_step (S, ph) [] (tierMaintenance S, ph)"
| s_sweep: "(\<forall>p r gen. ph \<noteq> Uploaded p r gen) \<Longrightarrow> vfs_step (S, ph) [] (orphan_sweep listed S, ph)"
| s_materialize: "sound_fate fate S \<Longrightarrow> materialize fate S = (b, S') \<Longrightarrow>
    vfs_step (S, ph) (saved_now (saved S' \<noteq> saved S)) (S', ph)"
| s_plan: "sound_fate fate S \<Longrightarrow> planTierPass recent fate S = (plan, S') \<Longrightarrow>
    vfs_step (S, Idle) (saved_now (saved S' \<noteq> saved S)) (S', case plan of None \<Rightarrow> Idle | Some p \<Rightarrow> Planned p)"
| s_read_segment: "read_segment plan g S = Some r \<Longrightarrow> vfs_step (S, Planned plan) [] (S, Segment_read plan r)"
| s_upload: "upload_segment plan r S = (gen, S') \<Longrightarrow> vfs_step (S, Segment_read plan r) [] (S', Uploaded plan r gen)"
| s_commit: "commit_segment plan r gen S = (n, S') \<Longrightarrow> vfs_step (S, Uploaded plan r gen) [] (S', Planned plan)"
| s_end_pass: "vfs_step (S, ph) [] (end_pass S, Idle)"

fun phase_ok :: "phase \<Rightarrow> vfs \<Rightarrow> bool" where
  "phase_ok Idle S = True"
| "phase_ok (Planned plan) S = plan_ok plan S"
| "phase_ok (Segment_read plan r) S = (plan_ok plan S \<and> read_ok plan r S)"
| "phase_ok (Uploaded plan r gen) S = (plan_ok plan S \<and> read_ok plan r S \<and> upload_ok plan r gen S)"

lemma phase_drifts:
  assumes "vfs_ok S" "phase_ok ph S" "drifts S S'" "objects_kept S S' \<or> (\<forall>p r gen. ph \<noteq> Uploaded p r gen)"
  shows "phase_ok ph S'"
  using assms plan_drifts read_drifts upload_drifts by (cases ph) auto

text \<open>What a step keeps, and what it means for the file.\<close>

definition good_step :: "vfs \<Rightarrow> event list \<Rightarrow> vfs \<Rightarrow> phase \<Rightarrow> bool" where
  "good_step S es S' ph' \<longleftrightarrow> vfs_ok S' \<and> phase_ok ph' S' \<and> gen_counts S S'
     \<and> a_events es (content S, saved S) = Some (content S', saved S')"

lemma sound_good:
  assumes "vfs_ok S" "phase_ok ph S" "sound_move S S'" "a_events es (content S, saved S) = Some (content S', saved S')"
  shows "good_step S es S' ph"
  using assms phase_drifts [of S ph S'] by (simp add: good_step_def sound_move_def)

lemma same_view_good:
  assumes "phase_ok ph S" "same_view S S'" "vfs_ok S'" "vfs_ok S" "v_snapshot S' = v_snapshot S" "v_epoch S' = v_epoch S"
  shows "good_step S [] S' ph"
  using sound_good [OF assms(4,1)] same_view_sound [OF assms(2,3,5,6)] by simp

lemma saved_now_events:
  assumes "content S' = content S" "saved S' \<in> {saved S, content S}"
  shows "a_events (saved_now (saved S' \<noteq> saved S)) (content S, saved S) = Some (content S', saved S')"
  using assms by (auto simp: saved_now_def)

lemma vfs_step_good:
  assumes "vfs_step (S, ph) es (S', ph')" and ok: "vfs_ok S" and ph: "phase_ok ph S"
  shows "good_step S es S' ph'"
  using assms(1)
proof cases
  case (s_read off len code bs)
  note R = xRead_spec [OF ok s_read(3)] and M = xRead_sound [OF ok s_read(3)]
  show ?thesis unfolding s_read(1,2) by (rule sound_good [OF ok ph M]) (use R in \<open>auto split: if_splits\<close>)
next
  case (s_write off bs fate code)
  note W = xWrite_spec [OF ok s_write(3-5)]
  have "a_events (Wrote off bs # saved_now (saved S' \<noteq> saved S)) (content S, saved S) = Some (content S', saved S')"
    using W by (auto simp: saved_now_def)
  then show ?thesis unfolding s_write(1,2) using W sound_good [OF ok ph] by blast
next
  case (s_truncate n code)
  note T = xTruncate_spec [OF ok s_truncate(3,4)]
  show ?thesis unfolding s_truncate(1,2) by (rule sound_good [OF ok ph]) (use T in simp_all)
next
  case (s_sync fate code)
  note Y = xSync_spec [OF ok s_sync(3,4)]
  show ?thesis unfolding s_sync(1,2) by (rule sound_good [OF ok ph]) (use Y in \<open>auto simp: saved_now_def\<close>)
next
  case (s_lock level)
  note L = xLock_spec [OF ok, of level]
  show ?thesis unfolding s_lock(1-3) by (rule sound_good [OF ok ph]) (use L in simp_all)
next
  case (s_unlock fate level code)
  note U = xUnlock_spec [OF ok s_unlock(3,4)]
  show ?thesis unfolding s_unlock(1,2) by (rule sound_good [OF ok ph]) (use U in \<open>auto simp: saved_now_def\<close>)
next
  case s_attach
  then show ?thesis using reattach_spec [OF ok] by (simp add: good_step_def)
next
  case s_restart
  then show ?thesis using restart_spec [OF ok] by (simp add: good_step_def)
next
  case (s_open_snapshot fate b)
  note P = openSnapshot_spec [OF ok s_open_snapshot(3,4)]
  have "phase_ok ph S'" using phase_drifts [OF ok ph] P by blast
  with P saved_now_events [of S' S] show ?thesis unfolding s_open_snapshot(1,2) good_step_def by blast
next
  case s_close_snapshot
  note C = closeSnapshot_spec [OF ok]
  have "phase_ok ph (closeSnapshot S)" using phase_drifts [OF ok ph] C by blast
  with C s_close_snapshot show ?thesis by (simp add: good_step_def)
next
  case (s_resolve b)
  show ?thesis unfolding s_resolve(1,2) by (rule same_view_good [OF ph]) (use resolveMisses_spec [OF ok s_resolve(3)] ok in blast)+
next
  case s_release
  show ?thesis unfolding s_release by (rule same_view_good [OF ph]) (use releasePins_spec [OF ok] ok in blast)+
next
  case s_maintenance
  show ?thesis unfolding s_maintenance by (rule sound_good [OF ok ph]) (use maintenance_spec [OF ok] in simp_all)
next
  case (s_sweep listed)
  note W = sweep_spec [OF ok, of listed]
  have "phase_ok ph (orphan_sweep listed S)" using phase_drifts [OF ok ph] W s_sweep(4) by blast
  with W s_sweep show ?thesis by (simp add: good_step_def)
next
  case (s_materialize fate b)
  note Z = materialize_spec [OF ok s_materialize(3,4)]
  show ?thesis unfolding s_materialize(1,2)
    by (rule sound_good [OF ok ph]) (use Z saved_now_events [of S' S] in blast)+
next
  case (s_plan fate recent plan)
  note P = plan_spec [OF ok s_plan(4,5)]
  have "phase_ok (case plan of None \<Rightarrow> Idle | Some p \<Rightarrow> Planned p) S'" using P by (simp split: option.split)
  with P saved_now_events [of S' S] show ?thesis unfolding s_plan(1-3) good_step_def by blast
next
  case (s_read_segment plan g r)
  then show ?thesis using read_segment_spec [OF s_read_segment(5)] ph ok by (simp add: good_step_def gen_counts_def)
next
  case (s_upload plan r gen)
  have p: "plan_ok plan S" "read_ok plan r S" using ph s_upload(1) by simp_all
  note U = upload_spec [OF ok p(1) s_upload(4)]
  have "drifts S S'" using U by blast
  with U plan_drifts [OF p(1)] read_drifts [OF p] have "phase_ok (Uploaded plan r gen) S'" by simp
  moreover have "a_events [] (content S, saved S) = Some (content S', saved S')" using U by simp
  ultimately show ?thesis unfolding s_upload(2,3) good_step_def using U by blast
next
  case (s_commit plan r gen n)
  have p: "plan_ok plan S" "read_ok plan r S" "upload_ok plan r gen S" using ph s_commit(1) by simp_all
  note C = commit_spec [OF ok p s_commit(4)]
  have "a_events [] (content S, saved S) = Some (content S', saved S')" using C by simp
  then show ?thesis unfolding s_commit(2,3) good_step_def phase_ok.simps using C by blast
next
  case s_end_pass
  define f where "f = (v_file S)\<lparr>f_written := None\<rparr>"
  have e: "S' = S\<lparr>v_file := f\<rparr>" using s_end_pass by (simp add: end_pass_def f_def)
  note V = vfs_at_file [OF ok, of f, folded e]
  have "vfs_ok S'" "current S' = current S" using V by (simp_all add: f_def e)
  moreover have "saved S' = saved S" "v_store S' = v_store S" "f_size (v_file S') = f_size (v_file S)"
    by (simp_all add: saved_def e f_def)
  ultimately have "content S' = content S" "gen_counts S S'" by (simp_all add: content_def gen_counts_def)
  with \<open>vfs_ok S'\<close> \<open>saved S' = saved S\<close> show ?thesis unfolding s_end_pass(1,3) good_step_def by simp
qed

subsection \<open>Histories\<close>

inductive vfs_run :: "vfs \<times> phase \<Rightarrow> event list \<Rightarrow> vfs \<times> phase \<Rightarrow> bool" where
  run_nil: "vfs_run x [] x"
| run_step: "vfs_run x es y \<Longrightarrow> vfs_step y ds z \<Longrightarrow> vfs_run x (es @ ds) z"

lemma vfs_run_good:
  assumes "vfs_run (S, ph) es (S', ph')" "vfs_ok S" "phase_ok ph S"
  shows "good_step S es S' ph'"
  using assms
proof (induction "(S, ph)" es "(S', ph')" arbitrary: S' ph' rule: vfs_run.induct)
  case run_nil
  then show ?case by (simp add: good_step_def gen_counts_def)
next
  case (run_step es y ds)
  obtain S1 ph1 where y: "y = (S1, ph1)" by fastforce
  have 1: "good_step S es S1 ph1" by (rule run_step.hyps(2) [OF y run_step.prems])
  then have 2: "good_step S1 ds S' ph'"
    using vfs_step_good [of S1 ph1 ds S' ph'] run_step.hyps(3) y by (simp add: good_step_def)
  from 1 2 show ?case using gen_counts_trans by (auto simp: good_step_def a_events_append)
qed

end
