(* ===== verification/Vfs_Atomic.thy ===== *)
theory Vfs_Atomic
  imports Vfs_Steps
begin

text \<open>
  Crash consistency, stated for any storage that keeps a working copy and a saved one, and provided by
  the VFS for its files that do not spill; and the windows of an open snapshot over any history.
\<close>

subsection \<open>A store with a saved copy\<close>

primrec act_all :: "('op \<Rightarrow> 's \<Rightarrow> 's option) \<Rightarrow> 'op list \<Rightarrow> 's \<Rightarrow> 's option" where
  "act_all act [] s = Some s"
| "act_all act (x # xs) s = (case act x s of None \<Rightarrow> None | Some t \<Rightarrow> act_all act xs t)"

locale saved_copy =
  fixes ok :: "'s \<Rightarrow> bool"
    and now :: "'s \<Rightarrow> 'f"
    and kept_copy :: "'s \<Rightarrow> 'f"
    and act :: "'op \<Rightarrow> 's \<Rightarrow> 's option"
    and effect :: "'op \<Rightarrow> 'f \<Rightarrow> 'f"
    and fair :: "'fate \<Rightarrow> 's \<Rightarrow> bool"
    and sync :: "'fate \<Rightarrow> 's \<Rightarrow> bool \<times> 's"
    and recover :: "'s \<Rightarrow> 's"
  assumes act_law: "ok s \<Longrightarrow> act x s = Some t \<Longrightarrow> ok t \<and> now t = effect x (now s) \<and> kept_copy t = kept_copy s"
    and sync_law: "ok s \<Longrightarrow> fair fate s \<Longrightarrow> sync fate s = (b, t) \<Longrightarrow>
      ok t \<and> now t = now s \<and> kept_copy t = (if b then now s else kept_copy s)"
    and recover_law: "ok s \<Longrightarrow> now (recover s) = kept_copy s"
begin

lemma act_all_law:
  "ok s \<Longrightarrow> act_all act xs s = Some t \<Longrightarrow> ok t \<and> now t = fold effect xs (now s) \<and> kept_copy t = kept_copy s"
proof (induction xs arbitrary: s)
  case (Cons x xs)
  obtain u where u: "act x s = Some u" "act_all act xs u = Some t" using Cons.prems(2) by (auto split: option.splits)
  show ?case using act_law [OF Cons.prems(1) u(1)] Cons.IH [OF _ u(2)] by simp
qed simp

lemma crash_before:
  "ok s \<Longrightarrow> act_all act xs s = Some t \<Longrightarrow> now (recover t) = kept_copy s"
  using act_all_law recover_law by metis

lemma crash_after:
  assumes "ok s" "act_all act xs s = Some t" "fair fate t" "sync fate t = (b, u)"
  shows "now (recover u) = (if b then fold effect xs (now s) else kept_copy s)"
  using act_all_law [OF assms(1,2)] sync_law [OF _ assms(3,4)] recover_law [of u] by auto

end

subsection \<open>The file as such a store\<close>

datatype file_op = Op_read nat nat | Op_write nat "byte list" | Op_truncate nat

text \<open>\<open>None\<close>: a write or a truncation that SQLite does not issue on such a file.\<close>

fun file_act :: "file_op \<Rightarrow> vfs \<Rightarrow> vfs option" where
  "file_act (Op_read off len) S = Some (snd (snd (xRead off len S)))"
| "file_act (Op_write off bs) S = (if write_guard off (length bs) S then Some (snd (xWrite Commits off bs S)) else None)"
| "file_act (Op_truncate n) S = (if truncate_guard n S then Some (snd (xTruncate n S)) else None)"

fun plain_act :: "file_op \<Rightarrow> afile \<Rightarrow> afile" where
  "plain_act (Op_read off len) f = f"
| "plain_act (Op_write off bs) f = a_write off bs f"
| "plain_act (Op_truncate n) f = a_truncate n f"

definition file_sync :: "flush_fate \<Rightarrow> vfs \<Rightarrow> bool \<times> vfs" where
  "file_sync fate S = (case xSync fate S of (code, S') \<Rightarrow> (code = SQLITE_OK, S'))"

definition no_spill :: "vfs \<Rightarrow> bool" where
  "no_spill S \<longleftrightarrow> vfs_ok S \<and> \<not> f_spill (v_file S)"

lemma file_act_law:
  assumes "no_spill S" "file_act x S = Some S'"
  shows "no_spill S' \<and> content S' = plain_act x (content S) \<and> saved S' = saved S"
proof (cases x)
  case (Op_read off len)
  obtain code bs T where r: "xRead off len S = (code, bs, T)" using prod_cases3 by blast
  have ok: "vfs_ok S" using assms(1) by (simp add: no_spill_def)
  have "held S T" by (rule xRead_held [OF ok r])
  then have "f_spill (v_file T) = f_spill (v_file S)" by (rule heldD)
  with xRead_spec [OF ok r] assms Op_read r show ?thesis by (auto simp: no_spill_def)
next
  case (Op_write off bs)
  obtain code T where w: "xWrite Commits off bs S = (code, T)" by fastforce
  have "write_guard off (length bs) S" "S' = T" using assms(2) Op_write w by (auto split: if_splits)
  with xWrite_spec [OF _ _ _ w] assms(1) Op_write show ?thesis
    by (simp add: no_spill_def sound_fate_def sound_move_def)
next
  case (Op_truncate n)
  obtain code T where t: "xTruncate n S = (code, T)" by fastforce
  have "truncate_guard n S" "S' = T" using assms(2) Op_truncate t by (auto split: if_splits)
  with xTruncate_spec [OF _ _ t] assms(1) Op_truncate show ?thesis by (simp add: no_spill_def sound_move_def)
qed

lemma file_sync_law:
  assumes "no_spill S" "sound_fate fate S" "file_sync fate S = (b, S')"
  shows "no_spill S' \<and> content S' = content S \<and> saved S' = (if b then content S else saved S)"
proof -
  obtain code where y: "xSync fate S = (code, S')" "b = (code = SQLITE_OK)"
    using assms(3) by (auto simp: file_sync_def split: prod.splits)
  with xSync_spec [OF _ assms(2) y(1)] assms(1) show ?thesis by (simp add: no_spill_def sound_move_def)
qed

interpretation db: saved_copy no_spill content saved file_act plain_act sound_fate file_sync reattach
proof unfold_locales
  show "no_spill S' \<and> content S' = plain_act x (content S) \<and> saved S' = saved S"
    if "no_spill S" "file_act x S = Some S'" for S x S' using that by (rule file_act_law)
  show "no_spill S' \<and> content S' = content S \<and> saved S' = (if b then content S else saved S)"
    if "no_spill S" "sound_fate fate S" "file_sync fate S = (b, S')" for S fate b S' using that by (rule file_sync_law)
  show "content (reattach S) = saved S" if "no_spill S" for S
    by (rule reattach_spec(1)) (use that in \<open>simp add: no_spill_def\<close>)
qed

subsection \<open>An open snapshot\<close>

text \<open>A history during which the snapshot is never closed.\<close>

inductive held_open :: "vfs \<times> phase \<Rightarrow> vfs \<times> phase \<Rightarrow> bool" where
  open_nil: "v_snapshot S \<noteq> None \<Longrightarrow> held_open (S, ph) (S, ph)"
| open_step: "held_open x (S, ph) \<Longrightarrow> vfs_step (S, ph) es (S', ph') \<Longrightarrow> v_snapshot S' \<noteq> None \<Longrightarrow> held_open x (S', ph')"

lemma step_snapshot:
  assumes "vfs_step (S, ph) es (S', ph')" and ok: "vfs_ok S" and ph: "phase_ok ph S"
    and o: "v_snapshot S \<noteq> None" "v_snapshot S' \<noteq> None"
  shows "snap_kept S S'"
  using assms(1)
proof cases
  case (s_read off len code bs)
  then show ?thesis using xRead_sound [OF ok s_read(3)] by (simp add: sound_move_def)
next
  case (s_write off bs fate code)
  then show ?thesis using xWrite_spec [OF ok s_write(3-5)] by (simp add: sound_move_def)
next
  case (s_truncate n code)
  then show ?thesis using xTruncate_spec [OF ok s_truncate(3,4)] by (simp add: sound_move_def)
next
  case (s_sync fate code)
  then show ?thesis using xSync_spec [OF ok s_sync(3,4)] by (simp add: sound_move_def)
next
  case (s_lock level)
  then show ?thesis using xLock_spec [OF ok, of level] by (simp add: sound_move_def)
next
  case (s_unlock fate level code)
  then show ?thesis using xUnlock_spec [OF ok s_unlock(3,4)] by (simp add: sound_move_def)
next
  case s_attach
  with o(2) show ?thesis by (simp add: newly_openedD [OF reattach_opened])
next
  case s_restart
  with o(2) show ?thesis by (simp add: newly_openedD [OF restart_opened])
next
  case (s_open_snapshot fate b)
  then show ?thesis using openSnapshot_spec [OF ok s_open_snapshot(3,4)] o(1) by blast
next
  case s_close_snapshot
  with o(2) show ?thesis by (simp add: closeSnapshot_def)
next
  case (s_resolve b)
  have "sound_move S S'" by (rule same_view_sound) (use resolveMisses_spec [OF ok s_resolve(3)] in blast)+
  then show ?thesis by (simp add: sound_move_def)
next
  case s_release
  have "sound_move S S'" unfolding s_release by (rule same_view_sound) (use releasePins_spec [OF ok] in blast)+
  then show ?thesis by (simp add: sound_move_def)
next
  case s_maintenance
  then show ?thesis using maintenance_spec [OF ok] by (simp add: sound_move_def)
next
  case (s_sweep listed)
  then show ?thesis using sweep_spec [OF ok, of listed] by simp
next
  case (s_materialize fate b)
  then show ?thesis using materialize_spec [OF ok s_materialize(3,4)] by (simp add: sound_move_def)
next
  case (s_plan fate recent plan)
  then show ?thesis using plan_spec [OF ok s_plan(4,5)] by blast
next
  case (s_read_segment plan g r)
  then show ?thesis by simp
next
  case (s_upload plan r gen)
  have p: "plan_ok plan S" using ph s_upload(1) by simp
  show ?thesis using upload_spec [OF ok p s_upload(4)] by blast
next
  case (s_commit plan r gen n)
  have p: "plan_ok plan S" "read_ok plan r S" "upload_ok plan r gen S" using ph s_commit by simp_all
  show ?thesis using commit_spec [OF ok p s_commit(4)] by blast
next
  case s_end_pass
  then show ?thesis by (simp add: snap_kept_same end_pass_def)
qed

lemma held_open_kept:
  assumes "held_open (S, ph) (S', ph')" "vfs_ok S" "phase_ok ph S"
  shows "vfs_ok S' \<and> phase_ok ph' S' \<and> v_snapshot S \<noteq> None \<and> v_snapshot S' \<noteq> None \<and> snap_kept S S'"
  using assms
proof (induction "(S, ph)" "(S', ph')" arbitrary: S' ph' rule: held_open.induct)
  case open_nil
  then show ?case by simp
next
  case (open_step T qh es S' ph')
  have K: "vfs_ok T \<and> phase_ok qh T \<and> v_snapshot S \<noteq> None \<and> v_snapshot T \<noteq> None \<and> snap_kept S T"
    by (rule open_step.hyps(2) [OF open_step.prems])
  have "snap_kept T S'" by (rule step_snapshot [OF open_step.hyps(3)]) (use K open_step.hyps(4) in simp_all)
  moreover have "good_step T es S' ph'" by (rule vfs_step_good [OF open_step.hyps(3)]) (use K in simp_all)
  ultimately show ?case using K open_step.hyps(4) snap_kept_trans [of S T S'] by (simp add: good_step_def)
qed

end
