(* ===== verification/Vfs_Import.thy ===== *)
theory Vfs_Import
  imports Vfs_Steps
begin

text \<open>
  Whole files in and out: \<open>exportFile\<close>, \<open>importFile\<close> and \<open>importFromStream\<close> of \<open>do-vfs.ts\<close>. The loop over
  a piece of the stream is a partial function, so that its ending is proved; the rows of the staging
  file are part of the import's state.
\<close>

subsection \<open>Windows\<close>

definition SNAPSHOT_WINDOW_CHUNKS :: nat where "SNAPSHOT_WINDOW_CHUNKS = 16"

lemma window_part:
  assumes "\<And>i. i < CHUNK_SIZE \<Longrightarrow> W c i = B c i"
  shows "map (W c) [0..<min CHUNK_SIZE (len - c * CHUNK_SIZE)] = map (flat B) [c * CHUNK_SIZE..<min len (Suc c * CHUNK_SIZE)]"
proof (rule nth_equalityI)
  fix i assume "i < length (map (W c) [0..<min CHUNK_SIZE (len - c * CHUNK_SIZE)])"
  then have "i < CHUNK_SIZE" "i < min len (Suc c * CHUNK_SIZE) - c * CHUNK_SIZE" by auto
  then show "map (W c) [0..<min CHUNK_SIZE (len - c * CHUNK_SIZE)] ! i = map (flat B) [c * CHUNK_SIZE..<min len (Suc c * CHUNK_SIZE)] ! i"
    using assms flat_chunk [of i B c] by simp
qed auto

lemma window_bytes:
  assumes "\<And>c i. start \<le> c \<Longrightarrow> c < stop \<Longrightarrow> i < CHUNK_SIZE \<Longrightarrow> W c i = B c i" "start \<le> stop"
  shows "concat (map (\<lambda>c. map (W c) [0..<min CHUNK_SIZE (len - c * CHUNK_SIZE)]) [start..<stop])
    = map (flat B) [start * CHUNK_SIZE..<min len (stop * CHUNK_SIZE)]"
  using assms(2,1)
proof (induction stop rule: dec_induct)
  case base
  then show ?case by simp
next
  case (step k)
  have IH: "concat (map (\<lambda>c. map (W c) [0..<min CHUNK_SIZE (len - c * CHUNK_SIZE)]) [start..<k])
    = map (flat B) [start * CHUNK_SIZE..<min len (k * CHUNK_SIZE)]"
    by (rule step.IH) (use step.prems in simp)
  have part: "map (W k) [0..<min CHUNK_SIZE (len - k * CHUNK_SIZE)] = map (flat B) [k * CHUNK_SIZE..<min len (Suc k * CHUNK_SIZE)]"
    by (rule window_part) (use step in simp)
  have "start * CHUNK_SIZE \<le> k * CHUNK_SIZE" using step.hyps by (simp add: mult_le_mono1)
  have j: "[start * CHUNK_SIZE..<min len (Suc k * CHUNK_SIZE)]
      = [start * CHUNK_SIZE..<min len (k * CHUNK_SIZE)] @ [k * CHUNK_SIZE..<min len (Suc k * CHUNK_SIZE)]"
  proof (cases "len \<le> k * CHUNK_SIZE")
    case True
    then have "min len (Suc k * CHUNK_SIZE) = len" "min len (k * CHUNK_SIZE) = len" by auto
    with True show ?thesis by simp
  next
    case False
    then have "min len (k * CHUNK_SIZE) = k * CHUNK_SIZE" "k * CHUNK_SIZE \<le> min len (Suc k * CHUNK_SIZE)" by auto
    then show ?thesis using \<open>start * CHUNK_SIZE \<le> k * CHUNK_SIZE\<close>
        upt_add_eq_append [of "start * CHUNK_SIZE" "k * CHUNK_SIZE" "min len (Suc k * CHUNK_SIZE) - k * CHUNK_SIZE"] by simp
  qed
  have "[start..<Suc k] = [start..<k] @ [k]" using step.hyps by simp
  then show ?case unfolding j using IH part by simp
qed

lemma readWindow_bytes:
  assumes "\<And>c i. start \<le> c \<Longrightarrow> c < stop \<Longrightarrow> i < CHUNK_SIZE \<Longrightarrow> window_chunk shadow rows objs segs c i = B c i" "start \<le> stop"
  shows "readWindow len start stop shadow rows objs segs = map (flat B) [start * CHUNK_SIZE..<min len (stop * CHUNK_SIZE)]"
  unfolding readWindow_def by (rule window_bytes) (use assms in auto)

subsection \<open>Export\<close>

text \<open>The windows from \<open>start\<close> on, one after the other.\<close>

function export_loop :: "nat \<Rightarrow> nat \<Rightarrow> nat \<Rightarrow> vfs \<Rightarrow> byte list" where
  "export_loop sz start chunks S =
    (if start < chunks
     then readWindow sz start (min chunks (start + SNAPSHOT_WINDOW_CHUNKS)) (\<lambda>_. None) (st_rows (v_store S)) (v_objects S)
            (segmentsOf S) @ export_loop sz (start + SNAPSHOT_WINDOW_CHUNKS) chunks S
     else [])"
  by pat_completeness auto

termination export_loop
  by (relation "measure (\<lambda>(sz, start, chunks, S). chunks - start)") (auto simp: SNAPSHOT_WINDOW_CHUNKS_def)

declare export_loop.simps [simp del]

text \<open>\<open>exportFile\<close> of an open file; \<open>None\<close> when it throws.\<close>

definition exportFile :: "flush_fate \<Rightarrow> vfs \<Rightarrow> byte list option \<times> vfs" where
  "exportFile fate S =
    (if f_lock (v_file S) \<ge> SQLITE_LOCK_EXCLUSIVE then (None, S)
     else (case flush_file fate S of
         (False, S1) \<Rightarrow> (None, S1)
       | (True, S1) \<Rightarrow> (Some (export_loop (f_size (v_file S1)) 0 (totalChunks S1) S1), S1)))"

lemma export_bytes:
  "start \<le> chunks \<Longrightarrow> export_loop sz start chunks S = map (flat (stored S)) [start * CHUNK_SIZE..<min sz (chunks * CHUNK_SIZE)]"
proof (induction sz start chunks S rule: export_loop.induct)
  case (1 sz start chunks S)
  show ?case
  proof (cases "start < chunks")
    case False
    then have "export_loop sz start chunks S = []" by (subst export_loop.simps) simp
    with 1(2) False show ?thesis by simp
  next
    case True
    define stop where "stop = min chunks (start + SNAPSHOT_WINDOW_CHUNKS)"
    have w: "readWindow sz start stop (\<lambda>_. None) (st_rows (v_store S)) (v_objects S) (segmentsOf S)
        = map (flat (stored S)) [start * CHUNK_SIZE..<min sz (stop * CHUNK_SIZE)]"
      by (rule readWindow_bytes) (use True in \<open>auto simp: window_effective stored_def slot_now_def stop_def\<close>)
    show ?thesis
    proof (cases "start + SNAPSHOT_WINDOW_CHUNKS \<le> chunks")
      case le: True
      then have stop: "stop = start + SNAPSHOT_WINDOW_CHUNKS" by (simp add: stop_def)
      have r: "export_loop sz stop chunks S = map (flat (stored S)) [stop * CHUNK_SIZE..<min sz (chunks * CHUNK_SIZE)]"
        using 1(1) [OF True] le stop by simp
      have o: "start * CHUNK_SIZE \<le> stop * CHUNK_SIZE" "stop * CHUNK_SIZE \<le> chunks * CHUNK_SIZE"
        using le stop by (simp_all add: mult_le_mono1)
      have "[start * CHUNK_SIZE..<min sz (stop * CHUNK_SIZE)] @ [stop * CHUNK_SIZE..<min sz (chunks * CHUNK_SIZE)]
          = [start * CHUNK_SIZE..<min sz (chunks * CHUNK_SIZE)]"
      proof (cases "sz \<le> stop * CHUNK_SIZE")
        case True
        then have "min sz (stop * CHUNK_SIZE) = sz" "min sz (chunks * CHUNK_SIZE) = sz" using o by linarith+
        with True show ?thesis by simp
      next
        case False
        then show ?thesis using o
            upt_add_eq_append [of "start * CHUNK_SIZE" "stop * CHUNK_SIZE" "min sz (chunks * CHUNK_SIZE) - stop * CHUNK_SIZE"]
          by simp
      qed
      then show ?thesis using w r True stop_def [symmetric]
        by (simp add: export_loop.simps [of sz start] stop flip: map_append)
    next
      case False
      then have "stop = chunks" "export_loop sz (start + SNAPSHOT_WINDOW_CHUNKS) chunks S = []"
        by (simp_all add: stop_def export_loop.simps [of sz "start + SNAPSHOT_WINDOW_CHUNKS"])
      then show ?thesis using w True stop_def [symmetric] by (simp add: export_loop.simps [of sz start])
    qed
  qed
qed

subsection \<open>Import\<close>

datatype vfs_error = Is_open | Has_snapshot | Bad_header

text \<open>\<open>'SQLite format 3\0'\<close>.\<close>

definition SQLITE_HEADER_MAGIC :: "byte list" where
  "SQLITE_HEADER_MAGIC = [83, 81, 76, 105, 116, 101, 32, 102, 111, 114, 109, 97, 116, 32, 51, 0]"

definition bytesStartWith :: "byte list \<Rightarrow> byte list \<Rightarrow> bool" where
  "bytesStartWith bytes ascii \<longleftrightarrow> length ascii \<le> length bytes \<and> take (length ascii) bytes = ascii"

definition bad_header :: "byte list \<Rightarrow> bool" where
  "bad_header bytes \<longleftrightarrow> length bytes \<ge> 100 \<and> \<not> bytesStartWith bytes SQLITE_HEADER_MAGIC"

definition normalizeJournalModeHeader :: "byte list \<Rightarrow> byte list" where
  "normalizeJournalModeHeader bytes =
    (if length bytes < 100 \<or> \<not> bytesStartWith bytes SQLITE_HEADER_MAGIC then bytes
     else if bytes ! 18 \<noteq> 2 \<and> bytes ! 19 \<noteq> 2 then bytes
     else bytes[18 := 1, 19 := 1])"

definition import_chunk :: "byte list \<Rightarrow> nat \<Rightarrow> buf" where
  "import_chunk bytes c = overlay 0 (take CHUNK_SIZE (drop (c * CHUNK_SIZE) bytes)) zeros"

text \<open>The transaction that puts the rows in place: the old ones and the tier's map are dropped.\<close>

definition place_rows :: "(nat \<Rightarrow> (buf \<times> pages) option) \<Rightarrow> nat \<Rightarrow> vfs \<Rightarrow> vfs" where
  "place_rows rows sz S = S\<lparr>v_cache := [], v_pins := [], v_epoch := v_epoch S + 1,
     v_store := (v_store S)\<lparr>st_rows := rows, st_size := sz, st_gen := st_gen (v_store S) + 1,
       st_segments := (if v_tier S = None then st_segments (v_store S) else [])\<rparr>,
     v_tier := map_option (\<lambda>t. t\<lparr>tr_segments := [], tr_pending := tr_pending t @ referenced (tr_segments t)\<rparr>) (v_tier S)\<rparr>"

definition importFile :: "bool \<Rightarrow> byte list \<Rightarrow> vfs \<Rightarrow> vfs_error + vfs" where
  "importFile opened bytes S =
    (if opened then Inl Is_open
     else if v_snapshot S \<noteq> None then Inl Has_snapshot
     else if bad_header bytes then Inl Bad_header
     else (let normalized = normalizeJournalModeHeader bytes
       in Inr (place_rows (\<lambda>c. if c < ceil_div (length normalized) CHUNK_SIZE
            then Some (import_chunk normalized c, FULL_MASK) else None) (length normalized) S)))"

record import_state =
  im_pending :: buf
  im_fill :: nat
  im_chunkno :: nat
  im_total :: nat
  im_headerChecked :: bool
  im_rows :: "(nat \<times> buf) list"
  im_staged :: "nat \<Rightarrow> (buf \<times> pages) option"

definition FLUSH_BATCH_ROWS :: nat where "FLUSH_BATCH_ROWS = 16"

definition flushRows :: "import_state \<Rightarrow> import_state" where
  "flushRows s = s\<lparr>im_rows := [],
     im_staged := (\<lambda>c. case map_of (im_rows s) c of None \<Rightarrow> im_staged s c | Some d \<Rightarrow> Some (d, FULL_MASK))\<rparr>"

definition header_of :: "buf \<Rightarrow> byte list" where
  "header_of chunk = map chunk [0..<length SQLITE_HEADER_MAGIC]"

text \<open>\<open>checkHeader\<close>; \<open>None\<close> when it throws.\<close>

definition checkHeader :: "buf \<Rightarrow> nat \<Rightarrow> bool \<Rightarrow> buf option" where
  "checkHeader chunk len checked =
    (if checked then Some chunk
     else if len \<ge> 100 \<and> header_of chunk \<noteq> SQLITE_HEADER_MAGIC then None
     else if len \<ge> 100 \<and> (chunk 18 = 2 \<or> chunk 19 = 2) then Some (chunk(18 := 1, 19 := 1))
     else Some chunk)"

definition push_chunk :: "import_state \<Rightarrow> import_state option" where
  "push_chunk s =
    (case (if im_chunkno s = 0 then checkHeader (im_pending s) (im_fill s) (im_headerChecked s) else Some (im_pending s)) of
       None \<Rightarrow> None
     | Some d \<Rightarrow> Some (s\<lparr>im_rows := im_rows s @ [(im_chunkno s, d)], im_chunkno := im_chunkno s + 1,
         im_pending := zeros, im_fill := 0, im_headerChecked := im_headerChecked s \<or> im_chunkno s = 0\<rparr>))"

text \<open>The loop over one piece; the outer \<open>None\<close> is a loop that does not end, the inner one a bad header.\<close>

partial_function (option) import_piece :: "byte list \<Rightarrow> import_state \<Rightarrow> import_state option option" where
  "import_piece v s =
    (if v = [] then Some (Some s)
     else (let n = min (CHUNK_SIZE - im_fill s) (length v);
            s1 = s\<lparr>im_pending := overlay (im_fill s) (take n v) (im_pending s), im_fill := im_fill s + n,
                   im_total := im_total s + n\<rparr>
       in if im_fill s1 = CHUNK_SIZE
          then (case push_chunk s1 of
              None \<Rightarrow> Some None
            | Some s2 \<Rightarrow> import_piece (drop n v) (if length (im_rows s2) = FLUSH_BATCH_ROWS then flushRows s2 else s2))
          else import_piece (drop n v) s1))"

fun import_pieces :: "byte list list \<Rightarrow> import_state \<Rightarrow> import_state option option" where
  "import_pieces [] s = Some (Some s)"
| "import_pieces (v # vs) s = (case import_piece v s of
     None \<Rightarrow> None
   | Some None \<Rightarrow> Some None
   | Some (Some s1) \<Rightarrow> import_pieces vs s1)"

definition import_init :: import_state where
  "import_init = \<lparr>im_pending = zeros, im_fill = 0, im_chunkno = 0, im_total = 0, im_headerChecked = False,
     im_rows = [], im_staged = (\<lambda>_. None)\<rparr>"

definition importFromStream :: "bool \<Rightarrow> byte list list \<Rightarrow> vfs \<Rightarrow> (vfs_error + vfs) option" where
  "importFromStream opened vs S =
    (if opened then Some (Inl Is_open)
     else if v_snapshot S \<noteq> None then Some (Inl Has_snapshot)
     else (case import_pieces vs import_init of
         None \<Rightarrow> None
       | Some None \<Rightarrow> Some (Inl Bad_header)
       | Some (Some s) \<Rightarrow>
           (case (if im_fill s > 0 then push_chunk s else Some s) of
              None \<Rightarrow> Some (Inl Bad_header)
            | Some s1 \<Rightarrow> Some (Inr (place_rows (im_staged (flushRows s1)) (im_total s1) S)))))"

subsection \<open>The loop ends, with the file it read\<close>

lemma import_chunk_byte:
  "import_chunk bs c i = (if i < CHUNK_SIZE \<and> c * CHUNK_SIZE + i < length bs then bs ! (c * CHUNK_SIZE + i) else 0)"
  by (auto simp: import_chunk_def overlay_def)

lemma import_chunk_append:
  "Suc c * CHUNK_SIZE \<le> length bs \<Longrightarrow> import_chunk (bs @ x) c = import_chunk bs c"
  by (auto simp: fun_eq_iff import_chunk_byte nth_append)

lemma bytesStartWith_append: "length m \<le> length bs \<Longrightarrow> bytesStartWith (bs @ x) m = bytesStartWith bs m"
  by (simp add: bytesStartWith_def)

lemma magic_length: "length SQLITE_HEADER_MAGIC = 16"
  by (simp add: SQLITE_HEADER_MAGIC_def)

lemma header_append:
  assumes "100 \<le> length bs"
  shows "bad_header (bs @ x) = bad_header bs" "normalizeJournalModeHeader (bs @ x) = normalizeJournalModeHeader bs @ x"
  using assms bytesStartWith_append [of SQLITE_HEADER_MAGIC bs x]
  by (simp_all add: bad_header_def magic_length normalizeJournalModeHeader_def nth_append list_update_append)

lemma normalize_length [simp]: "length (normalizeJournalModeHeader bs) = length bs"
  by (simp add: normalizeJournalModeHeader_def)

lemma CHUNK_SIZE_100: "100 \<le> CHUNK_SIZE"
  by (simp add: CHUNK_SIZE_def VFS_PAGE_SIZE_def PAGES_PER_CHUNK_def)

lemma normalize_rest: "c \<noteq> 0 \<Longrightarrow> import_chunk (normalizeJournalModeHeader bs) c = import_chunk bs c"
proof -
  assume "c \<noteq> 0"
  then have "CHUNK_SIZE \<le> c * CHUNK_SIZE" by simp
  then have "c * CHUNK_SIZE + i \<noteq> 18 \<and> c * CHUNK_SIZE + i \<noteq> 19" for i using CHUNK_SIZE_100 by linarith
  then show ?thesis by (auto simp: fun_eq_iff import_chunk_byte normalizeJournalModeHeader_def)
qed

lemma checkHeader_first:
  assumes "len = min CHUNK_SIZE (length bs)"
  shows "checkHeader (import_chunk bs 0) len False =
    (if bad_header bs then None else Some (import_chunk (normalizeJournalModeHeader bs) 0))"
proof (cases "100 \<le> length bs")
  case False
  then show ?thesis using assms by (simp add: checkHeader_def bad_header_def normalizeJournalModeHeader_def)
next
  case True
  have len: "100 \<le> len" using True assms CHUNK_SIZE_100 by simp
  have small: "i < 100 \<Longrightarrow> import_chunk bs 0 i = bs ! i" for i
    using True CHUNK_SIZE_100 by (simp add: import_chunk_byte)
  have "header_of (import_chunk bs 0) = take 16 bs"
    by (rule nth_equalityI) (use True small in \<open>auto simp: header_of_def magic_length\<close>)
  then have h: "header_of (import_chunk bs 0) = SQLITE_HEADER_MAGIC \<longleftrightarrow> bytesStartWith bs SQLITE_HEADER_MAGIC"
    using True by (simp add: bytesStartWith_def magic_length)
  have u: "import_chunk (bs[18 := 1, 19 := 1]) 0 = (import_chunk bs 0)(18 := 1, 19 := 1)"
    using True CHUNK_SIZE_100 by (auto simp: fun_eq_iff import_chunk_byte nth_list_update)
  show ?thesis
    using True len small [of 18] small [of 19] h u
    by (simp add: checkHeader_def bad_header_def normalizeJournalModeHeader_def)
qed

definition staged_row :: "import_state \<Rightarrow> nat \<Rightarrow> (buf \<times> pages) option" where
  "staged_row s c = im_staged (flushRows s) c"

lemma staged_row_flush [simp]: "staged_row (flushRows s) = staged_row s"
  by (simp add: fun_eq_iff staged_row_def flushRows_def)

text \<open>The state after the bytes \<open>bs\<close>.\<close>

definition imported :: "byte list \<Rightarrow> import_state \<Rightarrow> bool" where
  "imported bs s \<longleftrightarrow> im_total s = length bs \<and> length bs = im_chunkno s * CHUNK_SIZE + im_fill s
     \<and> im_pending s = import_chunk bs (im_chunkno s) \<and> im_headerChecked s = (im_chunkno s \<noteq> 0)
     \<and> (im_chunkno s \<noteq> 0 \<longrightarrow> \<not> bad_header bs)
     \<and> (\<forall>c. staged_row s c = (if c < im_chunkno s then Some (import_chunk (normalizeJournalModeHeader bs) c, FULL_MASK) else None))"

lemma imported_flush [simp]: "imported bs (flushRows s) = imported bs s"
proof -
  have "im_total (flushRows s) = im_total s" "im_chunkno (flushRows s) = im_chunkno s" "im_fill (flushRows s) = im_fill s"
    "im_pending (flushRows s) = im_pending s" "im_headerChecked (flushRows s) = im_headerChecked s"
    by (simp_all add: flushRows_def)
  then show ?thesis by (simp add: imported_def)
qed

lemma push_spec:
  assumes i: "imported bs s" and f: "0 < im_fill s" "im_fill s \<le> CHUNK_SIZE"
  shows "case push_chunk s of
      None \<Rightarrow> bad_header bs
    | Some s1 \<Rightarrow> \<not> bad_header bs \<and> im_total s1 = length bs \<and> im_chunkno s1 = Suc (im_chunkno s) \<and> im_fill s1 = 0
        \<and> im_pending s1 = zeros \<and> im_headerChecked s1
        \<and> (\<forall>c. staged_row s1 c = (if c < im_chunkno s1 then Some (import_chunk (normalizeJournalModeHeader bs) c, FULL_MASK) else None))"
proof -
  note I = i [unfolded imported_def]
  define k where "k = im_chunkno s"
  have row: "staged_row (s\<lparr>im_rows := im_rows s @ [(k, d)], im_chunkno := x1, im_pending := x2, im_fill := x3, im_headerChecked := x4\<rparr>) c
      = (if c < Suc k then Some (if c = k then d else import_chunk (normalizeJournalModeHeader bs) c, FULL_MASK) else None)"
    for d c x1 x2 x3 x4
  proof -
    have r: "staged_row s q = (if q < k then Some (import_chunk (normalizeJournalModeHeader bs) q, FULL_MASK) else None)" for q
      using I by (simp add: k_def)
    show ?thesis
    proof (cases "map_of (im_rows s) c")
      case None
      then show ?thesis using r [of c] by (auto simp: staged_row_def flushRows_def map_add_def)
    next
      case (Some y)
      then have "staged_row s c = Some (y, FULL_MASK)" by (simp add: staged_row_def flushRows_def)
      with r [of c] Some show ?thesis by (auto simp: staged_row_def flushRows_def map_add_def split: if_splits)
    qed
  qed
  define d where "d = (if k = 0 then checkHeader (im_pending s) (im_fill s) (im_headerChecked s) else Some (im_pending s))"
  have d: "d = (if bad_header bs then None else Some (import_chunk (normalizeJournalModeHeader bs) k))"
  proof (cases "k = 0")
    case True
    have "im_fill s = min CHUNK_SIZE (length bs)" "im_pending s = import_chunk bs 0" "\<not> im_headerChecked s"
      using I f True by (simp_all add: k_def)
    with checkHeader_first [OF this(1)] True show ?thesis by (simp add: d_def)
  next
    case False
    then have "im_pending s = import_chunk bs k" "\<not> bad_header bs" using I by (simp_all add: k_def)
    with False normalize_rest [OF False, of bs] show ?thesis by (simp add: d_def)
  qed
  have p: "push_chunk s = (case d of None \<Rightarrow> None
      | Some e \<Rightarrow> Some (s\<lparr>im_rows := im_rows s @ [(k, e)], im_chunkno := k + 1, im_pending := zeros, im_fill := 0,
          im_headerChecked := im_headerChecked s \<or> k = 0\<rparr>))"
    unfolding push_chunk_def d_def k_def by (rule refl)
  show ?thesis
  proof (cases "bad_header bs")
    case True
    then show ?thesis using p d by simp
  next
    case False
    define s1 where "s1 = s\<lparr>im_rows := im_rows s @ [(k, import_chunk (normalizeJournalModeHeader bs) k)], im_chunkno := k + 1,
          im_pending := zeros, im_fill := 0, im_headerChecked := im_headerChecked s \<or> k = 0\<rparr>"
    have "staged_row s1 c = (if c < Suc k then Some (import_chunk (normalizeJournalModeHeader bs) c, FULL_MASK) else None)" for c
      unfolding s1_def using row [where c = c] by simp
    moreover have "im_total s1 = length bs" "im_chunkno s1 = Suc k" "im_fill s1 = 0" "im_pending s1 = zeros" "im_headerChecked s1"
      using I by (auto simp: s1_def k_def)
    moreover have "push_chunk s = Some s1" using p d False by (simp add: s1_def)
    ultimately show ?thesis using False by (simp add: k_def)
  qed
qed

lemma imported_more:
  assumes i: "imported bs s" and n: "n \<le> CHUNK_SIZE - im_fill s" "im_fill s < CHUNK_SIZE" "n \<le> length v"
  shows "imported (bs @ take n v) (s\<lparr>im_pending := overlay (im_fill s) (take n v) (im_pending s), im_fill := im_fill s + n,
                   im_total := im_total s + n\<rparr>)"
proof -
  note I = i [unfolded imported_def]
  have len: "length (take n v) = n" using n by simp
  have rows: "import_chunk (normalizeJournalModeHeader (bs @ take n v)) c = import_chunk (normalizeJournalModeHeader bs) c"
    if "c < im_chunkno s" for c
  proof -
    have "Suc c * CHUNK_SIZE \<le> im_chunkno s * CHUNK_SIZE" using that by (intro mult_le_mono1) simp
    then have l: "Suc c * CHUNK_SIZE \<le> length bs" using I by linarith
    then have "100 \<le> length bs" using CHUNK_SIZE_100 by simp
    then show ?thesis using header_append(2) [of bs "take n v"] import_chunk_append [of c "normalizeJournalModeHeader bs"] l by simp
  qed
  have pend: "overlay (im_fill s) (take n v) (im_pending s) = import_chunk (bs @ take n v) (im_chunkno s)"
  proof
    fix j
    have e: "im_chunkno s * CHUNK_SIZE + j < length bs \<longleftrightarrow> j < im_fill s" using I by linarith
    have p: "im_pending s j = (if j < im_fill s then bs ! (im_chunkno s * CHUNK_SIZE + j) else 0)"
      using I e n by (auto simp: import_chunk_byte)
    show "overlay (im_fill s) (take n v) (im_pending s) j = import_chunk (bs @ take n v) (im_chunkno s) j"
    proof (cases "j < im_fill s")
      case True
      then show ?thesis using e p n by (simp add: overlay_def import_chunk_byte nth_append)
    next
      case False
      then have "im_chunkno s * CHUNK_SIZE + j - length bs = j - im_fill s" using I by linarith
      then show ?thesis using False e p n len I by (auto simp: overlay_def import_chunk_byte nth_append)
    qed
  qed
  have "bad_header (bs @ take n v) = bad_header bs" if "im_chunkno s \<noteq> 0"
  proof -
    have "CHUNK_SIZE \<le> im_chunkno s * CHUNK_SIZE" using that by simp
    then have "100 \<le> length bs" using I CHUNK_SIZE_100 by linarith
    then show ?thesis by (rule header_append)
  qed
  moreover have "staged_row (s\<lparr>im_pending := overlay (im_fill s) (take n v) (im_pending s), im_fill := im_fill s + n,
                   im_total := im_total s + n\<rparr>) c = staged_row s c" for c
    by (simp add: staged_row_def flushRows_def split: option.split)
  ultimately show ?thesis using I len rows pend by (simp add: imported_def)
qed

lemma import_piece_spec:
  assumes "imported bs s" "im_fill s < CHUNK_SIZE"
  shows "\<exists>r. import_piece v s = Some r \<and> (case r of
      None \<Rightarrow> bad_header (bs @ v)
    | Some s1 \<Rightarrow> imported (bs @ v) s1 \<and> im_fill s1 < CHUNK_SIZE)"
  using assms
proof (induction "length v" arbitrary: v bs s rule: less_induct)
  case less
  show ?case
  proof (cases "v = []")
    case True
    with less.prems show ?thesis by (subst import_piece.simps) simp
  next
    case False
    define n where "n = min (CHUNK_SIZE - im_fill s) (length v)"
    define s1 where "s1 = s\<lparr>im_pending := overlay (im_fill s) (take n v) (im_pending s), im_fill := im_fill s + n,
                   im_total := im_total s + n\<rparr>"
    have n: "0 < n" "n \<le> CHUNK_SIZE - im_fill s" "n \<le> length v" using False less.prems(2) by (simp_all add: n_def)
    have i1: "imported (bs @ take n v) s1" unfolding s1_def by (rule imported_more) (use less.prems n in simp_all)
    have v: "bs @ v = (bs @ take n v) @ drop n v" "length (drop n v) < length v" using n False by simp_all
    have f1: "0 < im_fill s1" "im_fill s1 \<le> CHUNK_SIZE" using n less.prems(2) by (simp_all add: s1_def)
    have step: "import_piece v s = (if im_fill s1 = CHUNK_SIZE
        then (case push_chunk s1 of
            None \<Rightarrow> Some None
          | Some s2 \<Rightarrow> import_piece (drop n v) (if length (im_rows s2) = FLUSH_BATCH_ROWS then flushRows s2 else s2))
        else import_piece (drop n v) s1)"
      by (subst import_piece.simps) (simp only: False if_False Let_def n_def s1_def)
    show ?thesis
    proof (cases "im_fill s1 = CHUNK_SIZE")
      case part: False
      with f1 less.hyps [OF v(2) i1] step show ?thesis unfolding v(1) by simp
    next
      case True
      note P = push_spec [OF i1 f1]
      have big: "100 \<le> length (bs @ take n v)" using i1 True CHUNK_SIZE_100 by (simp add: imported_def)
      show ?thesis
      proof (cases "push_chunk s1")
        case None
        with P step True header_append(1) [OF big, of "drop n v"] show ?thesis unfolding v(1) by simp
      next
        case (Some s2)
        define s3 where "s3 = (if length (im_rows s2) = FLUSH_BATCH_ROWS then flushRows s2 else s2)"
        have "import_chunk (bs @ take n v) (Suc (im_chunkno s1)) = zeros"
          using i1 True by (auto simp: fun_eq_iff import_chunk_byte imported_def)
        then have "imported (bs @ take n v) s2" using P Some i1 True by (simp add: imported_def)
        then have "imported (bs @ take n v) s3" by (simp add: s3_def)
        moreover have "im_fill s3 < CHUNK_SIZE" using P Some CHUNK_SIZE_pos by (simp add: s3_def flushRows_def)
        ultimately show ?thesis using less.hyps [OF v(2)] step True Some unfolding v(1) by (simp add: s3_def)
      qed
    qed
  qed
qed

lemma import_pieces_spec:
  assumes "imported bs s" "im_fill s < CHUNK_SIZE"
  shows "\<exists>r. import_pieces vs s = Some r \<and> (case r of
      None \<Rightarrow> bad_header (bs @ concat vs)
    | Some s1 \<Rightarrow> imported (bs @ concat vs) s1 \<and> im_fill s1 < CHUNK_SIZE)"
  using assms
proof (induction vs arbitrary: bs s)
  case (Cons v vs)
  obtain r where r: "import_piece v s = Some r" "case r of None \<Rightarrow> bad_header (bs @ v)
    | Some s1 \<Rightarrow> imported (bs @ v) s1 \<and> im_fill s1 < CHUNK_SIZE"
    using import_piece_spec [OF Cons.prems] by blast
  show ?case
  proof (cases r)
    case None
    then have "100 \<le> length (bs @ v)" "bad_header (bs @ v)" using r(2) by (simp_all add: bad_header_def)
    with None r(1) header_append(1) [of "bs @ v" "concat vs"] show ?thesis by simp
  next
    case (Some s1)
    have e: "(bs @ v) @ concat vs = bs @ concat (v # vs)" by simp
    have "imported (bs @ v) s1" "im_fill s1 < CHUNK_SIZE" using r Some by simp_all
    from Cons.IH [OF this, unfolded e] r Some show ?thesis by simp
  qed
qed simp

lemma import_init_spec: "imported [] import_init" "im_fill import_init < CHUNK_SIZE"
  using CHUNK_SIZE_pos
  by (simp_all add: imported_def import_init_def staged_row_def flushRows_def fun_eq_iff import_chunk_byte)

text \<open>Both ways of importing do the same.\<close>

definition import_rows :: "byte list \<Rightarrow> nat \<Rightarrow> (buf \<times> pages) option" where
  "import_rows bs = (\<lambda>c. if c < ceil_div (length bs) CHUNK_SIZE then Some (import_chunk bs c, FULL_MASK) else None)"

lemma import_all:
  assumes "import_pieces vs import_init = Some (Some s)"
  shows "case (if im_fill s > 0 then push_chunk s else Some s) of
      None \<Rightarrow> bad_header (concat vs)
    | Some s1 \<Rightarrow> \<not> bad_header (concat vs) \<and> im_total s1 = length (concat vs)
        \<and> im_staged (flushRows s1) = import_rows (normalizeJournalModeHeader (concat vs))"
proof -
  have i: "imported (concat vs) s" "im_fill s < CHUNK_SIZE" using import_pieces_spec [OF import_init_spec, of vs] assms by simp_all
  note I = i(1) [unfolded imported_def]
  have r: "im_staged (flushRows s1) = staged_row s1" for s1 by (simp add: fun_eq_iff staged_row_def)
  show ?thesis
  proof (cases "im_fill s > 0")
    case True
    note P = push_spec [OF i(1) True]
    have "im_chunkno s * CHUNK_SIZE < length (concat vs)" "length (concat vs) \<le> Suc (im_chunkno s) * CHUNK_SIZE"
      using I True i(2) by simp_all
    then have "ceil_div (length (concat vs)) CHUNK_SIZE = Suc (im_chunkno s)"
      using less_ceil_div [OF CHUNK_SIZE_pos] ceil_div_le [OF CHUNK_SIZE_pos] by (meson Suc_leI le_antisym)
    with P i(2) True show ?thesis by (cases "push_chunk s") (simp_all add: r fun_eq_iff import_rows_def)
  next
    case False
    then have l: "length (concat vs) = im_chunkno s * CHUNK_SIZE" using I by simp
    have "\<not> bad_header (concat vs)"
    proof (cases "im_chunkno s = 0")
      case True
      with l have "concat vs = []" unfolding length_0_conv [symmetric] by (simp del: length_0_conv)
      then show ?thesis unfolding \<open>concat vs = []\<close> by (simp add: bad_header_def)
    qed (use I in simp)
    moreover have "q < ceil_div (length (concat vs)) CHUNK_SIZE \<longleftrightarrow> q < im_chunkno s" for q
      unfolding l using CHUNK_SIZE_pos by (simp add: less_ceil_div)
    then have "ceil_div (length (concat vs)) CHUNK_SIZE = im_chunkno s" by (meson less_irrefl linorder_neqE_nat)
    ultimately show ?thesis using False I by (simp add: r fun_eq_iff import_rows_def)
  qed
qed

lemma importFromStream_whole:
  "importFromStream opened vs S = Some (importFile opened (concat vs) S)"
proof -
  obtain r where r: "import_pieces vs import_init = Some r" "case r of None \<Rightarrow> bad_header (concat vs)
      | Some s1 \<Rightarrow> imported (concat vs) s1 \<and> im_fill s1 < CHUNK_SIZE"
    using import_pieces_spec [OF import_init_spec, of vs, unfolded append_Nil] by blast
  show ?thesis
  proof (cases r)
    case None
    with r show ?thesis by (simp add: importFromStream_def importFile_def)
  next
    case (Some s)
    define o1 where "o1 = (if im_fill s > 0 then push_chunk s else Some s)"
    have "importFromStream opened vs S = (if opened then Some (Inl Is_open) else if v_snapshot S \<noteq> None then Some (Inl Has_snapshot)
        else (case o1 of None \<Rightarrow> Some (Inl Bad_header)
           | Some s1 \<Rightarrow> Some (Inr (place_rows (im_staged (flushRows s1)) (im_total s1) S))))"
      using r(1) Some by (simp add: importFromStream_def o1_def)
    moreover have "importFile opened (concat vs) S = (if opened then Inl Is_open else if v_snapshot S \<noteq> None then Inl Has_snapshot
        else if bad_header (concat vs) then Inl Bad_header
        else Inr (place_rows (import_rows (normalizeJournalModeHeader (concat vs))) (length (concat vs)) S))"
      by (simp add: importFile_def import_rows_def Let_def)
    ultimately show ?thesis using import_all [of vs s, folded o1_def] r(1) Some by (cases o1) simp_all
  qed
qed

subsection \<open>What was imported is exported\<close>

lemma stored_placed:
  assumes "st_rows (v_store S) = import_rows bs" "segmentsOf S = []" "p < length bs"
  shows "flat (stored S) p = bs ! p"
proof -
  have "p div CHUNK_SIZE * CHUNK_SIZE < length bs" using assms(3) div_times_less_eq_dividend [of p CHUNK_SIZE] by linarith
  then have c: "p div CHUNK_SIZE < ceil_div (length bs) CHUNK_SIZE" by (simp add: less_ceil_div CHUNK_SIZE_pos)
  have "p div CHUNK_SIZE * CHUNK_SIZE + p mod CHUNK_SIZE = p" by simp
  with c assms show ?thesis
    by (simp add: flat_def stored_def effective_def import_rows_def placeMasked_full import_chunk_byte)
qed

lemma export_placed:
  shows "fst (exportFile fate (reattach (place_rows (import_rows bs) (length bs) S))) = Some bs"
proof -
  define T where "T = reattach (place_rows (import_rows bs) (length bs) S)"
  have T: "f_lock (v_file T) = SQLITE_LOCK_NONE" "f_dirty (v_file T) = []" "f_trunc (v_file T) = None"
    "\<not> f_sizeDirty (v_file T)" "f_size (v_file T) = length bs" "st_rows (v_store T) = import_rows bs"
    by (simp_all add: T_def reattach_def place_rows_def fresh_file_def)
  have g: "segmentsOf T = []" by (simp add: T_def reattach_def place_rows_def segmentsOf_def split: option.split)
  have "length bs \<le> totalChunks T * CHUNK_SIZE"
    unfolding totalChunks_def T by (rule iffD1 [OF ceil_div_le [OF CHUNK_SIZE_pos] order_refl])
  then have "export_loop (length bs) 0 (totalChunks T) T = map (flat (stored T)) [0..<length bs]"
    using export_bytes [of 0 "totalChunks T" "length bs" T] by (simp add: min_absorb1)
  also have "\<dots> = bs" by (rule nth_equalityI) (simp_all add: stored_placed T g)
  finally have "export_loop (length bs) 0 (totalChunks T) T = bs" .
  with T show ?thesis unfolding T_def [symmetric]
    by (simp add: exportFile_def flush_file_def SQLITE_LOCK_NONE_def SQLITE_LOCK_EXCLUSIVE_def)
qed

lemma imported_placed:
  "importFile opened bs S = Inr S' \<Longrightarrow> S' = place_rows (import_rows (normalizeJournalModeHeader bs)) (length (normalizeJournalModeHeader bs)) S"
  by (simp add: importFile_def import_rows_def Let_def split: if_splits)

end
