(* ===== verification/Vfs_Cold.thy ===== *)
theory Vfs_Cold
  imports Vfs_Steps
begin

text \<open>
  \<open>retryingColdMisses\<close> of \<open>sqlite/database.ts\<close>: a statement that ran into a cold page is run again once
  the segments it missed are fetched and pinned. A statement is what SQLite does with the file while it
  runs it outside a transaction: reads, each depending on the bytes before it, and a result.
\<close>

subsection \<open>Statements\<close>

datatype 'a stmt = Finish 'a | Read_then nat nat "byte list \<Rightarrow> 'a stmt"

primrec run_stmt :: "'a stmt \<Rightarrow> vfs \<Rightarrow> 'a option \<times> vfs" where
  "run_stmt (Finish a) S = (Some a, S)"
| "run_stmt (Read_then off len k) S = (case xRead off len S of (code, bs, S1) \<Rightarrow>
     if code = SQLITE_IOERR_READ then (None, S1) else run_stmt (k bs) S1)"

text \<open>The statement on a plain file.\<close>

primrec plain_stmt :: "'a stmt \<Rightarrow> afile \<Rightarrow> 'a" where
  "plain_stmt (Finish a) f = a"
| "plain_stmt (Read_then off len k) f = plain_stmt (k (a_read off len f)) f"

definition MAX_STATEMENT_MISS_RETRIES :: nat where "MAX_STATEMENT_MISS_RETRIES = 64"

text \<open>With \<open>n\<close> retries left; the pins are released at the end when a resolve had pinned something.\<close>

fun retrying :: "nat \<Rightarrow> bool \<Rightarrow> 'a stmt \<Rightarrow> vfs \<Rightarrow> 'a option \<times> vfs" where
  "retrying n pinned st S =
    (case run_stmt st S of (r, S1) \<Rightarrow>
       if v_misses S1 \<noteq> [] \<and> n > 0
       then (case resolveMisses S1 of
               (True, S2) \<Rightarrow> retrying (n - 1) True st S2
             | (False, S2) \<Rightarrow> (None, if pinned then releasePins S2 else S2))
       else (r, if pinned then releasePins S1 else S1))"

declare retrying.simps [simp del]

definition retryingColdMisses :: "'a stmt \<Rightarrow> vfs \<Rightarrow> 'a option \<times> vfs" where
  "retryingColdMisses st S = retrying MAX_STATEMENT_MISS_RETRIES False st S"

subsection \<open>One run of a statement\<close>

text \<open>What a run may do to the file's state: internal moves, and a recorded miss.\<close>

definition reads_only :: "vfs \<Rightarrow> vfs \<Rightarrow> bool" where
  "reads_only S S' \<longleftrightarrow> content S' = content S \<and> saved S' = saved S \<and> v_pins S' = v_pins S \<and> v_tier S' = v_tier S
     \<and> missed S' = missed S"

lemma xRead_reads:
  assumes ok: "vfs_ok S" and x: "xRead off want S = (code, bs, S')"
  shows "vfs_ok S' \<and> reads_only S S'
    \<and> (if code = SQLITE_IOERR_READ then \<exists>c. missed S c \<and> c < totalChunks S \<and> set (v_misses S') = insert c (set (v_misses S))
       else bs = a_read off want (content S) \<and> v_misses S' = v_misses S)"
proof -
  define stop where "stop = off + min want (f_size (v_file S) - off)"
  obtain r S1 where l: "read_loop off stop S = (r, S1)" by fastforce
  have R: "quiet S S1 \<and> (\<forall>c. r = Inl c \<longrightarrow> missed S c \<and> c < totalChunks S)"
  proof (cases "stop = off")
    case True
    then have "r = Inr []" "S1 = S" using l by (simp_all add: read_loop.simps [of off])
    then show ?thesis by simp
  next
    case False
    then have le: "stop \<le> f_size (v_file S)" by (auto simp: stop_def)
    from read_loop_spec [OF ok le l] le show ?thesis by (fastforce simp: less_totalChunks split: sum.splits)
  qed
  note P = xRead_spec [OF ok x]
  have e: "S' = (case r of Inl c \<Rightarrow> miss c S1 | Inr _ \<Rightarrow> S1)" "code = SQLITE_IOERR_READ \<longleftrightarrow> isl r"
    using x l unfolding xRead_def Let_def stop_def [symmetric] by (auto split: sum.splits if_splits)
  have mv: "v_pins S' = v_pins S" "v_tier S' = v_tier S" "v_store S' = v_store S"
    using R e(1) by (auto simp: miss_def quiet_parts split: sum.splits)
  have m: "missed S' = missed S"
    using mv by (simp add: fun_eq_iff missed_def slotInR2_def segmentsOf_def)
  then have "reads_only S S'" using P mv by (simp add: reads_only_def)
  then show ?thesis using P R e by (cases r) (auto simp: miss_def quiet_parts)
qed

lemma run_stmt_spec:
  assumes "vfs_ok S" "run_stmt st S = (r, S')"
  shows "vfs_ok S' \<and> reads_only S S' \<and> (case r of
      Some a \<Rightarrow> a = plain_stmt st (content S) \<and> v_misses S' = v_misses S
    | None \<Rightarrow> \<exists>c. missed S c \<and> c < totalChunks S \<and> set (v_misses S') = insert c (set (v_misses S)))"
  using assms
proof (induction st arbitrary: S)
  case (Finish a)
  then show ?case by (auto simp: reads_only_def)
next
  case (Read_then off len k)
  obtain code bs S1 where x: "xRead off len S = (code, bs, S1)" by (cases "xRead off len S") auto
  note X = xRead_reads [OF Read_then.prems(1) x]
  show ?case
  proof (cases "code = SQLITE_IOERR_READ")
    case True
    then show ?thesis using X Read_then.prems(2) x by auto
  next
    case False
    have run: "run_stmt (k bs) S1 = (r, S')" using Read_then.prems(2) x False by simp
    have "totalChunks S1 = totalChunks S" using X by (simp add: reads_only_def totalChunks_def content_def)
    then show ?thesis
      using Read_then.IH [OF _ _ run] X False by (auto simp: reads_only_def split: option.splits)
  qed
qed

subsection \<open>The pins fit\<close>

definition pins_within :: "vfs \<Rightarrow> bool" where
  "pins_within S \<longleftrightarrow> distinct (map fst (v_pins S)) \<and> (\<forall>c \<in> fst ` set (v_pins S). c < totalChunks S)
     \<and> (\<exists>t. v_tier S = Some t \<and> totalChunks S * CHUNK_SIZE \<le> tr_missPinBytes t)"

lemma pins_room:
  assumes w: "pins_within S" and c: "map_of (v_pins S) c = None" "c < totalChunks S"
  shows "\<not> pin_full S"
proof -
  let ?ks = "map fst (v_pins S)"
  have "c \<notin> set ?ks" using c(1) by (simp add: map_of_eq_None_iff)
  moreover have "card (set ?ks) = length (v_pins S)" using w distinct_card [of ?ks] by (simp add: pins_within_def)
  ultimately have "card (insert c (set ?ks)) = Suc (length (v_pins S))" by simp
  moreover have "insert c (set ?ks) \<subseteq> {..<totalChunks S}" using w c(2) by (auto simp: pins_within_def)
  ultimately have "Suc (length (v_pins S)) \<le> totalChunks S"
    using card_mono [of "{..<totalChunks S}" "insert c (set ?ks)"] by simp
  then have "Suc (length (v_pins S)) * CHUNK_SIZE \<le> totalChunks S * CHUNK_SIZE" by (rule mult_le_mono1)
  then show ?thesis using w by (auto simp: pins_within_def pin_full_def)
qed

lemma pins_within_view: "same_view S S' \<Longrightarrow> v_pins S' = v_pins S \<Longrightarrow> pins_within S' = pins_within S"
  by (simp add: pins_within_def same_view_bytes)

lemma pin_chunks_fit:
  assumes "pins_within S" "\<forall>c \<in> set cs. c < totalChunks S"
  shows "\<exists>S'. pin_chunks cs S = (True, S') \<and> pins_within S' \<and> same_view S S'"
  using assms
proof (induction cs arbitrary: S)
  case (Cons c cs)
  show ?case
  proof (cases "pin_skip c S")
    case True
    with Cons show ?thesis by (simp add: pin_chunks_Cons)
  next
    case False
    define T where "T = S\<lparr>v_pins := v_pins S @ [(c, effective (st_rows (v_store S) c) (slot_now S c))]\<rparr>"
    have p: "map_of (v_pins S) c = None" using False by (simp add: pin_skip_def)
    have v: "same_view S T" by (simp add: T_def)
    have "pins_within T"
      using Cons.prems p unfolding pins_within_def same_view_bytes [OF v]
      by (auto simp: T_def map_of_eq_None_iff)
    then have "\<exists>S'. pin_chunks cs T = (True, S') \<and> pins_within S' \<and> same_view T S'"
      by (rule Cons.IH) (use Cons.prems(2) same_view_bytes [OF v] in simp)
    moreover have "pin_chunks (c # cs) S = pin_chunks cs T"
      using False pins_room [OF Cons.prems(1) p] Cons.prems(2) by (simp add: pin_chunks_Cons T_def)
    ultimately show ?thesis using same_view_trans [OF v] by auto
  qed
qed simp

lemma pin_segment_fit:
  assumes ok: "vfs_ok S" and w: "pins_within S"
  shows "\<exists>S'. pin_segment g S = (True, S') \<and> pins_within S' \<and> same_view S S'"
proof -
  have "\<not> (case map_of (segmentsOf S) g of None \<Rightarrow> False | Some e \<Rightarrow> sg_mask e \<noteq> {} \<and> v_objects S (g, sg_gen e) = None)"
  proof (cases "map_of (segmentsOf S) g")
    case (Some e)
    obtain t where t: "v_tier S = Some t" using w by (auto simp: pins_within_def)
    have "(g, sg_gen e) \<in> set (referenced (tr_segments t))"
      using Some t by (force simp: segmentsOf_def referenced_def dest: map_of_SomeD)
    then have "v_objects S (g, sg_gen e) \<noteq> None" using tier_okD [OF ok t] unfolding tier_good_def by blast
    with Some show ?thesis by simp
  qed simp
  moreover have "\<exists>S'. pin_chunks (chunks_of_segment (totalChunks S) g) S = (True, S') \<and> pins_within S' \<and> same_view S S'"
    by (rule pin_chunks_fit [OF w]) (simp add: chunks_of_segment_set)
  ultimately show ?thesis using w unfolding pin_segment_def Let_def by (auto simp: same_view_def)
qed

lemma pin_segments_fit:
  assumes "vfs_ok S" "pins_within S"
  shows "\<exists>S'. pin_segments gs S = (True, S') \<and> pins_within S'"
  using assms
proof (induction gs arbitrary: S)
  case (Cons g gs)
  obtain T where T: "pin_segment g S = (True, T)" "pins_within T" using pin_segment_fit [OF Cons.prems] by blast
  have "v_tier S \<noteq> None" using Cons.prems(2) by (auto simp: pins_within_def)
  then have "vfs_ok T" using pin_segment_spec [OF Cons.prems(1) _ T(1)] by blast
  then show ?case using Cons.IH [OF _ T(2)] T(1) by simp
qed simp

lemma resolve_fit:
  assumes ok: "vfs_ok S" and w: "pins_within S"
  shows "\<exists>S'. resolveMisses S = (True, S') \<and> pins_within S'"
proof -
  define T where "T = S\<lparr>v_misses := []\<rparr>"
  have v: "same_view S T" by (simp add: T_def)
  have "vfs_ok T" unfolding same_view_bytes [OF v]
    by (rule same_view_ok [OF v ok]) (use vfs_atD(1) [OF ok] in \<open>simp_all add: T_def cache_ok_def\<close>)
  moreover have wT: "pins_within T" using w pins_within_view [OF v] by (simp add: T_def)
  ultimately have "\<exists>S'. pin_segments (missed_segments S) T = (True, S') \<and> pins_within S'" by (rule pin_segments_fit)
  then show ?thesis using wT by (auto simp: resolveMisses_def T_def)
qed

subsection \<open>The retries end\<close>

definition cold_segments :: "vfs \<Rightarrow> nat set" where
  "cold_segments S = segmentOf ` {c. c < totalChunks S \<and> missed S c}"

lemma cold_finite [simp]: "finite (cold_segments S)"
  by (simp add: cold_segments_def)

lemma released: "vfs_ok S \<Longrightarrow> vfs_ok (if pinned then releasePins S else S)
    \<and> content (if pinned then releasePins S else S) = content S \<and> saved (if pinned then releasePins S else S) = saved S"
  using releasePins_spec [of S] same_view_sound [of S "releasePins S"] by auto

lemma resolve_cools:
  assumes ok: "vfs_ok S" and w: "pins_within S" and c: "c \<in> set (v_misses S)" "missed S c" "c < totalChunks S"
  shows "\<exists>S'. resolveMisses S = (True, S') \<and> vfs_ok S' \<and> pins_within S' \<and> v_misses S' = [] \<and> content S' = content S
    \<and> saved S' = saved S \<and> card (cold_segments S') < card (cold_segments S)"
proof -
  obtain S' where S': "resolveMisses S = (True, S')" "pins_within S'" using resolve_fit [OF ok w] by blast
  note R = resolveMisses_spec [OF ok S'(1)]
  have v: "same_view S S'" and pm: "pins_more (S\<lparr>v_misses := []\<rparr>) S'" using R by blast+
  note B = same_view_bytes [OF v]
  have tier: "v_tier S \<noteq> None" using w by (auto simp: pins_within_def)
  have less: "missed S q" if "missed S' q" for q
    using missed_more [OF pm that] by (simp add: missed_def slotInR2_def segmentsOf_def)
  have "segmentOf c \<notin> cold_segments S'"
    using R tier c(1,3) by (auto simp: cold_segments_def B)
  moreover have "segmentOf c \<in> cold_segments S" using c by (auto simp: cold_segments_def)
  moreover have "cold_segments S' \<subseteq> cold_segments S" using less by (auto simp: cold_segments_def B)
  ultimately have "card (cold_segments S') < card (cold_segments S)" by (intro psubset_card_mono) auto
  moreover have "v_misses S' = []" using pins_more_view(4) [OF pm] by simp
  moreover have "vfs_ok S'" "v_snapshot S' = v_snapshot S" "v_epoch S' = v_epoch S" using R by blast+
  ultimately show ?thesis using S' same_view_sound [OF v] by blast
qed

lemma retrying_returns:
  assumes "vfs_ok S" "pins_within S" "v_misses S = []" "card (cold_segments S) \<le> n"
  shows "\<exists>S'. retrying n pinned st S = (Some (plain_stmt st (content S)), S') \<and> vfs_ok S'
    \<and> content S' = content S \<and> saved S' = saved S"
  using assms
proof (induction n arbitrary: S pinned rule: less_induct)
  case (less n)
  obtain r S1 where r: "run_stmt st S = (r, S1)" by fastforce
  note X = run_stmt_spec [OF less.prems(1) r]
  have ok1: "vfs_ok S1" and ro: "reads_only S S1" using X by blast+
  show ?case
  proof (cases r)
    case (Some a)
    then have "retrying n pinned st S = (r, if pinned then releasePins S1 else S1)"
      using X less.prems(3) r by (simp add: retrying.simps [of n])
    with Some X ro released [OF ok1, of pinned] show ?thesis by (simp add: reads_only_def)
  next
    case None
    then obtain c where c: "missed S c" "c < totalChunks S" "set (v_misses S1) = {c}" using X less.prems(3) by auto
    have same: "totalChunks S1 = totalChunks S" "missed S1 = missed S"
      using ro by (simp_all add: reads_only_def totalChunks_def content_def)
    then have cold: "cold_segments S1 = cold_segments S" by (simp add: cold_segments_def)
    have "pins_within S1" using less.prems(2) ro same by (simp add: pins_within_def reads_only_def)
    then obtain S2 where S2: "resolveMisses S1 = (True, S2)" "vfs_ok S2" "pins_within S2" "v_misses S2 = []"
      "content S2 = content S1" "saved S2 = saved S1" "card (cold_segments S2) < card (cold_segments S)"
      using resolve_cools [OF ok1, of c] c same cold by auto
    have "v_misses S1 \<noteq> []" using c(3) by auto
    moreover have "0 < n" using S2(7) less.prems(4) by linarith
    ultimately have "retrying n pinned st S = retrying (n - 1) True st S2"
      using r S2(1) by (simp add: retrying.simps [of n])
    moreover have "\<exists>S'. retrying (n - 1) True st S2 = (Some (plain_stmt st (content S2)), S') \<and> vfs_ok S'
        \<and> content S' = content S2 \<and> saved S' = saved S2"
      by (rule less.IH) (use \<open>0 < n\<close> S2 less.prems(4) in auto)
    ultimately show ?thesis using S2(5,6) ro by (simp add: reads_only_def)
  qed
qed

end
