(* ===== verification/Vfs_Properties.thy ===== *)
theory Vfs_Properties
  imports Vfs_Atomic Vfs_Import Vfs_Cold
begin

text \<open>
  What the VFS promises: a file is a plain file with a saved copy whatever its chunks go through, an
  attach finds the last committed copy, a snapshot delivers the bytes of its opening, cold reads return,
  and an import is what an export gives back.
\<close>

subsection \<open>Two files to apply the properties to\<close>

definition no_tier_store :: storage where
  "no_tier_store = \<lparr>st_rows = (\<lambda>_. None), st_size = 0, st_gen = 1, st_segments = [], st_maxGen = None\<rparr>"

definition empty_vfs :: vfs where
  "empty_vfs = \<lparr>v_file = fresh_file False no_tier_store, v_cache = [], v_capacity = 8, v_pins = [], v_misses = [],
     v_snapshot = None, v_tier = None, v_epoch = 0, v_store = no_tier_store, v_objects = (\<lambda>_. None)\<rparr>"

lemma empty_stored: "stored empty_vfs = (\<lambda>_. zeros)" "current empty_vfs = (\<lambda>_. zeros)"
  by (simp_all add: fun_eq_iff stored_def current_def clean_def effective_def slot_now_def slotBytes_def segmentsOf_def
      empty_vfs_def no_tier_store_def fresh_file_def truncated_def)

lemma empty_content: "content empty_vfs = (0, \<lambda>_. 0)" "saved empty_vfs = (0, \<lambda>_. 0)"
  by (simp_all add: content_def saved_def empty_stored flat_def fun_eq_iff)
    (simp_all add: empty_vfs_def no_tier_store_def fresh_file_def)

lemma empty_ok: "vfs_ok empty_vfs"
proof (rule vfs_atI)
  show "blank_past (f_size (v_file empty_vfs)) (current empty_vfs)"
    "blank_past (st_size (v_store empty_vfs)) (stored empty_vfs)"
    by (simp_all add: blank_past_def empty_stored)
qed (simp_all add: cache_ok_def rows_ok_def dirty_ok_def tier_ok_def calm_def reach_ok_def base_ok_def snap_ok_def
    empty_vfs_def no_tier_store_def fresh_file_def)

text \<open>A tiered file of two chunks, the second one in the bucket.\<close>

definition cold_store :: storage where
  "cold_store = \<lparr>st_rows = (\<lambda>c. if c = 0 then Some (zeros, FULL_MASK) else None), st_size = 2 * CHUNK_SIZE, st_gen = 1,
     st_segments = [(0, \<lparr>sg_gen = 1, sg_mask = {1}\<rparr>)], st_maxGen = Some 1\<rparr>"

definition cold_vfs :: vfs where
  "cold_vfs = \<lparr>v_file = fresh_file False cold_store, v_cache = [], v_capacity = 8, v_pins = [], v_misses = [],
     v_snapshot = None,
     v_tier = Some \<lparr>tr_segments = st_segments cold_store, tr_maxGen = None, tr_pending = [], tr_missPinBytes = 10 * CHUNK_SIZE\<rparr>,
     v_epoch = 0, v_store = cold_store,
     v_objects = [(0, 1) \<mapsto> (\<lambda>s i. if s = 1 \<and> i < CHUNK_SIZE then 9 else 0)]\<rparr>"

lemma two_chunks: "c * CHUNK_SIZE < 2 * CHUNK_SIZE \<longleftrightarrow> c < 2"
  by (simp add: CHUNK_SIZE_pos)

lemma cold_slot: "slot_in (st_segments cold_store) c \<longleftrightarrow> c = 1"
  by (auto simp: slot_in_def cold_store_def segmentOf_def slotOf_def SEGMENT_CHUNKS_def split: if_splits option.splits)

lemma cold_now: "slot_now cold_vfs c = (if c = 1 then Some (\<lambda>i. if i < CHUNK_SIZE then 9 else 0) else None)"
  by (auto simp: slot_now_def slotBytes_def segmentsOf_def cold_vfs_def cold_store_def segmentOf_def slotOf_def SEGMENT_CHUNKS_def
      split: option.splits if_splits)

lemma cold_chunks: "totalChunks cold_vfs = 2"
  by (simp add: totalChunks_def cold_vfs_def fresh_file_def cold_store_def ceil_div_def CHUNK_SIZE_def VFS_PAGE_SIZE_def PAGES_PER_CHUNK_def)

lemma cold_stored: "stored cold_vfs c i = (if c = 1 \<and> i < CHUNK_SIZE then 9 else 0)" "current cold_vfs = stored cold_vfs"
proof -
  show "stored cold_vfs c i = (if c = 1 \<and> i < CHUNK_SIZE then 9 else 0)"
    by (simp add: stored_def cold_now) (auto simp: cold_vfs_def cold_store_def effective_def placeMasked_def)
  show "current cold_vfs = stored cold_vfs"
    by (simp add: fun_eq_iff current_def clean_def truncated_def cold_vfs_def fresh_file_def)
qed

lemma cold_ok: "vfs_ok cold_vfs"
proof (rule vfs_atI)
  have "p div CHUNK_SIZE \<noteq> 1" if "2 * CHUNK_SIZE \<le> p" for p
  proof
    assume "p div CHUNK_SIZE = 1"
    then have "p = 1 * CHUNK_SIZE + p mod CHUNK_SIZE" by (metis div_mult_mod_eq)
    then show False using that mod_chunk [of p] by linarith
  qed
  then show "blank_past (f_size (v_file cold_vfs)) (current cold_vfs)"
    "blank_past (st_size (v_store cold_vfs)) (stored cold_vfs)"
    by (auto simp: blank_past_def cold_stored) (simp_all add: cold_vfs_def fresh_file_def cold_store_def)
  show "tier_ok cold_vfs"
    by (simp add: tier_ok_def tier_good_def cold_vfs_def cold_slot)
      (simp add: cold_store_def referenced_def stored_gen_def known_gen_def CHUNK_SIZE_pos)
  show "rows_ok cold_vfs" by (simp add: rows_ok_def cold_vfs_def cold_store_def blank_outside_def)
qed (simp_all add: cache_ok_def dirty_ok_def calm_def reach_ok_def base_ok_def snap_ok_def cold_vfs_def fresh_file_def
    truncated_def cold_store_def)

subsection \<open>Refinement\<close>

text \<open>
  C1. Over every history of \<open>vfs_step\<close> (SQLite's calls, snapshots, cold misses, the phases of an eviction
  pass, deletions of objects, new instances and new isolates, in any order) the VFS is a plain file with a
  saved copy: reads see the current file, writes and truncations change it, a flush that committed saves
  it, and an attach or restart falls back to the saved copy; no other step changes either. The histories
  are those in which writes and truncations of a tiered file are of whole pages and nothing grows past an
  unflushed cut (\<open>write_guard\<close>, \<open>truncate_guard\<close>), no flush is rolled back after it has told the tier
  of a truncation (\<open>sound_fate\<close>), and no instance is replaced in its isolate while a generation that was
  never stored is queued for deletion (\<open>attach_guard\<close>); \<open>Vfs_Findings\<close> shows what each excludes. Making
  the file hot is one step, and no call of a replaced instance goes on.
\<close>

theorem vfs_refines_plain_file:
  assumes "vfs_run (S, ph) es (S', ph')" "vfs_ok S" "phase_ok ph S"
  shows "a_events es (content S, saved S) = Some (content S', saved S')"
  using vfs_run_good [OF assms] by (simp add: good_step_def)

definition demo_written :: vfs where "demo_written = snd (xWrite Commits 0 [7] empty_vfs)"
definition demo_synced :: vfs where "demo_synced = snd (xSync Commits demo_written)"

lemma demo_write:
  "xWrite Commits 0 [7] empty_vfs = (SQLITE_OK, demo_written)" "vfs_ok demo_written" "saved demo_written = (0, \<lambda>_. 0)"
  "content demo_written = (1, (\<lambda>_. 0)(0 := 7))"
proof -
  obtain code T where w: "xWrite Commits 0 [7] empty_vfs = (code, T)" by fastforce
  then have T: "demo_written = T" by (simp add: demo_written_def)
  have g: "write_guard 0 (length [7]) empty_vfs"
    by (simp add: write_guard_def calm_def empty_vfs_def fresh_file_def)
  have s: "\<not> f_spill (v_file empty_vfs)" by (simp add: empty_vfs_def fresh_file_def)
  note W = xWrite_spec [OF empty_ok g _ w]
  show "xWrite Commits 0 [7] empty_vfs = (SQLITE_OK, demo_written)" "vfs_ok demo_written" "saved demo_written = (0, \<lambda>_. 0)"
    "content demo_written = (1, (\<lambda>_. 0)(0 := 7))"
    using W w s by (auto simp: T sound_fate_def sound_move_def empty_content a_write_def fun_eq_iff)
qed

lemma demo_sync:
  "xSync Commits demo_written = (SQLITE_OK, demo_synced)" "vfs_ok demo_synced" "content demo_synced = content demo_written"
  "saved demo_synced = content demo_written"
proof -
  obtain code T where y: "xSync Commits demo_written = (code, T)" by fastforce
  then have T: "demo_synced = T" by (simp add: demo_synced_def)
  note Y = xSync_spec [OF demo_write(2) _ y]
  show "xSync Commits demo_written = (SQLITE_OK, demo_synced)" "vfs_ok demo_synced" "content demo_synced = content demo_written"
    "saved demo_synced = content demo_written"
    using Y y by (auto simp: T sound_fate_def sound_move_def)
qed

lemma demo_content: "a_write 0 [7] (0, \<lambda>_. 0) = (1, (\<lambda>_. 0)(0 := 7))"
  by (simp add: a_write_def fun_eq_iff)

text \<open>Written, synced, opened by a new isolate and then by a new instance in it.\<close>

definition demo_opened :: vfs where "demo_opened = reattach (restart demo_synced)"

lemma demo_guard: "attach_guard (restart S)"
  by (simp add: attach_guard_def restart_def split: option.split)

lemma demo_open:
  "vfs_ok (restart demo_synced)" "vfs_ok demo_opened" "content demo_opened = (1, (\<lambda>_. 0)(0 := 7))"
  using restart_spec [OF demo_sync(2)] reattach_spec [of "restart demo_synced"] demo_guard
  by (simp_all add: demo_opened_def demo_sync demo_write)

lemma demo_run: "vfs_run (empty_vfs, Idle) [Wrote 0 [7], Saved, Fell_back, Fell_back] (demo_opened, Idle)"
proof -
  have 1: "vfs_step (empty_vfs, Idle) [Wrote 0 [7]] (demo_written, Idle)"
    using s_write [of 0 "[7]" empty_vfs Commits SQLITE_OK demo_written Idle] demo_write(1,3) empty_content
    by (simp add: write_guard_def calm_def sound_fate_def saved_now_def) (simp add: empty_vfs_def fresh_file_def)
  have 2: "vfs_step (demo_written, Idle) [Saved] (demo_synced, Idle)"
    using s_sync [of Commits demo_written SQLITE_OK demo_synced Idle] demo_sync(1) by (simp add: sound_fate_def saved_now_def)
  have "vfs_run (empty_vfs, Idle) (((([] @ [Wrote 0 [7]]) @ [Saved]) @ [Fell_back]) @ [Fell_back]) (demo_opened, Idle)"
    unfolding demo_opened_def
    by (rule run_step [OF run_step [OF run_step [OF run_step [OF run_nil 1] 2] s_restart] s_attach [OF demo_guard]])
  then show ?thesis by simp
qed

lemma vfs_refines_plain_file_witness:
  "content demo_opened = (1, (\<lambda>_. 0)(0 := 7)) \<and> saved demo_opened = (1, (\<lambda>_. 0)(0 := 7))"
  using vfs_refines_plain_file [OF demo_run empty_ok] by (auto simp: empty_content demo_content)

text \<open>
  C6. Every history of \<open>vfs_step\<close>, under the same guards (\<open>write_guard\<close>, \<open>truncate_guard\<close>, \<open>sound_fate\<close>,
  \<open>attach_guard\<close>), keeps the shape of the file: full or partial rows with zeros outside their pages, no
  partial row without a tier, a map whose objects are in the bucket and not queued for deletion, clean
  cached and pinned chunks, no byte past the sizes; and a generation number stands for one saved content.
\<close>

theorem vfs_keeps_shape:
  assumes "vfs_run (S, ph) es (S', ph')" "vfs_ok S" "phase_ok ph S"
  shows "vfs_ok S' \<and> phase_ok ph' S' \<and> st_gen (v_store S) \<le> st_gen (v_store S')
    \<and> (st_gen (v_store S') = st_gen (v_store S) \<longrightarrow> saved S' = saved S)"
  using vfs_run_good [OF assms] by (simp_all add: good_step_def gen_counts_def)

lemma vfs_keeps_shape_witness: "vfs_ok demo_opened \<and> phase_ok Idle demo_opened"
  using vfs_keeps_shape [OF demo_run empty_ok] by simp

subsection \<open>Crashes\<close>

text \<open>
  C2. A transaction on a file that does not spill is atomic: if the object dies before the sync, or the
  sync fails, the next attach finds the file as it was saved before; once the sync returned OK it finds
  every write and truncation of the transaction, in order.
\<close>

theorem transaction_atomic:
  assumes "no_spill S" "act_all file_act ops S = Some T" "sound_fate fate T" "file_sync fate T = (b, T')"
  shows "content (reattach T) = saved S \<and> content (reattach T') = (if b then fold plain_act ops (content S) else saved S)"
  using db.crash_before [OF assms(1,2)] db.crash_after [OF assms] by simp

lemma transaction_atomic_witness:
  "content (reattach demo_written) = (0, \<lambda>_. 0) \<and> content (reattach demo_synced) = (1, (\<lambda>_. 0)(0 := 7))"
proof -
  have "no_spill empty_vfs" using empty_ok by (simp add: no_spill_def) (simp add: empty_vfs_def fresh_file_def)
  moreover have "act_all file_act [Op_write 0 [7]] empty_vfs = Some demo_written"
    by (simp add: write_guard_def calm_def demo_written_def) (simp add: empty_vfs_def fresh_file_def)
  moreover have "sound_fate Commits demo_written" by (simp add: sound_fate_def)
  moreover have "file_sync Commits demo_written = (True, demo_synced)" by (simp add: file_sync_def demo_sync(1))
  ultimately show ?thesis
    using transaction_atomic [of empty_vfs "[Op_write 0 [7]]" demo_written Commits True demo_synced]
    by (simp add: empty_content a_write_def fun_eq_iff)
qed

subsection \<open>Snapshots\<close>

text \<open>
  C3. A snapshot delivers the file as it was when it was opened: after any history in which it stays open,
  with writes, truncations, flushes, eviction passes and deletions of objects under the guards of
  \<open>vfs_step\<close> (\<open>write_guard\<close>, \<open>truncate_guard\<close>, \<open>sound_fate\<close>), each window its stream
  reads from the pre-images, the rows and the bucket has the bytes of that moment.
\<close>

theorem snapshot_constant:
  assumes ok: "vfs_ok S" and fate: "sound_fate fate S" and x: "openSnapshot fate S = (True, S1)"
    and ph: "phase_ok ph S1" and run: "held_open (S1, ph) (S2, ph2)"
    and w: "start \<le> stop" "stop \<le> ceil_div (fst (content S)) CHUNK_SIZE"
  shows "\<exists>sn. v_snapshot S2 = Some sn
    \<and> snapshot_window start stop sn S2 = map (snd (content S)) [start * CHUNK_SIZE..<min (fst (content S)) (stop * CHUNK_SIZE)]"
proof -
  note P = openSnapshot_spec [OF ok fate x]
  then have st: "flat (stored S1) = snd (content S)" by (metis saved_def snd_conv)
  obtain sn1 where 1: "v_snapshot S1 = Some sn1" "sn_size sn1 = fst (content S)"
    "sn_totalChunks sn1 = ceil_div (sn_size sn1) CHUNK_SIZE" "\<forall>c. \<forall>i < CHUNK_SIZE. snap_bytes sn1 S1 c i = stored S1 c i"
    using P by auto
  have "snap_kept S1 S2" using held_open_kept [OF run _ ph] P by blast
  then obtain sn where 2: "v_snapshot S2 = Some sn" "sn_size sn = sn_size sn1"
    "\<forall>c < sn_totalChunks sn1. \<forall>i < CHUNK_SIZE. snap_bytes sn S2 c i = snap_bytes sn1 S1 c i"
    using 1(1) by (auto simp: snap_kept_def)
  have "snapshot_window start stop sn S2 = map (flat (stored S1)) [start * CHUNK_SIZE..<min (sn_size sn) (stop * CHUNK_SIZE)]"
    unfolding snapshot_window_def
    by (rule readWindow_bytes) (use 1 2 w in \<open>simp_all add: snap_bytes_def\<close>)
  with 1 2 st show ?thesis by auto
qed

text \<open>Opened on the file that holds the byte 7, which is then overwritten and synced.\<close>

lemma snapshot_constant_witness:
  "\<exists>S1 S2 sn. openSnapshot Commits demo_opened = (True, S1) \<and> held_open (S1, Idle) (S2, Idle)
    \<and> snd (content S2) 0 = 8 \<and> saved S2 = content S2 \<and> v_snapshot S2 = Some sn \<and> snapshot_window 0 1 sn S2 = [7]"
proof -
  let ?R = "demo_opened"
  have R: "vfs_ok ?R" "content ?R = (1, (\<lambda>_. 0)(0 := 7))" by (rule demo_open)+
  have fate: "sound_fate Commits T" for T by (simp add: sound_fate_def)
  obtain b S1 where x: "openSnapshot Commits ?R = (b, S1)" by fastforce
  have e: "b" "v_snapshot S1 \<noteq> None" "f_trunc (v_file S1) = None"
    using x by (auto simp: openSnapshot_def demo_opened_def reattach_def fresh_file_def flush_file_def SQLITE_LOCK_NONE_def SQLITE_LOCK_EXCLUSIVE_def)
  note P = openSnapshot_spec [OF R(1) fate x]
  have ok1: "vfs_ok S1" and c1: "content S1 = content ?R" using P by blast+
  obtain code2 S2 where w: "xWrite Commits 0 (replicate VFS_PAGE_SIZE 8) S1 = (code2, S2)" by fastforce
  have g: "write_guard 0 (length (replicate VFS_PAGE_SIZE (8 :: byte))) S1" using e by (simp add: write_guard_def calm_def paged_def)
  note W = xWrite_spec [OF ok1 g fate w]
  obtain code3 S3 where y: "xSync Commits S2 = (code3, S3)" by fastforce
  have ok2: "vfs_ok S2" using W by (simp add: sound_move_def)
  note Y = xSync_spec [OF ok2 fate y]
  have sn: "v_snapshot S2 \<noteq> None" "v_snapshot S3 \<noteq> None"
    using W Y e(2) by (auto simp: sound_move_def snap_kept_def split: option.splits)
  have "held_open (S1, Idle) (S3, Idle)"
    by (rule open_step [OF open_step [OF open_nil [OF e(2)] s_write [OF g fate w] sn(1)] s_sync [OF fate y] sn(2)])
  moreover have "snd (content S3) 0 = 8" using Y W VFS_PAGE_SIZE_pos by (simp add: a_write_def)
  moreover have "saved S3 = content S3" using Y by simp
  moreover have "openSnapshot Commits ?R = (True, S1)" using x e(1) by simp
  moreover have "ceil_div 1 CHUNK_SIZE = 1" using CHUNK_SIZE_pos by (simp add: ceil_div_def)
  ultimately show ?thesis
    using snapshot_constant [OF R(1) fate, of S1 Idle S3 Idle 0 1] CHUNK_SIZE_pos by (auto simp: R(2))
qed

subsection \<open>Cold reads\<close>

text \<open>
  C4. A statement that runs into cold pages returns: if the segments still in the bucket are at most the
  retries allowed and the pins fit in memory, it is run again until it finishes, with the result it has
  on the plain file, which is left as it was.
\<close>

theorem cold_statement_returns:
  assumes "vfs_ok S" "pins_within S" "v_misses S = []" "card (cold_segments S) \<le> MAX_STATEMENT_MISS_RETRIES"
  shows "\<exists>S'. retryingColdMisses st S = (Some (plain_stmt st (content S)), S') \<and> content S' = content S \<and> saved S' = saved S"
  using retrying_returns [OF assms, of False st] by (auto simp: retryingColdMisses_def)

lemma cold_statement_returns_witness:
  "\<exists>S'. retryingColdMisses (Read_then CHUNK_SIZE 1 Finish) cold_vfs = (Some [9], S')"
proof -
  have "plain_stmt (Read_then CHUNK_SIZE 1 Finish) (content cold_vfs) = [9]"
    using CHUNK_SIZE_pos by (simp add: a_read_def content_def flat_def cold_stored)
  moreover have "pins_within cold_vfs"
    using ceil_div_le [OF CHUNK_SIZE_pos, of "2 * CHUNK_SIZE" 2] by (simp add: pins_within_def cold_chunks) (simp add: cold_vfs_def)
  moreover have "v_misses cold_vfs = []" by (simp add: cold_vfs_def)
  moreover have "card (cold_segments cold_vfs) \<le> MAX_STATEMENT_MISS_RETRIES"
  proof -
    have "cold_segments cold_vfs \<subseteq> {0}" by (auto simp: cold_segments_def cold_chunks segmentOf_def SEGMENT_CHUNKS_def)
    then have "card (cold_segments cold_vfs) \<le> card {0 :: nat}" by (intro card_mono) simp_all
    then show ?thesis by (simp add: MAX_STATEMENT_MISS_RETRIES_def)
  qed
  ultimately show ?thesis
    using cold_statement_returns [OF cold_ok, of "Read_then CHUNK_SIZE 1 Finish"] by auto
qed

subsection \<open>Import and export\<close>

text \<open>
  C5. Importing a stream ends, whatever its pieces, and does what importing the whole file does; what it
  put in place is exported by the next object as the file that came in, with its header switched to
  rollback-journal mode.
\<close>

theorem import_export_roundtrip:
  "importFromStream opened vs S = Some (importFile opened (concat vs) S) \<and>
    (case importFile opened (concat vs) S of
       Inl _ \<Rightarrow> opened \<or> v_snapshot S \<noteq> None \<or> bad_header (concat vs)
     | Inr S' \<Rightarrow> fst (exportFile fate (reattach S')) = Some (normalizeJournalModeHeader (concat vs)))"
proof -
  have "fst (exportFile fate (reattach S')) = Some (normalizeJournalModeHeader (concat vs))"
    if "importFile opened (concat vs) S = Inr S'" for S'
    unfolding imported_placed [OF that] by (rule export_placed)
  then show ?thesis using importFromStream_whole [of opened vs S]
    by (auto simp: importFile_def split: sum.split if_splits)
qed

lemma import_export_roundtrip_witness:
  "\<exists>S'. importFromStream False [[1, 2], [3]] empty_vfs = Some (Inr S') \<and> fst (exportFile Commits (reattach S')) = Some [1, 2, 3]"
proof -
  have "v_snapshot empty_vfs = None" by (simp add: empty_vfs_def)
  then obtain S' where "importFile False [1, 2, 3] empty_vfs = Inr S'" by (simp add: importFile_def bad_header_def Let_def)
  with import_export_roundtrip [of False "[[1, 2], [3]]" empty_vfs Commits] show ?thesis
    by (simp add: normalizeJournalModeHeader_def)
qed

end
