(* ===== verification/Vfs_Findings.thy ===== *)
theory Vfs_Findings
  imports Vfs_Properties
begin

text \<open>
  Three places where the VFS is not the plain file, which the guards of the other theories leave out: a
  tiered file that is cut and grows again before the flush, a flush that is rolled back after it has
  told the tier about a truncation, and an attach that keeps the queue of deletes but forgets the
  generations in it.
\<close>

text \<open>
  A chunk that a pending truncation dropped is still cold until the flush: if the file has grown back over
  it, a read misses, and once the miss is resolved it sees the bytes from before the truncation.
\<close>

lemma cut_chunk_still_cold:
  assumes "truncated c S" "slotInR2 c S" "dirty_of S c = None" "map_of (v_pins S) c = None" "map_of (v_cache S) c = None"
  defines "T \<equiv> S\<lparr>v_pins := v_pins S @ [(c, effective (st_rows (v_store S) c) (slot_now S c))]\<rparr>"
  shows "fst (loadChunk c wanted S) = ColdMiss" "loadChunk c wanted T = (Chunk (effective (st_rows (v_store S) c) (slot_now S c)), T)"
proof -
  show "fst (loadChunk c wanted S) = ColdMiss"
    using assms(1-5) by (simp add: loadChunk_def lookupLocal_def cache_get_def)
  have "map_of (v_pins T) c = Some (effective (st_rows (v_store S) c) (slot_now S c))"
    using assms(4) by (simp add: T_def map_add_def)
  then show "loadChunk c wanted T = (Chunk (effective (st_rows (v_store S) c) (slot_now S c)), T)"
    using assms(3) by (simp add: loadChunk_def lookupLocal_def T_def)
qed

text \<open>
  Storage is as it was, the map in memory has lost the truncated segments, and their objects are queued
  for deletion although the stored map still refers to them.
\<close>

lemma rolled_back_truncation:
  assumes "f_trunc (v_file S) = Some k" "v_tier S = Some t" "v_snapshot S = None"
    and "flush_file (RollsBack True) S = (b, S')"
  shows "v_store S' = v_store S"
    "v_tier S' = Some (t\<lparr>tr_segments := truncate_segments (chunkFloor k) (tr_segments t),
       tr_pending := tr_pending t @ dropped_keys (chunkFloor k) (tr_segments t)\<rparr>)"
  using assms by (auto simp: flush_file_def pin_preimages_def flush_tier_def tier_truncate_def)

text \<open>
  The object of a pass that was refused is queued for deletion under a generation that was never stored.
  If the object is instantiated again in the same isolate before the queue is emptied, the next upload of
  that segment gets the same generation, its commit makes the stored map refer to the queued key, and the
  maintenance that follows deletes the only copy of the chunks it evicted.
\<close>

lemma attach_loses_segment:
  assumes ok: "vfs_ok S" and t: "v_tier S = Some t" and q: "(pr_segno r, Suc (stored_gen (v_store S))) \<in> set (tr_pending t)"
    and u: "upload_segment plan r (reattach S) = (gen, T)" and c: "commit_segment plan r gen T = (Some n, U)"
  shows "gen = Suc (stored_gen (v_store S))" "map_of (segmentsOf (tierMaintenance U)) (pr_segno r) = Some \<lparr>sg_gen = gen, sg_mask = new_mask plan r\<rparr>"
    "map_of (st_segments (v_store (tierMaintenance U))) (pr_segno r) = Some \<lparr>sg_gen = gen, sg_mask = new_mask plan r\<rparr>"
    "v_objects (tierMaintenance U) (pr_segno r, gen) = None"
proof -
  define t0 where "t0 = t\<lparr>tr_segments := st_segments (v_store S), tr_maxGen := None\<rparr>"
  have R: "v_tier (reattach S) = Some t0" "v_store (reattach S) = v_store S" "v_snapshot (reattach S) = None"
    by (simp_all add: reattach_def t t0_def)
  have good: "tier_good (v_store S) (v_objects S) t" using vfs_atD(4) [OF ok] t by (simp add: tier_ok_def)
  have "sg_gen e \<le> stored_gen (v_store S)" if "(s, e) \<in> set (st_segments (v_store S))" for s e
    using good that by (force simp: tier_good_def referenced_def)
  then have "fold (\<lambda>(_, e) m. max m (sg_gen e)) (st_segments (v_store S)) (stored_gen (v_store S)) = stored_gen (v_store S)"
    by (intro fold_invariant [where Q = "\<lambda>(s, e). sg_gen e \<le> stored_gen (v_store S)" and P = "\<lambda>m. m = stored_gen (v_store S)"]) auto
  then have a: "allocateGen (v_store S) t0 = (Suc (stored_gen (v_store S)), t0\<lparr>tr_maxGen := Some (Suc (stored_gen (v_store S)))\<rparr>)"
    by (simp add: allocateGen_def t0_def stored_gen_def split: option.splits)
  define t1 where "t1 = t0\<lparr>tr_maxGen := Some (Suc (stored_gen (v_store S)))\<rparr>"
  have T: "gen = Suc (stored_gen (v_store S))" "v_tier T = Some t1" "v_snapshot T = None"
    using u by (auto simp: upload_segment_def R a t1_def put_object_def)
  show "gen = Suc (stored_gen (v_store S))" by (rule T)
  obtain t2 st2 where s: "setSegment (pr_segno r) \<lparr>sg_gen = gen, sg_mask = new_mask plan r\<rparr> t1 (v_store T) = (t2, st2)" by fastforce
  then have t2: "tr_pending t2 = tr_pending t" "map_of (tr_segments t2) (pr_segno r) = Some \<lparr>sg_gen = gen, sg_mask = new_mask plan r\<rparr>"
    "map_of (st_segments st2) (pr_segno r) = Some \<lparr>sg_gen = gen, sg_mask = new_mask plan r\<rparr>"
    by (auto simp: setSegment_def Let_def t1_def t0_def update_conv)
  define t3 where "t3 = (case pr_entry r of None \<Rightarrow> t2 | Some e \<Rightarrow> if sg_gen e = gen then t2 else queueDelete (pr_segno r, sg_gen e) t2)"
  have t3: "set (tr_pending t) \<subseteq> set (tr_pending t3)" "tr_segments t3 = tr_segments t2"
    using t2 by (auto simp: t3_def queueDelete_def split: option.split)
  have U: "v_tier U = Some t3" "st_segments (v_store U) = st_segments st2" "v_snapshot U = None"
    using c T(2,3) s by (auto simp: commit_segment_def Let_def t3_def split: if_splits)
  show "map_of (segmentsOf (tierMaintenance U)) (pr_segno r) = Some \<lparr>sg_gen = gen, sg_mask = new_mask plan r\<rparr>"
    "map_of (st_segments (v_store (tierMaintenance U))) (pr_segno r) = Some \<lparr>sg_gen = gen, sg_mask = new_mask plan r\<rparr>"
    using t2 t3 by (simp_all add: tierMaintenance_def segmentsOf_def U)
  show "v_objects (tierMaintenance U) (pr_segno r, gen) = None"
    using q t3(1) T(1) by (auto simp: tierMaintenance_def U)
qed

end
