(* ===== verification/Task_Schedule.thy ===== *)
theory Task_Schedule
  imports Prelude
begin

text \<open>
  \<open>packages/oracle-runtime-workers/src/tasks/schedule.ts\<close>: when a task fires next, the preview of its
  runs, the check of a schedule and the backoff. The calendar belongs to the platform and to
  the cron library: the operations take it as an argument. Times are integers, milliseconds.
\<close>

definition MAX_CONSECUTIVE_FAILURES :: nat where "MAX_CONSECUTIVE_FAILURES = 3"
definition FAILURE_BACKOFF_BASE_MS :: int where "FAILURE_BACKOFF_BASE_MS = 60000"
definition FAILURE_BACKOFF_MAX_MS :: int where "FAILURE_BACKOFF_MAX_MS = 3600000"

datatype schedule = Once string | Cron string "string option" | Interval int

text \<open>
  \<open>schedule-input.ts\<close>: the schedule as a model writes it, flat, with the fields of every kind optional;
  an empty string counts as missing, and the fields of the other kinds are ignored.
\<close>

datatype schedule_kind = Kind_once | Kind_cron | Kind_interval

record schedule_input =
  si_kind :: schedule_kind
  si_at :: "string option"
  si_cron :: "string option"
  si_timezone :: "string option"
  si_every :: "int option"

definition present :: "string option \<Rightarrow> string option" where
  "present x = (if x = Some [] then None else x)"

datatype input_error = Needs_at | Needs_cron | Needs_every

definition toTaskSchedule :: "schedule_input \<Rightarrow> input_error + schedule" where
  "toTaskSchedule i = (case si_kind i of
     Kind_once \<Rightarrow> (case present (si_at i) of None \<Rightarrow> Inl Needs_at | Some t \<Rightarrow> Inr (Once t))
   | Kind_cron \<Rightarrow> (case present (si_cron i) of None \<Rightarrow> Inl Needs_cron | Some c \<Rightarrow> Inr (Cron c (present (si_timezone i))))
   | Kind_interval \<Rightarrow> (case si_every i of None \<Rightarrow> Inl Needs_every | Some n \<Rightarrow> Inr (Interval n)))"

text \<open>
  \<open>Date.parse\<close> (\<open>None\<close>: not a number) and \<open>toISOString\<close>; the next fire of a cron pattern after a time
  (\<open>None\<close>: the library throws); the fields of a pattern; the successive days its date fields select in
  UTC from a time on, with a flag that says whether the library throws when it is asked for one more; its
  successive fires in a zone, until the library throws; whether a zone is
  known, and what \<open>formatToParts\<close> gives for a time in it.
\<close>

record cron_fields =
  cf_hours :: "int list"
  cf_minutes :: "int list"
  cf_seconds :: "int list"
  cf_every_day :: bool

record calendar =
  parse_date :: "string \<Rightarrow> int option"
  iso_date :: "int \<Rightarrow> string"
  cron_next :: "string \<Rightarrow> string option \<Rightarrow> int \<Rightarrow> int option"
  cron_parse :: "string \<Rightarrow> cron_fields option"
  cron_days :: "string \<Rightarrow> int \<Rightarrow> int list \<times> bool"
  cron_fires :: "string \<Rightarrow> string option \<Rightarrow> int \<Rightarrow> int list"
  zone_known :: "string \<Rightarrow> bool"
  zone_parts :: "string \<Rightarrow> int \<Rightarrow> (string \<times> int) list"

text \<open>\<open>Date.UTC\<close> of fields in range (a year below 100 is of the twentieth century): days since 1970, then milliseconds.\<close>

definition civil_days :: "int \<Rightarrow> int \<Rightarrow> int \<Rightarrow> int" where
  "civil_days year month day =
    (let y = (if month \<le> 2 then year - 1 else year);
         doy = (153 * (month + (if month > 2 then -3 else 9)) + 2) div 5 + day - 1;
         yoe = y mod 400
     in y div 400 * 146097 + yoe * 365 + yoe div 4 - yoe div 100 + doy - 719468)"

definition date_utc :: "int \<Rightarrow> int \<Rightarrow> int \<Rightarrow> int \<Rightarrow> int \<Rightarrow> int \<Rightarrow> int" where
  "date_utc year month0 day hour minute second =
    (let y = (if 0 \<le> year \<and> year \<le> 99 then 1900 + year else year)
     in (((civil_days (y + month0 div 12) (month0 mod 12 + 1) 1 + day - 1) * 24 + hour) * 60 + minute) * 60000 + second * 1000)"

lemma date_utc_epoch: "date_utc 1970 0 1 0 0 0 = 0" "date_utc 2000 2 1 0 0 0 = 951868800000" "date_utc 2024 1 29 23 59 59 = 1709251199000"
  by code_simp+

definition utcOffsetMs :: "calendar \<Rightarrow> string \<Rightarrow> int \<Rightarrow> int" where
  "utcOffsetMs L tz atMs =
    (let part = (\<lambda>k absent. case map_of (rev (zone_parts L tz atMs)) k of None \<Rightarrow> absent | Some v \<Rightarrow> v);
         wallClock = date_utc (part ''year'' 0) (part ''month'' 1 - 1) (part ''day'' 1) (part ''hour'' 0 mod 24) (part ''minute'' 0) (part ''second'' 0)
     in wallClock - atMs div 1000 * 1000)"

definition computeNextRunAtMs :: "calendar \<Rightarrow> schedule \<Rightarrow> int \<Rightarrow> int option" where
  "computeNextRunAtMs L s fromMs = (case s of
     Once at \<Rightarrow> (case parse_date L at of None \<Rightarrow> None | Some t \<Rightarrow> if t > fromMs then Some t else None)
   | Cron c tz \<Rightarrow> cron_next L c tz fromMs
   | Interval n \<Rightarrow> if n \<le> 0 then None else Some (fromMs + n * 1000))"

fun previewRuns :: "calendar \<Rightarrow> schedule \<Rightarrow> nat \<Rightarrow> int \<Rightarrow> int list" where
  "previewRuns L s 0 cursor = []"
| "previewRuns L s (Suc n) cursor = (case computeNextRunAtMs L s cursor of
     None \<Rightarrow> []
   | Some t \<Rightarrow> if t \<le> cursor then [] else t # previewRuns L s n t)"

subsection \<open>The shortest gap of a cron pattern\<close>

definition DAY_MS :: int where "DAY_MS = 86400000"
definition FIRING_DAY_SCAN_DAYS :: int where "FIRING_DAY_SCAN_DAYS = 4 * 366"
definition OFFSET_CHANGE_LOOKAHEAD_DAYS :: nat where "OFFSET_CHANGE_LOOKAHEAD_DAYS = 366"
definition MAX_FIRES_PER_OFFSET_WINDOW :: nat where "MAX_FIRES_PER_OFFSET_WINDOW = 3000"
definition MAX_OFFSET_WINDOW_REACH_MS :: int where "MAX_OFFSET_WINDOW_REACH_MS = 7 * DAY_MS"

text \<open>\<open>None\<close> is \<open>Infinity\<close>: \<open>gap_min\<close> is \<open>Math.min\<close>, \<open>gap_below\<close> the comparison with a number.\<close>

type_synonym gap = "int option"

definition gap_min :: "gap \<Rightarrow> int \<Rightarrow> gap" where
  "gap_min g x = (case g of None \<Rightarrow> Some x | Some y \<Rightarrow> Some (min y x))"

definition gap_below :: "gap \<Rightarrow> int \<Rightarrow> bool" where
  "gap_below g x \<longleftrightarrow> (case g of None \<Rightarrow> False | Some y \<Rightarrow> y < x)"

text \<open>\<open>Math.round((day - previous) / DAY_MS)\<close>, ties upwards.\<close>

definition round_days :: "int \<Rightarrow> int" where
  "round_days ms = (2 * ms + DAY_MS) div (2 * DAY_MS)"

fun scan_days :: "int \<Rightarrow> int option \<Rightarrow> gap \<Rightarrow> int list \<Rightarrow> gap" where
  "scan_days lim previous closest [] = closest"
| "scan_days lim previous closest (day # days) =
    (if day > lim then closest
     else let c = (case previous of None \<Rightarrow> closest | Some p \<Rightarrow> gap_min closest (round_days (day - p)))
          in if c = Some 1 then c else scan_days lim (Some day) c days)"

text \<open>Whether the scan asks for a day after the last one: it has not left the loop before.\<close>

fun scan_asks_on :: "int \<Rightarrow> int option \<Rightarrow> gap \<Rightarrow> int list \<Rightarrow> bool" where
  "scan_asks_on lim previous closest [] = True"
| "scan_asks_on lim previous closest (day # days) =
    (if day > lim then False
     else let c = (case previous of None \<Rightarrow> closest | Some p \<Rightarrow> gap_min closest (round_days (day - p)))
          in if c = Some 1 then False else scan_asks_on lim (Some day) c days)"

text \<open>The outer \<open>None\<close> is the exception of the library, which \<open>cronIntervalMs\<close> catches.\<close>

definition closestFiringDays :: "calendar \<Rightarrow> string \<Rightarrow> cron_fields \<Rightarrow> int \<Rightarrow> gap option" where
  "closestFiringDays L c f fromMs =
    (if cf_every_day f then Some (Some 1)
     else (let (days, throws) = cron_days L c fromMs; until = fromMs + FIRING_DAY_SCAN_DAYS * DAY_MS
           in if throws \<and> scan_asks_on until None None days then None else Some (scan_days until None None days)))"

definition times_of_day :: "cron_fields \<Rightarrow> int list" where
  "times_of_day f = sort (concat (map (\<lambda>h. concat (map (\<lambda>m. map (\<lambda>s. (h * 3600 + m * 60 + s) * 1000) (cf_seconds f)) (cf_minutes f))) (cf_hours f)))"

fun day_gaps :: "gap \<Rightarrow> int list \<Rightarrow> gap" where
  "day_gaps g (a # b # ts) = day_gaps (gap_min g (b - a)) (b # ts)"
| "day_gaps g ts = g"

definition clock_gap :: "int list \<Rightarrow> gap \<Rightarrow> gap" where
  "clock_gap ts days =
    (let shortest = day_gaps None ts
     in case days of None \<Rightarrow> shortest
        | Some n \<Rightarrow> if ts = [] then shortest else gap_min shortest (n * DAY_MS - (last ts - hd ts)))"

text \<open>The change of offset between two daily samples, to the minute.\<close>

function change_instant :: "(int \<Rightarrow> int) \<Rightarrow> int \<Rightarrow> int \<Rightarrow> int \<Rightarrow> int" where
  "change_instant at new lo hi =
    (if hi - lo > 60000
     then let mid = lo + (hi - lo) div 2
          in if at mid = new then change_instant at new lo mid else change_instant at new mid hi
     else hi)"
  by pat_completeness auto

termination change_instant
  by (relation "measure (\<lambda>(at, new, lo, hi). nat (hi - lo))") auto

declare change_instant.simps [simp del]

text \<open>The fires around a change; the flag says that the floor is broken and the search ends.\<close>

fun scan_fires :: "int \<Rightarrow> int \<Rightarrow> int option \<Rightarrow> gap \<Rightarrow> int list \<Rightarrow> bool \<times> gap" where
  "scan_fires floorMs windowEnd previous shortest [] = (False, shortest)"
| "scan_fires floorMs windowEnd previous shortest (fire # fires) =
    (if fire > windowEnd \<or> (case previous of None \<Rightarrow> False | Some p \<Rightarrow> fire \<le> p) then (False, shortest)
     else let s = (case previous of None \<Rightarrow> shortest | Some p \<Rightarrow> gap_min shortest (fire - p))
          in if gap_below s floorMs then (True, s) else scan_fires floorMs windowEnd (Some fire) s fires)"

definition window_reach :: "gap \<Rightarrow> int \<Rightarrow> int \<Rightarrow> int" where
  "window_reach shortest floorMs shift =
    (let capped = (case shortest of None \<Rightarrow> MAX_OFFSET_WINDOW_REACH_MS | Some s \<Rightarrow> min s MAX_OFFSET_WINDOW_REACH_MS)
     in (if floorMs > 0 then min capped floorMs else capped) + shift)"

fun scan_offsets :: "calendar \<Rightarrow> string \<Rightarrow> string \<Rightarrow> int \<Rightarrow> int \<Rightarrow> nat \<Rightarrow> int \<Rightarrow> int \<Rightarrow> gap \<Rightarrow> gap" where
  "scan_offsets L c tz fromMs floorMs 0 day previousOffset shortest = shortest"
| "scan_offsets L c tz fromMs floorMs (Suc n) day previousOffset shortest =
    (let dayMs = fromMs + day * DAY_MS; offset = utcOffsetMs L tz dayMs
     in if offset = previousOffset then scan_offsets L c tz fromMs floorMs n (day + 1) previousOffset shortest
        else let shift = \<bar>offset - previousOffset\<bar>;
                 hi = change_instant (utcOffsetMs L tz) offset (dayMs - DAY_MS) dayMs;
                 reach = window_reach shortest floorMs shift;
                 (stop, s) = scan_fires floorMs (hi + shift + reach) None shortest
                   (take MAX_FIRES_PER_OFFSET_WINDOW (cron_fires L c (Some tz) (hi - reach)))
             in if stop then s else scan_offsets L c tz fromMs floorMs n (day + 1) offset s)"

text \<open>The outer \<open>None\<close> is \<open>null\<close>; an empty zone name is absent.\<close>

definition cronIntervalMs :: "calendar \<Rightarrow> string \<Rightarrow> string option \<Rightarrow> int \<Rightarrow> int \<Rightarrow> gap option" where
  "cronIntervalMs L c timezone fromMs floorMs = (case cron_parse L c of
     None \<Rightarrow> None
   | Some f \<Rightarrow>
       let tz = (case timezone of None \<Rightarrow> None | Some z \<Rightarrow> if z = [] then None else Some z)
       in if (case tz of None \<Rightarrow> False | Some z \<Rightarrow> \<not> zone_known L z) then None
          else (case closestFiringDays L c f fromMs of
              None \<Rightarrow> None
            | Some firingDays \<Rightarrow>
                let shortest = clock_gap (times_of_day f) firingDays
                in (case tz of
                      None \<Rightarrow> Some shortest
                    | Some z \<Rightarrow>
                        if gap_below shortest floorMs then Some shortest
                        else Some (scan_offsets L c z fromMs floorMs OFFSET_CHANGE_LOOKAHEAD_DAYS 1 (utcOffsetMs L z fromMs) shortest))))"

subsection \<open>Validation and backoff\<close>

datatype schedule_problem = Bad_date | In_past | Bad_cron | Too_frequent | Bad_interval

definition validateSchedule :: "calendar \<Rightarrow> schedule \<Rightarrow> int \<Rightarrow> int \<Rightarrow> schedule_problem list" where
  "validateSchedule L s minIntervalSec fromMs = (case s of
     Once at \<Rightarrow> (case parse_date L at of None \<Rightarrow> [Bad_date] | Some t \<Rightarrow> if t \<le> fromMs then [In_past] else [])
   | Cron c tz \<Rightarrow> (case cronIntervalMs L c tz fromMs (minIntervalSec * 1000) of
       None \<Rightarrow> [Bad_cron]
     | Some g \<Rightarrow> if gap_below g (minIntervalSec * 1000) then [Too_frequent] else [])
   | Interval n \<Rightarrow> if n \<le> 0 then [Bad_interval] else if n < minIntervalSec then [Too_frequent] else [])"

definition backoffDelayMs :: "nat \<Rightarrow> int" where
  "backoffDelayMs n = (if n = 0 then 0 else min (FAILURE_BACKOFF_BASE_MS * 2 ^ (min (n - 1) 30)) FAILURE_BACKOFF_MAX_MS)"

lemma backoff_bounds: "n > 0 \<Longrightarrow> FAILURE_BACKOFF_BASE_MS \<le> backoffDelayMs n \<and> backoffDelayMs n \<le> FAILURE_BACKOFF_MAX_MS"
proof -
  assume "n > 0"
  have "(1 :: int) \<le> 2 ^ (min (n - 1) 30)" by simp
  with \<open>n > 0\<close> show ?thesis by (simp add: backoffDelayMs_def FAILURE_BACKOFF_BASE_MS_def FAILURE_BACKOFF_MAX_MS_def)
qed

lemma backoff_mono: "m \<le> n \<Longrightarrow> backoffDelayMs m \<le> backoffDelayMs n"
proof -
  assume mn: "m \<le> n"
  show ?thesis
  proof (cases "m = 0")
    case True
    then show ?thesis by (simp add: backoffDelayMs_def FAILURE_BACKOFF_BASE_MS_def FAILURE_BACKOFF_MAX_MS_def)
  next
    case False
    have "(2 :: int) ^ (min (m - 1) 30) \<le> 2 ^ (min (n - 1) 30)"
      by (rule power_increasing) (use mn in auto)
    then have "min (FAILURE_BACKOFF_BASE_MS * 2 ^ min (m - 1) 30) FAILURE_BACKOFF_MAX_MS
        \<le> min (FAILURE_BACKOFF_BASE_MS * 2 ^ min (n - 1) 30) FAILURE_BACKOFF_MAX_MS"
      by (intro min.mono mult_left_mono) (simp_all add: FAILURE_BACKOFF_BASE_MS_def)
    with False mn show ?thesis by (simp add: backoffDelayMs_def)
  qed
qed

end
