(* ===== verification/Task_Cron.thy ===== *)
theory Task_Cron
  imports Task_Schedule
begin

text \<open>
  The minimum-frequency check of cron patterns, against its specification: the wall-clock gap that
  \<open>cronIntervalMs\<close> computes from the times of day and the two closest firing days is the shortest gap
  between any two consecutive fires on the scanned days.
\<close>

fun gaps :: "int list \<Rightarrow> int list" where
  "gaps [] = []"
| "gaps [a] = []"
| "gaps (a # b # xs) = (b - a) # gaps (b # xs)"

lemma gap_min_opt [simp]: "gap_min g x = opt_min g x"
  by (cases g) (simp_all add: gap_min_def)

lemma day_gaps_least: "is_least A g \<Longrightarrow> is_least (A \<union> set (gaps xs)) (day_gaps g xs)"
proof (induction xs arbitrary: A g rule: gaps.induct)
  case (3 a b xs)
  from 3(1) [OF is_least_insert [OF 3(2), of "b - a"]] show ?case by simp
qed simp_all

lemma gaps_append:
  "xs \<noteq> [] \<Longrightarrow> ys \<noteq> [] \<Longrightarrow> gaps (xs @ ys) = gaps xs @ (hd ys - last xs) # gaps ys"
proof (induction xs rule: gaps.induct)
  case (2 a)
  then show ?case by (cases ys) simp_all
qed simp_all

lemma gaps_shift [simp]: "gaps (map ((+) d) xs) = gaps xs"
  by (induction xs rule: gaps.induct) simp_all

definition fires_on :: "int list \<Rightarrow> int list \<Rightarrow> int list" where
  "fires_on ts days = concat (map (\<lambda>d. map ((+) d) ts) days)"

lemma fires_on_simps [simp]:
  "fires_on ts [] = []" "fires_on ts (d # days) = map ((+) d) ts @ fires_on ts days"
  by (simp_all add: fires_on_def)

lemma fires_hd: "ts \<noteq> [] \<Longrightarrow> days \<noteq> [] \<Longrightarrow> fires_on ts days \<noteq> [] \<and> hd (fires_on ts days) = hd days + hd ts"
  by (cases days) (simp_all add: hd_map)

lemma fires_gaps:
  assumes "ts \<noteq> []" and "days \<noteq> []"
  shows "set (gaps (fires_on ts days)) = set (gaps ts) \<union> (\<lambda>n. n - (last ts - hd ts)) ` set (gaps days)"
  using assms(2)
proof (induction days rule: gaps.induct)
  case (3 a b xs)
  let ?r = "fires_on ts (b # xs)"
  have h: "?r \<noteq> [] \<and> hd ?r = b + hd ts" using fires_hd [OF assms(1), of "b # xs"] by simp
  have "fires_on ts (a # b # xs) = map ((+) a) ts @ ?r" by simp
  then have "gaps (fires_on ts (a # b # xs)) = gaps ts @ (b + hd ts - (a + last ts)) # gaps ?r"
    using h assms(1) by (simp add: gaps_append last_map del: fires_on_simps(2))
  moreover have "b + hd ts - (a + last ts) = (b - a) - (last ts - hd ts)" by simp
  ultimately show ?case using 3 by auto
qed (simp_all)

text \<open>The scan of the days finds the least difference, in days.\<close>

lemma round_days_mult [simp]: "round_days (k * DAY_MS) = k"
proof -
  have "2 * (k * DAY_MS) + DAY_MS = k * (2 * DAY_MS) + DAY_MS" by simp
  then show ?thesis unfolding round_days_def by (simp add: DAY_MS_def)
qed

definition whole_days :: "int list \<Rightarrow> bool" where
  "whole_days days \<longleftrightarrow> sorted_wrt (<) days \<and> (\<forall>d \<in> set days. DAY_MS dvd d)"

lemma whole_gap:
  assumes "DAY_MS dvd a" and "DAY_MS dvd b" and "a < b"
  shows "1 \<le> round_days (b - a)" and "round_days (b - a) * DAY_MS = b - a"
proof -
  from assms obtain k where k: "b - a = k * DAY_MS" by (metis dvd_diff dvd_def mult.commute)
  with assms(3) have "k * DAY_MS > 0" by simp
  then have "k > 0" by (simp add: DAY_MS_def)
  with k show "1 \<le> round_days (b - a)" "round_days (b - a) * DAY_MS = b - a" by simp_all
qed

lemma scan_days_least:
  assumes "is_least A c" and "\<forall>x \<in> A. 1 \<le> x" and "whole_days (p # days)" and "c \<noteq> Some 1"
  shows "is_least (A \<union> round_days ` set (gaps (p # takeWhile (\<lambda>d. d \<le> lim) days))) (scan_days lim (Some p) c days)"
  using assms
proof (induction days arbitrary: A c p)
  case Nil
  then show ?case by simp
next
  case (Cons d days)
  let ?x = "round_days (d - p)"
  have w: "whole_days (d # days)" and "p < d" "DAY_MS dvd p" "DAY_MS dvd d"
    using Cons.prems(3) by (auto simp: whole_days_def)
  then have x: "1 \<le> ?x" by (intro whole_gap)
  have l: "is_least (insert ?x A) (opt_min c ?x)" by (rule is_least_insert [OF Cons.prems(1)])
  have pos: "\<forall>y \<in> insert ?x A. 1 \<le> y" using x Cons.prems(2) by simp
  show ?case
  proof (cases "d \<le> lim")
    case False
    with Cons.prems(1) show ?thesis by simp
  next
    case True
    show ?thesis
    proof (cases "opt_min c ?x = Some 1")
      case False
      with Cons.IH [OF l pos w] True show ?thesis by (simp add: insert_commute)
    next
      case stop: True
      have ge: "\<forall>y \<in> set (gaps (d # takeWhile (\<lambda>d. d \<le> lim) days)). 1 \<le> round_days y"
      proof -
        have "\<forall>y \<in> set (gaps xs). 1 \<le> round_days y" if "whole_days xs" for xs
          using that
        proof (induction xs rule: gaps.induct)
          case (3 a b xs)
          then have "whole_days (b # xs)" "a < b" "DAY_MS dvd a" "DAY_MS dvd b" by (auto simp: whole_days_def)
          with 3 show ?case by (simp add: whole_gap)
        qed simp_all
        moreover have "whole_days (d # takeWhile (\<lambda>d. d \<le> lim) days)"
          using w by (auto simp: whole_days_def sorted_wrt_takeWhile dest: set_takeWhileD)
        ultimately show ?thesis by blast
      qed
      have "is_least (insert ?x A \<union> round_days ` set (gaps (d # takeWhile (\<lambda>d. d \<le> lim) days))) (Some 1)"
        using l pos ge stop by (auto simp: is_least_def)
      with stop True show ?thesis by (simp add: insert_commute)
    qed
  qed
qed

text \<open>
  C39. The gap computed from the times of day and the firing days is the shortest gap between
  consecutive fires on the scanned days: within a day, over midnight, and over days without a fire.\<close>

theorem clock_gap_exact:
  assumes "whole_days days" and "days \<noteq> []" and "hd days \<le> lim" and "ts \<noteq> []"
  shows "clock_gap ts (scan_days lim None None days) = day_gaps None (fires_on ts (takeWhile (\<lambda>d. d \<le> lim) days))"
proof -
  obtain p ds where d: "days = p # ds" using assms(2) by (cases days) auto
  let ?in = "takeWhile (\<lambda>d. d \<le> lim) days"
  let ?span = "last ts - hd ts"
  have inn: "?in = p # takeWhile (\<lambda>d. d \<le> lim) ds" using assms(3) d by simp
  have n: "is_least (round_days ` set (gaps ?in)) (scan_days lim None None days)"
    using scan_days_least [of "{}" None p ds lim] assms(1,3) d by (simp add: inn)
  have whole: "round_days y * DAY_MS = y" if "y \<in> set (gaps ?in)" for y
  proof -
    have "\<forall>y \<in> set (gaps xs). round_days y * DAY_MS = y" if "whole_days xs" for xs
      using that
    proof (induction xs rule: gaps.induct)
      case (3 a b xs)
      then have "whole_days (b # xs)" "a < b" "DAY_MS dvd a" "DAY_MS dvd b" by (auto simp: whole_days_def)
      with 3 show ?case by (simp add: whole_gap)
    qed simp_all
    moreover have "whole_days ?in"
      using assms(1) by (auto simp: whole_days_def sorted_wrt_takeWhile dest: set_takeWhileD)
    ultimately show ?thesis using that by blast
  qed
  have ts: "is_least (set (gaps ts)) (day_gaps None ts)" using day_gaps_least [of "{}" None ts] by simp
  have "is_least (set (gaps ts) \<union> (\<lambda>n. n - ?span) ` set (gaps ?in)) (clock_gap ts (scan_days lim None None days))"
  proof (cases "scan_days lim None None days")
    case None
    with n have "gaps ?in = []" by (simp add: is_least_def)
    with None ts show ?thesis by (simp add: clock_gap_def Let_def)
  next
    case (Some m)
    with n obtain y where y: "y \<in> set (gaps ?in)" "m = round_days y" and le: "\<forall>z \<in> set (gaps ?in). m \<le> round_days z"
      by (auto simp: is_least_def)
    have my: "m * DAY_MS = y" using y whole by simp
    have "m * DAY_MS \<le> z" if "z \<in> set (gaps ?in)" for z
      using le whole that by (metis DAY_MS_def mult_right_mono zero_le_numeral)
    then have "is_least (set (gaps ts) \<union> (\<lambda>n. n - ?span) ` set (gaps ?in)) (opt_min (day_gaps None ts) (m * DAY_MS - ?span))"
      using is_least_insert [OF ts, of "m * DAY_MS - ?span"] y(1) my by (cases "opt_min (day_gaps None ts) (m * DAY_MS - ?span)") (fastforce simp: is_least_def)+
    with Some assms(4) show ?thesis by (simp add: clock_gap_def Let_def)
  qed
  moreover have "is_least (set (gaps ts) \<union> (\<lambda>n. n - ?span) ` set (gaps ?in)) (day_gaps None (fires_on ts ?in))"
    using day_gaps_least [of "{}" None "fires_on ts ?in"] fires_gaps [OF assms(4), of ?in] inn by simp
  ultimately show ?thesis by (rule is_least_unique)
qed

theorem clock_gap_exact_witness:
  "clock_gap [0, 82800000] (scan_days 864000000 None None [0, 259200000, 345600000]) = day_gaps None [0, 82800000, 259200000, 342000000, 345600000, 428400000]"
proof -
  have w: "whole_days [0, 259200000, 345600000]" by (simp add: whole_days_def DAY_MS_def)
  show ?thesis using clock_gap_exact [of "[0, 259200000, 345600000]" 864000000 "[0, 82800000]"] w
    by (simp add: fires_on_def del: day_gaps.simps)
qed

end
