(* ===== verification/Task_Store.thy ===== *)
theory Task_Store
  imports Task_Schedule "HOL-Library.Char_ord" "HOL-Library.List_Lexorder"
begin

text \<open>
  \<open>packages/oracle-runtime-workers/src/tasks/store.ts\<close>: the tables \<open>tasks\<close> and \<open>task_runs\<close> as lists of
  records, and the statements of the store as functions on them. The rendered spec and the timestamps
  nothing decides on are left out; a Topic request stands for its JSON text.
\<close>

datatype task_status = T_active | T_paused | T_completed | T_cancelled | T_failed
datatype approval_mode = Never | Before_action

record task_record =
  tk_id :: string
  tk_title :: string
  tk_intent :: string
  tk_profile :: "string option"
  tk_schedule :: schedule
  tk_status :: task_status
  tk_approval :: approval_mode
  tk_created :: int
  tk_next :: "int option"
  tk_last_run :: "int option"
  tk_last_ok :: "bool option"
  tk_failures :: nat
  tk_pending :: "int option"
  tk_room :: "string option"
  tk_topic :: "(string \<times> string) option"
  tk_approved :: "int option"
  tk_note :: "string option"

datatype task_run_state = Running | Delivering | Delivered | R_failed | Interrupted

record task_run =
  rn_id :: nat
  rn_task :: string
  rn_started :: int
  rn_state :: "task_run_state option"
  rn_room :: "string option"
  rn_text :: "string option"
  rn_completed :: bool
  rn_ok :: "bool option"
  rn_attempts :: nat
  rn_retry :: "int option"

record task_db =
  db_tasks :: "task_record list"
  db_runs :: "task_run list"

definition TASK_EXECUTION_PROFILES :: "string list" where
  "TASK_EXECUTION_PROFILES = [''supplied-context-markdown'']"

definition loadable :: "task_record \<Rightarrow> bool" where
  "loadable t \<longleftrightarrow> (case tk_profile t of None \<Rightarrow> True | Some p \<Rightarrow> p \<in> set TASK_EXECUTION_PROFILES)"

subsection \<open>Tasks\<close>

definition task_row :: "string \<Rightarrow> task_db \<Rightarrow> task_record option" where
  "task_row i db = find (\<lambda>t. tk_id t = i) (db_tasks db)"

definition db_get :: "string \<Rightarrow> task_db \<Rightarrow> task_record option" where
  "db_get i db = (case task_row i db of None \<Rightarrow> None | Some t \<Rightarrow> if loadable t then Some t else None)"

definition insert_task :: "task_record \<Rightarrow> task_db \<Rightarrow> task_db" where
  "insert_task t db = db\<lparr>db_tasks := db_tasks db @ [t\<lparr>tk_approved := None, tk_note := None\<rparr>]\<rparr>"

definition set_task :: "task_record \<Rightarrow> task_db \<Rightarrow> task_db" where
  "set_task t db = db\<lparr>db_tasks := map (\<lambda>r. if tk_id r = tk_id t then t else r) (db_tasks db)\<rparr>"

text \<open>The approval columns stay as they are, unless the task is not active; \<open>None\<close>: no row was changed.\<close>

definition save_task :: "task_record \<Rightarrow> task_db \<Rightarrow> task_db option" where
  "save_task t db = (case task_row (tk_id t) db of
     None \<Rightarrow> None
   | Some r \<Rightarrow>
       if tk_topic r = None \<or> tk_status r \<noteq> T_cancelled \<or> tk_status t = T_cancelled
       then Some (set_task (t\<lparr>tk_approved := (if tk_status t = T_active then tk_approved r else None),
              tk_note := (if tk_status t = T_active then tk_note r else None)\<rparr>) db)
       else None)"

definition approve_task :: "string \<Rightarrow> int \<Rightarrow> string option \<Rightarrow> task_db \<Rightarrow> bool \<times> task_db" where
  "approve_task i at note db = (case task_row i db of
     None \<Rightarrow> (False, db)
   | Some r \<Rightarrow> if tk_status r = T_active then (True, set_task (r\<lparr>tk_approved := Some at, tk_note := note\<rparr>) db) else (False, db))"

definition claim_approval :: "string \<Rightarrow> task_db \<Rightarrow> bool \<times> task_db" where
  "claim_approval i db = (case task_row i db of
     None \<Rightarrow> (False, db)
   | Some r \<Rightarrow> if tk_approved r \<noteq> None then (True, set_task (r\<lparr>tk_approved := None, tk_note := None\<rparr>) db) else (False, db))"

definition topic_task :: "string \<Rightarrow> task_db \<Rightarrow> task_record option" where
  "topic_task op db = (case find (\<lambda>t. map_option fst (tk_topic t) = Some op) (db_tasks db) of
     None \<Rightarrow> None | Some t \<Rightarrow> if loadable t then Some t else None)"

text \<open>The raw profile of a row this runtime cannot load; every loadable task, oldest first.\<close>

definition unsupportedProfileOf :: "string \<Rightarrow> task_db \<Rightarrow> string option" where
  "unsupportedProfileOf i db = (case task_row i db of None \<Rightarrow> None | Some t \<Rightarrow> if loadable t then None else tk_profile t)"

definition list_tasks :: "task_db \<Rightarrow> task_record list" where
  "list_tasks db = filter loadable (sort_key tk_created (sort_key tk_id (db_tasks db)))"

definition countLive :: "task_db \<Rightarrow> nat" where
  "countLive db = length (filter (\<lambda>t. tk_status t \<in> {T_active, T_paused}) (db_tasks db))"

definition opt_list :: "'a option \<Rightarrow> 'a list" where "opt_list x = (case x of None \<Rightarrow> [] | Some a \<Rightarrow> [a])"

definition list_min :: "int list \<Rightarrow> int option" where
  "list_min xs = (if xs = [] then None else Some (Min (set xs)))"

text \<open>The deadlines of a task: its next run and its approved run.\<close>

definition deadlines :: "task_record \<Rightarrow> int list" where
  "deadlines t = (if tk_status t = T_active \<and> loadable t then opt_list (tk_next t) @ opt_list (tk_approved t) else [])"

definition minNextRunAt :: "string list \<Rightarrow> task_db \<Rightarrow> int option" where
  "minNextRunAt exclude db = list_min (concat (map deadlines (filter (\<lambda>t. tk_id t \<notin> set exclude) (db_tasks db))))"

definition due_tasks :: "int \<Rightarrow> task_db \<Rightarrow> task_record list" where
  "due_tasks now db = sort_key (\<lambda>t. Min (set (deadlines t))) (sort_key tk_id (filter (\<lambda>t. \<exists>d \<in> set (deadlines t). d \<le> now) (db_tasks db)))"

subsection \<open>Runs\<close>

definition is_open :: "task_run \<Rightarrow> bool" where
  "is_open r \<longleftrightarrow> rn_state r = Some Running \<or> rn_state r = Some Delivering"

definition is_closed :: "task_run_state option \<Rightarrow> bool" where
  "is_closed s \<longleftrightarrow> s \<in> {Some Delivered, Some R_failed, Some Interrupted}"

definition MAX_RUNS_KEPT_PER_TASK :: nat where "MAX_RUNS_KEPT_PER_TASK = 50"

definition is_topic_run :: "task_db \<Rightarrow> task_run \<Rightarrow> bool" where
  "is_topic_run db r \<longleftrightarrow> list_ex (\<lambda>t. tk_id t = rn_task r \<and> tk_topic t \<noteq> None) (db_tasks db)"

text \<open>Newest first, by start and id; the rows to keep, then the texts of closed ordinary runs.\<close>

definition newest :: "string \<Rightarrow> task_run list \<Rightarrow> task_run list" where
  "newest i rs = rev (sort_key rn_started (sort_key rn_id (filter (\<lambda>r. rn_task r = i) rs)))"

definition topicRun :: "string \<Rightarrow> task_db \<Rightarrow> task_run option" where
  "topicRun i db = (case newest i (db_runs db) of [] \<Rightarrow> None | r # rs \<Rightarrow> Some r)"

definition listRuns :: "string \<Rightarrow> nat \<Rightarrow> task_db \<Rightarrow> task_run list" where
  "listRuns i limit db = take limit (newest i (db_runs db))"

definition pruneRuns :: "string \<Rightarrow> task_db \<Rightarrow> task_db" where
  "pruneRuns i db =
    (let keep = map rn_id (take MAX_RUNS_KEPT_PER_TASK (newest i (db_runs db)));
         rows = filter (\<lambda>r. \<not> (rn_task r = i \<and> \<not> is_open r \<and> rn_id r \<notin> set keep)) (db_runs db)
     in db\<lparr>db_runs := map (\<lambda>r. if rn_task r = i \<and> is_closed (rn_state r) \<and> \<not> is_topic_run db r then r\<lparr>rn_text := None\<rparr> else r) rows\<rparr>)"

definition recordRun :: "task_run \<Rightarrow> task_db \<Rightarrow> task_db" where
  "recordRun r db = pruneRuns (rn_task r) (db\<lparr>db_runs := db_runs db @ [r]\<rparr>)"

definition startRun :: "nat \<Rightarrow> string \<Rightarrow> int \<Rightarrow> task_db \<Rightarrow> task_db" where
  "startRun rid i started db = recordRun \<lparr>rn_id = rid, rn_task = i, rn_started = started, rn_state = Some Running,
     rn_room = None, rn_text = None, rn_completed = False, rn_ok = None, rn_attempts = 0, rn_retry = None\<rparr> db"

record run_changes =
  pt_state :: "task_run_state option"
  pt_room :: "string option"
  pt_text :: "string option"
  pt_completed :: bool
  pt_ok :: "bool option"
  pt_attempts :: "nat option"
  pt_retry :: "int option option"

definition no_changes :: run_changes where
  "no_changes = \<lparr>pt_state = None, pt_room = None, pt_text = None, pt_completed = False, pt_ok = None,
     pt_attempts = None, pt_retry = None\<rparr>"

definition patch_run :: "task_db \<Rightarrow> run_changes \<Rightarrow> task_run \<Rightarrow> task_run" where
  "patch_run db p r =
    (let closing = is_closed (pt_state p) in
     r\<lparr>rn_state := (case pt_state p of None \<Rightarrow> rn_state r | Some s \<Rightarrow> Some s),
       rn_room := (case pt_room p of None \<Rightarrow> rn_room r | Some x \<Rightarrow> Some x),
       rn_text := (case pt_text p of Some x \<Rightarrow> Some x
         | None \<Rightarrow> if closing \<and> \<not> is_topic_run db r then None else rn_text r),
       rn_completed := (pt_completed p \<or> rn_completed r),
       rn_ok := (case pt_ok p of None \<Rightarrow> rn_ok r | Some b \<Rightarrow> Some b),
       rn_attempts := (case pt_attempts p of None \<Rightarrow> rn_attempts r | Some n \<Rightarrow> n),
       rn_retry := (case pt_retry p of Some x \<Rightarrow> x | None \<Rightarrow> if closing then None else rn_retry r)\<rparr>)"

definition updateRun :: "nat \<Rightarrow> run_changes \<Rightarrow> task_db \<Rightarrow> task_db" where
  "updateRun rid p db = db\<lparr>db_runs := map (\<lambda>r. if rn_id r = rid then patch_run db p r else r) (db_runs db)\<rparr>"

definition openRuns :: "task_db \<Rightarrow> task_run list" where
  "openRuns db = sort_key rn_started (sort_key rn_id (filter is_open (db_runs db)))"

definition getOpenRun :: "nat \<Rightarrow> task_db \<Rightarrow> task_run option" where
  "getOpenRun rid db = find (\<lambda>r. rn_id r = rid \<and> is_open r) (db_runs db)"

definition minRetryAt :: "task_db \<Rightarrow> int option" where
  "minRetryAt db = list_min (concat (map (\<lambda>r. opt_list (rn_retry r)) (filter (\<lambda>r. rn_state r = Some Delivering) (db_runs db))))"

end
