(* ===== verification/Task_State.thy ===== *)
theory Task_State
  imports Task_Store
begin

text \<open>
  \<open>packages/oracle-runtime-workers/src/tasks/scheduler.ts\<close>, data: the options of the scheduler, the
  state of an instance of \<open>AlarmTaskScheduler\<close> with its database, and the calls that are suspended on
  an \<open>await\<close>. A suspended call is a stack of frames: the topmost says what is awaited, the ones below
  are the callers. Run ids stand for \<open>crypto.randomUUID()\<close>: they are drawn from a counter. A character
  of a string stands for a UTF-16 code unit.
\<close>

definition MAX_CONCURRENT_TASK_RUNS :: nat where "MAX_CONCURRENT_TASK_RUNS = 3"
definition MAX_DELIVERY_ROUNDS :: nat where "MAX_DELIVERY_ROUNDS = 5"

definition TASK_SESSION_PREFIX :: string where "TASK_SESSION_PREFIX = ''task:''"

definition taskIdOfSession :: "string \<Rightarrow> string option" where
  "taskIdOfSession s = (if startsWith s TASK_SESSION_PREFIX then Some (drop (length TASK_SESSION_PREFIX) s) else None)"

subsection \<open>Text\<close>

definition js_space :: "char \<Rightarrow> bool" where
  "js_space c \<longleftrightarrow> of_char c \<in> {9 :: nat, 10, 11, 12, 13, 32, 160}"

definition js_trim :: "string \<Rightarrow> string" where
  "js_trim s = rev (dropWhile js_space (rev (dropWhile js_space s)))"

definition word_char :: "char \<Rightarrow> bool" where
  "word_char c \<longleftrightarrow> (let n = of_char c :: nat in (48 \<le> n \<and> n \<le> 57) \<or> (65 \<le> n \<and> n \<le> 90) \<or> (97 \<le> n \<and> n \<le> 122) \<or> n = 95)"

definition lower_char :: "char \<Rightarrow> char" where
  "lower_char c = (let n = of_char c :: nat in if 65 \<le> n \<and> n \<le> 90 then char_of (n + 32) else c)"

text \<open>\<open>/\b(monitor|ongoing|watch|track)\b/i\<close>: one of the maximal words is one of the four.\<close>

fun js_words :: "string \<Rightarrow> string \<Rightarrow> string list" where
  "js_words w [] = [rev w]"
| "js_words w (c # cs) = (if word_char c then js_words (lower_char c # w) cs else rev w # js_words [] cs)"

definition ongoing_intent :: "string \<Rightarrow> bool" where
  "ongoing_intent s = list_ex (\<lambda>w. w \<in> {''monitor'', ''ongoing'', ''watch'', ''track''}) (js_words [] s)"

definition em_dash :: string where "em_dash = [char_of (226 :: nat), char_of (128 :: nat), char_of (148 :: nat)]"

definition nl :: string where "nl = [char_of (10 :: nat)]"

definition quote_mark :: string where "quote_mark = [char_of (34 :: nat)]"

definition buildRunMessage :: "task_record \<Rightarrow> string option \<Rightarrow> string" where
  "buildRunMessage t note =
    ''[Scheduled task run '' @ em_dash @ '' '' @ quote_mark @ tk_title t @ quote_mark @ '' ('' @ tk_id t @ '')]'' @ nl
    @ ''You are executing a scheduled background task for the user. No user is present in this turn: do the work now and reply with the final result only '' @ em_dash
    @ '' your reply is delivered to their chat room as the task result.'' @ nl
    @ (case note of None \<Rightarrow> [] | Some n \<Rightarrow> if js_trim n = [] then [] else
        nl @ ''The user approved this run with a note: '' @ js_trim n @ nl)
    @ nl @ ''Task instructions:'' @ nl @ tk_intent t"

subsection \<open>Options and environment\<close>

text \<open>
  \<open>tc_retries\<close> is the number of delays of \<open>retryGateway\<close>, \<open>tc_backoff\<close> the pauses between delivery
  rounds, \<open>tc_mxid\<close> says that the user's Matrix id is known.
\<close>

record task_config =
  tc_cal :: calendar
  tc_max :: nat
  tc_min :: int
  tc_retries :: nat
  tc_backoff :: "int list"
  tc_mxid :: bool

datatype task_txn = Run_txn nat | Run_notice nat | Random_notice nat | Approval_txn string int | No_txn

datatype task_body = Body_result string string | Body_approval string | Body_stopped nat | Body_undelivered | Body_failed | Body_summary

type_synonym task_msg = "string \<times> task_txn \<times> task_body"

text \<open>
  What an awaited promise settles with: a statement that took effect or an agent turn's text; an
  error; a room or none; a send that failed, with whether the message got out nevertheless and whether
  the error is transient.
\<close>

datatype task_answer = Done | Throws | Room "string option" | Turn_text string | Send_fails bool bool

subsection \<open>Calls of the surface\<close>

datatype room_choice = Room_auto | Room_yes | Room_no

record task_input =
  in_title :: string
  in_intent :: string
  in_schedule :: schedule
  in_approval :: "approval_mode option"
  in_profile :: "string option"
  in_room :: room_choice

record task_patch =
  pa_title :: "string option"
  pa_intent :: "string option"
  pa_approval :: "approval_mode option"
  pa_schedule :: "schedule option"
  pa_profile :: "string option option"
  pa_room :: "room_choice option"

datatype surface_op = Op_update task_patch | Op_pause | Op_resume | Op_check_cancel | Op_cancel
  | Op_resolve bool "string option"

datatype surface_error = Not_found | Profile_immutable | Supplied_context | Wrong_status task_status
  | Bad_title | Empty_intent | Bad_schedule "schedule_problem list" | No_future_run | Is_topic

subsection \<open>Suspended calls\<close>

text \<open>A run being executed: its id, the task as it was fired, the approval it runs under, and the tick's time.\<close>

record task_exec =
  ex_rid :: nat
  ex_task :: task_record
  ex_approved :: bool
  ex_note :: "string option"
  ex_now :: int

datatype ledger = Ledger (lg_rid: nat) (lg_state: task_run_state) (lg_undelivered: bool)

text \<open>
  A worker of a tick (\<open>W_\<close>), \<open>executeRun\<close> (\<open>X_\<close>), \<open>requestApproval\<close> (\<open>Q_\<close>), \<open>deliverOrDefer\<close>
  (\<open>D_\<close>), \<open>recordFailure\<close> (\<open>F_\<close>), \<open>reconcileOpenRuns\<close> (\<open>R_\<close>), the scan and the end of a tick (\<open>T_\<close>),
  \<open>completeRecoveredRun\<close> (\<open>C_\<close>), \<open>failRecoveredRun\<close> (\<open>G_\<close>), \<open>rearm\<close> (\<open>A_\<close>), the surface (\<open>P_\<close>, \<open>N_\<close>).
  \<open>W_fire\<close>, \<open>X_send\<close>, \<open>R_wait\<close> and \<open>C_fin\<close> wait for the call above them.
\<close>

datatype exec_frame =
    X_open task_exec
  | X_room task_exec
  | X_turn task_exec "string option"
  | X_read task_exec "string option" string
  | X_drop task_exec
  | X_store task_exec "string option" task_record string

datatype request_frame =
    Q_room task_record int
  | Q_send task_record int string nat
  | Q_save task_record int

datatype delivery_frame =
    D_room task_record task_run int
  | D_send task_record task_run int string nat
  | D_defer nat nat int
  | D_alarm
  | D_done task_record task_run

datatype failure_frame =
    F_read task_record int int "ledger option"
  | F_row ledger
  | F_save task_record int "ledger option" bool
  | F_room task_record "ledger option"
  | F_send task_record "ledger option" string nat

datatype tick_frame =
    W_read nat string
  | R_open nat int
  | R_get nat int task_run "task_run list"
  | R_close nat int nat task_run_state "task_run list"
  | T_due nat int
  | T_wake nat "string list"

datatype recovered_frame =
    C_open nat string
  | C_get task_run string
  | C_drop nat
  | C_room task_record task_run string int
  | C_save task_record task_run "string option" string int
  | C_fresh task_record task_run int
  | G_open nat
  | G_get task_run
  | G_close nat
  | A_wake "string list"

datatype call_frame =
    P_load surface_op string
  | P_save task_record "int option"
  | P_decide task_record bool "string option" int
  | N_count task_input string "schedule_problem list"
  | N_room task_record int
  | N_summary task_record int string
  | N_insert task_record int

datatype frame =
    W_fire nat string
  | X_send nat
  | R_wait nat int "task_run list"
  | C_fin string
  | Executing exec_frame
  | Requesting request_frame
  | Sending delivery_frame
  | Failing failure_frame
  | Ticking tick_frame
  | Recovered recovered_frame
  | Calling call_frame

text \<open>A tick: its time, the due tasks not yet taken up, and the workers still running.\<close>

record tick =
  ti_now :: int
  ti_due :: "task_record list"
  ti_workers :: nat

text \<open>
  \<open>sc_live\<close> holds the runs \<open>turnRunLive\<close> answers true for, \<open>sc_closing\<close> those whose turn ended and whose
  end has not been reported yet. The last fields record what happened: messages that got out, turns
  begun, approvals taken, approvals granted, alarms asked for, and what the ticks returned.
\<close>

record sched =
  sc_db :: task_db
  sc_active :: "(nat \<times> string) list"
  sc_recovering :: "string list"
  sc_firing :: "string list"
  sc_procs :: "frame list list"
  sc_ticks :: "nat \<Rightarrow> tick"
  sc_fresh :: nat
  sc_live :: "nat list"
  sc_closing :: "nat list"
  sc_sent :: "task_msg list"
  sc_turns :: "task_exec list"
  sc_claims :: "(nat \<times> string) list"
  sc_grants :: "string list"
  sc_alarms :: "int list"
  sc_wakes :: "int option list"

definition no_tick :: tick where "no_tick = \<lparr>ti_now = 0, ti_due = [], ti_workers = 0\<rparr>"

text \<open>An instance that just task_boot on a database.\<close>

definition task_boot :: "task_db \<Rightarrow> nat \<Rightarrow> nat list \<Rightarrow> sched" where
  "task_boot db n runs = \<lparr>sc_db = db, sc_active = [], sc_recovering = [], sc_firing = [], sc_procs = [],
     sc_ticks = (\<lambda>_. no_tick), sc_fresh = n, sc_live = runs, sc_closing = [], sc_sent = [], sc_turns = [],
     sc_claims = [], sc_grants = [], sc_alarms = [], sc_wakes = []\<rparr>"

definition put :: "frame list \<Rightarrow> sched \<Rightarrow> sched" where
  "put p S = S\<lparr>sc_procs := p # sc_procs S\<rparr>"

definition ask_alarm :: "int \<Rightarrow> sched \<Rightarrow> sched" where
  "ask_alarm at S = S\<lparr>sc_alarms := at # sc_alarms S\<rparr>"

definition drop_active :: "nat \<Rightarrow> sched \<Rightarrow> sched" where
  "drop_active rid S = S\<lparr>sc_active := filter (\<lambda>a. fst a \<noteq> rid) (sc_active S)\<rparr>"

definition release :: "string \<Rightarrow> sched \<Rightarrow> sched" where
  "release i S = S\<lparr>sc_firing := removeAll i (sc_firing S)\<rparr>"

definition hasActiveRun :: "string \<Rightarrow> sched \<Rightarrow> bool" where
  "hasActiveRun i S \<longleftrightarrow> i \<in> set (map snd (sc_active S))"

definition isRunActive :: "nat \<Rightarrow> sched \<Rightarrow> bool" where
  "isRunActive rid S \<longleftrightarrow> rid \<in> set (map fst (sc_active S))"

definition isBusy :: "string \<Rightarrow> sched \<Rightarrow> bool" where
  "isBusy i S \<longleftrightarrow> i \<in> set (sc_firing S) \<or> i \<in> set (sc_recovering S) \<or> hasActiveRun i S"

definition busyTaskIds :: "sched \<Rightarrow> string list" where
  "busyTaskIds S = remdups (sc_firing S @ sc_recovering S @ map snd (sc_active S))"

definition nextWakeAt :: "string list \<Rightarrow> task_db \<Rightarrow> int option" where
  "nextWakeAt busy db = (case minNextRunAt busy db of None \<Rightarrow> minRetryAt db
     | Some a \<Rightarrow> (case minRetryAt db of None \<Rightarrow> Some a | Some b \<Rightarrow> Some (min a b)))"

definition rearm :: "sched \<Rightarrow> sched" where "rearm S = put [Recovered (A_wake (busyTaskIds S))] S"

lemma busy_ids: "set (busyTaskIds S) = {i. isBusy i S}"
  by (auto simp: busyTaskIds_def isBusy_def hasActiveRun_def)

end
