(* ===== verification/Task_Scheduler.thy ===== *)
theory Task_Scheduler
  imports Task_State
begin

text \<open>
  \<open>scheduler.ts\<close>, the operations, each cut at its awaits: a function is the code that runs from one
  await to the next, and ends by suspending itself again (\<open>put\<close>) or by returning to its caller (\<open>ret\<close>,
  or \<open>throw_to\<close> with an error). A statement of the store takes effect when its call is resumed.
\<close>

subsection \<open>Starting a run\<close>

definition executeRun :: "task_record \<Rightarrow> int \<Rightarrow> bool \<Rightarrow> string option \<Rightarrow> frame list \<Rightarrow> sched \<Rightarrow> sched" where
  "executeRun t now approved note rest S =
    (let rid = sc_fresh S
     in put (Executing (X_open \<lparr>ex_rid = rid, ex_task = t, ex_approved = approved, ex_note = note, ex_now = now\<rparr>) # rest)
          (S\<lparr>sc_fresh := Suc rid, sc_active := (rid, tk_id t) # sc_active S\<rparr>))"

definition requestApproval :: "task_record \<Rightarrow> int \<Rightarrow> frame list \<Rightarrow> sched \<Rightarrow> sched" where
  "requestApproval t now rest S = put (Requesting (Q_room t now) # rest) S"

definition fire :: "task_record \<Rightarrow> int \<Rightarrow> frame list \<Rightarrow> sched \<Rightarrow> sched" where
  "fire t now rest S =
    (if tk_status t \<noteq> T_active then put rest S
     else if (case tk_approved t of None \<Rightarrow> False | Some a \<Rightarrow> a \<le> now)
       then executeRun t now True (tk_note t) rest S
     else if (case tk_next t of None \<Rightarrow> True | Some n \<Rightarrow> n > now) then put rest S
     else if tk_approval t = Before_action then requestApproval t now rest S
     else executeRun t now False None rest S)"

subsection \<open>Workers of a tick\<close>

definition set_tick :: "nat \<Rightarrow> tick \<Rightarrow> sched \<Rightarrow> sched" where
  "set_tick k ti S = S\<lparr>sc_ticks := (sc_ticks S)(k := ti)\<rparr>"

definition worker_done :: "nat \<Rightarrow> sched \<Rightarrow> sched" where
  "worker_done k S =
    (let ti = sc_ticks S k; n = ti_workers ti - 1; S' = set_tick k (ti\<lparr>ti_due := [], ti_workers := n\<rparr>) S
     in if n = 0 then put [Ticking (T_wake k (busyTaskIds S'))] S' else S')"

text \<open>The loop of a worker, up to the task it takes up; the first round uses the rows of the due scan.\<close>

definition next_job :: "bool \<Rightarrow> nat \<Rightarrow> sched \<Rightarrow> sched" where
  "next_job reload k S = (case dropWhile (\<lambda>t. isBusy (tk_id t) S) (ti_due (sc_ticks S k)) of
     [] \<Rightarrow> worker_done k S
   | t # ts \<Rightarrow>
       let S' = (set_tick k ((sc_ticks S k)\<lparr>ti_due := ts\<rparr>) S)\<lparr>sc_firing := tk_id t # sc_firing S\<rparr>
       in if reload then put [Ticking (W_read k (tk_id t))] S'
          else fire t (ti_now (sc_ticks S k)) [W_fire k (tk_id t)] S')"

fun start_workers :: "nat \<Rightarrow> nat \<Rightarrow> sched \<Rightarrow> sched" where
  "start_workers 0 k S = S"
| "start_workers (Suc n) k S = start_workers n k (next_job False k S)"

subsection \<open>Unfinished runs\<close>

fun reconcile_loop :: "nat \<Rightarrow> int \<Rightarrow> task_run list \<Rightarrow> sched \<Rightarrow> sched" where
  "reconcile_loop k now [] S = put [Ticking (T_due k now)] S"
| "reconcile_loop k now (r # rs) S =
    (if isRunActive (rn_id r) S then reconcile_loop k now rs S
     else if rn_state r = Some Delivering then
       (if (case rn_retry r of None \<Rightarrow> False | Some at \<Rightarrow> at > now) then reconcile_loop k now rs S
        else put [Ticking (R_get k now r rs)] S)
     else if rn_id r \<in> set (sc_live S) then
       reconcile_loop k now rs (S\<lparr>sc_recovering := rn_task r # sc_recovering S\<rparr>)
     else put [Ticking (R_get k now r rs)] S)"

subsection \<open>Returning to the caller\<close>

fun ret :: "frame list \<Rightarrow> sched \<Rightarrow> sched" where
  "ret (W_fire k i # rest) S = next_job True k (release i S)"
| "ret (X_send rid # rest) S = ret rest (drop_active rid S)"
| "ret (R_wait k now rs # rest) S = reconcile_loop k now rs S"
| "ret (C_fin i # rest) S = rearm (S\<lparr>sc_recovering := removeAll i (sc_recovering S)\<rparr>)"
| "ret p S = S"

text \<open>A rejected \<open>reconcileOpenRuns\<close> ends the tick; a worker logs the error and goes on.\<close>

fun throw_to :: "frame list \<Rightarrow> sched \<Rightarrow> sched" where
  "throw_to (W_fire k i # rest) S = next_job True k (release i S)"
| "throw_to (X_send rid # rest) S = throw_to rest (drop_active rid S)"
| "throw_to (C_fin i # rest) S = rearm (S\<lparr>sc_recovering := removeAll i (sc_recovering S)\<rparr>)"
| "throw_to p S = S"

subsection \<open>Rooms and delivery\<close>

text \<open>\<open>resolveDeliveryRoom\<close>, once the gateway answered: it never rejects.\<close>

definition room_of :: "task_record \<Rightarrow> task_answer \<Rightarrow> string option" where
  "room_of t ans = (case tk_room t of Some r \<Rightarrow> Some r | None \<Rightarrow> (case ans of Room r \<Rightarrow> r | _ \<Rightarrow> None))"

definition deliverOrDefer :: "task_config \<Rightarrow> task_record \<Rightarrow> task_run \<Rightarrow> int \<Rightarrow> frame list \<Rightarrow> sched \<Rightarrow> sched" where
  "deliverOrDefer E t r now rest S = (case rn_room r of
     Some room \<Rightarrow> put (Sending (D_send t r now room (tc_retries E)) # rest) S
   | None \<Rightarrow> put (Sending (D_room t r now) # rest) S)"

definition round_pause :: "task_config \<Rightarrow> nat \<Rightarrow> int" where
  "round_pause E attempts = (let i = min (attempts - 1) (length (tc_backoff E) - 1)
     in if i < length (tc_backoff E) then tc_backoff E ! i else 60000)"

definition round_failed :: "task_config \<Rightarrow> int \<Rightarrow> task_record \<Rightarrow> task_run \<Rightarrow> int \<Rightarrow> frame list \<Rightarrow> sched \<Rightarrow> sched" where
  "round_failed E nowMs t r now rest S =
    (let attempts = rn_attempts r + 1
     in if attempts \<ge> MAX_DELIVERY_ROUNDS
        then put (Failing (F_read t now (rn_started r) (Some (Ledger (rn_id r) R_failed True))) # rest) S
        else put (Sending (D_defer (rn_id r) attempts (max now nowMs + round_pause E attempts)) # rest) S)"

definition result_body :: "task_record \<Rightarrow> task_run \<Rightarrow> task_body" where
  "result_body t r = Body_result (tk_title t) (case rn_text r of None \<Rightarrow> [] | Some x \<Rightarrow> x)"

definition log_msg :: "task_msg \<Rightarrow> sched \<Rightarrow> sched" where
  "log_msg m S = S\<lparr>sc_sent := m # sc_sent S\<rparr>"

definition one_shot :: "task_record \<Rightarrow> bool" where
  "one_shot t \<longleftrightarrow> (case tk_schedule t of Once _ \<Rightarrow> True | _ \<Rightarrow> False)"

definition delivered_task :: "task_run \<Rightarrow> task_record \<Rightarrow> task_record" where
  "delivered_task r t = t\<lparr>tk_last_run := Some (rn_started r), tk_last_ok := Some True, tk_failures := 0,
     tk_status := (if one_shot t \<and> tk_status t = T_active then T_completed else tk_status t)\<rparr>"

definition delivered_changes :: run_changes where
  "delivered_changes = no_changes\<lparr>pt_state := Some Delivered, pt_ok := Some True, pt_retry := Some None\<rparr>"

fun resume_delivery :: "task_config \<Rightarrow> int \<Rightarrow> task_answer \<Rightarrow> delivery_frame \<Rightarrow> frame list \<Rightarrow> sched \<Rightarrow> sched" where
  "resume_delivery E nowMs ans (D_room t r now) rest S = (case room_of t ans of
     None \<Rightarrow> round_failed E nowMs t r now rest S
   | Some room \<Rightarrow> put (Sending (D_send t r now room (tc_retries E)) # rest) S)"
| "resume_delivery E nowMs ans (D_send t r now room n) rest S = (case ans of
     Done \<Rightarrow> put (Sending (D_done t r) # rest) (log_msg (room, Run_txn (rn_id r), result_body t r) S)
   | Send_fails out transient \<Rightarrow>
       let S' = (if out then log_msg (room, Run_txn (rn_id r), result_body t r) S else S)
       in if transient \<and> n > 0 then put (Sending (D_send t r now room (n - 1)) # rest) S' else round_failed E nowMs t r now rest S'
   | _ \<Rightarrow> round_failed E nowMs t r now rest S)"
| "resume_delivery E nowMs ans (D_defer rid attempts retryAt) rest S = (case ans of
     Done \<Rightarrow> put (Sending (D_alarm) # rest) (ask_alarm retryAt
       (S\<lparr>sc_db := updateRun rid (no_changes\<lparr>pt_attempts := Some attempts, pt_retry := Some (Some retryAt)\<rparr>) (sc_db S)\<rparr>))
   | _ \<Rightarrow> throw_to rest S)"
| "resume_delivery E nowMs ans D_alarm rest S = (case ans of Done \<Rightarrow> ret rest S | _ \<Rightarrow> throw_to rest S)"
| "resume_delivery E nowMs ans (D_done t r) rest S = (case ans of
     Done \<Rightarrow> (case save_task (delivered_task r (case db_get (tk_id t) (sc_db S) of None \<Rightarrow> t | Some c \<Rightarrow> c)) (sc_db S) of
         None \<Rightarrow> throw_to rest S
       | Some db \<Rightarrow> ret rest (S\<lparr>sc_db := updateRun (rn_id r) delivered_changes db\<rparr>))
   | _ \<Rightarrow> throw_to rest S)"

subsection \<open>Failure bookkeeping\<close>

definition stop_task :: "task_record \<Rightarrow> task_record" where
  "stop_task t = t\<lparr>tk_status := T_failed, tk_next := None, tk_pending := None\<rparr>"

text \<open>The failed task, and whether it is stopped.\<close>

definition failed_task :: "task_config \<Rightarrow> int \<Rightarrow> int \<Rightarrow> int \<Rightarrow> task_record \<Rightarrow> task_record \<times> bool" where
  "failed_task E nowMs now started t =
    (let t = t\<lparr>tk_failures := tk_failures t + 1, tk_last_run := Some started, tk_last_ok := Some False\<rparr>
     in if one_shot t \<or> tk_failures t \<ge> MAX_CONSECUTIVE_FAILURES then (stop_task t, True)
        else (case computeNextRunAtMs (tc_cal E) (tk_schedule t) (max now nowMs) of
            None \<Rightarrow> (stop_task t, True)
          | Some n \<Rightarrow> (t\<lparr>tk_next := Some (max n (max now nowMs + backoffDelayMs (tk_failures t)))\<rparr>, False)))"

definition failed_changes :: "ledger \<Rightarrow> run_changes" where
  "failed_changes g = no_changes\<lparr>pt_state := Some (lg_state g), pt_ok := Some False, pt_retry := Some None\<rparr>"

definition audit_row :: "nat \<Rightarrow> string \<Rightarrow> int \<Rightarrow> task_run_state option \<Rightarrow> bool option \<Rightarrow> task_run" where
  "audit_row rid i started st ok = \<lparr>rn_id = rid, rn_task = i, rn_started = started, rn_state = st, rn_room = None,
     rn_text = None, rn_completed = False, rn_ok = ok, rn_attempts = 0, rn_retry = None\<rparr>"

definition new_audit :: "string \<Rightarrow> int \<Rightarrow> task_run_state option \<Rightarrow> bool option \<Rightarrow> sched \<Rightarrow> sched" where
  "new_audit i started st ok S = S\<lparr>sc_fresh := Suc (sc_fresh S),
     sc_db := recordRun (audit_row (sc_fresh S) i started st ok) (sc_db S)\<rparr>"

definition write_failure :: "task_record \<Rightarrow> int \<Rightarrow> ledger option \<Rightarrow> task_db \<Rightarrow> sched \<Rightarrow> sched" where
  "write_failure t started g db S = (case g of
     Some l \<Rightarrow> S\<lparr>sc_db := updateRun (lg_rid l) (failed_changes l) db\<rparr>
   | None \<Rightarrow> new_audit (tk_id t) started (Some R_failed) (Some False) (S\<lparr>sc_db := db\<rparr>))"

definition notice_body :: "task_record \<Rightarrow> ledger option \<Rightarrow> task_body" where
  "notice_body t g = (if \<not> one_shot t then Body_stopped (tk_failures t)
     else if (case g of None \<Rightarrow> False | Some l \<Rightarrow> lg_undelivered l) then Body_undelivered else Body_failed)"

text \<open>The transaction id of a notice is computed by each attempt to send it.\<close>

definition send_notice :: "task_record \<Rightarrow> ledger option \<Rightarrow> string \<Rightarrow> sched \<Rightarrow> sched" where
  "send_notice t g room S = (case g of
     Some l \<Rightarrow> log_msg (room, Run_notice (lg_rid l), notice_body t g) S
   | None \<Rightarrow> log_msg (room, Random_notice (sc_fresh S), notice_body t g) (S\<lparr>sc_fresh := Suc (sc_fresh S)\<rparr>))"

fun resume_failure :: "task_config \<Rightarrow> int \<Rightarrow> task_answer \<Rightarrow> failure_frame \<Rightarrow> frame list \<Rightarrow> sched \<Rightarrow> sched" where
  "resume_failure E nowMs ans (F_read fallback now started g) rest S = (case ans of
     Done \<Rightarrow>
       let t = (case db_get (tk_id fallback) (sc_db S) of None \<Rightarrow> fallback | Some c \<Rightarrow> c)
       in if tk_status t \<noteq> T_active then (case g of None \<Rightarrow> ret rest S | Some l \<Rightarrow> put (Failing (F_row l) # rest) S)
          else let (t', stopped) = failed_task E nowMs now started t in put (Failing (F_save t' started g stopped) # rest) S
   | _ \<Rightarrow> throw_to rest S)"
| "resume_failure E nowMs ans (F_row l) rest S = (case ans of
     Done \<Rightarrow> ret rest (S\<lparr>sc_db := updateRun (lg_rid l) (failed_changes l) (sc_db S)\<rparr>)
   | _ \<Rightarrow> throw_to rest S)"
| "resume_failure E nowMs ans (F_save t started g stopped) rest S = (case ans of
     Done \<Rightarrow> (case save_task t (sc_db S) of
         None \<Rightarrow> throw_to rest S
       | Some db \<Rightarrow>
           let S' = write_failure t started g db S
           in if stopped \<and> tk_topic t = None then put (Failing (F_room t g) # rest) S' else ret rest S')
   | _ \<Rightarrow> throw_to rest S)"
| "resume_failure E nowMs ans (F_room t g) rest S = (case room_of t ans of
     None \<Rightarrow> ret rest S
   | Some room \<Rightarrow> put (Failing (F_send t g room (tc_retries E)) # rest) S)"
| "resume_failure E nowMs ans (F_send t g room n) rest S = (case ans of
     Done \<Rightarrow> ret rest (send_notice t g room S)
   | Send_fails out transient \<Rightarrow>
       let S' = (if out then send_notice t g room S else S)
       in if transient \<and> n > 0 then put (Failing (F_send t g room (n - 1)) # rest) S' else ret rest S'
   | _ \<Rightarrow> ret rest S)"

subsection \<open>Executing a run\<close>

definition approvalRun :: "task_exec \<Rightarrow> bool" where
  "approvalRun e \<longleftrightarrow> ex_approved e \<or> tk_approval (ex_task e) = Before_action"

definition topic_exec :: "task_exec \<Rightarrow> bool" where
  "topic_exec e \<longleftrightarrow> tk_topic (ex_task e) \<noteq> None"

text \<open>The catch block of the first half.\<close>

definition run_fails :: "task_exec \<Rightarrow> task_record \<Rightarrow> frame list \<Rightarrow> sched \<Rightarrow> sched" where
  "run_fails e t rest S =
    put (Failing (F_read t (ex_now e) (ex_now e) (Some (Ledger (ex_rid e) R_failed False))) # rest) (drop_active (ex_rid e) S)"

text \<open>\<open>runTurn\<close>, the turn and its durable run begun.\<close>

definition begin_turn :: "task_exec \<Rightarrow> string option \<Rightarrow> frame list \<Rightarrow> sched \<Rightarrow> sched" where
  "begin_turn e room rest S = put (Executing (X_turn e room) # rest)
    (S\<lparr>sc_turns := e # sc_turns S, sc_live := ex_rid e # sc_live S\<rparr>)"

definition advance :: "task_config \<Rightarrow> bool \<Rightarrow> int \<Rightarrow> task_record \<Rightarrow> task_record" where
  "advance E stays fromMs t =
    (if one_shot t then t\<lparr>tk_next := None\<rparr>
     else if stays then t
     else t\<lparr>tk_next := computeNextRunAtMs (tc_cal E) (tk_schedule t) fromMs\<rparr>)"

definition stored_changes :: "string option \<Rightarrow> string \<Rightarrow> run_changes" where
  "stored_changes room text = no_changes\<lparr>pt_state := Some Delivering, pt_room := room, pt_text := Some text, pt_completed := True\<rparr>"

definition dropped_changes :: run_changes where
  "dropped_changes = no_changes\<lparr>pt_state := Some R_failed, pt_ok := Some False\<rparr>"

definition delivering_run :: "nat \<Rightarrow> string \<Rightarrow> int \<Rightarrow> string option \<Rightarrow> string \<Rightarrow> task_run" where
  "delivering_run rid i started room text = \<lparr>rn_id = rid, rn_task = i, rn_started = started, rn_state = Some Delivering,
     rn_room = room, rn_text = Some text, rn_completed = False, rn_ok = None, rn_attempts = 0, rn_retry = None\<rparr>"

fun resume_exec :: "task_config \<Rightarrow> int \<Rightarrow> task_answer \<Rightarrow> exec_frame \<Rightarrow> frame list \<Rightarrow> sched \<Rightarrow> sched" where
  "resume_exec E nowMs ans (X_open e) rest S = (case ans of
     Done \<Rightarrow>
       let (took, db) = (if ex_approved e then claim_approval (tk_id (ex_task e)) (sc_db S) else (True, sc_db S))
       in if \<not> took then ret rest (drop_active (ex_rid e) S)
          else let S' = S\<lparr>sc_db := startRun (ex_rid e) (tk_id (ex_task e)) (ex_now e) db,
                   sc_claims := (if ex_approved e then (ex_rid e, tk_id (ex_task e)) # sc_claims S else sc_claims S)\<rparr>
               in if topic_exec e then begin_turn e None rest S' else put (Executing (X_room e) # rest) S'
   | _ \<Rightarrow> run_fails e (ex_task e) rest S)"
| "resume_exec E nowMs ans (X_room e) rest S = (case room_of (ex_task e) ans of
     None \<Rightarrow> run_fails e (ex_task e) rest S
   | Some room \<Rightarrow> begin_turn e (Some room) rest S)"
| "resume_exec E nowMs ans (X_turn e room) rest S = (case ans of
     Turn_text x \<Rightarrow> if js_trim x = [] then run_fails e (ex_task e) rest S else put (Executing (X_read e room (js_trim x)) # rest) S
   | _ \<Rightarrow> run_fails e (ex_task e) rest S)"
| "resume_exec E nowMs ans (X_read e room text) rest S = (case ans of
     Done \<Rightarrow> (case db_get (tk_id (ex_task e)) (sc_db S) of
         None \<Rightarrow> put (Executing (X_drop e) # rest) S
       | Some c \<Rightarrow> if tk_status c \<noteq> T_active then put (Executing (X_drop e) # rest) S
                  else put (Executing (X_store e room (advance E (approvalRun e) (max (ex_now e) nowMs) c) text) # rest) S)
   | _ \<Rightarrow> run_fails e (ex_task e) rest S)"
| "resume_exec E nowMs ans (X_drop e) rest S = (case ans of
     Done \<Rightarrow> ret rest (S\<lparr>sc_db := updateRun (ex_rid e) dropped_changes (sc_db S)\<rparr>)
   | _ \<Rightarrow> run_fails e (ex_task e) rest S)"
| "resume_exec E nowMs ans (X_store e room t text) rest S = (case ans of
     Done \<Rightarrow> (case save_task t (sc_db S) of
         None \<Rightarrow> run_fails e t rest S
       | Some db \<Rightarrow> deliverOrDefer E t (delivering_run (ex_rid e) (tk_id t) (ex_now e) room text) (ex_now e) (X_send (ex_rid e) # rest)
           (S\<lparr>sc_db := updateRun (ex_rid e) (stored_changes room text) db\<rparr>))
   | _ \<Rightarrow> run_fails e t rest S)"

subsection \<open>Asking for approval\<close>

definition requested_task :: "task_config \<Rightarrow> int \<Rightarrow> int \<Rightarrow> task_record \<Rightarrow> task_record" where
  "requested_task E nowMs now t = advance E False (max now nowMs) (t\<lparr>tk_pending := Some now\<rparr>)"

definition approval_msg :: "task_record \<Rightarrow> string \<Rightarrow> task_msg" where
  "approval_msg t room = (room, Approval_txn (tk_id t) (case tk_next t of None \<Rightarrow> tk_created t | Some n \<Rightarrow> n), Body_approval (tk_id t))"

definition request_fails :: "task_record \<Rightarrow> int \<Rightarrow> frame list \<Rightarrow> sched \<Rightarrow> sched" where
  "request_fails t now rest S = put (Failing (F_read t now now None) # rest) S"

fun resume_request :: "task_config \<Rightarrow> int \<Rightarrow> task_answer \<Rightarrow> request_frame \<Rightarrow> frame list \<Rightarrow> sched \<Rightarrow> sched" where
  "resume_request E nowMs ans (Q_room t now) rest S = (case room_of t ans of
     None \<Rightarrow> request_fails t now rest S
   | Some room \<Rightarrow> put (Requesting (Q_send t now room (tc_retries E)) # rest) S)"
| "resume_request E nowMs ans (Q_send t now room n) rest S = (case ans of
     Done \<Rightarrow> put (Requesting (Q_save (requested_task E nowMs now t) now) # rest) (log_msg (approval_msg t room) S)
   | Send_fails out transient \<Rightarrow>
       let S' = (if out then log_msg (approval_msg t room) S else S)
       in if transient \<and> n > 0 then put (Requesting (Q_send t now room (n - 1)) # rest) S' else request_fails t now rest S'
   | _ \<Rightarrow> request_fails t now rest S)"
| "resume_request E nowMs ans (Q_save t now) rest S = (case ans of
     Done \<Rightarrow> (case save_task t (sc_db S) of
         None \<Rightarrow> request_fails t now rest S
       | Some db \<Rightarrow> ret rest (new_audit (tk_id t) now None None (S\<lparr>sc_db := db\<rparr>)))
   | _ \<Rightarrow> request_fails t now rest S)"

subsection \<open>Ticks\<close>

fun resume_tick :: "task_config \<Rightarrow> task_answer \<Rightarrow> tick_frame \<Rightarrow> frame list \<Rightarrow> sched \<Rightarrow> sched" where
  "resume_tick E ans (R_open k now) rest S = (case ans of
     Done \<Rightarrow> reconcile_loop k now (openRuns (sc_db S)) (S\<lparr>sc_recovering := []\<rparr>)
   | _ \<Rightarrow> S)"
| "resume_tick E ans (R_get k now r rs) rest S = (case ans of
     Done \<Rightarrow>
       if rn_state r = Some Delivering
       then (case db_get (rn_task r) (sc_db S) of
           None \<Rightarrow> put [Ticking (R_close k now (rn_id r) R_failed rs)] S
         | Some t \<Rightarrow> if tk_status t = T_cancelled then put [Ticking (R_close k now (rn_id r) R_failed rs)] S
                    else deliverOrDefer E t r now [R_wait k now rs] S)
       else (case db_get (rn_task r) (sc_db S) of
           None \<Rightarrow> put [Ticking (R_close k now (rn_id r) Interrupted rs)] S
         | Some t \<Rightarrow> put [Failing (F_read t now (rn_started r) (Some (Ledger (rn_id r) Interrupted False))), R_wait k now rs] S)
   | _ \<Rightarrow> S)"
| "resume_tick E ans (R_close k now rid st rs) rest S = (case ans of
     Done \<Rightarrow> reconcile_loop k now rs (S\<lparr>sc_db := updateRun rid (dropped_changes\<lparr>pt_state := Some st\<rparr>) (sc_db S)\<rparr>)
   | _ \<Rightarrow> S)"
| "resume_tick E ans (T_due k now) rest S = (case ans of
     Done \<Rightarrow>
       let due = due_tasks now (sc_db S); n = min MAX_CONCURRENT_TASK_RUNS (length due);
           S' = set_tick k \<lparr>ti_now = now, ti_due = due, ti_workers = n\<rparr> S
       in if n = 0 then put [Ticking (T_wake k (busyTaskIds S'))] S' else start_workers n k S'
   | _ \<Rightarrow> S)"
| "resume_tick E ans (W_read k i) rest S = (case ans of
     Done \<Rightarrow> (case db_get i (sc_db S) of
         None \<Rightarrow> next_job True k (release i S)
       | Some t \<Rightarrow> fire t (ti_now (sc_ticks S k)) [W_fire k i] S)
   | _ \<Rightarrow> next_job True k (release i S))"
| "resume_tick E ans (T_wake k busy) rest S = (case ans of
     Done \<Rightarrow> S\<lparr>sc_wakes := nextWakeAt busy (sc_db S) # sc_wakes S\<rparr>
   | _ \<Rightarrow> S)"

subsection \<open>Turns recovered after a reset\<close>

definition activate :: "nat \<Rightarrow> string \<Rightarrow> sched \<Rightarrow> sched" where
  "activate rid i S = S\<lparr>sc_active := (rid, i) # filter (\<lambda>a. fst a \<noteq> rid) (sc_active S)\<rparr>"

fun resume_recovered :: "task_config \<Rightarrow> int \<Rightarrow> task_answer \<Rightarrow> recovered_frame \<Rightarrow> frame list \<Rightarrow> sched \<Rightarrow> sched" where
  "resume_recovered E nowMs ans (C_open rid text) rest S = (case ans of
     Done \<Rightarrow> (case getOpenRun rid (sc_db S) of
         None \<Rightarrow> S
       | Some r \<Rightarrow> if rn_state r \<noteq> Some Running then S else put [Recovered (C_get r text), C_fin (rn_task r)] S)
   | _ \<Rightarrow> S)"
| "resume_recovered E nowMs ans (C_get r text) rest S = (case ans of
     Done \<Rightarrow> (case db_get (rn_task r) (sc_db S) of
         None \<Rightarrow> put (Recovered (C_drop (rn_id r)) # rest) S
       | Some t \<Rightarrow>
           if tk_status t \<noteq> T_active then put (Recovered (C_drop (rn_id r)) # rest) S
           else if js_trim text = []
             then put (Failing (F_read t nowMs (rn_started r) (Some (Ledger (rn_id r) R_failed False))) # rest) S
           else let t' = advance E (tk_approval t = Before_action) nowMs t
                in (case rn_room r of
                      Some room \<Rightarrow> put (Recovered (C_save t' r (Some room) (js_trim text) nowMs) # rest) S
                    | None \<Rightarrow> put (Recovered (C_room t' r (js_trim text) nowMs) # rest) S))
   | _ \<Rightarrow> throw_to rest S)"
| "resume_recovered E nowMs ans (C_drop rid) rest S = (case ans of
     Done \<Rightarrow> ret rest (S\<lparr>sc_db := updateRun rid dropped_changes (sc_db S)\<rparr>)
   | _ \<Rightarrow> throw_to rest S)"
| "resume_recovered E nowMs ans (C_room t r text now) rest S = put (Recovered (C_save t r (room_of t ans) text now) # rest) S"
| "resume_recovered E nowMs ans (C_save t r room text now) rest S = (case ans of
     Done \<Rightarrow> (case save_task t (sc_db S) of
         None \<Rightarrow> throw_to rest S
       | Some db \<Rightarrow> put (Recovered (C_fresh t (delivering_run (rn_id r) (tk_id t) (rn_started r) room text) now) # rest)
           (S\<lparr>sc_db := updateRun (rn_id r) (stored_changes room text) db\<rparr>))
   | _ \<Rightarrow> throw_to rest S)"
| "resume_recovered E nowMs ans (C_fresh t r now) rest S = (case ans of
     Done \<Rightarrow>
       let t' = (case db_get (tk_id t) (sc_db S) of None \<Rightarrow> t | Some c \<Rightarrow> c)
       in deliverOrDefer E t' (r\<lparr>rn_task := tk_id t'\<rparr>) now (X_send (rn_id r) # rest) (activate (rn_id r) (tk_id t') S)
   | _ \<Rightarrow> throw_to rest S)"
| "resume_recovered E nowMs ans (G_open rid) rest S = (case ans of
     Done \<Rightarrow> (case getOpenRun rid (sc_db S) of
         None \<Rightarrow> S
       | Some r \<Rightarrow> if rn_state r \<noteq> Some Running then S else put [Recovered (G_get r), C_fin (rn_task r)] S)
   | _ \<Rightarrow> S)"
| "resume_recovered E nowMs ans (G_get r) rest S = (case ans of
     Done \<Rightarrow> (case db_get (rn_task r) (sc_db S) of
         None \<Rightarrow> put (Recovered (G_close (rn_id r)) # rest) S
       | Some t \<Rightarrow> put (Failing (F_read t nowMs (rn_started r) (Some (Ledger (rn_id r) Interrupted False))) # rest) S)
   | _ \<Rightarrow> throw_to rest S)"
| "resume_recovered E nowMs ans (G_close rid) rest S = (case ans of
     Done \<Rightarrow> ret rest (S\<lparr>sc_db := updateRun rid (dropped_changes\<lparr>pt_state := Some Interrupted\<rparr>) (sc_db S)\<rparr>)
   | _ \<Rightarrow> throw_to rest S)"
| "resume_recovered E nowMs ans (A_wake busy) rest S = (case ans of
     Done \<Rightarrow> (case nextWakeAt busy (sc_db S) of None \<Rightarrow> S | Some w \<Rightarrow> ask_alarm (max w (nowMs + 1000)) S)
   | _ \<Rightarrow> S)"

end
