(* ===== verification/Task_Surface.thy ===== *)
theory Task_Surface
  imports Task_Scheduler
begin

text \<open>
  \<open>scheduler.ts\<close>, the calls from outside: the plugin surface (\<open>create\<close>, \<open>update\<close>, \<open>pause\<close>, \<open>resume\<close>,
  \<open>cancel\<close>, \<open>resolveApproval\<close>), the Topic deliverables, the admission of a turn; and the moves of an
  instance.
\<close>

subsection \<open>What each operation does to a loaded task\<close>

type_synonym surface_result = "surface_error + (task_record \<times> int option) option"

definition lifecycle_mutable :: "task_record \<Rightarrow> bool" where
  "lifecycle_mutable t \<longleftrightarrow> tk_profile t = None"

text \<open>\<open>Inr None\<close>: returned as it is, nothing saved. The number is the alarm asked for after the save.\<close>

definition pause_task :: "task_record \<Rightarrow> surface_result" where
  "pause_task t =
    (if \<not> lifecycle_mutable t then Inl Supplied_context
     else if tk_status t = T_paused then Inr None
     else if tk_status t \<noteq> T_active then Inl (Wrong_status (tk_status t))
     else Inr (Some (t\<lparr>tk_status := T_paused, tk_next := None, tk_pending := None\<rparr>, None)))"

definition resume_task :: "task_config \<Rightarrow> int \<Rightarrow> task_record \<Rightarrow> surface_result" where
  "resume_task E nowMs t =
    (if \<not> lifecycle_mutable t then Inl Supplied_context
     else if tk_status t = T_active then Inr None
     else if tk_status t \<noteq> T_paused \<and> tk_status t \<noteq> T_failed then Inl (Wrong_status (tk_status t))
     else (case computeNextRunAtMs (tc_cal E) (tk_schedule t) nowMs of
         None \<Rightarrow> Inl No_future_run
       | Some n \<Rightarrow> Inr (Some (t\<lparr>tk_status := T_active, tk_next := Some n, tk_failures := 0, tk_pending := None\<rparr>, Some n))))"

definition cancel_task :: "task_record \<Rightarrow> surface_result" where
  "cancel_task t =
    (if tk_status t = T_cancelled then Inr None
     else if tk_status t = T_completed then Inl (Wrong_status T_completed)
     else Inr (Some (t\<lparr>tk_status := T_cancelled, tk_next := None, tk_pending := None\<rparr>, None)))"

definition patch_refused :: "task_patch \<Rightarrow> task_record \<Rightarrow> surface_error option" where
  "patch_refused p t =
    (if (case pa_profile p of None \<Rightarrow> False | Some x \<Rightarrow> x \<noteq> tk_profile t) then Some Profile_immutable
     else if tk_profile t \<noteq> None \<and> (pa_title p \<noteq> None \<or> pa_intent p \<noteq> None \<or> pa_approval p \<noteq> None \<or> pa_schedule p \<noteq> None \<or> pa_room p \<noteq> None)
       then Some Supplied_context
     else if tk_status t = T_completed \<or> tk_status t = T_cancelled then Some (Wrong_status (tk_status t))
     else if (case pa_title p of None \<Rightarrow> False | Some x \<Rightarrow> js_trim x = [] \<or> length (js_trim x) > 120) then Some Bad_title
     else if (case pa_intent p of None \<Rightarrow> False | Some x \<Rightarrow> js_trim x = []) then Some Empty_intent
     else None)"

definition patch_texts :: "task_patch \<Rightarrow> task_record \<Rightarrow> task_record" where
  "patch_texts p t = t\<lparr>
     tk_title := (case pa_title p of None \<Rightarrow> tk_title t | Some x \<Rightarrow> js_trim x),
     tk_intent := (case pa_intent p of None \<Rightarrow> tk_intent t | Some x \<Rightarrow> js_trim x),
     tk_approval := (case pa_approval p of None \<Rightarrow> tk_approval t | Some a \<Rightarrow> a),
     tk_pending := (if pa_approval p = Some Never then None else tk_pending t)\<rparr>"

definition update_task :: "task_config \<Rightarrow> int \<Rightarrow> task_patch \<Rightarrow> task_record \<Rightarrow> surface_result" where
  "update_task E nowMs p t = (case patch_refused p t of
     Some e \<Rightarrow> Inl e
   | None \<Rightarrow>
       let t1 = patch_texts p t
       in (case pa_schedule p of
             None \<Rightarrow> Inr (Some (t1, None))
           | Some s \<Rightarrow>
               let problems = validateSchedule (tc_cal E) s (tc_min E) nowMs; t2 = t1\<lparr>tk_schedule := s\<rparr>
               in if problems \<noteq> [] then Inl (Bad_schedule problems)
                  else if tk_status t \<noteq> T_active then Inr (Some (t2\<lparr>tk_next := None\<rparr>, None))
                  else (case computeNextRunAtMs (tc_cal E) s nowMs of
                      None \<Rightarrow> Inl No_future_run
                    | Some n \<Rightarrow> Inr (Some (t2\<lparr>tk_next := Some n\<rparr>, Some n)))))"

definition decided_task :: "bool \<Rightarrow> task_record \<Rightarrow> task_record" where
  "decided_task approve t =
    (let t = t\<lparr>tk_pending := None\<rparr>
     in if \<not> approve \<and> one_shot t then t\<lparr>tk_status := T_cancelled, tk_next := None\<rparr> else t)"

subsection \<open>Calls of the surface\<close>

definition surface_save :: "surface_result \<Rightarrow> sched \<Rightarrow> sched" where
  "surface_save res S = (case res of Inr (Some (t, at)) \<Rightarrow> put [Calling (P_save t at)] S | _ \<Rightarrow> S)"

definition shouldCreateDedicatedRoom :: "task_config \<Rightarrow> int \<Rightarrow> schedule \<Rightarrow> string \<Rightarrow> room_choice \<Rightarrow> bool" where
  "shouldCreateDedicatedRoom E nowMs s intent choice =
    (if choice \<noteq> Room_auto then choice = Room_yes
     else if (case s of
         Cron c tz \<Rightarrow> (case cronIntervalMs (tc_cal E) c None nowMs DAY_MS of None \<Rightarrow> False | Some g \<Rightarrow> gap_below g DAY_MS)
       | Interval n \<Rightarrow> n * 1000 < DAY_MS
       | Once at \<Rightarrow> False) then True
     else length intent > 800 \<or> ongoing_intent intent)"

definition input_problems :: "task_config \<Rightarrow> int \<Rightarrow> task_input \<Rightarrow> schedule_problem list \<times> bool" where
  "input_problems E nowMs i = (validateSchedule (tc_cal E) (in_schedule i) (tc_min E) nowMs,
     js_trim (in_title i) = [] \<or> length (js_trim (in_title i)) > 120 \<or> js_trim (in_intent i) = [])"

definition profile_refused :: "task_input \<Rightarrow> bool" where
  "profile_refused i \<longleftrightarrow> (case in_profile i of None \<Rightarrow> False
     | Some p \<Rightarrow> p \<notin> set TASK_EXECUTION_PROFILES \<or> (case in_schedule i of Once _ \<Rightarrow> False | _ \<Rightarrow> True)
         \<or> in_approval i = Some Before_action)"

definition created_record :: "task_input \<Rightarrow> string \<Rightarrow> int \<Rightarrow> int \<Rightarrow> task_record" where
  "created_record i tid nowMs nextMs = \<lparr>tk_id = tid, tk_title = js_trim (in_title i), tk_intent = js_trim (in_intent i),
     tk_profile = in_profile i, tk_schedule = in_schedule i, tk_status = T_active,
     tk_approval = (case in_approval i of None \<Rightarrow> Never | Some a \<Rightarrow> a), tk_created = nowMs, tk_next = Some nextMs,
     tk_last_run = None, tk_last_ok = None, tk_failures = 0, tk_pending = None, tk_room = None, tk_topic = None,
     tk_approved = None, tk_note = None\<rparr>"

text \<open>\<open>insert\<close> fails on an id that exists already.\<close>

definition insert_new :: "task_record \<Rightarrow> task_db \<Rightarrow> task_db option" where
  "insert_new t db = (if task_row (tk_id t) db = None then Some (insert_task t db) else None)"

definition create_room :: "task_config \<Rightarrow> task_record \<Rightarrow> int \<Rightarrow> sched \<Rightarrow> sched" where
  "create_room E t nextMs S =
    (if tc_mxid E then put [Calling (N_room t nextMs)] S
     else if tk_approval t = Before_action then S else put [Calling (N_insert t nextMs)] S)"

definition message_out :: "task_answer \<Rightarrow> bool" where
  "message_out ans = (case ans of Done \<Rightarrow> True | Send_fails out _ \<Rightarrow> out | _ \<Rightarrow> False)"

fun resume_surface :: "task_config \<Rightarrow> int \<Rightarrow> task_answer \<Rightarrow> call_frame \<Rightarrow> sched \<Rightarrow> sched" where
  "resume_surface E nowMs ans (P_load op i) S =
    (if ans \<noteq> Done then S
     else case db_get i (sc_db S) of
       None \<Rightarrow> S
     | Some t \<Rightarrow> (case op of
         Op_update p \<Rightarrow> surface_save (update_task E nowMs p t) S
       | Op_pause \<Rightarrow> surface_save (pause_task t) S
       | Op_resume \<Rightarrow> surface_save (resume_task E nowMs t) S
       | Op_check_cancel \<Rightarrow> if tk_topic t \<noteq> None then S else put [Calling (P_load Op_cancel i)] S
       | Op_cancel \<Rightarrow> surface_save (cancel_task t) S
       | Op_resolve approve note \<Rightarrow>
           if tk_status t \<noteq> T_active \<or> tk_pending t = None then S
           else put [Calling (P_decide (decided_task approve t) approve note nowMs)] S))"
| "resume_surface E nowMs ans (P_save t at) S =
    (if ans \<noteq> Done then S
     else case save_task t (sc_db S) of
       None \<Rightarrow> S
     | Some db \<Rightarrow> (case at of None \<Rightarrow> S\<lparr>sc_db := db\<rparr> | Some n \<Rightarrow> ask_alarm n (S\<lparr>sc_db := db\<rparr>)))"
| "resume_surface E nowMs ans (P_decide t approve note at) S =
    (if ans \<noteq> Done then S
     else case save_task t (sc_db S) of
       None \<Rightarrow> S
     | Some db \<Rightarrow>
         if approve
         then let (took, db') = approve_task (tk_id t) at (case note of None \<Rightarrow> None | Some n \<Rightarrow> if js_trim n = [] then None else Some (js_trim n)) db
              in ask_alarm at (S\<lparr>sc_db := db', sc_grants := (if took then tk_id t # sc_grants S else sc_grants S)\<rparr>)
         else new_audit (tk_id t) at None None (S\<lparr>sc_db := db\<rparr>))"
| "resume_surface E nowMs ans (N_count i tid problems) S =
    (if ans \<noteq> Done then S
     else if problems \<noteq> [] \<or> snd (input_problems E nowMs i) \<or> countLive (sc_db S) \<ge> tc_max E then S
     else case computeNextRunAtMs (tc_cal E) (in_schedule i) nowMs of
       None \<Rightarrow> S
     | Some n \<Rightarrow>
         let t = created_record i tid nowMs n
         in if tk_approval t = Before_action \<or> shouldCreateDedicatedRoom E nowMs (tk_schedule t) (tk_intent t) (in_room i)
            then create_room E t n S else put [Calling (N_insert t n)] S)"
| "resume_surface E nowMs ans (N_room t n) S = (case ans of
     Room (Some room) \<Rightarrow> put [Calling (N_summary t n room)] S
   | _ \<Rightarrow> if tk_approval t = Before_action then S else put [Calling (N_insert t n)] S)"
| "resume_surface E nowMs ans (N_summary t n room) S =
    put [Calling (N_insert (t\<lparr>tk_room := Some room\<rparr>) n)]
      (if message_out ans then log_msg (room, No_txn, Body_summary) S else S)"
| "resume_surface E nowMs ans (N_insert t n) S =
    (if ans \<noteq> Done then S
     else case insert_new t (sc_db S) of None \<Rightarrow> S | Some db \<Rightarrow> ask_alarm n (S\<lparr>sc_db := db\<rparr>))"

subsection \<open>Topic deliverables\<close>

text \<open>A request stands for its JSON text. Each of the three reads or writes in one transaction.\<close>

definition newTopicTask :: "task_config \<Rightarrow> string \<Rightarrow> string \<Rightarrow> string \<Rightarrow> string \<Rightarrow> string \<Rightarrow> bool \<Rightarrow> int \<Rightarrow> task_record" where
  "newTopicTask E tid title intent op req active now = \<lparr>tk_id = tid, tk_title = title, tk_intent = intent,
     tk_profile = Some ''supplied-context-markdown'', tk_schedule = Once (iso_date (tc_cal E) now),
     tk_status = (if active then T_active else T_cancelled), tk_approval = Never, tk_created = now,
     tk_next = (if active then Some now else None), tk_last_run = None, tk_last_ok = None, tk_failures = 0,
     tk_pending = None, tk_room = None, tk_topic = Some (op, req), tk_approved = None, tk_note = None\<rparr>"

datatype topic_refusal = Bound_elsewhere | Too_many | Finished

definition startTopic :: "task_config \<Rightarrow> string \<Rightarrow> string \<Rightarrow> string \<Rightarrow> string \<Rightarrow> string \<Rightarrow> int \<Rightarrow> task_db
    \<Rightarrow> (topic_refusal + task_record) option \<times> task_db" where
  "startTopic E op req tid title intent now db = (case topic_task op db of
     Some t \<Rightarrow> (Some (if map_option snd (tk_topic t) \<noteq> Some req then Inl Bound_elsewhere else Inr t), db)
   | None \<Rightarrow>
       if countLive db \<ge> tc_max E then (Some (Inl Too_many), db)
       else let t = newTopicTask E tid title intent op req True now
            in (case insert_new t db of None \<Rightarrow> (None, db) | Some db' \<Rightarrow> (Some (Inr t), db')))"

definition topic_finished :: "task_record \<Rightarrow> task_db \<Rightarrow> bool" where
  "topic_finished t db \<longleftrightarrow> tk_status t = T_completed \<or>
     (tk_status t \<noteq> T_cancelled \<and> (case topicRun (tk_id t) db of None \<Rightarrow> False | Some r \<Rightarrow> rn_completed r))"

definition cancelTopic :: "task_config \<Rightarrow> string \<Rightarrow> string \<Rightarrow> string \<Rightarrow> string \<Rightarrow> string \<Rightarrow> int \<Rightarrow> task_db
    \<Rightarrow> (topic_refusal + task_record) option \<times> task_db" where
  "cancelTopic E op req tid title intent now db = (case topic_task op db of
     None \<Rightarrow>
       let t = newTopicTask E tid title intent op req False now
       in (case insert_new t db of None \<Rightarrow> (None, db) | Some db' \<Rightarrow> (Some (Inr t), db'))
   | Some t \<Rightarrow>
       if map_option snd (tk_topic t) \<noteq> Some req then (Some (Inl Bound_elsewhere), db)
       else if topic_finished t db then (Some (Inl Finished), db)
       else (case cancel_task t of
           Inl e \<Rightarrow> (None, db)
         | Inr None \<Rightarrow> (Some (Inr t), db)
         | Inr (Some (t', at)) \<Rightarrow> (case save_task t' db of None \<Rightarrow> (None, db) | Some db' \<Rightarrow> (Some (Inr t), db'))))"

datatype topic_status = Ts_queued | Ts_working | Ts_paused | Ts_ready | Ts_stopping | Ts_cancelled | Ts_failed | Ts_interrupted
datatype topic_delivery = Pending | Sent_out | Not_sent

record topic_snapshot =
  ts_task :: string
  ts_run :: "nat option"
  ts_status :: topic_status
  ts_output :: "string option"
  ts_delivery :: "topic_delivery option"

text \<open>An empty result text is falsy.\<close>

definition run_output :: "task_run \<Rightarrow> string option" where
  "run_output r = (case rn_text r of None \<Rightarrow> None | Some x \<Rightarrow>
     if x \<noteq> [] \<and> rn_completed r \<and> rn_state r \<in> {Some Delivering, Some Delivered, Some R_failed} then Some x else None)"

definition topic_status_of :: "task_record \<Rightarrow> task_run option \<Rightarrow> topic_status" where
  "topic_status_of t run = (case run of
     Some r \<Rightarrow> if run_output r \<noteq> None then Ts_ready
       else if rn_state r = Some Running then Ts_working
       else if rn_state r = Some Interrupted then Ts_interrupted else Ts_failed
   | None \<Rightarrow> if tk_status t = T_paused then Ts_paused else if tk_status t \<noteq> T_active then Ts_failed else Ts_queued)"

definition readTopic :: "string \<Rightarrow> sched \<Rightarrow> topic_snapshot option" where
  "readTopic op S = (case topic_task op (sc_db S) of
     None \<Rightarrow> None
   | Some t \<Rightarrow>
       if tk_topic t = None \<or> tk_profile t \<noteq> Some ''supplied-context-markdown'' then None
       else let run = topicRun (tk_id t) (sc_db S); out = (case run of None \<Rightarrow> None | Some r \<Rightarrow> run_output r)
            in Some \<lparr>ts_task = tk_id t, ts_run = map_option rn_id run,
              ts_status = (if tk_status t = T_cancelled
                then (case run of
                    None \<Rightarrow> Ts_cancelled
                  | Some r \<Rightarrow> if rn_state r = Some Running \<and> (hasActiveRun (tk_id t) S \<or> rn_id r \<in> set (sc_live S))
                      then Ts_stopping else Ts_cancelled)
                else topic_status_of t run),
              ts_output = out,
              ts_delivery = (case out of None \<Rightarrow> None | Some x \<Rightarrow>
                Some (if map_option rn_state run = Some (Some Delivered) then Sent_out
                      else if map_option rn_state run = Some (Some R_failed) then Not_sent else Pending))\<rparr>)"

subsection \<open>Admission of a turn\<close>

record turn_req =
  tr_session :: string
  tr_run :: "nat option"
  tr_profile :: "string option"
  tr_user :: string
  tr_message :: string
  tr_extras :: bool

datatype turn_refusal = Unknown_profile | No_such_run | Unsupported_task | Profile_mismatch | Not_one_shot
  | Not_authorized | Not_active | Plain_text_only

definition run_mismatch :: "turn_req \<Rightarrow> task_run option \<Rightarrow> bool" where
  "run_mismatch q run \<longleftrightarrow> tr_run q \<noteq> None
     \<and> (case run of None \<Rightarrow> True | Some r \<Rightarrow> tr_session q \<noteq> TASK_SESSION_PREFIX @ rn_task r)"

definition turn_task_id :: "turn_req \<Rightarrow> task_run option \<Rightarrow> string option" where
  "turn_task_id q run = (case run of Some r \<Rightarrow> Some (rn_task r) | None \<Rightarrow> taskIdOfSession (tr_session q))"

definition assertTurnProfile :: "string \<Rightarrow> turn_req \<Rightarrow> task_db \<Rightarrow> turn_refusal option" where
  "assertTurnProfile owner q db =
    (if (case tr_profile q of None \<Rightarrow> False | Some p \<Rightarrow> p \<notin> set TASK_EXECUTION_PROFILES) then Some Unknown_profile
     else
       let run = (case tr_run q of None \<Rightarrow> None | Some rid \<Rightarrow> getOpenRun rid db) in
       if run_mismatch q run then Some No_such_run
       else
         let i = turn_task_id q run in
         if (case i of None \<Rightarrow> False | Some x \<Rightarrow> unsupportedProfileOf x db \<noteq> None) then Some Unsupported_task
         else
           let found = (case i of None \<Rightarrow> None | Some x \<Rightarrow> db_get x db) in
           if tr_profile q = None \<and> (case found of None \<Rightarrow> True | Some t \<Rightarrow> tk_profile t = None) then None
           else (case found of
               None \<Rightarrow> Some Profile_mismatch
             | Some t \<Rightarrow>
                 if tk_profile t \<noteq> tr_profile q
                    \<or> (case run of None \<Rightarrow> True | Some r \<Rightarrow> rn_task r \<noteq> tk_id t \<or> rn_state r \<noteq> Some Running)
                 then Some Profile_mismatch
                 else if \<not> one_shot t \<or> tk_approval t \<noteq> Never then Some Not_one_shot
                 else if tr_user q \<noteq> owner \<or> tr_message q \<noteq> buildRunMessage t None then Some Not_authorized
                 else if tk_status t \<noteq> T_active then Some Not_active
                 else if tr_extras q then Some Plain_text_only
                 else None))"

definition isRestrictedSession :: "string \<Rightarrow> task_db \<Rightarrow> bool" where
  "isRestrictedSession s db = (case taskIdOfSession s of
     None \<Rightarrow> False
   | Some i \<Rightarrow> unsupportedProfileOf i db \<noteq> None \<or> (case db_get i db of None \<Rightarrow> False | Some t \<Rightarrow> tk_profile t \<noteq> None))"

subsection \<open>The moves of an instance\<close>

text \<open>
  The object's alarm fires; a suspended call is resumed with an answer; a call comes in; a turn ends
  (the coordinator takes its run off the live ones) and its end is reported once the run's row is closed;
  the object is reset and recovers some of the runs whose end was not reported.
\<close>

datatype task_move =
    Tick int
  | Resume nat task_answer int
  | Surface surface_op string
  | Create task_input string int
  | Topic_start string string string string string int
  | Topic_cancel string string string string string int
  | Turn_over nat
  | Run_reported nat "string option"
  | Reset "nat list"

definition onAlarm :: "int \<Rightarrow> sched \<Rightarrow> sched" where
  "onAlarm now S = put [Ticking (R_open (sc_fresh S) now)] (S\<lparr>sc_fresh := Suc (sc_fresh S)\<rparr>)"

definition resume_frame :: "task_config \<Rightarrow> int \<Rightarrow> task_answer \<Rightarrow> frame \<Rightarrow> frame list \<Rightarrow> sched \<Rightarrow> sched" where
  "resume_frame E nowMs ans f rest S = (case f of
     Sending d \<Rightarrow> resume_delivery E nowMs ans d rest S
   | Failing d \<Rightarrow> resume_failure E nowMs ans d rest S
   | Executing d \<Rightarrow> resume_exec E nowMs ans d rest S
   | Requesting d \<Rightarrow> resume_request E nowMs ans d rest S
   | Ticking d \<Rightarrow> resume_tick E ans d rest S
   | Recovered d \<Rightarrow> resume_recovered E nowMs ans d rest S
   | Calling d \<Rightarrow> resume_surface E nowMs ans d S
   | _ \<Rightarrow> ret (f # rest) S)"

definition resume_proc :: "task_config \<Rightarrow> nat \<Rightarrow> task_answer \<Rightarrow> int \<Rightarrow> sched \<Rightarrow> sched" where
  "resume_proc E i ans nowMs S =
    (if i < length (sc_procs S)
     then let S' = S\<lparr>sc_procs := take i (sc_procs S) @ drop (Suc i) (sc_procs S)\<rparr>
          in (case sc_procs S ! i of [] \<Rightarrow> S' | f # rest \<Rightarrow> resume_frame E nowMs ans f rest S')
     else S)"

definition apply_move :: "task_config \<Rightarrow> task_move \<Rightarrow> sched \<Rightarrow> sched" where
  "apply_move E m S = (case m of
     Tick now \<Rightarrow> onAlarm now S
   | Resume i ans nowMs \<Rightarrow> resume_proc E i ans nowMs S
   | Surface op i \<Rightarrow> put [Calling (P_load op i)] S
   | Create i tid nowMs \<Rightarrow> if profile_refused i then S else put [Calling (N_count i tid (fst (input_problems E nowMs i)))] S
   | Topic_start op req tid title intent now \<Rightarrow>
       (case startTopic E op req tid title intent now (sc_db S) of
          (Some (Inr t), db) \<Rightarrow> (case tk_next t of None \<Rightarrow> S\<lparr>sc_db := db\<rparr> | Some n \<Rightarrow> ask_alarm n (S\<lparr>sc_db := db\<rparr>))
        | (_, db) \<Rightarrow> S\<lparr>sc_db := db\<rparr>)
   | Topic_cancel op req tid title intent now \<Rightarrow> S\<lparr>sc_db := snd (cancelTopic E op req tid title intent now (sc_db S))\<rparr>
   | Turn_over rid \<Rightarrow>
       if rid \<in> set (sc_live S) then S\<lparr>sc_live := removeAll rid (sc_live S), sc_closing := rid # sc_closing S\<rparr> else S
   | Run_reported rid out \<Rightarrow>
       if rid \<in> set (sc_closing S) then
         let S' = S\<lparr>sc_closing := removeAll rid (sc_closing S)\<rparr>
         in if isRunActive rid S' then S'
            else (case out of Some text \<Rightarrow> put [Recovered (C_open rid text)] S' | None \<Rightarrow> put [Recovered (G_open rid)] S')
       else S
   | Reset keep \<Rightarrow> S\<lparr>sc_active := [], sc_recovering := [], sc_firing := [], sc_procs := [], sc_ticks := (\<lambda>_. no_tick),
       sc_live := filter (\<lambda>r. r \<in> set keep) (sc_live S @ sc_closing S), sc_closing := []\<rparr>)"

definition fresh_start :: sched where
  "fresh_start = task_boot \<lparr>db_tasks = [], db_runs = []\<rparr> 0 []"

definition run_moves :: "task_config \<Rightarrow> task_move list \<Rightarrow> sched" where
  "run_moves E ms = fold (apply_move E) ms fresh_start"

lemma run_moves_Nil [simp]: "run_moves E [] = fresh_start" by (simp add: run_moves_def)

lemma run_moves_snoc [simp]: "run_moves E (ms @ [m]) = apply_move E m (run_moves E ms)"
  by (simp add: run_moves_def)

lemma run_moves_induct:
  assumes "P fresh_start" and "\<And>m S. P S \<Longrightarrow> P (apply_move E m S)"
  shows "P (run_moves E ms)"
  by (induction ms rule: rev_induct) (simp_all add: assms)

end
