(* ===== verification/Task_Safety.thy ===== *)
theory Task_Safety
  imports Task_Surface
begin

text \<open>
  The invariant of an instance, over every interleaving of its suspended calls. \<open>sched_ok\<close> collects: what
  each suspended call carries (\<open>stack_ok\<close>), that a task is taken up by at most one worker, that a run's
  turn begins at most once, that approvals are used at most once, and the bounds on failures and
  delivery rounds. A call in progress with continuation \<open>p\<close> is in order when \<open>sched_ok (put p S)\<close> holds.
\<close>

subsection \<open>The tables\<close>

definition failures_ok :: "task_record \<Rightarrow> bool" where
  "failures_ok t \<longleftrightarrow> tk_failures t \<le> MAX_CONSECUTIVE_FAILURES \<and> (tk_status t = T_active \<longrightarrow> tk_failures t < MAX_CONSECUTIVE_FAILURES)"

definition rounds_ok :: "nat \<Rightarrow> bool" where
  "rounds_ok n \<longleftrightarrow> n < MAX_DELIVERY_ROUNDS"

definition tables_ok :: "task_db \<Rightarrow> bool" where
  "tables_ok db \<longleftrightarrow> distinct (map tk_id (db_tasks db)) \<and> (\<forall>t \<in> set (db_tasks db). failures_ok t) \<and> (\<forall>r \<in> set (db_runs db). rounds_ok (rn_attempts r))"

definition marked :: "string \<Rightarrow> task_db \<Rightarrow> bool" where
  "marked i db \<longleftrightarrow> (case task_row i db of None \<Rightarrow> False | Some r \<Rightarrow> tk_approved r \<noteq> None)"

definition dead_topic :: "task_record \<Rightarrow> bool" where
  "dead_topic r \<longleftrightarrow> tk_topic r \<noteq> None \<and> tk_status r = T_cancelled"

text \<open>A copy of a task: its row exists and belongs to the same Topic operation.\<close>

definition copy_of :: "task_db \<Rightarrow> task_record \<Rightarrow> bool" where
  "copy_of db t \<longleftrightarrow> (\<exists>r. task_row (tk_id t) db = Some r \<and> tk_topic r = tk_topic t)"

definition copy_ok :: "task_db \<Rightarrow> task_record \<Rightarrow> bool" where
  "copy_ok db t \<longleftrightarrow> copy_of db t \<and> failures_ok t"

definition keeps_rows :: "task_db \<Rightarrow> task_db \<Rightarrow> bool" where
  "keeps_rows db db' \<longleftrightarrow> (\<forall>i r. task_row i db = Some r \<longrightarrow>
     (\<exists>r'. task_row i db' = Some r' \<and> tk_topic r' = tk_topic r \<and> (dead_topic r \<longrightarrow> dead_topic r')))"

definition db_step :: "task_db \<Rightarrow> task_db \<Rightarrow> bool" where
  "db_step db db' \<longleftrightarrow> keeps_rows db db' \<and> (\<forall>i. marked i db' \<longrightarrow> marked i db) \<and> (tables_ok db \<longrightarrow> tables_ok db')"

lemma keeps_rows_refl [simp]: "keeps_rows db db"
  by (auto simp: keeps_rows_def)

lemma keeps_rows_trans: "keeps_rows a b \<Longrightarrow> keeps_rows b c \<Longrightarrow> keeps_rows a c"
  unfolding keeps_rows_def by metis

lemma db_step_refl [simp]: "db_step db db"
  by (simp add: db_step_def)

lemma db_step_trans: "db_step a b \<Longrightarrow> db_step b c \<Longrightarrow> db_step a c"
  unfolding db_step_def using keeps_rows_trans by blast

lemma copy_ok_mono: "copy_ok db t \<Longrightarrow> keeps_rows db db' \<Longrightarrow> copy_ok db' t"
  unfolding copy_ok_def copy_of_def keeps_rows_def by metis

lemma task_row_in: "task_row i db = Some r \<Longrightarrow> r \<in> set (db_tasks db) \<and> tk_id r = i"
  by (auto simp: task_row_def find_Some_iff)

lemma task_row_set_task:
  "task_row i (set_task t db) = (if i = tk_id t \<and> task_row i db \<noteq> None then Some t else task_row i db)"
proof -
  have "find (\<lambda>r. tk_id r = i) (map (\<lambda>r. if tk_id r = tk_id t then t else r) rs)
      = (if i = tk_id t \<and> find (\<lambda>r. tk_id r = i) rs \<noteq> None then Some t else find (\<lambda>r. tk_id r = i) rs)" for rs
    by (induction rs) auto
  then show ?thesis by (auto simp: task_row_def set_task_def)
qed

lemma set_task_ids [simp]: "map tk_id (db_tasks (set_task t db)) = map tk_id (db_tasks db)"
  by (auto simp: set_task_def)

lemma set_task_rows:
  assumes "tables_ok db" and "failures_ok t"
  shows "tables_ok (set_task t db)"
proof -
  have "\<forall>r \<in> set (db_tasks (set_task t db)). failures_ok r" and "db_runs (set_task t db) = db_runs db"
    using assms by (auto simp: tables_ok_def set_task_def)
  with assms set_task_ids [of t db] show ?thesis unfolding tables_ok_def by simp
qed

lemma set_task_keeps:
  assumes "task_row (tk_id t) db = Some r" and "tk_topic t = tk_topic r" and "dead_topic r \<Longrightarrow> tk_status t = T_cancelled"
  shows "keeps_rows db (set_task t db)"
  using assms by (auto simp: keeps_rows_def task_row_set_task dead_topic_def)

lemma set_task_marked:
  "marked i (set_task t db) \<longleftrightarrow> (if i = tk_id t \<and> task_row i db \<noteq> None then tk_approved t \<noteq> None else marked i db)"
  by (auto simp: marked_def task_row_set_task)

lemma failures_ok_approval [simp]:
  "failures_ok (t\<lparr>tk_approved := a, tk_note := n\<rparr>) = failures_ok t"
  by (simp add: failures_ok_def)

lemma save_step:
  assumes "save_task t db = Some db'" and "copy_ok db t"
  shows "db_step db db'"
proof -
  from assms obtain r where r: "task_row (tk_id t) db = Some r" "tk_topic r = tk_topic t" and f: "failures_ok t"
    by (auto simp: copy_ok_def copy_of_def)
  let ?t = "t\<lparr>tk_approved := (if tk_status t = T_active then tk_approved r else None),
              tk_note := (if tk_status t = T_active then tk_note r else None)\<rparr>"
  from assms r have db': "db' = set_task ?t db" and c: "tk_topic r = None \<or> tk_status r \<noteq> T_cancelled \<or> tk_status t = T_cancelled"
    by (auto simp: save_task_def split: if_splits)
  have k: "keeps_rows db db'"
    unfolding db' by (rule set_task_keeps [of _ _ r]) (use r c in \<open>auto simp: dead_topic_def\<close>)
  have m: "marked i db' \<longrightarrow> marked i db" for i
    using r by (auto simp: db' set_task_marked) (auto simp: marked_def)
  have "tables_ok db \<longrightarrow> tables_ok db'"
    unfolding db' using f set_task_rows [of db ?t] by simp
  with k m show ?thesis by (simp add: db_step_def)
qed

lemma claim_step:
  assumes "claim_approval i db = (took, db')"
  shows "db_step db db'" and "took \<Longrightarrow> marked i db \<and> \<not> marked i db'"
proof -
  show "db_step db db'"
  proof (cases "task_row i db")
    case None
    with assms show ?thesis by (simp add: claim_approval_def)
  next
    case (Some r)
    show ?thesis
    proof (cases "tk_approved r = None")
      case True
      with assms Some show ?thesis by (simp add: claim_approval_def)
    next
      case False
      with assms Some have db': "db' = set_task (r\<lparr>tk_approved := None, tk_note := None\<rparr>) db"
        by (simp add: claim_approval_def)
      have i: "tk_id r = i" and inr: "r \<in> set (db_tasks db)" using task_row_in [OF Some] by auto
      have k: "keeps_rows db db'" unfolding db'
        by (rule set_task_keeps [of _ _ r]) (use Some i in \<open>auto simp: dead_topic_def\<close>)
      moreover have "marked j db' \<longrightarrow> marked j db" for j by (auto simp: db' set_task_marked)
      moreover have "tables_ok db \<longrightarrow> tables_ok db'"
      proof
        assume ok: "tables_ok db"
        with inr have "failures_ok r" by (simp add: tables_ok_def)
        then show "tables_ok db'" unfolding db' by (intro set_task_rows [OF ok]) simp
      qed
      ultimately show ?thesis by (simp add: db_step_def)
    qed
  qed
  show "took \<Longrightarrow> marked i db \<and> \<not> marked i db'"
    using assms task_row_in [of i db]
    by (cases "task_row i db") (auto simp: claim_approval_def set_task_marked split: if_splits, auto simp: marked_def)
qed

lemma approve_step:
  assumes "approve_task i at note db = (took, db')"
  shows "keeps_rows db db'" and "tables_ok db \<Longrightarrow> tables_ok db'" and "marked j db' \<Longrightarrow> marked j db \<or> (took \<and> j = i)"
proof -
  have "keeps_rows db db' \<and> (tables_ok db \<longrightarrow> tables_ok db') \<and> (marked j db' \<longrightarrow> marked j db \<or> (took \<and> j = i))"
  proof (cases "task_row i db")
    case None
    with assms show ?thesis by (simp add: approve_task_def)
  next
    case (Some r)
    have i: "tk_id r = i" and inr: "r \<in> set (db_tasks db)" using task_row_in [OF Some] by auto
    show ?thesis
    proof (cases "tk_status r = T_active")
      case False
      with assms Some show ?thesis by (simp add: approve_task_def)
    next
      case True
      with assms Some have db': "db' = set_task (r\<lparr>tk_approved := Some at, tk_note := note\<rparr>) db" and took
        by (simp_all add: approve_task_def)
      have "keeps_rows db db'" unfolding db'
        by (rule set_task_keeps [of _ _ r]) (use Some i True in \<open>auto simp: dead_topic_def\<close>)
      moreover have "tables_ok db'" if "tables_ok db"
      proof -
        from that inr have "failures_ok r" by (simp add: tables_ok_def)
        then show ?thesis unfolding db' by (intro set_task_rows [OF that]) simp
      qed
      ultimately show ?thesis using \<open>took\<close> i by (auto simp: db' set_task_marked)
    qed
  qed
  then show "keeps_rows db db'" and "tables_ok db \<Longrightarrow> tables_ok db'" and "marked j db' \<Longrightarrow> marked j db \<or> (took \<and> j = i)"
    by auto
qed

lemma runs_step:
  assumes "db_tasks db' = db_tasks db" and "tables_ok db \<Longrightarrow> \<forall>r \<in> set (db_runs db'). rounds_ok (rn_attempts r)"
  shows "db_step db db'"
proof -
  have "task_row i db' = task_row i db" for i using assms(1) by (simp add: task_row_def)
  then show ?thesis using assms by (auto simp: db_step_def keeps_rows_def marked_def tables_ok_def)
qed

lemma pruneRuns_tasks [simp]: "db_tasks (pruneRuns i db) = db_tasks db"
  by (simp add: pruneRuns_def Let_def)

lemma pruneRuns_runs: "r \<in> set (db_runs (pruneRuns i db)) \<Longrightarrow> \<exists>r' \<in> set (db_runs db). rn_attempts r = rn_attempts r'"
  by (auto simp: pruneRuns_def Let_def split: if_splits)

lemma record_step: "rounds_ok (rn_attempts r) \<Longrightarrow> db_step db (recordRun r db)"
  by (rule runs_step) (auto simp: recordRun_def tables_ok_def dest!: pruneRuns_runs)

lemma start_step [simp]: "db_step db (startRun rid i started db)"
  unfolding startRun_def by (rule record_step) (simp add: rounds_ok_def MAX_DELIVERY_ROUNDS_def)

lemma patch_run_attempts [simp]:
  "rn_attempts (patch_run db p r) = (case pt_attempts p of None \<Rightarrow> rn_attempts r | Some n \<Rightarrow> n)"
  by (simp add: patch_run_def Let_def)

lemma update_run_step:
  assumes "case pt_attempts p of None \<Rightarrow> True | Some n \<Rightarrow> rounds_ok n"
  shows "db_step db (updateRun rid p db)"
proof (rule runs_step)
  assume ok: "tables_ok db"
  show "\<forall>r \<in> set (db_runs (updateRun rid p db)). rounds_ok (rn_attempts r)"
  proof
    fix r assume "r \<in> set (db_runs (updateRun rid p db))"
    then obtain r' where r': "r' \<in> set (db_runs db)" "r = (if rn_id r' = rid then patch_run db p r' else r')"
      by (auto simp: updateRun_def)
    with ok have "rounds_ok (rn_attempts r')" by (simp add: tables_ok_def)
    with assms r' show "rounds_ok (rn_attempts r)" by (cases "pt_attempts p") auto
  qed
qed (simp add: updateRun_def)

lemma insert_step:
  assumes "insert_new t db = Some db'" and "failures_ok t"
  shows "db_step db db'"
proof -
  from assms have new: "task_row (tk_id t) db = None" and db': "db' = insert_task t db"
    by (auto simp: insert_new_def split: if_splits)
  have row: "task_row i db' = (case task_row i db of Some r \<Rightarrow> Some r
      | None \<Rightarrow> if tk_id t = i then Some (t\<lparr>tk_approved := None, tk_note := None\<rparr>) else None)" for i
  proof -
    have "find P (xs @ [y]) = (case find P xs of Some r \<Rightarrow> Some r | None \<Rightarrow> if P y then Some y else None)" for P xs and y :: task_record
      by (induction xs) auto
    then show ?thesis by (simp add: db' insert_task_def task_row_def split: option.splits)
  qed
  have "tk_id t \<notin> set (map tk_id (db_tasks db))"
    using new by (auto simp: task_row_def find_None_iff)
  then have "tables_ok db \<longrightarrow> tables_ok db'"
    using assms(2) by (auto simp: db' insert_task_def tables_ok_def)
  moreover have "keeps_rows db db'"
    by (auto simp: keeps_rows_def row)
  moreover have "marked i db' \<longrightarrow> marked i db" for i
    by (auto simp: marked_def row split: option.splits)
  ultimately show ?thesis by (simp add: db_step_def)
qed

lemma get_ok: "db_get i db = Some t \<Longrightarrow> tables_ok db \<Longrightarrow> copy_ok db t \<and> tk_id t = i"
  using task_row_in [of i db] by (auto simp: db_get_def copy_ok_def copy_of_def tables_ok_def split: option.splits if_splits)

lemma row_copy:
  assumes "tables_ok db" and "t \<in> set (db_tasks db)"
  shows "copy_ok db t"
proof -
  have "find (\<lambda>r. tk_id r = tk_id t) xs = Some t" if "distinct (map tk_id xs)" "t \<in> set xs" for xs
    using that by (induction xs) (auto simp: image_iff)
  with assms have "task_row (tk_id t) db = Some t" by (simp add: tables_ok_def task_row_def)
  with assms show ?thesis by (simp add: copy_ok_def copy_of_def tables_ok_def)
qed

lemma due_ok: "t \<in> set (due_tasks now db) \<Longrightarrow> tables_ok db \<Longrightarrow> copy_ok db t"
  by (rule row_copy) (auto simp: due_tasks_def)

lemma topic_task_ok: "topic_task op db = Some t \<Longrightarrow> tables_ok db \<Longrightarrow> copy_ok db t"
  by (rule row_copy) (auto simp: topic_task_def find_Some_iff split: option.splits if_splits)

subsection \<open>Approvals as a contract\<close>

text \<open>
  What the scheduler relies on when it counts approvals: a store with one marker per task, which a claim
  takes away and only a grant sets. \<open>covered\<close>: the claims made, and one more where the marker is set,
  are covered by the grants.
\<close>

definition covered :: "('k \<Rightarrow> 'd \<Rightarrow> bool) \<Rightarrow> 'k list \<Rightarrow> 'k list \<Rightarrow> 'd \<Rightarrow> bool" where
  "covered mark claims grants d \<longleftrightarrow> (\<forall>i. count_list claims i + (if mark i d then 1 else 0) \<le> count_list grants i)"

locale approval_marker =
  fixes mark :: "'k \<Rightarrow> 'd \<Rightarrow> bool"
    and claim :: "'k \<Rightarrow> 'd \<Rightarrow> bool \<times> 'd"
    and grant :: "'k \<Rightarrow> 'x \<Rightarrow> 'd \<Rightarrow> bool \<times> 'd"
  assumes claim_takes: "claim i d = (True, d') \<Longrightarrow> mark i d \<and> \<not> mark i d'"
    and claim_sets_none: "claim i d = (took, d') \<Longrightarrow> mark j d' \<Longrightarrow> mark j d"
    and grant_sets: "grant i x d = (took, d') \<Longrightarrow> mark j d' \<Longrightarrow> mark j d \<or> (took \<and> j = i)"
begin

lemma covered_step: "covered mark cl gr d \<Longrightarrow> (\<And>i. mark i d' \<Longrightarrow> mark i d) \<Longrightarrow> covered mark cl gr d'"
proof -
  assume c: "covered mark cl gr d" and m: "\<And>i. mark i d' \<Longrightarrow> mark i d"
  show ?thesis
    unfolding covered_def
  proof
    fix i
    have "count_list cl i + (if mark i d then 1 else 0) \<le> count_list gr i" using c by (simp add: covered_def)
    then show "count_list cl i + (if mark i d' then 1 else 0) \<le> count_list gr i" using m [of i] by (auto split: if_splits)
  qed
qed

lemma covered_claim:
  assumes "covered mark cl gr d" and c: "claim i d = (True, d')"
  shows "covered mark (i # cl) gr d'"
  unfolding covered_def
proof
  fix j
  have "count_list cl j + (if mark j d then 1 else 0) \<le> count_list gr j" using assms(1) by (simp add: covered_def)
  then show "count_list (i # cl) j + (if mark j d' then 1 else 0) \<le> count_list gr j"
    using claim_takes [OF c] claim_sets_none [OF c, of j] by (cases "j = i") (auto split: if_splits)
qed

lemma covered_grant:
  assumes "covered mark cl gr d" and g: "grant i x d = (took, d')"
  shows "covered mark cl (if took then i # gr else gr) d'"
  unfolding covered_def
proof
  fix j
  have "count_list cl j + (if mark j d then 1 else 0) \<le> count_list gr j" using assms(1) by (simp add: covered_def)
  then show "count_list cl j + (if mark j d' then 1 else 0) \<le> count_list (if took then i # gr else gr) j"
    using grant_sets [OF g, of j] by (auto split: if_splits)
qed

end

text \<open>The table of tasks provides it: \<open>approved_at\<close> is the marker.\<close>

interpretation approvals: approval_marker marked claim_approval "\<lambda>i (at, note). approve_task i at note"
proof
  fix i j d d' took and x :: "int \<times> string option"
  show "claim_approval i d = (True, d') \<Longrightarrow> marked i d \<and> \<not> marked i d'" using claim_step(2) by blast
  show "claim_approval i d = (took, d') \<Longrightarrow> marked j d' \<Longrightarrow> marked j d" using claim_step(1) unfolding db_step_def by blast
  show "(case x of (at, note) \<Rightarrow> approve_task i at note) d = (took, d') \<Longrightarrow> marked j d' \<Longrightarrow> marked j d \<or> took \<and> j = i"
    by (cases x) (auto dest: approve_step(3))
qed

end
