(* ===== verification/Task_Good.thy ===== *)
theory Task_Good
  imports Task_Safety
begin

text \<open>
  What a suspended call carries, and the invariant.
\<close>

subsection \<open>Frames\<close>

fun exec_of :: "exec_frame \<Rightarrow> task_exec" where
  "exec_of (X_open e) = e"
| "exec_of (X_room e) = e"
| "exec_of (X_turn e room) = e"
| "exec_of (X_read e room text) = e"
| "exec_of (X_drop e) = e"
| "exec_of (X_store e room t text) = e"

fun request_task :: "request_frame \<Rightarrow> task_record" where
  "request_task (Q_room t now) = t"
| "request_task (Q_send t now room n) = t"
| "request_task (Q_save t now) = t"

text \<open>The task a frame executes, or asks approval for; the task a worker has taken up; the run whose turn has not begun.\<close>

fun taken :: "frame \<Rightarrow> string list" where
  "taken (Executing x) = [tk_id (ex_task (exec_of x))]"
| "taken (Requesting q) = [tk_id (request_task q)]"
| "taken f = []"

fun held_in :: "frame \<Rightarrow> string list" where
  "held_in (W_fire k i) = [i]"
| "held_in (Ticking (W_read k i)) = [i]"
| "held_in f = []"

fun pre_turn :: "frame \<Rightarrow> nat list" where
  "pre_turn (Executing (X_open e)) = [ex_rid e]"
| "pre_turn (Executing (X_room e)) = [ex_rid e]"
| "pre_turn f = []"

fun is_caller :: "frame \<Rightarrow> bool" where
  "is_caller (W_fire k i) = True"
| "is_caller (X_send rid) = True"
| "is_caller (R_wait k now rs) = True"
| "is_caller (C_fin i) = True"
| "is_caller f = False"

text \<open>The copies of tasks, the copies of runs, and the number of rounds a frame may write back.\<close>

fun exec_ok :: "sched \<Rightarrow> exec_frame \<Rightarrow> bool" where
  "exec_ok S (X_open e) \<longleftrightarrow> copy_ok (sc_db S) (ex_task e) \<and> (\<not> ex_approved e \<longrightarrow> tk_approval (ex_task e) = Never)"
| "exec_ok S (X_room e) \<longleftrightarrow> copy_ok (sc_db S) (ex_task e)
     \<and> (tk_approval (ex_task e) = Before_action \<longrightarrow> (ex_rid e, tk_id (ex_task e)) \<in> set (sc_claims S))"
| "exec_ok S (X_store e room t text) \<longleftrightarrow> copy_ok (sc_db S) (ex_task e) \<and> copy_ok (sc_db S) t"
| "exec_ok S x \<longleftrightarrow> copy_ok (sc_db S) (ex_task (exec_of x))"

fun delivery_ok :: "sched \<Rightarrow> delivery_frame \<Rightarrow> bool" where
  "delivery_ok S (D_room t r now) \<longleftrightarrow> copy_ok (sc_db S) t \<and> rounds_ok (rn_attempts r)"
| "delivery_ok S (D_send t r now room n) \<longleftrightarrow> copy_ok (sc_db S) t \<and> rounds_ok (rn_attempts r)"
| "delivery_ok S (D_defer rid n at) \<longleftrightarrow> rounds_ok n"
| "delivery_ok S D_alarm \<longleftrightarrow> True"
| "delivery_ok S (D_done t r) \<longleftrightarrow> copy_ok (sc_db S) t"

fun failure_ok :: "sched \<Rightarrow> failure_frame \<Rightarrow> bool" where
  "failure_ok S (F_read t now started g) \<longleftrightarrow> copy_ok (sc_db S) t"
| "failure_ok S (F_save t started g stopped) \<longleftrightarrow> copy_ok (sc_db S) t"
| "failure_ok S d \<longleftrightarrow> True"

definition copies_ok :: "task_run list \<Rightarrow> bool" where
  "copies_ok rs \<longleftrightarrow> (\<forall>r \<in> set rs. rounds_ok (rn_attempts r))"

fun tick_ok :: "tick_frame \<Rightarrow> bool" where
  "tick_ok (R_get k now r rs) \<longleftrightarrow> rounds_ok (rn_attempts r) \<and> copies_ok rs"
| "tick_ok (R_close k now rid st rs) \<longleftrightarrow> copies_ok rs"
| "tick_ok d \<longleftrightarrow> True"

fun recovered_ok :: "sched \<Rightarrow> recovered_frame \<Rightarrow> bool" where
  "recovered_ok S (C_room t r text now) \<longleftrightarrow> copy_ok (sc_db S) t"
| "recovered_ok S (C_save t r room text now) \<longleftrightarrow> copy_ok (sc_db S) t"
| "recovered_ok S (C_fresh t r now) \<longleftrightarrow> copy_ok (sc_db S) t \<and> rounds_ok (rn_attempts r)"
| "recovered_ok S d \<longleftrightarrow> True"

fun call_ok :: "sched \<Rightarrow> call_frame \<Rightarrow> bool" where
  "call_ok S (P_save t at) \<longleftrightarrow> copy_ok (sc_db S) t"
| "call_ok S (P_decide t approve note at) \<longleftrightarrow> copy_ok (sc_db S) t"
| "call_ok S (N_room t n) \<longleftrightarrow> failures_ok t"
| "call_ok S (N_summary t n room) \<longleftrightarrow> failures_ok t"
| "call_ok S (N_insert t n) \<longleftrightarrow> failures_ok t"
| "call_ok S d \<longleftrightarrow> True"

fun frame_ok :: "sched \<Rightarrow> frame \<Rightarrow> bool" where
  "frame_ok S (Executing x) \<longleftrightarrow> exec_ok S x"
| "frame_ok S (Requesting q) \<longleftrightarrow> copy_ok (sc_db S) (request_task q)"
| "frame_ok S (Sending d) \<longleftrightarrow> delivery_ok S d"
| "frame_ok S (Failing d) \<longleftrightarrow> failure_ok S d"
| "frame_ok S (Ticking d) \<longleftrightarrow> tick_ok d"
| "frame_ok S (Recovered d) \<longleftrightarrow> recovered_ok S d"
| "frame_ok S (Calling d) \<longleftrightarrow> call_ok S d"
| "frame_ok S (R_wait k now rs) \<longleftrightarrow> copies_ok rs"
| "frame_ok S f \<longleftrightarrow> True"

definition held_by :: "frame list \<Rightarrow> string list" where "held_by p = concat (map held_in p)"

fun stack_ok :: "sched \<Rightarrow> frame list \<Rightarrow> bool" where
  "stack_ok S [] \<longleftrightarrow> True"
| "stack_ok S (f # rest) \<longleftrightarrow> frame_ok S f \<and> (\<forall>g \<in> set rest. is_caller g \<and> frame_ok S g) \<and> set (taken f) \<subseteq> set (held_by rest)"

definition pre_of :: "frame list \<Rightarrow> nat list" where "pre_of p = concat (map pre_turn p)"

subsection \<open>The invariant\<close>

definition all_held :: "frame list list \<Rightarrow> string list" where "all_held ps = concat (map held_by ps)"
definition all_pre :: "frame list list \<Rightarrow> nat list" where "all_pre ps = concat (map pre_of ps)"

definition begun_ok :: "sched \<Rightarrow> bool" where
  "begun_ok S \<longleftrightarrow> distinct (all_pre (sc_procs S) @ map ex_rid (sc_turns S))
     \<and> (\<forall>rid \<in> set (all_pre (sc_procs S) @ map ex_rid (sc_turns S)). rid < sc_fresh S)
     \<and> (\<forall>e \<in> set (sc_turns S). tk_approval (ex_task e) = Before_action \<longrightarrow> (ex_rid e, tk_id (ex_task e)) \<in> set (sc_claims S))"

definition ticks_ok :: "sched \<Rightarrow> bool" where
  "ticks_ok S \<longleftrightarrow> (\<forall>k. \<forall>t \<in> set (ti_due (sc_ticks S k)). copy_ok (sc_db S) t)"

definition approvals_ok :: "sched \<Rightarrow> bool" where
  "approvals_ok S \<longleftrightarrow> covered marked (map snd (sc_claims S)) (sc_grants S) (sc_db S)"

definition sched_ok :: "task_db \<Rightarrow> sched \<Rightarrow> bool" where
  "sched_ok D S \<longleftrightarrow> tables_ok (sc_db S) \<and> (\<forall>p \<in> set (sc_procs S). stack_ok S p)
     \<and> distinct (all_held (sc_procs S)) \<and> set (all_held (sc_procs S)) \<subseteq> set (sc_firing S)
     \<and> begun_ok S \<and> ticks_ok S \<and> approvals_ok S \<and> keeps_rows D (sc_db S)"

subsection \<open>Monotonicity\<close>

text \<open>A later state: the tables went on and no approval taken was forgotten.\<close>

definition later :: "sched \<Rightarrow> sched \<Rightarrow> bool" where
  "later S S' \<longleftrightarrow> keeps_rows (sc_db S) (sc_db S') \<and> set (sc_claims S) \<subseteq> set (sc_claims S')"

lemma exec_ok_later: "exec_ok S x \<Longrightarrow> later S S' \<Longrightarrow> exec_ok S' x"
  by (cases x) (auto simp: later_def intro: copy_ok_mono)

lemma frame_ok_later: "frame_ok S f \<Longrightarrow> later S S' \<Longrightarrow> frame_ok S' f"
proof (cases f)
  case (Executing x)
  assume "frame_ok S f" "later S S'"
  with Executing show ?thesis by (simp add: exec_ok_later)
next
  case (Sending d)
  assume "frame_ok S f" "later S S'"
  with Sending show ?thesis by (cases d) (auto simp: later_def intro: copy_ok_mono)
next
  case (Failing d)
  assume "frame_ok S f" "later S S'"
  with Failing show ?thesis by (cases d) (auto simp: later_def intro: copy_ok_mono)
next
  case (Recovered d)
  assume "frame_ok S f" "later S S'"
  with Recovered show ?thesis by (cases d) (auto simp: later_def intro: copy_ok_mono)
next
  case (Calling d)
  assume "frame_ok S f" "later S S'"
  with Calling show ?thesis by (cases d) (auto simp: later_def intro: copy_ok_mono)
qed (auto simp: later_def intro: copy_ok_mono)

lemma stack_ok_later: "stack_ok S p \<Longrightarrow> later S S' \<Longrightarrow> stack_ok S' p"
  by (cases p) (auto intro: frame_ok_later)

lemma frame_ok_cong:
  assumes "sc_db S = sc_db S'" and "sc_claims S = sc_claims S'"
  shows "frame_ok S f = frame_ok S' f" and "stack_ok S p = stack_ok S' p"
proof -
  have "later S S'" "later S' S" using assms by (simp_all add: later_def)
  then show "frame_ok S f = frame_ok S' f" and "stack_ok S p = stack_ok S' p"
    by (blast intro: frame_ok_later stack_ok_later)+
qed

subsection \<open>A call in progress\<close>

definition unused :: "nat \<Rightarrow> sched \<Rightarrow> bool" where
  "unused rid S \<longleftrightarrow> rid \<notin> set (all_pre (sc_procs S) @ map ex_rid (sc_turns S)) \<and> rid < sc_fresh S"

definition stack_fits :: "frame list \<Rightarrow> sched \<Rightarrow> bool" where
  "stack_fits p S \<longleftrightarrow> stack_ok S p \<and> distinct (held_by p) \<and> set (held_by p) \<inter> set (all_held (sc_procs S)) = {}
     \<and> set (held_by p) \<subseteq> set (sc_firing S) \<and> distinct (pre_of p) \<and> (\<forall>rid \<in> set (pre_of p). unused rid S)"

lemma put_fields [simp]:
  "sc_db (put p S) = sc_db S" "sc_claims (put p S) = sc_claims S" "sc_procs (put p S) = p # sc_procs S"
  "sc_firing (put p S) = sc_firing S" "sc_ticks (put p S) = sc_ticks S" "sc_fresh (put p S) = sc_fresh S"
  "sc_turns (put p S) = sc_turns S" "sc_grants (put p S) = sc_grants S" "sc_active (put p S) = sc_active S"
  "sc_recovering (put p S) = sc_recovering S" "sc_live (put p S) = sc_live S" "sc_sent (put p S) = sc_sent S"
  by (simp_all add: put_def)

lemma stack_ok_put [simp]: "stack_ok (put q S) p = stack_ok S p"
  by (rule frame_ok_cong(2)) simp_all

lemma good_put: "sched_ok D (put p S) \<longleftrightarrow> sched_ok D S \<and> stack_fits p S"
proof -
  have 1: "(\<forall>q \<in> set (sc_procs (put p S)). stack_ok (put p S) q) \<longleftrightarrow> stack_ok S p \<and> (\<forall>q \<in> set (sc_procs S). stack_ok S q)"
    by simp
  have 2: "distinct (all_held (sc_procs (put p S))) \<longleftrightarrow> distinct (held_by p) \<and> distinct (all_held (sc_procs S))
      \<and> set (held_by p) \<inter> set (all_held (sc_procs S)) = {}"
    by (auto simp: all_held_def)
  have 3: "set (all_held (sc_procs (put p S))) \<subseteq> set (sc_firing (put p S)) \<longleftrightarrow>
      set (held_by p) \<subseteq> set (sc_firing S) \<and> set (all_held (sc_procs S)) \<subseteq> set (sc_firing S)"
    by (auto simp: all_held_def)
  have 4: "begun_ok (put p S) \<longleftrightarrow> begun_ok S \<and> distinct (pre_of p) \<and> (\<forall>rid \<in> set (pre_of p). unused rid S)"
    by (auto simp: begun_ok_def unused_def all_pre_def)
  have 5: "ticks_ok (put p S) = ticks_ok S" "approvals_ok (put p S) = approvals_ok S"
    by (simp_all add: ticks_ok_def approvals_ok_def)
  show ?thesis
    unfolding sched_ok_def stack_fits_def 1 2 3 4 5 put_fields(1) by blast
qed

text \<open>A list of callers to return to.\<close>

definition cont :: "task_db \<Rightarrow> frame list \<Rightarrow> sched \<Rightarrow> bool" where
  "cont D rest S \<longleftrightarrow> sched_ok D (put rest S) \<and> (\<forall>g \<in> set rest. is_caller g)"

lemma caller_plain [simp]: "is_caller g \<Longrightarrow> taken g = [] \<and> pre_turn g = []"
  by (cases g) auto

lemma callers_pre: "\<forall>g \<in> set rest. is_caller g \<Longrightarrow> pre_of rest = []"
  by (induction rest) (simp_all add: pre_of_def)

lemma cont_good: "cont D rest S \<Longrightarrow> sched_ok D S"
  by (simp add: cont_def good_put)

lemma cont_Nil [simp]: "cont D [] S = sched_ok D S"
  by (auto simp: cont_def good_put stack_fits_def held_by_def pre_of_def)

lemma stack_split:
  assumes "stack_ok S (f # rest)"
  shows "stack_ok S rest" and "frame_ok S f" and "\<forall>g \<in> set rest. is_caller g" and "set (taken f) \<subseteq> set (held_by rest)"
  using assms by (cases rest; simp)+

lemma pop:
  assumes "sched_ok D (put (f # rest) S)"
  shows "cont D rest S" and "frame_ok S f" and "set (taken f) \<subseteq> set (held_by rest)"
    and "\<forall>rid \<in> set (pre_turn f). unused rid S"
proof -
  from assms have g: "sched_ok D S" and F: "stack_fits (f # rest) S" by (simp_all add: good_put)
  note st = stack_split [of S f rest]
  from F have so: "stack_ok S (f # rest)" by (simp add: stack_fits_def)
  from F have "stack_fits rest S" using st(1) [OF so] by (auto simp: stack_fits_def held_by_def pre_of_def)
  with g st(3) [OF so] show "cont D rest S" by (simp add: cont_def good_put)
  from st(2,4) [OF so] show "frame_ok S f" "set (taken f) \<subseteq> set (held_by rest)" by auto
  from F show "\<forall>rid \<in> set (pre_turn f). unused rid S" by (auto simp: stack_fits_def pre_of_def)
qed

text \<open>Awaiting again, on top of the same callers.\<close>

lemma suspend:
  assumes "cont D rest S" and "frame_ok S f" and "held_in f = []" and "set (taken f) \<subseteq> set (held_by rest)"
    and "distinct (pre_turn f)" and "\<forall>rid \<in> set (pre_turn f). unused rid S"
  shows "sched_ok D (put (f # rest) S)"
proof -
  from assms(1) have g: "sched_ok D S" and F: "stack_fits rest S" and c: "\<forall>g \<in> set rest. is_caller g"
    by (simp_all add: cont_def good_put)
  have rf: "\<forall>g \<in> set rest. frame_ok S g"
    using F by (cases rest) (auto simp: stack_fits_def)
  have "stack_fits (f # rest) S"
    using F c rf assms callers_pre [OF c] by (simp add: stack_fits_def held_by_def pre_of_def)
  with g show ?thesis by (simp add: good_put)
qed

lemma push_plain:
  "cont D rest S \<Longrightarrow> frame_ok S f \<Longrightarrow> held_in f = [] \<Longrightarrow> taken f = [] \<Longrightarrow> pre_turn f = [] \<Longrightarrow> sched_ok D (put (f # rest) S)"
  by (rule suspend) simp_all

lemma push_caller:
  assumes "cont D rest S" and "frame_ok S f" and "held_in f = []" and "is_caller f"
  shows "cont D (f # rest) S"
proof -
  have "sched_ok D (put (f # rest) S)" using assms by (intro push_plain) auto
  with assms show ?thesis by (simp add: cont_def)
qed

subsection \<open>Changes of the state\<close>

text \<open>Equal as far as the invariant looks.\<close>

definition alike :: "sched \<Rightarrow> sched \<Rightarrow> bool" where
  "alike S S' \<longleftrightarrow> sc_db S' = sc_db S \<and> sc_procs S' = sc_procs S \<and> sc_firing S' = sc_firing S \<and> sc_ticks S' = sc_ticks S
     \<and> sc_turns S' = sc_turns S \<and> sc_claims S' = sc_claims S \<and> sc_grants S' = sc_grants S \<and> sc_fresh S \<le> sc_fresh S'"

lemma unused_alike: "unused rid S \<Longrightarrow> alike S S' \<Longrightarrow> unused rid S'"
  by (auto simp: unused_def alike_def)

lemma good_alike:
  assumes "sched_ok D S" and "alike S S'"
  shows "sched_ok D S'"
proof -
  have st: "stack_ok S' p = stack_ok S p" for p
    using assms(2) by (intro frame_ok_cong(2)) (simp_all add: alike_def)
  have "begun_ok S" and "sc_fresh S \<le> sc_fresh S'" using assms by (simp_all add: sched_ok_def alike_def)
  then have "begun_ok S'"
    using assms(2) unfolding begun_ok_def alike_def by (metis order_less_le_trans)
  moreover have "ticks_ok S'" and "approvals_ok S'"
    using assms by (simp_all add: sched_ok_def ticks_ok_def alike_def approvals_ok_def)
  ultimately have "begun_ok S'" "ticks_ok S'" "approvals_ok S'" by simp_all
  with assms st show ?thesis by (simp add: sched_ok_def alike_def)
qed

lemma alike_put: "alike S S' \<Longrightarrow> alike (put p S) (put p S')"
  by (simp add: alike_def)

lemma cont_alike: "cont D rest S \<Longrightarrow> alike S S' \<Longrightarrow> cont D rest S'"
  unfolding cont_def using good_alike alike_put by blast

lemma unused_db [simp]: "unused rid (S\<lparr>sc_db := d\<rparr>) = unused rid S"
  by (simp add: unused_def)

lemma good_db:
  assumes "sched_ok D S" and "db_step (sc_db S) d"
  shows "sched_ok D (S\<lparr>sc_db := d\<rparr>)"
proof -
  have l: "later S (S\<lparr>sc_db := d\<rparr>)" using assms by (simp add: later_def db_step_def)
  have "tables_ok d" using assms by (simp add: sched_ok_def db_step_def)
  moreover have "\<forall>p \<in> set (sc_procs S). stack_ok (S\<lparr>sc_db := d\<rparr>) p"
    using assms(1) stack_ok_later [OF _ l] by (simp add: sched_ok_def)
  moreover have "begun_ok (S\<lparr>sc_db := d\<rparr>)" using assms(1) by (simp add: sched_ok_def begun_ok_def)
  moreover have "ticks_ok (S\<lparr>sc_db := d\<rparr>)"
  proof -
    have "ticks_ok S" and k: "keeps_rows (sc_db S) d" using assms by (simp_all add: sched_ok_def db_step_def)
    then show ?thesis using copy_ok_mono [OF _ k] by (simp add: ticks_ok_def)
  qed
  moreover have "approvals_ok (S\<lparr>sc_db := d\<rparr>)"
    using assms unfolding sched_ok_def db_step_def approvals_ok_def
    by (auto intro: approvals.covered_step)
  moreover have "keeps_rows D d"
    using assms keeps_rows_trans by (auto simp: sched_ok_def db_step_def)
  ultimately show ?thesis using assms(1) by (simp add: sched_ok_def)
qed

lemma put_db: "put p (S\<lparr>sc_db := d\<rparr>) = (put p S)\<lparr>sc_db := d\<rparr>"
  by (simp add: put_def)

lemma cont_db: "cont D rest S \<Longrightarrow> db_step (sc_db S) d \<Longrightarrow> cont D rest (S\<lparr>sc_db := d\<rparr>)"
  unfolding cont_def put_db by (simp add: good_db)

lemma alike_simps [simp]:
  "alike S (S\<lparr>sc_active := a\<rparr>)" "alike S (S\<lparr>sc_recovering := b\<rparr>)" "alike S (ask_alarm at S)" "alike S (log_msg m S)"
  "alike S (drop_active rid S)" "alike S (activate rid i S)" "alike S (S\<lparr>sc_live := c\<rparr>)" "alike S (S\<lparr>sc_closing := c\<rparr>)"
  "alike S (S\<lparr>sc_wakes := w\<rparr>)" "alike S (send_notice t g room S)" "alike S S"
  by (simp_all add: alike_def ask_alarm_def log_msg_def drop_active_def activate_def send_notice_def split: option.split)

lemma good_release:
  assumes "sched_ok D (put (f # rest) S)" and "held_in f = [i]"
  shows "sched_ok D (release i S)"
proof -
  from assms have g: "sched_ok D S" and F: "stack_fits (f # rest) S" by (simp_all add: good_put)
  from F assms(2) have "i \<notin> set (all_held (sc_procs S))" by (auto simp: stack_fits_def held_by_def)
  moreover have "stack_ok (release i S) p = stack_ok S p" for p
    by (rule frame_ok_cong(2)) (simp_all add: release_def)
  moreover have "begun_ok (release i S) = begun_ok S" "ticks_ok (release i S) = ticks_ok S" "approvals_ok (release i S) = approvals_ok S"
    by (simp_all add: release_def begun_ok_def ticks_ok_def approvals_ok_def)
  ultimately show ?thesis using g by (auto simp: sched_ok_def release_def)
qed

lemma good_tick:
  assumes "sched_ok D S" and "\<forall>t \<in> set (ti_due ti). copy_ok (sc_db S) t"
  shows "sched_ok D (set_tick k ti S)"
proof -
  have "stack_ok (set_tick k ti S) p = stack_ok S p" for p
    by (rule frame_ok_cong(2)) (simp_all add: set_tick_def)
  moreover have "begun_ok (set_tick k ti S) = begun_ok S" "approvals_ok (set_tick k ti S) = approvals_ok S"
    by (simp_all add: set_tick_def begun_ok_def approvals_ok_def)
  moreover have "ticks_ok (set_tick k ti S)"
    using assms by (auto simp: sched_ok_def ticks_ok_def set_tick_def)
  ultimately show ?thesis using assms by (simp add: sched_ok_def set_tick_def)
qed

end
