(* ===== verification/Task_Invariant.thy ===== *)
theory Task_Invariant
  imports Task_Good
begin

text \<open>
  Every operation keeps the invariant: a call in progress (\<open>cont\<close>) is suspended or returns in a sched_ok state.
\<close>

lemma good_fresh: "sched_ok D S \<Longrightarrow> rid \<in> set (all_pre (sc_procs S) @ map ex_rid (sc_turns S)) \<Longrightarrow> rid < sc_fresh S"
  by (simp add: sched_ok_def begun_ok_def)

lemma fire_good:
  assumes c: "cont D rest S" and i: "tk_id t \<in> set (held_by rest)" and t: "copy_ok (sc_db S) t"
  shows "sched_ok D (fire t now rest S)"
proof -
  have ex: "sched_ok D (executeRun t now approved nt rest S)" if "\<not> approved \<longrightarrow> tk_approval t = Never" for approved nt
  proof -
    let ?S = "S\<lparr>sc_fresh := Suc (sc_fresh S), sc_active := (sc_fresh S, tk_id t) # sc_active S\<rparr>"
    have "cont D rest ?S" by (rule cont_alike [OF c]) (simp add: alike_def)
    moreover have "unused (sc_fresh S) ?S"
      using good_fresh [OF cont_good [OF c]] by (force simp: unused_def)
    ultimately show ?thesis
      using i t that unfolding executeRun_def Let_def by (intro suspend) simp_all
  qed
  have "sched_ok D (requestApproval t now rest S)"
    unfolding requestApproval_def by (rule suspend [OF c]) (use i t in simp_all)
  moreover have "sched_ok D (put rest S)" using c by (simp add: cont_def)
  moreover have "tk_approval t = Never" if "tk_approval t \<noteq> Before_action"
    using that by (cases "tk_approval t") simp_all
  ultimately show ?thesis unfolding fire_def using ex by simp
qed

lemma worker_done_good:
  assumes "sched_ok D S"
  shows "sched_ok D (worker_done k S)"
proof -
  let ?S = "set_tick k ((sc_ticks S k)\<lparr>ti_due := [], ti_workers := ti_workers (sc_ticks S k) - 1\<rparr>) S"
  have g: "sched_ok D ?S" by (rule good_tick [OF assms]) simp
  then have "sched_ok D (put [Ticking (T_wake k b)] ?S)" for b by (intro push_plain) simp_all
  with g show ?thesis unfolding worker_done_def Let_def by (simp only: if_split) blast
qed

lemma next_job_good:
  assumes g: "sched_ok D S"
  shows "sched_ok D (next_job reload k S)"
proof (cases "dropWhile (\<lambda>t. isBusy (tk_id t) S) (ti_due (sc_ticks S k))")
  case Nil
  with worker_done_good [OF g] show ?thesis unfolding next_job_def Nil by simp
next
  case (Cons t ts)
  let ?i = "tk_id t"
  let ?T = "set_tick k ((sc_ticks S k)\<lparr>ti_due := ts\<rparr>) S"
  let ?S = "?T\<lparr>sc_firing := ?i # sc_firing S\<rparr>"
  have sub: "set (t # ts) \<subseteq> set (ti_due (sc_ticks S k))"
    unfolding Cons [symmetric] by (rule subsetI) (rule set_dropWhileD)
  have "ticks_ok S" using g by (simp add: sched_ok_def)
  with sub have t: "copy_ok (sc_db S) t" and ts: "\<forall>u \<in> set ts. copy_ok (sc_db S) u"
    by (auto simp: ticks_ok_def)
  have "\<not> isBusy ?i S" using Cons by (simp add: dropWhile_eq_Cons_conv)
  then have nf: "?i \<notin> set (sc_firing S)" by (simp add: isBusy_def)
  have gT: "sched_ok D ?T" by (rule good_tick [OF g]) (simp add: ts)
  have "stack_ok ?S p = stack_ok ?T p" for p by (rule frame_ok_cong(2)) simp_all
  moreover have "begun_ok ?S = begun_ok ?T" "ticks_ok ?S = ticks_ok ?T" "approvals_ok ?S = approvals_ok ?T"
    by (simp_all add: begun_ok_def ticks_ok_def approvals_ok_def)
  ultimately have gS: "sched_ok D ?S" using gT by (auto simp: sched_ok_def set_tick_def)
  have "set (all_held (sc_procs S)) \<subseteq> set (sc_firing S)" using g by (simp add: sched_ok_def)
  with nf have nh: "?i \<notin> set (all_held (sc_procs ?S))" by (auto simp: set_tick_def)
  have "sched_ok D (put [Ticking (W_read k ?i)] ?S)"
    using gS nh by (simp add: good_put stack_fits_def held_by_def pre_of_def)
  moreover have "sched_ok D (fire t (ti_now (sc_ticks S k)) [W_fire k ?i] ?S)"
  proof (rule fire_good)
    show "cont D [W_fire k ?i] ?S"
      using gS nh by (simp add: cont_def good_put stack_fits_def held_by_def pre_of_def)
  qed (use t in \<open>simp_all add: held_by_def set_tick_def\<close>)
  ultimately show ?thesis unfolding next_job_def Cons by (simp add: Let_def)
qed

lemma start_workers_good: "sched_ok D S \<Longrightarrow> sched_ok D (start_workers n k S)"
  by (induction n k S rule: start_workers.induct) (simp_all add: next_job_good)

lemma reconcile_good: "sched_ok D S \<Longrightarrow> copies_ok rs \<Longrightarrow> sched_ok D (reconcile_loop k now rs S)"
proof (induction k now rs S rule: reconcile_loop.induct)
  case (1 k now S)
  then show ?case by (simp add: push_plain)
next
  case (2 k now r rs S)
  have r: "rounds_ok (rn_attempts r)" and rs: "copies_ok rs" using 2 by (simp_all add: copies_ok_def)
  have g: "sched_ok D S" by (rule 2(4))
  have p: "sched_ok D (put [Ticking (R_get k now r rs)] S)"
    using g r rs by (intro push_plain) simp_all
  have "sched_ok D (S\<lparr>sc_recovering := rn_task r # sc_recovering S\<rparr>)"
    by (rule good_alike [OF g]) simp
  with 2 p rs show ?case by simp
qed

lemma rearm_good: "sched_ok D S \<Longrightarrow> sched_ok D (rearm S)"
  unfolding rearm_def by (rule push_plain) simp_all

lemma callers_tail: "cont D (f # rest) S \<Longrightarrow> cont D rest S"
  by (rule pop(1) [of _ f]) (simp add: cont_def)

lemma ret_good: "cont D rest S \<Longrightarrow> sched_ok D (ret rest S)"
proof (induction rest S rule: ret.induct)
  case (1 k i rest S)
  then have "sched_ok D (release i S)" by (intro good_release [of _ "W_fire k i" rest]) (simp_all add: cont_def)
  then show ?case by (simp add: next_job_good)
next
  case (2 rid rest S)
  then have "cont D rest (drop_active rid S)" using callers_tail cont_alike alike_simps(5) by blast
  with 2 show ?case by simp
next
  case (3 k now rs rest S)
  then have "copies_ok rs" using pop(2) by (fastforce simp: cont_def)
  with 3 show ?case by (simp add: reconcile_good cont_good)
next
  case (4 i rest S)
  have "sched_ok D (S\<lparr>sc_recovering := removeAll i (sc_recovering S)\<rparr>)"
    by (rule good_alike [OF cont_good [OF 4]]) simp
  then show ?case by (simp add: rearm_good)
qed (auto simp: cont_good)

lemma throw_good: "cont D rest S \<Longrightarrow> sched_ok D (throw_to rest S)"
proof (induction rest S rule: throw_to.induct)
  case (1 k i rest S)
  then have "sched_ok D (release i S)" by (intro good_release [of _ "W_fire k i" rest]) (simp_all add: cont_def)
  then show ?case by (simp add: next_job_good)
next
  case (2 rid rest S)
  then have "cont D rest (drop_active rid S)" using callers_tail cont_alike alike_simps(5) by blast
  with 2 show ?case by simp
next
  case (3 i rest S)
  have "sched_ok D (S\<lparr>sc_recovering := removeAll i (sc_recovering S)\<rparr>)"
    by (rule good_alike [OF cont_good [OF 3]]) simp
  then show ?case by (simp add: rearm_good)
qed (auto simp: cont_good)

subsection \<open>Delivery and failures\<close>

lemma deliver_good:
  "cont D rest S \<Longrightarrow> copy_ok (sc_db S) t \<Longrightarrow> rounds_ok (rn_attempts r) \<Longrightarrow> sched_ok D (deliverOrDefer E t r now rest S)"
  by (cases "rn_room r") (simp_all add: deliverOrDefer_def push_plain)

lemma round_failed_good:
  "cont D rest S \<Longrightarrow> copy_ok (sc_db S) t \<Longrightarrow> sched_ok D (round_failed E nowMs t r now rest S)"
  by (simp add: round_failed_def Let_def push_plain rounds_ok_def)

lemma cont_log [simp]: "cont D rest S \<Longrightarrow> cont D rest (log_msg m S)" by (erule cont_alike) simp
lemma cont_ask [simp]: "cont D rest S \<Longrightarrow> cont D rest (ask_alarm at S)" by (erule cont_alike) simp
lemma cont_drop [simp]: "cont D rest S \<Longrightarrow> cont D rest (drop_active rid S)" by (erule cont_alike) simp
lemma cont_notice [simp]: "cont D rest S \<Longrightarrow> cont D rest (send_notice t g room S)" by (erule cont_alike) simp

lemma same_db [simp]:
  "sc_db (log_msg m S) = sc_db S" "sc_db (ask_alarm at S) = sc_db S" "sc_db (drop_active rid S) = sc_db S"
  "sc_db (activate rid i S) = sc_db S" "sc_db (release i S) = sc_db S"
  by (simp_all add: log_msg_def ask_alarm_def drop_active_def activate_def release_def)

lemma get_copy:
  assumes "sched_ok D S" and "copy_ok (sc_db S) t"
  shows "copy_ok (sc_db S) (case db_get (tk_id t) (sc_db S) of None \<Rightarrow> t | Some c \<Rightarrow> c)"
proof (cases "db_get (tk_id t) (sc_db S)")
  case (Some c)
  have "tables_ok (sc_db S)" using assms(1) by (simp add: sched_ok_def)
  with get_ok [OF Some] Some show ?thesis by simp
qed (use assms(2) in simp)

lemma delivered_copy: "copy_ok db t \<Longrightarrow> copy_ok db (delivered_task r t)"
  by (auto simp: copy_ok_def copy_of_def delivered_task_def failures_ok_def MAX_CONSECUTIVE_FAILURES_def)

lemma plain_changes [simp]:
  "pt_attempts no_changes = None" "pt_attempts delivered_changes = None" "pt_attempts (failed_changes g) = None"
  "pt_attempts (stored_changes room text) = None" "pt_attempts dropped_changes = None"
  by (simp_all add: no_changes_def delivered_changes_def failed_changes_def stored_changes_def dropped_changes_def)

lemma update_step [simp]: "pt_attempts p = None \<Longrightarrow> db_step db (updateRun rid p db)"
  by (rule update_run_step) simp

lemma delivery_good:
  assumes "sched_ok D (put (Sending d # rest) S)"
  shows "sched_ok D (resume_delivery E nowMs ans d rest S)"
proof -
  have c: "cont D rest S" and f: "delivery_ok S d" using pop [OF assms] by simp_all
  note g = cont_good [OF c]
  note rf = round_failed_good
  show ?thesis
  proof (cases d)
    case (D_room t r now)
    with f c show ?thesis by (cases "room_of t ans") (simp_all add: rf push_plain)
  next
    case (D_send t r now room n)
    with f c show ?thesis by (cases ans) (simp_all add: rf push_plain Let_def)
  next
    case (D_defer rid n at)
    let ?d = "updateRun rid (no_changes\<lparr>pt_attempts := Some n, pt_retry := Some (Some at)\<rparr>) (sc_db S)"
    have "cont D rest (S\<lparr>sc_db := ?d\<rparr>)"
      by (rule cont_db [OF c], rule update_run_step) (use f D_defer in simp)
    then have "sched_ok D (put (Sending D_alarm # rest) (ask_alarm at (S\<lparr>sc_db := ?d\<rparr>)))"
      by (intro push_plain) simp_all
    with D_defer c show ?thesis by (cases ans) (simp_all add: throw_good)
  next
    case D_alarm
    with c show ?thesis by (cases ans) (simp_all add: throw_good ret_good)
  next
    case (D_done t r)
    let ?t = "delivered_task r (case db_get (tk_id t) (sc_db S) of None \<Rightarrow> t | Some c \<Rightarrow> c)"
    show ?thesis
    proof (cases "ans = Done")
      case True
      show ?thesis
      proof (cases "save_task ?t (sc_db S)")
        case None
        with True D_done c show ?thesis by (simp add: throw_good)
      next
        case (Some db)
        have "copy_ok (sc_db S) ?t" using f D_done get_copy [OF g] by (intro delivered_copy) simp
        with Some have "db_step (sc_db S) db" by (rule save_step)
        then have "db_step (sc_db S) (updateRun (rn_id r) delivered_changes db)"
          by (rule db_step_trans) simp
        then have "cont D rest (S\<lparr>sc_db := updateRun (rn_id r) delivered_changes db\<rparr>)" by (rule cont_db [OF c])
        with True Some D_done show ?thesis by (simp add: ret_good)
      qed
    next
      case False
      with D_done c show ?thesis by (cases ans) (simp_all add: throw_good)
    qed
  qed
qed

lemma failed_copy:
  assumes "failed_task E nowMs now started t = (t', stopped)" and "copy_ok db t" and "tk_status t = T_active"
  shows "copy_ok db t'"
proof -
  have k: "tk_id t' = tk_id t" "tk_topic t' = tk_topic t"
    using assms(1) by (auto simp: failed_task_def Let_def stop_task_def split: if_splits option.splits)
  have "tk_failures t < MAX_CONSECUTIVE_FAILURES" using assms by (simp add: copy_ok_def failures_ok_def)
  then have "failures_ok t'"
    using assms(1) by (auto simp: failed_task_def Let_def stop_task_def failures_ok_def split: if_splits option.splits)
  with assms(2) k show ?thesis by (simp add: copy_ok_def copy_of_def)
qed

lemma new_audit_good: "cont D rest S \<Longrightarrow> cont D rest (new_audit i started st ok S)"
proof -
  assume c: "cont D rest S"
  let ?d = "recordRun (audit_row (sc_fresh S) i started st ok) (sc_db S)"
  have "cont D rest (S\<lparr>sc_db := ?d\<rparr>)"
    by (rule cont_db [OF c], rule record_step) (simp add: audit_row_def rounds_ok_def MAX_DELIVERY_ROUNDS_def)
  then show ?thesis unfolding new_audit_def by (rule cont_alike) (simp add: alike_def)
qed

lemma write_failure_good:
  assumes c: "cont D rest S" and s: "save_task t (sc_db S) = Some db" and t: "copy_ok (sc_db S) t"
  shows "cont D rest (write_failure t started g db S)"
proof -
  have st: "db_step (sc_db S) db" by (rule save_step [OF s t])
  show ?thesis
  proof (cases g)
    case None
    have "cont D rest (S\<lparr>sc_db := db\<rparr>)" by (rule cont_db [OF c st])
    with None show ?thesis by (simp add: write_failure_def new_audit_good)
  next
    case (Some l)
    have "db_step (sc_db S) (updateRun (lg_rid l) (failed_changes l) db)" by (rule db_step_trans [OF st]) simp
    with Some c show ?thesis by (simp add: write_failure_def cont_db)
  qed
qed

lemma failure_good:
  assumes "sched_ok D (put (Failing d # rest) S)"
  shows "sched_ok D (resume_failure E nowMs ans d rest S)"
proof -
  have c: "cont D rest S" and f: "failure_ok S d" using pop [OF assms] by simp_all
  note g = cont_good [OF c]
  show ?thesis
  proof (cases d)
    case (F_read u now started l)
    let ?t = "case db_get (tk_id u) (sc_db S) of None \<Rightarrow> u | Some c \<Rightarrow> c"
    obtain t' stopped where t': "failed_task E nowMs now started ?t = (t', stopped)" by fastforce
    have "copy_ok (sc_db S) ?t" using f F_read get_copy [OF g] by simp
    then have "sched_ok D (put (Failing (F_save t' started l stopped) # rest) S)" if "tk_status ?t = T_active"
      using failed_copy [OF t' _ that] c by (intro push_plain) simp_all
    moreover have "sched_ok D (put (Failing (F_row x) # rest) S)" for x using c by (intro push_plain) simp_all
    ultimately show ?thesis
      unfolding F_read resume_failure.simps Let_def t' prod.case
      using c by (auto simp: throw_good ret_good split: task_answer.split option.split)
  next
    case (F_row l)
    have "cont D rest (S\<lparr>sc_db := updateRun (lg_rid l) (failed_changes l) (sc_db S)\<rparr>)" by (rule cont_db [OF c]) simp
    with F_row c show ?thesis by (cases ans) (simp_all add: throw_good ret_good)
  next
    case (F_save t started l stopped)
    show ?thesis
    proof (cases "save_task t (sc_db S)")
      case None
      with F_save c show ?thesis by (cases ans) (simp_all add: throw_good)
    next
      case (Some db)
      with c f F_save have "cont D rest (write_failure t started l db S)" by (simp add: write_failure_good)
      then have "sched_ok D (put (Failing (F_room t l) # rest) (write_failure t started l db S))" "sched_ok D (ret rest (write_failure t started l db S))"
        by (simp_all add: push_plain ret_good)
      with F_save c Some show ?thesis by (cases ans) (simp_all add: throw_good Let_def)
    qed
  next
    case (F_room t l)
    with c show ?thesis by (cases "room_of t ans") (simp_all add: ret_good push_plain)
  next
    case (F_send t l room n)
    with c show ?thesis by (cases ans) (simp_all add: ret_good push_plain Let_def)
  qed
qed

subsection \<open>Executing and asking\<close>

lemma run_fails_good: "cont D rest S \<Longrightarrow> copy_ok (sc_db S) t \<Longrightarrow> sched_ok D (run_fails e t rest S)"
  unfolding run_fails_def by (rule push_plain) simp_all

lemma fits_callers:
  assumes "cont D rest S" and "sched_ok D S'" and "stack_ok S' rest" and "sc_procs S' = sc_procs S" and "sc_firing S' = sc_firing S"
  shows "cont D rest S'"
proof -
  from assms(1) have F: "stack_fits rest S" and c: "\<forall>g \<in> set rest. is_caller g" by (simp_all add: cont_def good_put)
  have "stack_fits rest S'" using F callers_pre [OF c] assms(3-5) by (simp add: stack_fits_def)
  with assms(2) c show ?thesis by (simp add: cont_def good_put)
qed

lemma begin_turn_good:
  assumes c: "cont D rest S" and h: "tk_id (ex_task e) \<in> set (held_by rest)" and t: "copy_ok (sc_db S) (ex_task e)"
    and u: "unused (ex_rid e) S"
    and cl: "tk_approval (ex_task e) = Before_action \<longrightarrow> (ex_rid e, tk_id (ex_task e)) \<in> set (sc_claims S)"
  shows "sched_ok D (begin_turn e room rest S)"
proof -
  let ?S = "S\<lparr>sc_turns := e # sc_turns S, sc_live := ex_rid e # sc_live S\<rparr>"
  have st: "stack_ok ?S p = stack_ok S p" for p by (rule frame_ok_cong(2)) simp_all
  have g: "sched_ok D S" by (rule cont_good [OF c])
  have "begun_ok ?S"
    using g u cl unfolding sched_ok_def begun_ok_def unused_def by auto
  then have "sched_ok D ?S"
    using g st by (simp add: sched_ok_def ticks_ok_def approvals_ok_def)
  then have "cont D rest ?S"
    by (rule fits_callers [OF c]) (use st c in \<open>simp_all add: cont_def good_put stack_fits_def\<close>)
  then show ?thesis unfolding begin_turn_def using h t by (intro suspend) simp_all
qed

lemma claim_cont:
  assumes c: "cont D rest S" and cl: "claim_approval i (sc_db S) = (True, db)"
  shows "cont D rest (S\<lparr>sc_db := startRun rid i started db, sc_claims := (rid, i) # sc_claims S\<rparr>)" (is "cont D rest ?S")
proof -
  have g: "sched_ok D S" by (rule cont_good [OF c])
  note st = claim_step [OF cl]
  have m: "marked j (startRun rid i started db) \<Longrightarrow> marked j db" for j
    using start_step [of db rid i started] by (simp add: db_step_def)
  have step: "db_step (sc_db S) (startRun rid i started db)" by (rule db_step_trans [OF st(1)]) simp
  then have l: "later S ?S" by (auto simp: later_def db_step_def)
  have "tables_ok (sc_db ?S)" using g step by (simp add: sched_ok_def db_step_def)
  moreover have so: "stack_ok S p \<Longrightarrow> stack_ok ?S p" for p by (rule stack_ok_later [OF _ l])
  moreover have "begun_ok ?S" using g by (auto simp: sched_ok_def begun_ok_def)
  moreover have "ticks_ok ?S"
  proof -
    have "ticks_ok S" and k: "keeps_rows (sc_db S) (sc_db ?S)" using g l by (simp_all add: sched_ok_def later_def)
    then show ?thesis using copy_ok_mono [OF _ k] by (simp add: ticks_ok_def)
  qed
  moreover have "approvals_ok ?S"
  proof -
    have "approvals_ok S" using g by (simp add: sched_ok_def)
    then have "covered marked (i # map snd (sc_claims S)) (sc_grants S) db"
      unfolding approvals_ok_def by (rule approvals.covered_claim [OF _ cl])
    then have "covered marked (i # map snd (sc_claims S)) (sc_grants S) (startRun rid i started db)"
      by (rule approvals.covered_step) (rule m)
    then show ?thesis by (simp add: approvals_ok_def)
  qed
  moreover have "keeps_rows D (sc_db ?S)"
    using g l keeps_rows_trans by (auto simp: sched_ok_def later_def)
  ultimately have "sched_ok D ?S" using g by (simp add: sched_ok_def)
  then show ?thesis
    by (rule fits_callers [OF c]) (use so c in \<open>simp_all add: cont_def good_put stack_fits_def\<close>)
qed

lemma advance_copy: "copy_ok db t \<Longrightarrow> copy_ok db (advance E stays from t)"
  by (simp add: copy_ok_def copy_of_def advance_def failures_ok_def)

lemma exec_good:
  assumes "sched_ok D (put (Executing x # rest) S)"
  shows "sched_ok D (resume_exec E nowMs ans x rest S)"
proof -
  have c: "cont D rest S" and f: "exec_ok S x" and h: "tk_id (ex_task (exec_of x)) \<in> set (held_by rest)"
    and u: "\<forall>rid \<in> set (pre_turn (Executing x)). unused rid S"
    using pop [OF assms] by simp_all
  have t: "copy_ok (sc_db S) (ex_task (exec_of x))" using f by (cases x) simp_all
  note rf = run_fails_good [OF c]
  note g = cont_good [OF c]
  show ?thesis
  proof (cases x)
    case (X_open e)
    have started: "sched_ok D (if topic_exec e then begin_turn e None rest T else put (Executing (X_room e) # rest) T)"
      if "cont D rest T" and "sc_procs T = sc_procs S" "sc_turns T = sc_turns S" "sc_fresh T = sc_fresh S"
        and "keeps_rows (sc_db S) (sc_db T)"
        and cl: "tk_approval (ex_task e) = Before_action \<longrightarrow> (ex_rid e, tk_id (ex_task e)) \<in> set (sc_claims T)" for T
    proof -
      have tT: "copy_ok (sc_db T) (ex_task e)" using t X_open copy_ok_mono that(5) by auto
      have uT: "unused (ex_rid e) T" using u X_open that by (simp add: unused_def)
      have "sched_ok D (put (Executing (X_room e) # rest) T)"
        using that h X_open tT uT by (intro suspend) simp_all
      moreover have "sched_ok D (begin_turn e None rest T)"
        using that h X_open tT uT by (intro begin_turn_good) simp_all
      ultimately show ?thesis by simp
    qed
    have fail: "sched_ok D (run_fails e (ex_task e) rest S)" using rf t X_open by simp
    have "sched_ok D (resume_exec E nowMs Done x rest S)"
    proof (cases "ex_approved e")
      case False
      with f X_open have "tk_approval (ex_task e) = Never" by simp
      moreover have "cont D rest (S\<lparr>sc_db := startRun (ex_rid e) (tk_id (ex_task e)) (ex_now e) (sc_db S), sc_claims := sc_claims S\<rparr>)"
        using cont_db [OF c start_step] by (rule cont_alike) (simp add: alike_def)
      moreover have "keeps_rows (sc_db S) (startRun (ex_rid e) (tk_id (ex_task e)) (ex_now e) (sc_db S))"
        using start_step db_step_def by blast
      ultimately show ?thesis using False X_open by (simp add: started Let_def)
    next
      case True
      obtain took db where cl: "claim_approval (tk_id (ex_task e)) (sc_db S) = (took, db)" by fastforce
      show ?thesis
      proof (cases took)
        case False
        with True cl X_open c show ?thesis by (simp add: ret_good)
      next
        case took: True
        have "keeps_rows (sc_db S) (startRun (ex_rid e) (tk_id (ex_task e)) (ex_now e) db)"
          using claim_step(1) [OF cl] start_step db_step_trans unfolding db_step_def by blast
        moreover have "cont D rest (S\<lparr>sc_db := startRun (ex_rid e) (tk_id (ex_task e)) (ex_now e) db,
            sc_claims := (ex_rid e, tk_id (ex_task e)) # sc_claims S\<rparr>)"
          using claim_cont [OF c] cl took by simp
        ultimately show ?thesis using True cl took X_open by (simp add: started Let_def)
      qed
    qed
    with X_open fail show ?thesis by (cases ans) simp_all
  next
    case (X_room e)
    with c f h u t rf show ?thesis by (cases "room_of (ex_task e) ans") (simp_all add: begin_turn_good)
  next
    case (X_turn e room)
    have "sched_ok D (put (Executing (X_read e room y) # rest) S)" for y
      using c h t X_turn by (intro suspend) simp_all
    with X_turn rf t show ?thesis by (cases ans) simp_all
  next
    case (X_read e room y)
    have d: "sched_ok D (put (Executing (X_drop e) # rest) S)"
      using c h t X_read by (intro suspend) simp_all
    have st: "sched_ok D (put (Executing (X_store e room (advance E b fromMs r) y) # rest) S)"
      if "db_get (tk_id (ex_task e)) (sc_db S) = Some r" for r b fromMs
    proof -
      have "copy_ok (sc_db S) r" using get_ok [OF that] g by (simp add: sched_ok_def)
      then show ?thesis using c h t X_read by (intro suspend) (simp_all add: advance_copy)
    qed
    show ?thesis
    proof (cases "db_get (tk_id (ex_task e)) (sc_db S)")
      case None
      with X_read d rf t show ?thesis by (cases ans) simp_all
    next
      case (Some r)
      with X_read d rf t st show ?thesis by (cases ans) simp_all
    qed
  next
    case (X_drop e)
    have "cont D rest (S\<lparr>sc_db := updateRun (ex_rid e) dropped_changes (sc_db S)\<rparr>)" by (rule cont_db [OF c]) simp
    with X_drop rf t show ?thesis by (cases ans) (simp_all add: ret_good)
  next
    case (X_store e room r y)
    have r: "copy_ok (sc_db S) r" using f X_store by simp
    show ?thesis
    proof (cases "save_task r (sc_db S)")
      case None
      with X_store rf r show ?thesis by (cases ans) simp_all
    next
      case (Some db)
      let ?d = "updateRun (ex_rid e) (stored_changes room y) db"
      have st: "db_step (sc_db S) ?d" by (rule db_step_trans [OF save_step [OF Some r]]) simp
      then have "cont D (X_send (ex_rid e) # rest) (S\<lparr>sc_db := ?d\<rparr>)"
        by (intro push_caller cont_db [OF c]) simp_all
      moreover have "copy_ok ?d r" using r st copy_ok_mono by (auto simp: db_step_def)
      ultimately have "sched_ok D (deliverOrDefer E r (delivering_run (ex_rid e) (tk_id r) (ex_now e) room y) (ex_now e)
          (X_send (ex_rid e) # rest) (S\<lparr>sc_db := ?d\<rparr>))"
        by (intro deliver_good) (simp_all add: delivering_run_def rounds_ok_def MAX_DELIVERY_ROUNDS_def)
      with X_store Some rf r show ?thesis by (cases ans) simp_all
    qed
  qed
qed

lemma request_good:
  assumes "sched_ok D (put (Requesting q # rest) S)"
  shows "sched_ok D (resume_request E nowMs ans q rest S)"
proof -
  have c: "cont D rest S" and t: "copy_ok (sc_db S) (request_task q)" and h: "tk_id (request_task q) \<in> set (held_by rest)"
    using pop [OF assms] by simp_all
  have rf: "cont D rest T \<Longrightarrow> copy_ok (sc_db T) u \<Longrightarrow> sched_ok D (request_fails u now rest T)" for T u now
    unfolding request_fails_def by (rule push_plain) simp_all
  have send: "sched_ok D (put (Requesting (Q_send u now room n) # rest) T)"
    if "cont D rest T" "copy_ok (sc_db T) u" "tk_id u \<in> set (held_by rest)" for T u now room n
    using that by (intro suspend) simp_all
  show ?thesis
  proof (cases q)
    case (Q_room u now)
    with c t h show ?thesis by (cases "room_of u ans") (simp_all add: rf send)
  next
    case (Q_send u now room n)
    let ?T = "log_msg (approval_msg u room) S"
    have "copy_ok (sc_db ?T) (requested_task E nowMs now u)"
      using t Q_send by (simp add: requested_task_def copy_ok_def copy_of_def advance_def failures_ok_def)
    moreover have "tk_id (requested_task E nowMs now u) = tk_id u" by (simp add: requested_task_def advance_def)
    ultimately have "sched_ok D (put (Requesting (Q_save (requested_task E nowMs now u) now) # rest) ?T)"
      using c h Q_send by (intro suspend) simp_all
    with Q_send c t h show ?thesis by (cases ans) (simp_all add: rf send Let_def)
  next
    case (Q_save u now)
    show ?thesis
    proof (cases "save_task u (sc_db S)")
      case None
      with Q_save c t show ?thesis by (cases ans) (simp_all add: rf)
    next
      case (Some db)
      have "cont D rest (S\<lparr>sc_db := db\<rparr>)" using save_step [OF Some] t Q_save by (intro cont_db [OF c]) simp
      then have "sched_ok D (ret rest (new_audit (tk_id u) now None None (S\<lparr>sc_db := db\<rparr>)))"
        by (simp add: ret_good new_audit_good)
      with Q_save c t Some show ?thesis by (cases ans) (simp_all add: rf)
    qed
  qed
qed

subsection \<open>Ticks, recovered turns, the surface\<close>

lemma open_runs_ok: "sched_ok D S \<Longrightarrow> copies_ok (openRuns (sc_db S))"
  by (auto simp: sched_ok_def tables_ok_def copies_ok_def openRuns_def)

lemma tick_good:
  assumes "sched_ok D (put (Ticking d # rest) S)"
  shows "sched_ok D (resume_tick E ans d rest S)"
proof -
  have c: "cont D rest S" and f: "tick_ok d" using pop [OF assms] by simp_all
  note g = cont_good [OF c]
  have rows: "tables_ok (sc_db S)" using g by (simp add: sched_ok_def)
  show ?thesis
  proof (cases d)
    case (W_read k i)
    have rel: "sched_ok D (next_job True k (release i S))"
      using assms W_read by (intro next_job_good good_release [of _ "Ticking (W_read k i)" rest]) simp_all
    show ?thesis
    proof (cases "db_get i (sc_db S)")
      case None
      with rel W_read show ?thesis by (cases ans) simp_all
    next
      case (Some t)
      have t: "copy_ok (sc_db S) t" "tk_id t = i" using get_ok [OF Some rows] by simp_all
      have "cont D [W_fire k i] S"
        using assms W_read by (auto simp: cont_def good_put stack_fits_def held_by_def pre_of_def)
      then have "sched_ok D (fire t (ti_now (sc_ticks S k)) [W_fire k i] S)"
        using t by (intro fire_good) (simp_all add: held_by_def)
      with rel Some W_read show ?thesis by (cases ans) simp_all
    qed
  next
    case (R_open k now)
    have "sched_ok D (S\<lparr>sc_recovering := []\<rparr>)" by (rule good_alike [OF g]) simp
    then have "sched_ok D (reconcile_loop k now (openRuns (sc_db S)) (S\<lparr>sc_recovering := []\<rparr>))"
      using open_runs_ok [OF g] by (rule reconcile_good)
    with R_open g show ?thesis by (cases ans) simp_all
  next
    case (R_get k now r rs)
    have r: "rounds_ok (rn_attempts r)" and rs: "copies_ok rs" using f R_get by simp_all
    have cl: "sched_ok D (put [Ticking (R_close k now rid st rs)] S)" for rid st
      using g rs by (intro push_plain) simp_all
    have w: "cont D [R_wait k now rs] S" using g rs by (intro push_caller) simp_all
    have "sched_ok D (deliverOrDefer E t r now [R_wait k now rs] S)"
        and "sched_ok D (put [Failing (F_read t now (rn_started r) l), R_wait k now rs] S)"
      if "db_get (rn_task r) (sc_db S) = Some t" for t l
      using deliver_good [OF w _ r] push_plain [OF w] get_ok [OF that rows] by simp_all
    with R_get g cl show ?thesis by (cases ans) (auto split: option.split)
  next
    case (R_close k now rid st rs)
    have "sched_ok D (S\<lparr>sc_db := updateRun rid (dropped_changes\<lparr>pt_state := Some st\<rparr>) (sc_db S)\<rparr>)"
      by (rule good_db [OF g]) simp
    with R_close g f show ?thesis by (cases ans) (simp_all add: reconcile_good)
  next
    case (T_due k now)
    let ?due = "due_tasks now (sc_db S)"
    have tk: "sched_ok D (set_tick k \<lparr>ti_now = now, ti_due = ?due, ti_workers = n\<rparr> S)" for n
      by (rule good_tick [OF g]) (use due_ok [OF _ rows] in simp)
    then have "sched_ok D (put [Ticking (T_wake k b)] (set_tick k \<lparr>ti_now = now, ti_due = ?due, ti_workers = n\<rparr> S))" for n b
      by (intro push_plain) simp_all
    with T_due g tk show ?thesis by (cases ans) (simp_all add: Let_def start_workers_good)
  next
    case (T_wake k busy)
    have "sched_ok D (S\<lparr>sc_wakes := nextWakeAt busy (sc_db S) # sc_wakes S\<rparr>)" by (rule good_alike [OF g]) simp
    with T_wake g show ?thesis by (cases ans) simp_all
  qed
qed

lemma recovered_good:
  assumes "sched_ok D (put (Recovered d # rest) S)"
  shows "sched_ok D (resume_recovered E nowMs ans d rest S)"
proof -
  have c: "cont D rest S" and f: "recovered_ok S d" using pop [OF assms] by simp_all
  note g = cont_good [OF c]
  have rows: "tables_ok (sc_db S)" using g by (simp add: sched_ok_def)
  have fin: "sched_ok D (put [Recovered d', C_fin i] S)" if "frame_ok S (Recovered d')" for d' i
  proof -
    have "cont D [C_fin i] S" using g by (intro push_caller) simp_all
    then show ?thesis by (rule push_plain) (use that in simp_all)
  qed
  have upd: "cont D rest (S\<lparr>sc_db := updateRun rid p (sc_db S)\<rparr>)" if "pt_attempts p = None" for rid p
    by (rule cont_db [OF c]) (use that in simp)
  have close: "sched_ok D (ret rest (S\<lparr>sc_db := updateRun rid p (sc_db S)\<rparr>))" if "pt_attempts p = None" for rid p
    by (rule ret_good, rule upd, rule that)
  show ?thesis
  proof (cases d)
    case (C_open rid y)
    with g fin show ?thesis by (cases ans) (auto split: option.split)
  next
    case (C_get r y)
    show ?thesis
    proof (cases "db_get (rn_task r) (sc_db S)")
      case None
      with C_get c show ?thesis by (cases ans) (simp_all add: push_plain throw_good)
    next
      case (Some t)
      then have t: "copy_ok (sc_db S) t" using get_ok [OF Some rows] by simp
      with C_get Some c show ?thesis
        by (cases ans) (simp_all add: push_plain throw_good advance_copy Let_def split: option.split)
    qed
  next
    case (C_drop rid)
    with c close [of dropped_changes] show ?thesis by (cases ans) (simp_all add: throw_good)
  next
    case (C_room t r y now)
    with c f show ?thesis by (simp add: push_plain)
  next
    case (C_save t r room y now)
    show ?thesis
    proof (cases "save_task t (sc_db S)")
      case None
      with C_save c show ?thesis by (cases ans) (simp_all add: throw_good)
    next
      case (Some db)
      let ?d = "updateRun (rn_id r) (stored_changes room y) db"
      have t: "copy_ok (sc_db S) t" using f C_save by simp
      have st: "db_step (sc_db S) ?d" by (rule db_step_trans [OF save_step [OF Some t]]) simp
      have "copy_ok ?d t" using t st copy_ok_mono by (auto simp: db_step_def)
      then have "sched_ok D (put (Recovered (C_fresh t (delivering_run (rn_id r) (tk_id t) (rn_started r) room y) now) # rest) (S\<lparr>sc_db := ?d\<rparr>))"
        using cont_db [OF c st] by (intro push_plain) (simp_all add: delivering_run_def rounds_ok_def MAX_DELIVERY_ROUNDS_def)
      with C_save Some c show ?thesis by (cases ans) (simp_all add: throw_good)
    qed
  next
    case (C_fresh t r now)
    let ?t = "case db_get (tk_id t) (sc_db S) of None \<Rightarrow> t | Some c \<Rightarrow> c"
    let ?S = "activate (rn_id r) (tk_id ?t) S"
    have "cont D rest ?S" by (rule cont_alike [OF c]) simp
    then have "cont D (X_send (rn_id r) # rest) ?S" by (intro push_caller) simp_all
    moreover have "copy_ok (sc_db ?S) ?t" using f C_fresh get_copy [OF g] by simp
    ultimately have "sched_ok D (deliverOrDefer E ?t (r\<lparr>rn_task := tk_id ?t\<rparr>) now (X_send (rn_id r) # rest) ?S)"
      using f C_fresh by (intro deliver_good) simp_all
    with C_fresh c show ?thesis
      unfolding C_fresh resume_recovered.simps Let_def by (cases ans) (simp_all add: throw_good)
  next
    case (G_open rid)
    with g fin show ?thesis by (cases ans) (auto split: option.split)
  next
    case (G_get r)
    show ?thesis
    proof (cases "db_get (rn_task r) (sc_db S)")
      case None
      with G_get c show ?thesis by (cases ans) (simp_all add: push_plain throw_good)
    next
      case (Some t)
      with G_get c get_ok [OF Some rows] show ?thesis by (cases ans) (simp_all add: push_plain throw_good)
    qed
  next
    case (G_close rid)
    with c close [of "dropped_changes\<lparr>pt_state := Some Interrupted\<rparr>"] show ?thesis by (cases ans) (simp_all add: throw_good)
  next
    case (A_wake busy)
    have "sched_ok D (ask_alarm at S)" for at by (rule good_alike [OF g]) simp
    with A_wake g show ?thesis by (cases ans) (simp_all split: option.split)
  qed
qed

lemma pause_copy: "pause_task t = Inr (Some (t', at)) \<Longrightarrow> copy_ok db t \<Longrightarrow> copy_ok db t'"
  by (auto simp: pause_task_def copy_ok_def copy_of_def failures_ok_def split: if_splits)

lemma resume_copy: "resume_task E nowMs t = Inr (Some (t', at)) \<Longrightarrow> copy_ok db t \<Longrightarrow> copy_ok db t'"
  by (auto simp: resume_task_def copy_ok_def copy_of_def failures_ok_def MAX_CONSECUTIVE_FAILURES_def split: if_splits option.splits)

lemma cancel_copy: "cancel_task t = Inr (Some (t', at)) \<Longrightarrow> copy_ok db t \<Longrightarrow> copy_ok db t'"
  by (auto simp: cancel_task_def copy_ok_def copy_of_def failures_ok_def split: if_splits)

lemma update_copy: "update_task E nowMs p t = Inr (Some (t', at)) \<Longrightarrow> copy_ok db t \<Longrightarrow> copy_ok db t'"
  by (auto simp: update_task_def patch_texts_def copy_ok_def copy_of_def failures_ok_def Let_def split: if_splits option.splits)

lemma decided_copy: "copy_ok db t \<Longrightarrow> copy_ok db (decided_task approve t)"
  by (auto simp: decided_task_def Let_def copy_ok_def copy_of_def failures_ok_def)

lemma surface_save_good:
  assumes "sched_ok D S" and "\<And>t at. res = Inr (Some (t, at)) \<Longrightarrow> copy_ok (sc_db S) t"
  shows "sched_ok D (surface_save res S)"
  using assms by (auto simp: surface_save_def push_plain split: sum.split option.split)

lemma approve_good:
  assumes g: "sched_ok D S" and a: "approve_task i at note (sc_db S) = (took, d)"
  shows "sched_ok D (S\<lparr>sc_db := d, sc_grants := (if took then i # sc_grants S else sc_grants S)\<rparr>)" (is "sched_ok D ?S")
proof -
  note st = approve_step [OF a]
  have l: "later S ?S" using st(1) by (simp add: later_def)
  have "tables_ok (sc_db ?S)" using g st(2) by (simp add: sched_ok_def)
  moreover have "\<forall>p \<in> set (sc_procs S). stack_ok ?S p" using g stack_ok_later [OF _ l] by (simp add: sched_ok_def)
  moreover have "begun_ok ?S" using g by (simp add: sched_ok_def begun_ok_def)
  moreover have "ticks_ok ?S"
    using g copy_ok_mono [OF _ st(1)] by (simp add: sched_ok_def ticks_ok_def)
  moreover have "approvals_ok ?S"
  proof -
    have "approvals_ok S" using g by (simp add: sched_ok_def)
    then have "covered marked (map snd (sc_claims S)) (if took then i # sc_grants S else sc_grants S) d"
      unfolding approvals_ok_def by (rule approvals.covered_grant [of _ _ _ _ "(at, note)"]) (simp add: a)
    then show ?thesis by (simp add: approvals_ok_def)
  qed
  moreover have "keeps_rows D (sc_db ?S)"
    using g l keeps_rows_trans by (auto simp: sched_ok_def later_def)
  ultimately show ?thesis using g by (simp add: sched_ok_def)
qed

lemma new_record_ok: "failures_ok (created_record i tid nowMs n)"
  by (simp add: created_record_def failures_ok_def MAX_CONSECUTIVE_FAILURES_def)

lemma surface_good:
  assumes "sched_ok D (put (Calling d # rest) S)"
  shows "sched_ok D (resume_surface E nowMs ans d S)"
proof -
  have g: "sched_ok D S" and f: "call_ok S d" using pop [OF assms] cont_good by auto
  have rows: "tables_ok (sc_db S)" using g by (simp add: sched_ok_def)
  have p: "sched_ok D (put [Calling d'] T)" if "sched_ok D T" "call_ok T d'" for T d'
    using that by (intro push_plain) simp_all
  have al: "sched_ok D T" if "alike S T" for T by (rule good_alike [OF g that])
  show ?thesis
  proof (cases d)
    case (P_load op i)
    show ?thesis
    proof (cases "ans = Done \<and> db_get i (sc_db S) \<noteq> None")
      case True
      then obtain t where t: "db_get i (sc_db S) = Some t" by auto
      have c: "copy_ok (sc_db S) t" using get_ok [OF t rows] by simp
      show ?thesis
        using True t P_load g
        by (cases op) (auto intro!: surface_save_good p
          intro: update_copy [OF _ c] pause_copy [OF _ c] resume_copy [OF _ c] cancel_copy [OF _ c] decided_copy [OF c])
    next
      case False
      with P_load g show ?thesis by (auto split: option.split)
    qed
  next
    case (P_save t at)
    have "sched_ok D (S\<lparr>sc_db := db\<rparr>)" if "save_task t (sc_db S) = Some db" for db
      using save_step [OF that] f P_save by (intro good_db [OF g]) simp
    then have "save_task t (sc_db S) = Some db \<Longrightarrow> sched_ok D (S\<lparr>sc_db := db\<rparr>) \<and> sched_ok D (ask_alarm n (S\<lparr>sc_db := db\<rparr>))" for db n
      using good_alike alike_simps(3) by blast
    with P_save g show ?thesis by (auto split: option.split)
  next
    case (P_decide t approve nt at)
    have sv: "sched_ok D (S\<lparr>sc_db := db\<rparr>)" if "save_task t (sc_db S) = Some db" for db
      using save_step [OF that] f P_decide by (intro good_db [OF g]) simp
    have "sched_ok D (new_audit i at st ok (S\<lparr>sc_db := db\<rparr>))" if "save_task t (sc_db S) = Some db" for db i st ok
      using new_audit_good [of D "[]"] sv [OF that] by simp
    moreover have "sched_ok D (ask_alarm at (S\<lparr>sc_db := d', sc_grants := (if took then tk_id t # sc_grants S else sc_grants S)\<rparr>))"
      if s: "save_task t (sc_db S) = Some db" and a: "approve_task (tk_id t) at m db = (took, d')" for db m took d'
    proof -
      have "sched_ok D (S\<lparr>sc_db := d', sc_grants := (if took then tk_id t # sc_grants S else sc_grants S)\<rparr>)"
        by (rule good_alike [OF approve_good [OF sv [OF s], of "tk_id t" at m took d']]) (use a in \<open>simp_all add: alike_def\<close>)
      then show ?thesis by (rule good_alike) simp
    qed
    ultimately show ?thesis
      unfolding P_decide resume_surface.simps Let_def using g by (simp split: option.split prod.split)
  next
    case (N_count i tid problems)
    have "sched_ok D (create_room E (created_record i tid nowMs n) n S)" for n
      using g new_record_ok by (simp add: create_room_def p)
    with N_count g show ?thesis by (auto simp: Let_def new_record_ok intro!: p split: option.split)
  next
    case (N_room t n)
    with f have "failures_ok t" by simp
    with N_room g show ?thesis by (cases ans) (auto intro!: p split: option.split)
  next
    case (N_summary t n room)
    with f have "failures_ok (t\<lparr>tk_room := Some room\<rparr>)" by (simp add: failures_ok_def)
    with N_summary g al show ?thesis by (auto intro!: p)
  next
    case (N_insert t n)
    have "sched_ok D (S\<lparr>sc_db := db\<rparr>)" if "insert_new t (sc_db S) = Some db" for db
      using insert_step [OF that] f N_insert by (intro good_db [OF g]) simp
    then have "insert_new t (sc_db S) = Some db \<Longrightarrow> sched_ok D (ask_alarm n (S\<lparr>sc_db := db\<rparr>))" for db
      using good_alike alike_simps(3) by blast
    with N_insert g show ?thesis by (auto split: option.split)
  qed
qed

subsection \<open>Every move\<close>

lemma start_topic_step:
  "startTopic E op req tid title intent now db = (res, db') \<Longrightarrow> db_step db db'"
  by (auto simp: startTopic_def Let_def newTopicTask_def failures_ok_def MAX_CONSECUTIVE_FAILURES_def
      dest!: insert_step split: option.splits if_splits)

lemma cancel_topic_step:
  assumes "cancelTopic E op req tid title intent now db = (res, db')" and rows: "tables_ok db"
  shows "db_step db db'"
proof (cases "topic_task op db")
  case None
  with assms show ?thesis
    by (auto simp: cancelTopic_def Let_def newTopicTask_def failures_ok_def MAX_CONSECUTIVE_FAILURES_def
      dest!: insert_step split: option.splits)
next
  case (Some t)
  have t: "copy_ok db t" by (rule topic_task_ok [OF Some rows])
  from assms Some consider "db' = db" | t' at where "cancel_task t = Inr (Some (t', at))" "save_task t' db = Some db'"
    by (auto simp: cancelTopic_def split: if_splits sum.splits option.splits)
  then show ?thesis
  proof cases
    case 2
    then show ?thesis using save_step cancel_copy [OF _ t] by blast
  qed simp
qed

lemma take_out:
  assumes g: "sched_ok D S" and ps: "sc_procs S = a @ p # b"
  shows "sched_ok D (put p (S\<lparr>sc_procs := a @ b\<rparr>))" (is "sched_ok D ?S")
proof -
  have st: "stack_ok ?S q = stack_ok S q" for q by (rule frame_ok_cong(2)) simp_all
  have "distinct (all_held (sc_procs ?S)) = distinct (all_held (sc_procs S))"
    by (auto simp: ps all_held_def)
  moreover have "set (all_held (sc_procs ?S)) = set (all_held (sc_procs S))"
    by (auto simp: ps all_held_def)
  moreover have "begun_ok ?S = begun_ok S"
  proof -
    have "distinct (all_pre (sc_procs ?S) @ ts) = distinct (all_pre (sc_procs S) @ ts)" for ts
      by (auto simp: ps all_pre_def)
    moreover have "set (all_pre (sc_procs ?S) @ ts) = set (all_pre (sc_procs S) @ ts)" for ts
      by (auto simp: ps all_pre_def)
    ultimately show ?thesis by (simp only: begun_ok_def put_fields) simp
  qed
  moreover have "ticks_ok ?S = ticks_ok S" "approvals_ok ?S = approvals_ok S"
    by (simp_all add: ticks_ok_def approvals_ok_def)
  moreover have "(\<forall>q \<in> set (sc_procs ?S). stack_ok ?S q) = (\<forall>q \<in> set (sc_procs S). stack_ok S q)"
    unfolding st by (auto simp: ps)
  ultimately show ?thesis using g by (simp add: sched_ok_def)
qed

lemma frame_good:
  assumes "sched_ok D (put (f # rest) S)"
  shows "sched_ok D (resume_frame E nowMs ans f rest S)"
proof (cases "is_caller f")
  case True
  with assms have "cont D (f # rest) S" using pop(1) [OF assms] by (simp add: cont_def)
  then have "sched_ok D (ret (f # rest) S)" by (rule ret_good)
  with True show ?thesis by (cases f) (simp_all add: resume_frame_def)
next
  case False
  with assms show ?thesis
    by (cases f) (simp_all add: resume_frame_def delivery_good failure_good exec_good request_good tick_good recovered_good surface_good)
qed

lemma resume_good:
  assumes g: "sched_ok D S"
  shows "sched_ok D (resume_proc E i ans nowMs S)"
proof (cases "i < length (sc_procs S)")
  case True
  let ?S = "S\<lparr>sc_procs := take i (sc_procs S) @ drop (Suc i) (sc_procs S)\<rparr>"
  have t: "sched_ok D (put (sc_procs S ! i) ?S)"
    by (rule take_out [OF g]) (rule id_take_nth_drop [OF True])
  show ?thesis
  proof (cases "sc_procs S ! i")
    case Nil
    with t True show ?thesis by (simp add: resume_proc_def Let_def good_put)
  next
    case (Cons f rest)
    with t True show ?thesis by (simp add: resume_proc_def Let_def frame_good)
  qed
qed (use assms in \<open>simp add: resume_proc_def\<close>)

lemma topic_good:
  assumes g: "sched_ok D S" and "db_step (sc_db S) d"
  shows "sched_ok D (S\<lparr>sc_db := d\<rparr>)" and "sched_ok D (ask_alarm n (S\<lparr>sc_db := d\<rparr>))"
proof -
  show 1: "sched_ok D (S\<lparr>sc_db := d\<rparr>)" by (rule good_db [OF assms])
  then show "sched_ok D (ask_alarm n (S\<lparr>sc_db := d\<rparr>))" by (rule good_alike) simp
qed

lemma reset_good:
  assumes "sched_ok D S"
  shows "sched_ok D (S\<lparr>sc_active := [], sc_recovering := [], sc_firing := [], sc_procs := [], sc_ticks := (\<lambda>_. no_tick),
       sc_live := l, sc_closing := []\<rparr>)"
proof -
  have "distinct (map ex_rid (sc_turns S))" and "\<forall>rid \<in> set (map ex_rid (sc_turns S)). rid < sc_fresh S"
    using assms by (simp_all add: sched_ok_def begun_ok_def)
  then show ?thesis using assms
    by (simp add: sched_ok_def begun_ok_def ticks_ok_def approvals_ok_def all_held_def all_pre_def no_tick_def)
qed

lemma move_good:
  assumes g: "sched_ok D S"
  shows "sched_ok D (apply_move E m S)"
proof -
  have p: "sched_ok D (put [f] T)" if "sched_ok D T" "frame_ok T f" "held_in f = []" "taken f = []" "pre_turn f = []" for f T
    using that by (intro push_plain) simp_all
  have al: "sched_ok D T" if "alike S T" for T by (rule good_alike [OF g that])
  have rows: "tables_ok (sc_db S)" using g by (simp add: sched_ok_def)
  show ?thesis
  proof (cases m)
    case (Tick now)
    have "sched_ok D (S\<lparr>sc_fresh := Suc (sc_fresh S)\<rparr>)" by (rule al) (simp add: alike_def)
    with Tick show ?thesis by (simp add: apply_move_def onAlarm_def p)
  next
    case (Resume i ans nowMs)
    then show ?thesis by (simp add: apply_move_def resume_good [OF g])
  next
    case (Surface op i)
    with g show ?thesis by (simp add: apply_move_def p)
  next
    case (Create i tid nowMs)
    with g show ?thesis by (simp add: apply_move_def p)
  next
    case (Topic_start op req tid title intent now)
    obtain res d where s: "startTopic E op req tid title intent now (sc_db S) = (res, d)" by fastforce
    note ok = topic_good [OF g start_topic_step [OF s]]
    with Topic_start s show ?thesis by (auto simp: apply_move_def split: option.split sum.split)
  next
    case (Topic_cancel op req tid title intent now)
    obtain res d where s: "cancelTopic E op req tid title intent now (sc_db S) = (res, d)" by fastforce
    with Topic_cancel topic_good(1) [OF g cancel_topic_step [OF s rows]] show ?thesis by (simp add: apply_move_def)
  next
    case (Turn_over rid)
    have "sched_ok D (S\<lparr>sc_live := removeAll rid (sc_live S), sc_closing := rid # sc_closing S\<rparr>)"
      by (rule al) (simp add: alike_def)
    with Turn_over g show ?thesis by (simp add: apply_move_def)
  next
    case (Run_reported rid out)
    have "sched_ok D (S\<lparr>sc_closing := removeAll rid (sc_closing S)\<rparr>)" by (rule al) simp
    with Run_reported g show ?thesis by (auto simp: apply_move_def Let_def intro!: p split: option.split)
  next
    case (Reset keep)
    with reset_good [OF g] show ?thesis by (simp add: apply_move_def)
  qed
qed

lemma keeps_none: "keeps_rows \<lparr>db_tasks = [], db_runs = []\<rparr> db"
  by (simp add: keeps_rows_def task_row_def)

lemma start_good: "sched_ok \<lparr>db_tasks = [], db_runs = []\<rparr> fresh_start"
  by (simp add: sched_ok_def fresh_start_def task_boot_def tables_ok_def all_held_def all_pre_def begun_ok_def ticks_ok_def
      approvals_ok_def no_tick_def covered_def marked_def task_row_def)

theorem moves_sched_ok: "sched_ok \<lparr>db_tasks = [], db_runs = []\<rparr> (run_moves E ms)"
  by (rule run_moves_induct) (simp_all add: start_good move_good)

lemma moves_good: "sched_ok D S \<Longrightarrow> sched_ok D (fold (apply_move E) ms S)"
  by (induction ms arbitrary: S) (simp_all add: move_good)

theorem moves_keep_rows: "keeps_rows (sc_db (run_moves E ms)) (sc_db (run_moves E (ms @ ms')))"
proof -
  have "sched_ok (sc_db (run_moves E ms)) (run_moves E ms)"
    using moves_sched_ok [of E ms] by (simp add: sched_ok_def)
  then have "sched_ok (sc_db (run_moves E ms)) (fold (apply_move E) ms' (run_moves E ms))" by (rule moves_good)
  then show ?thesis by (simp add: run_moves_def sched_ok_def)
qed

end
