(* ===== verification/Task_Properties.thy ===== *)
theory Task_Properties
  imports Task_Invariant
begin

text \<open>
  What the invariant gives: one run at a time for a task, approvals used once, bounds, the end of a
  cancelled deliverable; what the wake-up covers; who may enter a restricted session.
\<close>

subsection \<open>A concrete instance\<close>

text \<open>An hourly task, its creation, and its first run up to the agent turn.\<close>

definition demo_cal :: calendar where
  "demo_cal = \<lparr>parse_date = (\<lambda>_. Some 1000), iso_date = (\<lambda>_. ''now''), cron_next = (\<lambda>_ _ _. None), cron_parse = (\<lambda>_. None),
     cron_days = (\<lambda>_ _. ([], False)), cron_fires = (\<lambda>_ _ _. []), zone_known = (\<lambda>_. True), zone_parts = (\<lambda>_ _. [])\<rparr>"

definition demo_config :: task_config where
  "demo_config = \<lparr>tc_cal = demo_cal, tc_max = 50, tc_min = 300, tc_retries = 7, tc_backoff = [60000, 120000, 240000, 480000], tc_mxid = False\<rparr>"

definition hourly :: task_input where
  "hourly = \<lparr>in_title = ''T'', in_intent = ''do'', in_schedule = Interval 3600, in_approval = None, in_profile = None, in_room = Room_no\<rparr>"

definition created :: "task_move list" where
  "created = [Create hourly ''t'' 0, Resume 0 Done 0, Resume 0 Done 0]"

definition first_turn :: "task_move list" where
  "first_turn = created @ [Tick 3600000, Resume 0 Done 3600000, Resume 0 Done 3600000, Resume 0 Done 3600000,
     Resume 0 (Room (Some ''r'')) 3600000]"

subsection \<open>One run at a time\<close>

definition taken_by :: "frame list \<Rightarrow> string list" where
  "taken_by p = concat (map taken p)"

lemma distinct_parts:
  assumes "distinct (concat (map g ps))" and "\<forall>p \<in> set ps. distinct (f p) \<and> set (f p) \<subseteq> set (g p)"
  shows "distinct (concat (map f ps))"
  using assms
proof (induction ps)
  case (Cons p ps)
  have "set (concat (map f ps)) \<subseteq> set (concat (map g ps))" using Cons.prems(2) by fastforce
  with Cons show ?case by fastforce
qed simp

lemma stack_taken:
  assumes "stack_ok S p"
  shows "distinct (taken_by p) \<and> set (taken_by p) \<subseteq> set (held_by p)"
proof (cases p)
  case Nil
  then show ?thesis by (simp add: taken_by_def)
next
  case (Cons f rest)
  have "\<forall>g \<in> set rest. taken g = []" using assms Cons by auto
  then have "taken_by p = taken f" using Cons by (simp add: taken_by_def)
  moreover have "distinct (taken f)" by (cases f) simp_all
  moreover have "set (taken f) \<subseteq> set (held_by p)" using assms Cons by (auto simp: held_by_def)
  ultimately show ?thesis by simp
qed

text \<open>
  C33. Whatever the order in which ticks, suspended calls, calls of the surface, ended turns and resets
  come, at any moment at most one call executes a run of a task or asks approval for it, also when
  two ticks overlap.
\<close>

theorem one_run_per_task: "distinct (concat (map taken_by (sc_procs (run_moves E ms))))"
proof (rule distinct_parts [of held_by])
  have g: "sched_ok \<lparr>db_tasks = [], db_runs = []\<rparr> (run_moves E ms)" by (rule moves_sched_ok)
  then show "distinct (concat (map held_by (sc_procs (run_moves E ms))))" by (simp add: sched_ok_def all_held_def)
  show "\<forall>p \<in> set (sc_procs (run_moves E ms)). distinct (taken_by p) \<and> set (taken_by p) \<subseteq> set (held_by p)"
  proof
    fix p assume "p \<in> set (sc_procs (run_moves E ms))"
    with g have "stack_ok (run_moves E ms) p" by (simp add: sched_ok_def)
    then show "distinct (taken_by p) \<and> set (taken_by p) \<subseteq> set (held_by p)" by (rule stack_taken)
  qed
qed

subsection \<open>Approvals\<close>

definition gated_turns :: "string \<Rightarrow> sched \<Rightarrow> task_exec list" where
  "gated_turns i S = filter (\<lambda>e. tk_id (ex_task e) = i \<and> tk_approval (ex_task e) = Before_action) (sc_turns S)"

text \<open>
  C35. A task that was before-action when it was fired begins at most as many agent turns as its user
  granted approvals, over resets and interleavings, and no run begins its turn twice.
\<close>

theorem approvals_used_once:
  "distinct (map ex_rid (sc_turns (run_moves E ms)))
   \<and> length (gated_turns i (run_moves E ms)) \<le> count_list (sc_grants (run_moves E ms)) i"
proof -
  let ?S = "run_moves E ms"
  have g: "sched_ok \<lparr>db_tasks = [], db_runs = []\<rparr> ?S" by (rule moves_sched_ok)
  then have d: "distinct (map ex_rid (sc_turns ?S))" by (simp add: sched_ok_def begun_ok_def)
  let ?c = "filter (\<lambda>c. snd c = i) (sc_claims ?S)"
  have "distinct (map ex_rid (gated_turns i ?S))"
    using d by (simp add: gated_turns_def distinct_map_filter)
  then have "length (gated_turns i ?S) = card (set (map ex_rid (gated_turns i ?S)))"
    using distinct_card by fastforce
  also have "\<dots> \<le> card (set (map fst ?c))"
  proof (rule card_mono)
    show "set (map ex_rid (gated_turns i ?S)) \<subseteq> set (map fst ?c)"
    proof
      fix rid assume "rid \<in> set (map ex_rid (gated_turns i ?S))"
      then obtain e where e: "e \<in> set (sc_turns ?S)" "tk_id (ex_task e) = i" "tk_approval (ex_task e) = Before_action" "rid = ex_rid e"
        by (auto simp: gated_turns_def)
      have "begun_ok ?S" using g by (simp add: sched_ok_def)
      with e have "(rid, i) \<in> set (sc_claims ?S)" unfolding begun_ok_def by blast
      then show "rid \<in> set (map fst ?c)" by force
    qed
  qed simp
  also have "\<dots> \<le> length ?c" by (metis card_length length_map)
  also have "\<dots> = count_list (map snd (sc_claims ?S)) i"
    by (simp add: count_list_eq_length_filter filter_map comp_def eq_commute)
  also have "\<dots> \<le> count_list (sc_grants ?S) i"
  proof -
    have "approvals_ok ?S" using g by (simp add: sched_ok_def)
    then have "count_list (map snd (sc_claims ?S)) i + (if marked i (sc_db ?S) then 1 else 0) \<le> count_list (sc_grants ?S) i"
      unfolding approvals_ok_def covered_def by blast
    then show ?thesis by (simp add: le_diff_conv split: if_splits)
  qed
  finally show ?thesis using d by simp
qed

subsection \<open>Bounds\<close>

text \<open>
  C37. A stored task has at most three consecutive failures, fewer than three while it is active, and a
  run in the ledger has spent fewer than five delivery rounds.
\<close>

theorem ledger_bounds:
  "list_all failures_ok (db_tasks (sc_db (run_moves E ms)))
   \<and> list_all (\<lambda>r. rn_attempts r < MAX_DELIVERY_ROUNDS) (db_runs (sc_db (run_moves E ms)))"
  using moves_sched_ok [of E ms] by (simp add: sched_ok_def tables_ok_def list_all_iff rounds_ok_def)

subsection \<open>A cancelled deliverable\<close>

text \<open>
  C36. The cancellation of a Topic deliverable is final: whatever stale copies of it are written back, in
  every later state its row is there and cancelled.
\<close>

theorem cancelled_topic_final:
  assumes "task_row i (sc_db (run_moves E ms)) = Some r" and "tk_topic r \<noteq> None" and "tk_status r = T_cancelled"
  shows "map_option tk_status (task_row i (sc_db (run_moves E (ms @ ms')))) = Some T_cancelled"
proof -
  have "dead_topic r" using assms by (simp add: dead_topic_def)
  with assms(1) moves_keep_rows [of E ms ms'] obtain r' where "task_row i (sc_db (run_moves E (ms @ ms'))) = Some r'" "dead_topic r'"
    unfolding keeps_rows_def by blast
  then show ?thesis by (simp add: dead_topic_def)
qed

text \<open>A deliverable cancelled while its turn runs; its failure is then written back.\<close>

definition topic_turn :: "task_move list" where
  "topic_turn = [Topic_start ''op'' ''req'' ''d'' ''T'' ''do'' 5, Tick 5, Resume 0 Done 5, Resume 0 Done 5, Resume 0 Done 5]"

definition topic_cancelled :: "task_move list" where
  "topic_cancelled = topic_turn @ [Topic_cancel ''op'' ''req'' ''e'' ''T'' ''do'' 6]"

theorem cancelled_topic_final_witness:
  "map_option tk_status (task_row ''d'' (sc_db (run_moves demo_config (topic_cancelled @ [Resume 0 Throws 7, Resume 0 Done 7])))) = Some T_cancelled"
proof (rule cancelled_topic_final)
  let ?r = "the (task_row ''d'' (sc_db (run_moves demo_config topic_cancelled)))"
  show "task_row ''d'' (sc_db (run_moves demo_config topic_cancelled)) = Some ?r" by code_simp
  show "tk_topic ?r \<noteq> None" by code_simp
  show "tk_status ?r = T_cancelled" by code_simp
qed

subsection \<open>The wake-up\<close>

lemma list_min_least: "is_least (set xs) (list_min xs)"
  by (auto simp: list_min_def is_least_def)

lemma wake_union: "is_least A a \<Longrightarrow> is_least B b \<Longrightarrow>
  is_least (A \<union> B) (case a of None \<Rightarrow> b | Some x \<Rightarrow> (case b of None \<Rightarrow> Some x | Some y \<Rightarrow> Some (min x y)))"
  by (cases a; cases b) (auto simp: is_least_def min_def)

text \<open>The deadlines that count: next and approved runs of loadable active tasks that are not busy, and parked deliveries.\<close>

definition open_deadlines :: "sched \<Rightarrow> int set" where
  "open_deadlines S =
    (\<Union>t \<in> {t \<in> set (db_tasks (sc_db S)). \<not> isBusy (tk_id t) S}. set (deadlines t))
    \<union> (\<Union>r \<in> {r \<in> set (db_runs (sc_db S)). rn_state r = Some Delivering}. set (opt_list (rn_retry r)))"

text \<open>
  C38. \<open>nextWakeAt\<close> is the earliest deadline that counts, or none when there is no such deadline.\<close>

theorem wake_is_earliest: "is_least (open_deadlines S) (nextWakeAt (busyTaskIds S) (sc_db S))"
proof -
  have a: "is_least (\<Union>t \<in> {t \<in> set (db_tasks (sc_db S)). \<not> isBusy (tk_id t) S}. set (deadlines t))
      (minNextRunAt (busyTaskIds S) (sc_db S))"
  proof -
    have "set (concat (map deadlines (filter (\<lambda>t. tk_id t \<notin> set (busyTaskIds S)) (db_tasks (sc_db S)))))
        = (\<Union>t \<in> {t \<in> set (db_tasks (sc_db S)). \<not> isBusy (tk_id t) S}. set (deadlines t))"
      by (simp add: busy_ids)
    then show ?thesis unfolding minNextRunAt_def by (metis list_min_least)
  qed
  have b: "is_least (\<Union>r \<in> {r \<in> set (db_runs (sc_db S)). rn_state r = Some Delivering}. set (opt_list (rn_retry r)))
      (minRetryAt (sc_db S))"
    unfolding minRetryAt_def
    using list_min_least [of "concat (map (\<lambda>r. opt_list (rn_retry r)) (filter (\<lambda>r. rn_state r = Some Delivering) (db_runs (sc_db S))))"]
    by simp
  show ?thesis unfolding open_deadlines_def nextWakeAt_def by (rule wake_union [OF a b])
qed

subsection \<open>Restricted sessions\<close>

text \<open>
  C40. A turn admitted to the session of a task with an execution profile names an open, running run of
  that task, on a one-shot active task of that profile, with the owner's identity and exactly the
  message of the stored task; its three reads (the restriction, the task, the run) are taken on one state of
  the database.
\<close>

theorem restricted_turn_matches:
  assumes "isRestrictedSession (tr_session q) db" and "assertTurnProfile owner q db = None"
  shows "\<exists>t r. db_get (tk_id t) db = Some t \<and> tr_run q = Some (rn_id r) \<and> getOpenRun (rn_id r) db = Some r
    \<and> rn_task r = tk_id t \<and> rn_state r = Some Running \<and> tr_session q = TASK_SESSION_PREFIX @ tk_id t
    \<and> tk_profile t \<noteq> None \<and> tr_profile q = tk_profile t \<and> one_shot t \<and> tk_approval t = Never \<and> tk_status t = T_active
    \<and> tr_user q = owner \<and> tr_message q = buildRunMessage t None \<and> \<not> tr_extras q"
proof -
  obtain i where i: "taskIdOfSession (tr_session q) = Some i"
    and rs: "unsupportedProfileOf i db \<noteq> None \<or> (\<exists>t. db_get i db = Some t \<and> tk_profile t \<noteq> None)"
    using assms(1) by (auto simp: isRestrictedSession_def split: option.splits)
  have ses: "tr_session q = TASK_SESSION_PREFIX @ i"
    using i by (auto simp: taskIdOfSession_def prefix_def split: if_splits)
  let ?run = "case tr_run q of None \<Rightarrow> None | Some rid \<Rightarrow> getOpenRun rid db"
  have rid: "getOpenRun n db = Some r \<Longrightarrow> rn_id r = n" for n r by (auto simp: getOpenRun_def find_Some_iff)
  have nm: "\<not> run_mismatch q ?run" using assms(2) by (auto simp: assertTurnProfile_def Let_def split: if_splits)
  have tid: "turn_task_id q ?run = Some i"
    using nm i ses by (auto simp: turn_task_id_def run_mismatch_def split: option.splits)
  have sup: "unsupportedProfileOf i db = None"
    using assms(2) nm tid by (auto simp: assertTurnProfile_def Let_def split: if_splits)
  then obtain t where t: "db_get i db = Some t" "tk_profile t \<noteq> None" using rs by auto
  have "tk_id t = i" using t(1) task_row_in [of i db] by (auto simp: db_get_def split: option.splits if_splits)
  moreover have all: "tk_profile t = tr_profile q" "one_shot t" "tk_approval t = Never" "tr_user q = owner"
      "tr_message q = buildRunMessage t None" "tk_status t = T_active" "\<not> tr_extras q"
    using assms(2) nm tid sup t by (auto simp: assertTurnProfile_def Let_def split: if_splits)
  moreover obtain r where r: "?run = Some r" "rn_task r = tk_id t" "rn_state r = Some Running"
    using assms(2) nm tid sup t by (auto simp: assertTurnProfile_def Let_def split: if_splits option.splits)
  moreover from r(1) obtain n where "tr_run q = Some n" "getOpenRun n db = Some r" by (auto split: option.splits)
  ultimately show ?thesis using t ses rid by metis
qed

definition topic_req :: turn_req where
  "topic_req = \<lparr>tr_session = ''task:d'', tr_run = Some 1, tr_profile = Some ''supplied-context-markdown'', tr_user = ''me'',
     tr_message = buildRunMessage (the (task_row ''d'' (sc_db (run_moves demo_config topic_turn)))) None, tr_extras = False\<rparr>"

theorem restricted_turn_matches_witness:
  "\<exists>t. db_get (tk_id t) (sc_db (run_moves demo_config topic_turn)) = Some t \<and> tr_profile topic_req = tk_profile t"
proof -
  have "isRestrictedSession (tr_session topic_req) (sc_db (run_moves demo_config topic_turn))" by code_simp
  moreover have "assertTurnProfile ''me'' topic_req (sc_db (run_moves demo_config topic_turn)) = None" by code_simp
  ultimately show ?thesis using restricted_turn_matches [of topic_req "sc_db (run_moves demo_config topic_turn)" "''me''"] by blast
qed

end
