(* ===== verification/Task_Findings.thy ===== *)
theory Task_Findings
  imports Task_Properties
begin

text \<open>Reachable histories in which the scheduler does not do what it means to.\<close>

subsection \<open>A paused run\<close>

text \<open>The task is paused while its turn runs, the result is dropped, the task is resumed.\<close>

definition paused_run :: "task_move list" where
  "paused_run = first_turn @ [Surface Op_pause ''t'', Resume 0 Done 3600001, Resume 0 Done 3600001,
     Resume 0 (Turn_text ''x'') 3600002, Resume 0 Done 3600002, Resume 0 Done 3600002, Resume 0 Done 3600002,
     Surface Op_resume ''t'', Resume 0 Done 3600003, Resume 0 Done 3600003]"

definition next_tick :: "task_move list" where
  "next_tick = [Tick 7200003, Resume 0 Done 7200003, Resume 0 Done 7200003]"

definition task_at :: "task_move list \<Rightarrow> task_status \<times> int option" where
  "task_at ms = (case task_row ''t'' (sc_db (run_moves demo_config ms)) of
     None \<Rightarrow> (T_failed, None) | Some t \<Rightarrow> (tk_status t, tk_next t))"

text \<open>
  After a run whose task was paused meanwhile, the run stays in \<open>activeRuns\<close> with nothing executing:
  the resumed task counts as busy, no wake-up is armed for its next run, and a tick at that time passes
  it over.
\<close>

lemma dropped_run_stays_busy:
  "task_at paused_run = (T_active, Some 7200003)
   \<and> sc_procs (run_moves demo_config paused_run) = []
   \<and> isBusy ''t'' (run_moves demo_config paused_run)
   \<and> nextWakeAt (busyTaskIds (run_moves demo_config paused_run)) (sc_db (run_moves demo_config paused_run)) = None
   \<and> map taken_by (sc_procs (run_moves demo_config (paused_run @ next_tick))) = [[]]"
  by code_simp

subsection \<open>A cancelled task asked for approval\<close>

definition gated_config :: task_config where
  "gated_config = demo_config\<lparr>tc_mxid := True\<rparr>"

definition gated :: task_input where
  "gated = hourly\<lparr>in_approval := Some Before_action\<rparr>"

definition asked :: "task_move list" where
  "asked = [Create gated ''t'' 0, Resume 0 Done 0, Resume 0 (Room (Some ''r'')) 0, Resume 0 Done 0, Resume 0 Done 0,
     Tick 3600000, Resume 0 Done 3600000, Resume 0 Done 3600000, Resume 0 (Room None) 3600000]"

definition cancelled_meanwhile :: "task_move list" where
  "cancelled_meanwhile = asked @ [Surface Op_check_cancel ''t'', Resume 0 Done 3600001, Resume 0 Done 3600001, Resume 0 Done 3600001]"

text \<open>
  A task cancelled while its approval request is being sent is active again, with a next run, once
  the request was sent: \<open>requestApproval\<close> saves the copy it was called with.
\<close>

lemma approval_request_revives:
  "map_option tk_status (task_row ''t'' (sc_db (run_moves gated_config cancelled_meanwhile))) = Some T_cancelled
   \<and> map_option (\<lambda>t. (tk_status t, tk_next t)) (task_row ''t'' (sc_db (run_moves gated_config
        (cancelled_meanwhile @ [Resume 0 Done 3600002, Resume 0 Done 3600002])))) = Some (T_active, Some 7200002)"
  by code_simp

subsection \<open>A recovered turn that ends during a tick\<close>

text \<open>
  A reset cut the first run; its turn was recovered and has ended, and a tick runs before the end is
  reported to the scheduler.
\<close>

definition recovered_turn :: "task_move list" where
  "recovered_turn = first_turn @ [Reset [1], Turn_over 1, Tick 3600010, Resume 0 Done 3600010, Resume 0 Done 3600010,
     Resume 0 Done 3600010, Resume 0 Done 3600010, Run_reported 1 (Some ''x''), Resume 0 Done 3600011]"

text \<open>
  The tick finds the run neither live nor executing, closes it as interrupted and counts a failure;
  the result reported afterwards is dropped.
\<close>

lemma finished_run_interrupted:
  "map rn_state (db_runs (sc_db (run_moves demo_config recovered_turn))) = [Some Interrupted]
   \<and> map_option (\<lambda>t. (tk_failures t, tk_last_ok t)) (task_row ''t'' (sc_db (run_moves demo_config recovered_turn))) = Some (1, Some False)
   \<and> map rn_text (db_runs (sc_db (run_moves demo_config recovered_turn))) = [None]
   \<and> sc_sent (run_moves demo_config recovered_turn) = []
   \<and> map hd (sc_procs (run_moves demo_config recovered_turn)) = [Ticking (T_due 2 3600010)]"
  by code_simp

subsection \<open>A notice under changing ids\<close>

definition gated_once :: task_input where
  "gated_once = gated\<lparr>in_schedule := Once ''soon''\<rparr>"

definition failed_request :: "task_move list" where
  "failed_request = [Create gated_once ''t'' 0, Resume 0 Done 0, Resume 0 (Room (Some ''r'')) 0, Resume 0 Done 0, Resume 0 Done 0,
     Tick 1000, Resume 0 Done 1000, Resume 0 Done 1000, Resume 0 (Room None) 1000, Resume 0 (Send_fails False False) 1000,
     Resume 0 Done 1000, Resume 0 Done 1000, Resume 0 (Room None) 1000, Resume 0 (Send_fails True True) 1000, Resume 0 Done 1000]"

text \<open>
  The notice of a failed approval request whose answer was lost is sent again under another id, so the
  room shows it twice.
\<close>

lemma notice_sent_twice:
  "\<exists>a b. a \<noteq> b \<and> filter (\<lambda>m. snd (snd m) = Body_failed) (sc_sent (run_moves gated_config failed_request))
     = [(''r'', Random_notice a, Body_failed), (''r'', Random_notice b, Body_failed)]"
proof -
  have "filter (\<lambda>m. snd (snd m) = Body_failed) (sc_sent (run_moves gated_config failed_request))
     = [(''r'', Random_notice 3, Body_failed), (''r'', Random_notice 2, Body_failed)]"
    by code_simp
  then show ?thesis by force
qed

end
