(* ===== verification/Task_Texts.thy ===== *)
theory Task_Texts
  imports Task_Properties
begin

text \<open>
  One result per run, the invariant: all copies of a run's result that ever get out carry the same text, so
  that the transaction id, fixed with the run, stands for one message. \<open>tx\<close> names the text a run's result got
  (\<open>results\<close>, a ghost): it is given once, when the result is stored, and from then on no call that could
  store another one exists. Then what changes of the state keep it.
\<close>

type_synonym results = "nat \<Rightarrow> string option"

definition result_text :: "task_run \<Rightarrow> string" where
  "result_text r = (case rn_text r of None \<Rightarrow> [] | Some x \<Rightarrow> x)"

definition carries :: "results \<Rightarrow> task_run \<Rightarrow> bool" where
  "carries \<tau> r \<longleftrightarrow> \<tau> (rn_id r) = Some (result_text r)"

definition parked :: "results \<Rightarrow> task_run list \<Rightarrow> bool" where
  "parked \<tau> rs \<longleftrightarrow> (\<forall>r \<in> set rs. rn_state r = Some Delivering \<longrightarrow> carries \<tau> r)"

text \<open>The runs whose result a suspended call may still store.\<close>

fun exec_writer :: "exec_frame \<Rightarrow> nat list" where
  "exec_writer x = [ex_rid (exec_of x)]"

fun recovered_writer :: "recovered_frame \<Rightarrow> nat list" where
  "recovered_writer (C_open rid y) = [rid]"
| "recovered_writer (C_get r y) = [rn_id r]"
| "recovered_writer (C_room t r y now) = [rn_id r]"
| "recovered_writer (C_save t r room y now) = [rn_id r]"
| "recovered_writer d = []"

fun writer :: "frame \<Rightarrow> nat list" where
  "writer (Executing x) = exec_writer x"
| "writer (Recovered d) = recovered_writer d"
| "writer f = []"

definition over :: "nat \<Rightarrow> sched \<Rightarrow> bool" where
  "over rid S \<longleftrightarrow> rid \<notin> set (sc_live S) \<and> rid \<notin> set (sc_closing S)"

fun exec_tx :: "results \<Rightarrow> sched \<Rightarrow> exec_frame \<Rightarrow> bool" where
  "exec_tx \<tau> S (X_open e) \<longleftrightarrow> \<tau> (ex_rid e) = None \<and> isRunActive (ex_rid e) S \<and> over (ex_rid e) S"
| "exec_tx \<tau> S (X_room e) \<longleftrightarrow> \<tau> (ex_rid e) = None \<and> isRunActive (ex_rid e) S \<and> over (ex_rid e) S"
| "exec_tx \<tau> S x \<longleftrightarrow> \<tau> (ex_rid (exec_of x)) = None \<and> isRunActive (ex_rid (exec_of x)) S"

fun delivery_tx :: "results \<Rightarrow> delivery_frame \<Rightarrow> bool" where
  "delivery_tx \<tau> (D_room t r now) \<longleftrightarrow> carries \<tau> r"
| "delivery_tx \<tau> (D_send t r now room n) \<longleftrightarrow> carries \<tau> r"
| "delivery_tx \<tau> d \<longleftrightarrow> True"

fun tick_tx :: "results \<Rightarrow> tick_frame \<Rightarrow> bool" where
  "tick_tx \<tau> (R_get k now r rs) \<longleftrightarrow> parked \<tau> (r # rs)"
| "tick_tx \<tau> (R_close k now rid st rs) \<longleftrightarrow> parked \<tau> rs \<and> is_closed (Some st)"
| "tick_tx \<tau> d \<longleftrightarrow> True"

fun recovered_tx :: "results \<Rightarrow> sched \<Rightarrow> recovered_frame \<Rightarrow> bool" where
  "recovered_tx \<tau> S (C_open rid y) \<longleftrightarrow> over rid S"
| "recovered_tx \<tau> S (C_get r y) \<longleftrightarrow> \<tau> (rn_id r) = None \<and> over (rn_id r) S"
| "recovered_tx \<tau> S (C_room t r y now) \<longleftrightarrow> \<tau> (rn_id r) = None \<and> over (rn_id r) S"
| "recovered_tx \<tau> S (C_save t r room y now) \<longleftrightarrow> \<tau> (rn_id r) = None \<and> over (rn_id r) S"
| "recovered_tx \<tau> S (C_fresh t r now) \<longleftrightarrow> carries \<tau> r"
| "recovered_tx \<tau> S d \<longleftrightarrow> True"

definition closes :: "ledger option \<Rightarrow> bool" where
  "closes g \<longleftrightarrow> (case g of None \<Rightarrow> True | Some l \<Rightarrow> is_closed (Some (lg_state l)))"

fun failure_tx :: "failure_frame \<Rightarrow> bool" where
  "failure_tx (F_read t now started g) \<longleftrightarrow> closes g"
| "failure_tx (F_row l) \<longleftrightarrow> closes (Some l)"
| "failure_tx (F_save t started g stopped) \<longleftrightarrow> closes g"
| "failure_tx d \<longleftrightarrow> True"

fun frame_tx :: "results \<Rightarrow> sched \<Rightarrow> frame \<Rightarrow> bool" where
  "frame_tx \<tau> S (Executing x) \<longleftrightarrow> exec_tx \<tau> S x"
| "frame_tx \<tau> S (Sending d) \<longleftrightarrow> delivery_tx \<tau> d"
| "frame_tx \<tau> S (Failing d) \<longleftrightarrow> failure_tx d"
| "frame_tx \<tau> S (Ticking d) \<longleftrightarrow> tick_tx \<tau> d"
| "frame_tx \<tau> S (Recovered d) \<longleftrightarrow> recovered_tx \<tau> S d"
| "frame_tx \<tau> S (R_wait k now rs) \<longleftrightarrow> parked \<tau> rs"
| "frame_tx \<tau> S (X_send rid) \<longleftrightarrow> \<tau> rid \<noteq> None"
| "frame_tx \<tau> S f \<longleftrightarrow> True"

definition run_tx :: "results \<Rightarrow> nat \<Rightarrow> task_run \<Rightarrow> bool" where
  "run_tx \<tau> n r \<longleftrightarrow> (rn_state r = Some Delivering \<longrightarrow> carries \<tau> r) \<and> (rn_state r = Some Running \<longrightarrow> \<tau> (rn_id r) = None) \<and> rn_id r < n"

definition runs_tx :: "results \<Rightarrow> nat \<Rightarrow> task_run list \<Rightarrow> bool" where
  "runs_tx \<tau> n rs \<longleftrightarrow> (\<forall>r \<in> set rs. run_tx \<tau> n r)"

fun msg_tx :: "results \<Rightarrow> task_msg \<Rightarrow> bool" where
  "msg_tx \<tau> (room, Run_txn rid, Body_result t x) \<longleftrightarrow> \<tau> rid = Some x"
| "msg_tx \<tau> m \<longleftrightarrow> True"

definition writers :: "frame list list \<Rightarrow> nat list" where
  "writers ps = concat (map writer (concat ps))"

definition tx :: "results \<Rightarrow> sched \<Rightarrow> bool" where
  "tx \<tau> S \<longleftrightarrow> runs_tx \<tau> (sc_fresh S) (db_runs (sc_db S)) \<and> (\<forall>p \<in> set (sc_procs S). \<forall>f \<in> set p. frame_tx \<tau> S f)
     \<and> distinct (writers (sc_procs S)) \<and> (\<forall>rid \<in> set (writers (sc_procs S)). rid < sc_fresh S)
     \<and> (\<forall>m \<in> set (sc_sent S). msg_tx \<tau> m)
     \<and> (\<forall>rid \<in> set (sc_live S) \<union> set (sc_closing S) \<union> dom \<tau>. rid < sc_fresh S)
     \<and> set (sc_live S) \<inter> set (sc_closing S) = {}"

subsection \<open>Suspended calls\<close>

definition idle :: "nat \<Rightarrow> sched \<Rightarrow> bool" where
  "idle rid S \<longleftrightarrow> rid \<notin> set (writers (sc_procs S)) \<and> rid < sc_fresh S"

lemma closing_put [simp]: "sc_closing (put p S) = sc_closing S" "sc_live (put p S) = sc_live S"
  by (simp_all add: put_def)

lemma over_put [simp]: "over rid (put p S) = over rid S"
  by (simp add: over_def)

lemma active_put [simp]: "isRunActive rid (put p S) = isRunActive rid S"
  by (simp add: isRunActive_def)

lemma frame_tx_cong:
  assumes "sc_active S' = sc_active S" and "sc_live S' = sc_live S" and "sc_closing S' = sc_closing S"
  shows "frame_tx \<tau> S' f = frame_tx \<tau> S f"
proof -
  have o: "over rid S' = over rid S" and a: "isRunActive rid S' = isRunActive rid S" for rid
    using assms by (simp_all add: over_def isRunActive_def)
  show ?thesis
  proof (cases f)
    case (Executing x)
    then show ?thesis by (cases x) (simp_all add: o a)
  next
    case (Recovered d)
    then show ?thesis by (cases d) (simp_all add: o)
  qed simp_all
qed

lemma frame_tx_put [simp]: "frame_tx \<tau> (put p S) f = frame_tx \<tau> S f"
  by (rule frame_tx_cong) simp_all

lemma writers_Cons [simp]: "writers (p # ps) = concat (map writer p) @ writers ps"
  by (simp add: writers_def)

lemma tx_put:
  "tx \<tau> (put p S) \<longleftrightarrow> tx \<tau> S \<and> (\<forall>f \<in> set p. frame_tx \<tau> S f) \<and> distinct (concat (map writer p))
     \<and> (\<forall>rid \<in> set (concat (map writer p)). idle rid S)"
  unfolding tx_def idle_def by auto

lemma tx_pop:
  assumes "tx \<tau> (put (f # rest) S)"
  shows "tx \<tau> (put rest S)" and "frame_tx \<tau> S f" and "\<forall>rid \<in> set (writer f). idle rid (put rest S)"
  using assms unfolding tx_put by (auto simp: idle_def)

lemma tx_push:
  assumes "tx \<tau> (put rest S)" and "frame_tx \<tau> S f" and "distinct (writer f)" and "\<forall>rid \<in> set (writer f). idle rid (put rest S)"
  shows "tx \<tau> (put (f # rest) S)"
  using assms unfolding tx_put by (auto simp: idle_def)

lemma tx_plain: "tx \<tau> (put rest S) \<Longrightarrow> frame_tx \<tau> S f \<Longrightarrow> writer f = [] \<Longrightarrow> tx \<tau> (put (f # rest) S)"
  by (rule tx_push) simp_all

lemma tx_new: "tx \<tau> S \<Longrightarrow> frame_tx \<tau> S f \<Longrightarrow> writer f = [] \<Longrightarrow> tx \<tau> (put [f] S)"
  by (simp add: tx_put)

lemma tx_below: "tx \<tau> (put p S) \<Longrightarrow> tx \<tau> S"
  by (simp add: tx_put)

subsection \<open>Changes of the state\<close>

definition calm_step :: "sched \<Rightarrow> sched \<Rightarrow> bool" where
  "calm_step S S' \<longleftrightarrow> db_runs (sc_db S') = db_runs (sc_db S) \<and> sc_procs S' = sc_procs S \<and> sc_sent S' = sc_sent S
     \<and> sc_active S' = sc_active S \<and> sc_live S' = sc_live S \<and> sc_closing S' = sc_closing S \<and> sc_fresh S \<le> sc_fresh S'"

lemma runs_tx_mono: "runs_tx \<tau> n rs \<Longrightarrow> n \<le> m \<Longrightarrow> runs_tx \<tau> m rs"
  by (fastforce simp: runs_tx_def run_tx_def)

lemma tx_calm:
  assumes "tx \<tau> S" and c: "calm_step S S'"
  shows "tx \<tau> S'"
proof -
  have f: "frame_tx \<tau> S' f = frame_tx \<tau> S f" for f
    using c by (intro frame_tx_cong) (simp_all add: calm_step_def)
  have le: "sc_fresh S \<le> sc_fresh S'" using c by (simp add: calm_step_def)
  show ?thesis
    using assms le unfolding tx_def calm_step_def f
    by (auto intro: runs_tx_mono order_less_le_trans)
qed

lemma calm_put: "calm_step S S' \<Longrightarrow> calm_step (put p S) (put p S')"
  by (simp add: calm_step_def)

lemma calm_simps [simp]:
  "calm_step S (S\<lparr>sc_recovering := b\<rparr>)" "calm_step S (ask_alarm at S)" "calm_step S (release i S)"
  "calm_step S (S\<lparr>sc_wakes := w\<rparr>)" "calm_step S (set_tick k ti S)" "calm_step S (S\<lparr>sc_firing := fs\<rparr>)" "calm_step S S"
  by (simp_all add: calm_step_def ask_alarm_def release_def set_tick_def)

lemma set_task_same [simp]: "db_runs (set_task t db) = db_runs db"
  by (simp add: set_task_def)

lemma save_same: "save_task t db = Some db' \<Longrightarrow> db_runs db' = db_runs db"
  by (auto simp: save_task_def split: option.splits if_splits)

lemma claim_same: "claim_approval i db = (took, db') \<Longrightarrow> db_runs db' = db_runs db"
  by (auto simp: claim_approval_def split: option.splits if_splits)

lemma approve_same: "approve_task i at nt db = (took, db') \<Longrightarrow> db_runs db' = db_runs db"
  by (auto simp: approve_task_def split: option.splits if_splits)

lemma insert_same: "insert_new t db = Some db' \<Longrightarrow> db_runs db' = db_runs db"
  by (auto simp: insert_new_def insert_task_def split: if_splits)

text \<open>The table of runs changes while everything else stays.\<close>

lemma tx_runs:
  assumes "tx \<tau> S" and "runs_tx \<tau> (sc_fresh S) (db_runs d)"
  shows "tx \<tau> (S\<lparr>sc_db := d\<rparr>)"
proof -
  have "frame_tx \<tau> (S\<lparr>sc_db := d\<rparr>) f = frame_tx \<tau> S f" for f by (rule frame_tx_cong) simp_all
  with assms show ?thesis by (simp add: tx_def)
qed

lemma prune_tx: "runs_tx \<tau> n (db_runs db) \<Longrightarrow> runs_tx \<tau> n (db_runs (pruneRuns i db))"
  by (auto simp: runs_tx_def run_tx_def carries_def result_text_def pruneRuns_def Let_def is_closed_def split: if_splits)

lemma record_tx: "runs_tx \<tau> n (db_runs db) \<Longrightarrow> run_tx \<tau> n r \<Longrightarrow> runs_tx \<tau> n (db_runs (recordRun r db))"
  unfolding recordRun_def by (rule prune_tx) (auto simp: runs_tx_def)

lemma start_tx: "runs_tx \<tau> n (db_runs db) \<Longrightarrow> \<tau> rid = None \<Longrightarrow> rid < n \<Longrightarrow> runs_tx \<tau> n (db_runs (startRun rid i started db))"
  unfolding startRun_def by (rule record_tx) (simp_all add: run_tx_def)

lemma update_runs: "db_runs (updateRun rid p db) = map (\<lambda>r. if rn_id r = rid then patch_run db p r else r) (db_runs db)"
  by (simp add: updateRun_def)

lemma patch_run_id [simp]: "rn_id (patch_run db p r) = rn_id r"
  by (simp add: patch_run_def Let_def)

text \<open>A change that closes the run, or leaves its state and text alone.\<close>

lemma update_tx:
  assumes "runs_tx \<tau> n (db_runs db)"
    and "is_closed (pt_state p) \<or> (pt_state p = None \<and> pt_text p = None)"
  shows "runs_tx \<tau> n (db_runs (updateRun rid p db))"
proof -
  have "run_tx \<tau> n (patch_run db p r)" if "run_tx \<tau> n r" for r
  proof (cases "pt_state p")
    case None
    with that assms(2) show ?thesis
      by (simp add: run_tx_def carries_def result_text_def patch_run_def Let_def is_closed_def)
  next
    case (Some st)
    with that assms(2) show ?thesis by (auto simp: run_tx_def patch_run_def Let_def is_closed_def)
  qed
  with assms(1) show ?thesis by (auto simp: runs_tx_def update_runs)
qed

lemma closing_changes [simp]:
  "is_closed (pt_state delivered_changes)" "is_closed (pt_state dropped_changes)"
  "is_closed (pt_state (failed_changes g)) = is_closed (Some (lg_state g))"
  "is_closed (pt_state (dropped_changes\<lparr>pt_state := Some st\<rparr>)) = is_closed (Some st)"
  "pt_state (no_changes\<lparr>pt_attempts := n, pt_retry := a\<rparr>) = None" "pt_text (no_changes\<lparr>pt_attempts := n, pt_retry := a\<rparr>) = None"
  "is_closed (Some R_failed)" "is_closed (Some Interrupted)"
  by (simp_all add: delivered_changes_def dropped_changes_def failed_changes_def no_changes_def is_closed_def)

lemma tx_update:
  assumes "tx \<tau> S" and "db_runs db = db_runs (sc_db S)"
    and "is_closed (pt_state p) \<or> (pt_state p = None \<and> pt_text p = None)"
  shows "tx \<tau> (S\<lparr>sc_db := updateRun rid p db\<rparr>)"
  by (rule tx_runs [OF assms(1)], rule update_tx [OF _ assms(3)]) (use assms in \<open>simp add: tx_def\<close>)

lemma tx_tasks: "tx \<tau> S \<Longrightarrow> db_runs db = db_runs (sc_db S) \<Longrightarrow> tx \<tau> (S\<lparr>sc_db := db\<rparr>)"
  by (erule tx_calm) (simp add: calm_step_def)

lemma tx_sent: "tx \<tau> S \<Longrightarrow> msg_tx \<tau> m \<Longrightarrow> tx \<tau> (log_msg m S)"
proof -
  assume a: "tx \<tau> S" "msg_tx \<tau> m"
  have "frame_tx \<tau> (log_msg m S) f = frame_tx \<tau> S f" for f by (rule frame_tx_cong) (simp_all add: log_msg_def)
  with a show ?thesis by (simp add: tx_def log_msg_def)
qed

lemma tx_audit: "tx \<tau> S \<Longrightarrow> st \<noteq> Some Delivering \<Longrightarrow> st \<noteq> Some Running \<Longrightarrow> tx \<tau> (new_audit i started st ok S)"
proof -
  assume t: "tx \<tau> S" and st: "st \<noteq> Some Delivering" "st \<noteq> Some Running"
  have 1: "tx \<tau> (S\<lparr>sc_fresh := Suc (sc_fresh S)\<rparr>)" (is "tx \<tau> ?S") by (rule tx_calm [OF t]) (simp add: calm_step_def)
  have "runs_tx \<tau> (sc_fresh ?S) (db_runs (recordRun (audit_row (sc_fresh S) i started st ok) (sc_db S)))"
    by (rule record_tx) (use 1 st in \<open>simp_all add: tx_def run_tx_def audit_row_def\<close>)
  from tx_runs [OF 1 this] show ?thesis by (simp add: new_audit_def)
qed

text \<open>A run leaves \<open>activeRuns\<close>: no call executes it any more, or its result is stored.\<close>

lemma tx_drop:
  assumes t: "tx \<tau> S" and r: "rid \<notin> set (writers (sc_procs S)) \<or> \<tau> rid \<noteq> None"
  shows "tx \<tau> (drop_active rid S)"
proof -
  have o: "over x (drop_active rid S) = over x S" for x by (simp add: over_def drop_active_def)
  have a: "isRunActive x (drop_active rid S) = (isRunActive x S \<and> x \<noteq> rid)" for x
    by (auto simp: isRunActive_def drop_active_def)
  have "frame_tx \<tau> (drop_active rid S) f" if "p \<in> set (sc_procs S)" "f \<in> set p" for p f
  proof -
    have f: "frame_tx \<tau> S f" using t that by (simp add: tx_def)
    have w: "set (writer f) \<subseteq> set (writers (sc_procs S))" using that by (auto simp: writers_def)
    show ?thesis
    proof (cases f)
      case (Executing x)
      with f w r show ?thesis by (cases x) (auto simp: o a)
    next
      case (Recovered d)
      with f show ?thesis by (cases d) (simp_all add: o)
    qed (use f in simp_all)
  qed
  then show ?thesis using t by (simp add: tx_def drop_active_def)
qed

lemma tx_activate: "tx \<tau> S \<Longrightarrow> tx \<tau> (activate rid i S)"
proof -
  assume t: "tx \<tau> S"
  have "frame_tx \<tau> (activate rid i S) f" if "p \<in> set (sc_procs S)" "f \<in> set p" for p f
  proof -
    have f: "frame_tx \<tau> S f" using t that by (simp add: tx_def)
    have o: "over x (activate rid i S) = over x S" for x by (simp add: over_def activate_def)
    have a: "isRunActive x S \<Longrightarrow> isRunActive x (activate rid i S)" for x by (auto simp: isRunActive_def activate_def)
    show ?thesis
    proof (cases f)
      case (Executing x)
      with f show ?thesis by (cases x) (auto simp: o a)
    next
      case (Recovered d)
      with f show ?thesis by (cases d) (simp_all add: o)
    qed (use f in simp_all)
  qed
  then show ?thesis using t by (simp add: tx_def activate_def)
qed

text \<open>The result of a run is stored by the only call that could.\<close>

lemma carries_upd: "rn_id r \<noteq> rid \<Longrightarrow> carries (\<tau>(rid := v)) r = carries \<tau> r"
  by (simp add: carries_def)

lemma frame_tx_store:
  assumes "frame_tx \<tau> S f" and "\<tau> rid = None" and "rid \<notin> set (writer f)"
  shows "frame_tx (\<tau>(rid := Some x)) S f"
proof -
  have c: "carries \<tau> r \<Longrightarrow> carries (\<tau>(rid := Some x)) r" for r using assms(2) by (auto simp: carries_def)
  then have p: "parked \<tau> rs \<Longrightarrow> parked (\<tau>(rid := Some x)) rs" for rs by (auto simp: parked_def)
  show ?thesis
  proof (cases f)
    case (Executing y)
    with assms show ?thesis by (cases y) auto
  next
    case (Sending d)
    with assms c show ?thesis by (cases d) simp_all
  next
    case (Ticking d)
    with assms p show ?thesis by (cases d) simp_all
  next
    case (Recovered d)
    with assms c show ?thesis by (cases d) auto
  qed (use assms p in auto)
qed

lemma tx_store:
  assumes t: "tx \<tau> S" and r: "idle rid S" "\<tau> rid = None" and d: "db_runs db = db_runs (sc_db S)"
  shows "tx (\<tau>(rid := Some x)) (S\<lparr>sc_db := updateRun rid (stored_changes room x) db\<rparr>)" (is "tx ?\<tau> ?S")
proof -
  have f: "frame_tx ?\<tau> ?S f" if "p \<in> set (sc_procs S)" "f \<in> set p" for p f
  proof -
    have "rid \<notin> set (writer f)" using r that by (auto simp: idle_def writers_def)
    then have "frame_tx ?\<tau> S f" using t that r by (intro frame_tx_store) (simp_all add: tx_def)
    then show ?thesis using frame_tx_cong [of ?S S] by simp
  qed
  have runs: "runs_tx ?\<tau> (sc_fresh S) (db_runs (updateRun rid (stored_changes room x) db))"
  proof -
    have "run_tx ?\<tau> (sc_fresh S) (if rn_id q = rid then patch_run db (stored_changes room x) q else q)"
      if "q \<in> set (db_runs (sc_db S))" for q
    proof -
      have "run_tx \<tau> (sc_fresh S) q" using t that by (simp add: tx_def runs_tx_def)
      then show ?thesis
        by (auto simp: run_tx_def carries_def result_text_def patch_run_def stored_changes_def no_changes_def Let_def)
    qed
    then show ?thesis unfolding runs_tx_def update_runs d set_map by blast
  qed
  have m: "msg_tx ?\<tau> m" if "msg_tx \<tau> m" for m
    using that r by (cases "(\<tau>, m)" rule: msg_tx.cases) auto
  show ?thesis using t f runs m r by (auto simp: tx_def idle_def)
qed

end
