(* ===== verification/Task_Single.thy ===== *)
theory Task_Single
  imports Task_Texts
begin

text \<open>
  Starting, delivering, failing and executing a run keep \<open>tx\<close>; the ghost grows where a result is stored.
\<close>

lemma tx_cont: "tx \<tau> (put rest S) \<Longrightarrow> calm_step S S' \<Longrightarrow> tx \<tau> (put rest S')"
  by (erule tx_calm) (rule calm_put)

lemma put_ops:
  "put p (drop_active rid S) = drop_active rid (put p S)" "put p (activate rid i S) = activate rid i (put p S)"
  "put p (log_msg m S) = log_msg m (put p S)" "put p (new_audit i a st ok S) = new_audit i a st ok (put p S)"
  by (simp_all add: put_def drop_active_def activate_def log_msg_def new_audit_def)

lemma tx_active:
  assumes t: "tx \<tau> S"
  shows "tx \<tau> (S\<lparr>sc_active := a # sc_active S\<rparr>)" (is "tx \<tau> ?S")
proof -
  have "frame_tx \<tau> S g \<Longrightarrow> frame_tx \<tau> ?S g" for g
  proof -
    assume g: "frame_tx \<tau> S g"
    have o: "over x ?S = over x S" for x by (simp add: over_def)
    have a: "isRunActive x S \<Longrightarrow> isRunActive x ?S" for x by (auto simp: isRunActive_def)
    show ?thesis
    proof (cases g)
      case (Executing x)
      with g show ?thesis by (cases x) (auto simp: o a)
    next
      case (Recovered d)
      with g show ?thesis by (cases d) (simp_all add: o)
    qed (use g in simp_all)
  qed
  with t show ?thesis by (simp add: tx_def)
qed

lemma tx_begun:
  assumes t: "tx \<tau> (put rest S)"
  shows "tx \<tau> (put (Executing (X_open \<lparr>ex_rid = sc_fresh S, ex_task = u, ex_approved = ap, ex_note = nt, ex_now = now\<rparr>) # rest)
    (S\<lparr>sc_fresh := Suc (sc_fresh S), sc_active := (sc_fresh S, i) # sc_active S\<rparr>))" (is "tx \<tau> (put (?f # rest) ?S)")
proof (rule tx_push)
  have "tx \<tau> (put rest (S\<lparr>sc_fresh := Suc (sc_fresh S)\<rparr>))" by (rule tx_cont [OF t]) (simp add: calm_step_def)
  from tx_active [OF this, of "(sc_fresh S, i)"] show "tx \<tau> (put rest ?S)" by (rule tx_calm) (simp add: calm_step_def put_def)
  have "\<tau> (sc_fresh S) = None" "sc_fresh S \<notin> set (sc_live S)" "sc_fresh S \<notin> set (sc_closing S)"
    using t by (fastforce simp: tx_def)+
  then show "frame_tx \<tau> ?S ?f" by (simp add: over_def isRunActive_def)
  have "sc_fresh S \<notin> set (writers (sc_procs (put rest S)))"
  proof
    assume "sc_fresh S \<in> set (writers (sc_procs (put rest S)))"
    with t have "sc_fresh S < sc_fresh (put rest S)" unfolding tx_def by blast
    then show False by simp
  qed
  then show "\<forall>rid \<in> set (writer ?f). idle rid (put rest ?S)" by (simp add: idle_def)
qed simp

lemma fire_tx: "tx \<tau> (put rest S) \<Longrightarrow> tx \<tau> (fire t now rest S)"
  by (simp add: fire_def executeRun_def requestApproval_def Let_def tx_begun tx_plain)

lemma worker_done_tx: "tx \<tau> S \<Longrightarrow> tx \<tau> (worker_done k S)"
proof -
  assume "tx \<tau> S"
  then have "tx \<tau> (set_tick k ti S)" for ti by (rule tx_calm) simp
  then show ?thesis by (simp add: worker_done_def Let_def tx_new)
qed

lemma next_job_tx: "tx \<tau> S \<Longrightarrow> tx \<tau> (next_job reload k S)"
proof -
  assume t: "tx \<tau> S"
  have s: "tx \<tau> ((set_tick k ti S)\<lparr>sc_firing := fs\<rparr>)" for ti fs
    by (rule tx_calm [OF t]) (simp add: calm_step_def set_tick_def)
  have "tx \<tau> (put [W_fire k i] ((set_tick k ti S)\<lparr>sc_firing := fs\<rparr>))" for i ti fs by (rule tx_new [OF s]) simp_all
  then show ?thesis using t s
    by (auto simp: next_job_def Let_def worker_done_tx tx_new fire_tx split: list.split)
qed

lemma start_workers_tx: "tx \<tau> S \<Longrightarrow> tx \<tau> (start_workers n k S)"
  by (induction n k S rule: start_workers.induct) (simp_all add: next_job_tx)

lemma reconcile_tx: "tx \<tau> S \<Longrightarrow> parked \<tau> rs \<Longrightarrow> tx \<tau> (reconcile_loop k now rs S)"
proof (induction k now rs S rule: reconcile_loop.induct)
  case (1 k now S)
  then show ?case by (simp add: tx_new)
next
  case (2 k now r rs S)
  have rs: "parked \<tau> rs" using 2(5) by (simp add: parked_def)
  have p: "tx \<tau> (put [Ticking (R_get k now r rs)] S)" using 2(4,5) by (intro tx_new) simp_all
  have "tx \<tau> (S\<lparr>sc_recovering := rn_task r # sc_recovering S\<rparr>)" by (rule tx_calm [OF 2(4)]) simp
  with 2 p rs show ?case by simp
qed

lemma rearm_tx: "tx \<tau> S \<Longrightarrow> tx \<tau> (rearm S)"
  unfolding rearm_def by (rule tx_new) simp_all

lemma tx_unsend:
  assumes "tx \<tau> (put (X_send rid # rest) S)"
  shows "tx \<tau> (put rest (drop_active rid S))"
proof -
  have "\<tau> rid \<noteq> None" and "tx \<tau> (put rest S)" using tx_pop [OF assms] by simp_all
  then show ?thesis unfolding put_ops by (intro tx_drop) simp_all
qed

lemma ret_tx: "tx \<tau> (put rest S) \<Longrightarrow> tx \<tau> (ret rest S)"
proof (induction rest S rule: ret.induct)
  case (1 k i rest S)
  have "tx \<tau> (release i S)" by (rule tx_calm [OF tx_below [OF 1]]) simp
  then show ?case by (simp add: next_job_tx)
next
  case (2 rid rest S)
  then show ?case using tx_unsend by simp
next
  case (3 k now rs rest S)
  then have "parked \<tau> rs" using tx_pop(2) by fastforce
  with 3 show ?case by (simp add: reconcile_tx tx_below)
next
  case (4 i rest S)
  have "tx \<tau> (S\<lparr>sc_recovering := removeAll i (sc_recovering S)\<rparr>)" by (rule tx_calm [OF tx_below [OF 4]]) simp
  then show ?case by (simp add: rearm_tx)
qed (auto dest: tx_below)

lemma throw_tx: "tx \<tau> (put rest S) \<Longrightarrow> tx \<tau> (throw_to rest S)"
proof (induction rest S rule: throw_to.induct)
  case (1 k i rest S)
  have "tx \<tau> (release i S)" by (rule tx_calm [OF tx_below [OF 1]]) simp
  then show ?case by (simp add: next_job_tx)
next
  case (2 rid rest S)
  then show ?case using tx_unsend by simp
next
  case (3 i rest S)
  have "tx \<tau> (S\<lparr>sc_recovering := removeAll i (sc_recovering S)\<rparr>)" by (rule tx_calm [OF tx_below [OF 3]]) simp
  then show ?case by (simp add: rearm_tx)
qed (auto dest: tx_below)

subsection \<open>Delivery and failures\<close>

lemma deliver_tx: "tx \<tau> (put rest S) \<Longrightarrow> carries \<tau> r \<Longrightarrow> tx \<tau> (deliverOrDefer E t r now rest S)"
  by (cases "rn_room r") (simp_all add: deliverOrDefer_def tx_plain)

lemma round_failed_tx: "tx \<tau> (put rest S) \<Longrightarrow> tx \<tau> (round_failed E nowMs t r now rest S)"
  by (simp add: round_failed_def Let_def tx_plain closes_def)

lemma sent_cont: "tx \<tau> (put rest S) \<Longrightarrow> msg_tx \<tau> m \<Longrightarrow> tx \<tau> (put rest (log_msg m S))"
  unfolding put_ops by (rule tx_sent)

lemma update_cont:
  "tx \<tau> (put rest S) \<Longrightarrow> db_runs db = db_runs (sc_db S) \<Longrightarrow> is_closed (pt_state p) \<or> (pt_state p = None \<and> pt_text p = None)
   \<Longrightarrow> tx \<tau> (put rest (S\<lparr>sc_db := updateRun rid p db\<rparr>))"
  unfolding put_db by (rule tx_update) simp_all

lemma tasks_cont: "tx \<tau> (put rest S) \<Longrightarrow> db_runs db = db_runs (sc_db S) \<Longrightarrow> tx \<tau> (put rest (S\<lparr>sc_db := db\<rparr>))"
  unfolding put_db by (rule tx_tasks) simp_all

lemma audit_cont: "tx \<tau> (put rest S) \<Longrightarrow> st \<noteq> Some Delivering \<Longrightarrow> st \<noteq> Some Running \<Longrightarrow> tx \<tau> (put rest (new_audit i started st ok S))"
  unfolding put_ops by (rule tx_audit)

lemma body_carries [simp]: "carries \<tau> r \<Longrightarrow> msg_tx \<tau> (room, Run_txn (rn_id r), result_body t r)"
  by (simp add: carries_def result_body_def result_text_def)

lemma delivery_tx:
  assumes "tx \<tau> (put (Sending d # rest) S)"
  shows "tx \<tau> (resume_delivery E nowMs ans d rest S)"
proof -
  have c: "tx \<tau> (put rest S)" and f: "delivery_tx \<tau> d" using tx_pop [OF assms] by simp_all
  show ?thesis
  proof (cases d)
    case (D_room t r now)
    with f c show ?thesis by (cases "room_of t ans") (simp_all add: round_failed_tx tx_plain)
  next
    case (D_send t r now room n)
    have "tx \<tau> (put rest (log_msg (room, Run_txn (rn_id r), result_body t r) S))"
      using c f D_send by (intro sent_cont) simp_all
    with f c D_send show ?thesis by (cases ans) (simp_all add: round_failed_tx tx_plain Let_def)
  next
    case (D_defer rid n at)
    let ?S = "S\<lparr>sc_db := updateRun rid (no_changes\<lparr>pt_attempts := Some n, pt_retry := Some (Some at)\<rparr>) (sc_db S)\<rparr>"
    have "tx \<tau> (put rest ?S)" by (rule update_cont [OF c]) simp_all
    then have "tx \<tau> (put rest (ask_alarm at ?S))" by (rule tx_cont) simp
    with c D_defer show ?thesis by (cases ans) (simp_all add: throw_tx tx_plain)
  next
    case D_alarm
    with c show ?thesis by (cases ans) (simp_all add: throw_tx ret_tx)
  next
    case (D_done t r)
    let ?t = "delivered_task r (case db_get (tk_id t) (sc_db S) of None \<Rightarrow> t | Some c \<Rightarrow> c)"
    have "tx \<tau> (ret rest (S\<lparr>sc_db := updateRun (rn_id r) delivered_changes db\<rparr>))" if "save_task ?t (sc_db S) = Some db" for db
      by (rule ret_tx, rule update_cont [OF c save_same [OF that]]) simp
    with c D_done show ?thesis by (cases ans) (auto simp: throw_tx split: option.split)
  qed
qed

lemma notice_cont: "tx \<tau> (put rest S) \<Longrightarrow> tx \<tau> (put rest (send_notice t g room S))"
proof -
  assume c: "tx \<tau> (put rest S)"
  have "tx \<tau> (put rest (S\<lparr>sc_fresh := Suc (sc_fresh S)\<rparr>))" by (rule tx_cont [OF c]) (simp add: calm_step_def)
  with c show ?thesis by (cases g) (auto simp: send_notice_def intro!: sent_cont)
qed

lemma failure_tx:
  assumes "tx \<tau> (put (Failing d # rest) S)"
  shows "tx \<tau> (resume_failure E nowMs ans d rest S)"
proof -
  have c: "tx \<tau> (put rest S)" and f: "failure_tx d" using tx_pop [OF assms] by simp_all
  show ?thesis
  proof (cases d)
    case (F_read u now started l)
    have "tx \<tau> (put (Failing (F_save t' started l stopped) # rest) S)" for t' stopped
      using c f F_read by (simp add: tx_plain)
    moreover have "tx \<tau> (put (Failing (F_row x) # rest) S)" if "l = Some x" for x
      using c f F_read that by (simp add: tx_plain)
    ultimately show ?thesis
      unfolding F_read resume_failure.simps Let_def
      using c by (auto simp: throw_tx ret_tx split: task_answer.split option.split prod.split)
  next
    case (F_row l)
    have "tx \<tau> (put rest (S\<lparr>sc_db := updateRun (lg_rid l) (failed_changes l) (sc_db S)\<rparr>))"
      by (rule update_cont [OF c]) (use f F_row in \<open>simp_all add: closes_def\<close>)
    with F_row c show ?thesis by (cases ans) (simp_all add: throw_tx ret_tx)
  next
    case (F_save t started l stopped)
    show ?thesis
    proof (cases "save_task t (sc_db S)")
      case None
      with F_save c show ?thesis by (cases ans) (simp_all add: throw_tx)
    next
      case (Some db)
      have "tx \<tau> (put rest (write_failure t started l db S))"
      proof (cases l)
        case None
        have "tx \<tau> (put rest (S\<lparr>sc_db := db\<rparr>))" by (rule tasks_cont [OF c save_same [OF Some]])
        with None show ?thesis by (simp add: write_failure_def audit_cont)
      next
        case (Some g)
        with F_save f show ?thesis
          using update_cont [OF c save_same [OF \<open>save_task t (sc_db S) = Some db\<close>]]
          by (simp add: write_failure_def closes_def)
      qed
      then have "tx \<tau> (put (Failing (F_room t l) # rest) (write_failure t started l db S))" "tx \<tau> (ret rest (write_failure t started l db S))"
        by (simp_all add: tx_plain ret_tx)
      with F_save c Some show ?thesis by (cases ans) (simp_all add: throw_tx Let_def)
    qed
  next
    case (F_room t l)
    with c show ?thesis by (cases "room_of t ans") (simp_all add: ret_tx tx_plain)
  next
    case (F_send t l room n)
    with c notice_cont [OF c] show ?thesis by (cases ans) (simp_all add: ret_tx tx_plain Let_def)
  qed
qed

subsection \<open>Executing a run\<close>

lemma tx_live:
  assumes t: "tx \<tau> S" and i: "idle rid S" and n: "rid \<notin> set (sc_closing S)"
  shows "tx \<tau> (S\<lparr>sc_turns := e # sc_turns S, sc_live := rid # sc_live S\<rparr>)" (is "tx \<tau> ?S")
proof -
  have o: "over x ?S = (over x S \<and> x \<noteq> rid)" for x by (auto simp: over_def)
  have a: "isRunActive x ?S = isRunActive x S" for x by (simp add: isRunActive_def)
  have "frame_tx \<tau> ?S f" if "p \<in> set (sc_procs S)" "f \<in> set p" for p f
  proof -
    have f: "frame_tx \<tau> S f" using t that by (simp add: tx_def)
    have w: "rid \<notin> set (writer f)" using i that by (auto simp: idle_def writers_def)
    show ?thesis
    proof (cases f)
      case (Executing x)
      with f w show ?thesis by (cases x) (auto simp: o a)
    next
      case (Recovered d)
      with f w show ?thesis by (cases d) (auto simp: o)
    qed (use f in simp_all)
  qed
  then show ?thesis using t i n by (simp add: tx_def idle_def)
qed

lemma fails_tx:
  assumes "tx \<tau> (put rest S)" and "idle (ex_rid e) (put rest S)"
  shows "tx \<tau> (run_fails e t rest S)"
proof -
  have "tx \<tau> (put rest (drop_active (ex_rid e) S))"
    unfolding put_ops by (rule tx_drop) (use assms in \<open>simp_all add: idle_def\<close>)
  then show ?thesis by (simp add: run_fails_def tx_plain closes_def is_closed_def)
qed

lemma begin_turn_tx:
  assumes t: "tx \<tau> (put rest S)" and i: "idle (ex_rid e) (put rest S)"
    and e: "\<tau> (ex_rid e) = None" "isRunActive (ex_rid e) S" "over (ex_rid e) S"
  shows "tx \<tau> (begin_turn e room rest S)"
proof -
  let ?S = "S\<lparr>sc_turns := e # sc_turns S, sc_live := ex_rid e # sc_live S\<rparr>"
  have "tx \<tau> ((put rest S)\<lparr>sc_turns := e # sc_turns (put rest S), sc_live := ex_rid e # sc_live (put rest S)\<rparr>)"
    by (rule tx_live [OF t i]) (use e in \<open>simp add: over_def\<close>)
  then have "tx \<tau> (put rest ?S)" by (rule tx_calm) (simp add: calm_step_def put_def)
  moreover have "idle (ex_rid e) (put rest ?S)" using i by (simp add: idle_def)
  ultimately show ?thesis unfolding begin_turn_def by (rule_tac tx_push) (use e in \<open>simp_all add: isRunActive_def\<close>)
qed

lemma exec_tx_good:
  assumes "tx \<tau> (put (Executing x # rest) S)"
  shows "\<exists>\<tau>'. tx \<tau>' (resume_exec E nowMs ans x rest S)"
proof -
  have c: "tx \<tau> (put rest S)" and f: "exec_tx \<tau> S x" and i: "\<forall>rid \<in> set (exec_writer x). idle rid (put rest S)"
    using tx_pop [OF assms] by simp_all
  show ?thesis
  proof (cases x)
    case (X_open e)
    obtain took db where cl: "(if ex_approved e then claim_approval (tk_id (ex_task e)) (sc_db S) else (True, sc_db S)) = (took, db)"
      by fastforce
    have same: "db_runs db = db_runs (sc_db S)" using cl claim_same by (auto split: if_splits)
    have id: "idle (ex_rid e) (put rest S)" using i X_open by simp
    have d: "tx \<tau> (put rest (drop_active (ex_rid e) S))"
      unfolding put_ops by (rule tx_drop [OF c]) (use id in \<open>simp add: idle_def\<close>)
    let ?S = "S\<lparr>sc_db := startRun (ex_rid e) (tk_id (ex_task e)) (ex_now e) db,
      sc_claims := (if ex_approved e then (ex_rid e, tk_id (ex_task e)) # sc_claims S else sc_claims S)\<rparr>"
    have "runs_tx \<tau> (sc_fresh (put rest S)) (db_runs (startRun (ex_rid e) (tk_id (ex_task e)) (ex_now e) db))"
      by (rule start_tx) (use c same f id X_open in \<open>simp_all add: tx_def idle_def\<close>)
    from tx_runs [OF c this] have c': "tx \<tau> (put rest ?S)" by (rule tx_calm) (simp add: calm_step_def put_def)
    have id': "idle (ex_rid e) (put rest ?S)" using id by (simp add: idle_def)
    have e: "\<tau> (ex_rid e) = None" "isRunActive (ex_rid e) ?S" "over (ex_rid e) ?S"
      using f X_open by (simp_all add: over_def isRunActive_def)
    have b: "tx \<tau> (begin_turn e None rest ?S)" by (rule begin_turn_tx [OF c' id' e])
    have r: "tx \<tau> (put (Executing (X_room e) # rest) ?S)" by (rule tx_push [OF c']) (use id' e in simp_all)
    have "tx \<tau> (resume_exec E nowMs ans x rest S)"
    proof (cases "ans = Done")
      case True
      then show ?thesis using X_open cl ret_tx [OF d] b r by (simp add: Let_def)
    next
      case False
      then show ?thesis using X_open fails_tx [OF c id] by (cases ans) simp_all
    qed
    then show ?thesis by blast
  next
    case (X_room e)
    with i f have "idle (ex_rid e) (put rest S)" "\<tau> (ex_rid e) = None" "isRunActive (ex_rid e) S" "over (ex_rid e) S" by simp_all
    with X_room c have "tx \<tau> (resume_exec E nowMs ans x rest S)"
      by (cases "room_of (ex_task e) ans") (simp_all add: fails_tx begin_turn_tx)
    then show ?thesis by blast
  next
    case (X_turn e room)
    with i f have e: "idle (ex_rid e) (put rest S)" "\<tau> (ex_rid e) = None" "isRunActive (ex_rid e) S" by simp_all
    have "tx \<tau> (put (Executing (X_read e room body) # rest) S)" for body by (rule tx_push [OF c]) (use e in simp_all)
    with X_turn c e have "tx \<tau> (resume_exec E nowMs ans x rest S)"
      by (cases ans) (simp_all add: fails_tx)
    then show ?thesis by blast
  next
    case (X_read e room body)
    with i f have e: "idle (ex_rid e) (put rest S)" "\<tau> (ex_rid e) = None" "isRunActive (ex_rid e) S" by simp_all
    have "tx \<tau> (put (Executing (X_store e room t body) # rest) S)" for t by (rule tx_push [OF c]) (use e in simp_all)
    moreover have "tx \<tau> (put (Executing (X_drop e) # rest) S)" by (rule tx_push [OF c]) (use e in simp_all)
    ultimately have "tx \<tau> (resume_exec E nowMs ans x rest S)"
      using X_read c e by (cases ans) (simp_all add: fails_tx split: option.split)
    then show ?thesis by blast
  next
    case (X_drop e)
    have "tx \<tau> (put rest (S\<lparr>sc_db := updateRun (ex_rid e) dropped_changes (sc_db S)\<rparr>))" by (rule update_cont [OF c]) simp_all
    then have d: "tx \<tau> (ret rest (S\<lparr>sc_db := updateRun (ex_rid e) dropped_changes (sc_db S)\<rparr>))" by (rule ret_tx)
    have "tx \<tau> (run_fails e (ex_task e) rest S)" by (rule fails_tx [OF c]) (use i X_drop in simp)
    then show ?thesis using X_drop d by (cases ans) auto
  next
    case (X_store e room t body)
    with i f have e: "idle (ex_rid e) (put rest S)" "\<tau> (ex_rid e) = None" by simp_all
    have g: "tx \<tau> (run_fails e t rest S)" by (rule fails_tx [OF c e(1)])
    show ?thesis
    proof (cases "ans = Done \<and> save_task t (sc_db S) \<noteq> None")
      case True
      then obtain db where db: "save_task t (sc_db S) = Some db" by auto
      let ?S = "S\<lparr>sc_db := updateRun (ex_rid e) (stored_changes room body) db\<rparr>"
      let ?\<tau> = "\<tau>(ex_rid e := Some body)"
      have "tx ?\<tau> (put rest ?S)"
        unfolding put_db by (rule tx_store [OF c e]) (use save_same [OF db] in simp)
      then have "tx ?\<tau> (put (X_send (ex_rid e) # rest) ?S)" by (rule tx_plain) simp_all
      then have "tx ?\<tau> (deliverOrDefer E t (delivering_run (ex_rid e) (tk_id t) (ex_now e) room body) (ex_now e) (X_send (ex_rid e) # rest) ?S)"
        by (rule deliver_tx) (simp add: carries_def delivering_run_def result_text_def)
      then show ?thesis using True db X_store by auto
    next
      case False
      with X_store g have "tx \<tau> (resume_exec E nowMs ans x rest S)" by (cases ans) auto
      then show ?thesis by blast
    qed
  qed
qed

end
