(* ===== verification/Task_Result.thy ===== *)
theory Task_Result
  imports Task_Single
begin

text \<open>
  The other operations and the moves keep the invariant of \<open>Task_Texts\<close>; two messages for a run that
  got out have the same text.
\<close>

definition one_text :: "sched \<Rightarrow> bool" where
  "one_text S \<longleftrightarrow> (\<exists>\<tau>. tx \<tau> S)"

lemma one_text: "tx \<tau> S \<Longrightarrow> one_text S"
  by (auto simp: one_text_def)

lemma request_tx:
  assumes "tx \<tau> (put (Requesting d # rest) S)"
  shows "tx \<tau> (resume_request E nowMs ans d rest S)"
proof -
  have c: "tx \<tau> (put rest S)" using tx_pop [OF assms] by simp
  have fl: "tx \<tau> (request_fails t now rest T)" if "tx \<tau> (put rest T)" for t now T
    using that by (simp add: request_fails_def tx_plain closes_def)
  show ?thesis
  proof (cases d)
    case (Q_room t now)
    with c show ?thesis by (cases "room_of t ans") (simp_all add: fl tx_plain)
  next
    case (Q_send t now room n)
    have "tx \<tau> (put rest (log_msg (approval_msg t room) S))" by (rule sent_cont [OF c]) (simp add: approval_msg_def)
    with Q_send c show ?thesis by (cases ans) (simp_all add: fl tx_plain Let_def)
  next
    case (Q_save t now)
    have "tx \<tau> (ret rest (new_audit (tk_id t) now None None (S\<lparr>sc_db := db\<rparr>)))" if "save_task t (sc_db S) = Some db" for db
      by (rule ret_tx, rule audit_cont, rule tasks_cont [OF c save_same [OF that]]) simp_all
    with Q_save c show ?thesis by (cases ans) (simp_all add: fl split: option.split)
  qed
qed

lemma open_parked: "runs_tx \<tau> n (db_runs db) \<Longrightarrow> parked \<tau> (openRuns db)"
  by (simp add: parked_def openRuns_def runs_tx_def run_tx_def)

lemma tick_tx_good:
  assumes "tx \<tau> (put (Ticking d # rest) S)"
  shows "tx \<tau> (resume_tick E ans d rest S)"
proof -
  have t: "tx \<tau> S" and f: "tick_tx \<tau> d" using tx_pop [OF assms] tx_below by simp_all
  have j: "tx \<tau> (next_job True k (release i S))" for k i
    by (rule next_job_tx, rule tx_calm [OF t]) simp
  show ?thesis
  proof (cases d)
    case (R_open k now)
    have "tx \<tau> (S\<lparr>sc_recovering := []\<rparr>)" by (rule tx_calm [OF t]) simp
    moreover have "parked \<tau> (openRuns (sc_db S))" by (rule open_parked [of _ "sc_fresh S"]) (use t in \<open>simp add: tx_def\<close>)
    ultimately show ?thesis using R_open t by (cases ans) (simp_all add: reconcile_tx)
  next
    case (R_get k now r rs)
    have rs: "parked \<tau> rs" "rn_state r = Some Delivering \<Longrightarrow> carries \<tau> r" using f R_get by (simp_all add: parked_def)
    have w: "tx \<tau> (put [R_wait k now rs] S)" by (rule tx_new [OF t]) (use rs in simp_all)
    have cl: "tx \<tau> (put [Ticking (R_close k now rid st rs)] S)" if "is_closed (Some st)" for rid st
      by (rule tx_new [OF t]) (use rs that in simp_all)
    have fl: "tx \<tau> (put [Failing (F_read u now started (Some (Ledger (rn_id r) Interrupted False))), R_wait k now rs] S)" for u started
      by (rule tx_plain [OF w]) (simp_all add: closes_def)
    show ?thesis using R_get t rs(2) cl fl deliver_tx [OF w]
      by (cases ans) (auto split: option.split)
  next
    case (R_close k now rid st rs)
    have "tx \<tau> (S\<lparr>sc_db := updateRun rid (dropped_changes\<lparr>pt_state := Some st\<rparr>) (sc_db S)\<rparr>)"
      by (rule tx_update [OF t]) (use f R_close in simp_all)
    with R_close f t show ?thesis by (cases ans) (simp_all add: reconcile_tx)
  next
    case (T_due k now)
    have "tx \<tau> (set_tick k ti S)" for ti by (rule tx_calm [OF t]) simp
    with T_due t show ?thesis by (cases ans) (simp_all add: Let_def tx_new start_workers_tx)
  next
    case (W_read k i)
    have "tx \<tau> (put [W_fire k i] S)" by (rule tx_new [OF t]) simp_all
    with W_read j show ?thesis by (cases ans) (auto simp: fire_tx split: option.split)
  next
    case (T_wake k busy)
    have "tx \<tau> (S\<lparr>sc_wakes := w\<rparr>)" for w by (rule tx_calm [OF t]) simp
    with T_wake t show ?thesis by (cases ans) simp_all
  qed
qed

lemma found_open:
  assumes "getOpenRun rid (sc_db S) = Some r" and "rn_state r = Some Running" and "tx \<tau> S"
  shows "rn_id r = rid" and "\<tau> rid = None" and "rid < sc_fresh S"
proof -
  have r: "r \<in> set (db_runs (sc_db S))" "rn_id r = rid" using assms(1) by (auto simp: getOpenRun_def find_Some_iff)
  then show "rn_id r = rid" "\<tau> rid = None" "rid < sc_fresh S"
    using assms(2,3) by (auto simp: tx_def runs_tx_def run_tx_def)
qed

lemma recovered_save_tx:
  assumes c: "tx \<tau> (put rest S)" and i: "idle rid (put rest S)" and n: "\<tau> rid = None" and s: "save_task t (sc_db S) = Some db"
    and r: "rn_id r = rid" "rn_text r = Some body"
  shows "tx (\<tau>(rid := Some body)) (put (Recovered (C_fresh t r now) # rest) (S\<lparr>sc_db := updateRun rid (stored_changes room body) db\<rparr>))"
proof (rule tx_plain)
  show "tx (\<tau>(rid := Some body)) (put rest (S\<lparr>sc_db := updateRun rid (stored_changes room body) db\<rparr>))"
    unfolding put_db by (rule tx_store [OF c i n]) (use save_same [OF s] in simp)
qed (use r in \<open>simp_all add: carries_def result_text_def\<close>)

lemma recovered_tx_good:
  assumes "tx \<tau> (put (Recovered d # rest) S)"
  shows "one_text (resume_recovered E nowMs ans d rest S)"
proof -
  have c: "tx \<tau> (put rest S)" and f: "recovered_tx \<tau> S d" and i: "\<forall>rid \<in> set (recovered_writer d). idle rid (put rest S)"
    using tx_pop [OF assms] by simp_all
  have t: "tx \<tau> S" by (rule tx_below [OF c])
  have th: "one_text (throw_to rest S)" by (rule one_text, rule throw_tx [OF c])
  have s: "one_text S" by (rule one_text [OF t])
  have close: "one_text (ret rest (S\<lparr>sc_db := updateRun rid p (sc_db S)\<rparr>))" if "is_closed (pt_state p)" for rid p
    by (rule one_text, rule ret_tx, rule update_cont [OF c]) (use that in simp_all)
  show ?thesis
  proof (cases d)
    case (C_open rid y)
    have "one_text (put [Recovered (C_get r y), C_fin (rn_task r)] S)"
      if r: "getOpenRun rid (sc_db S) = Some r" "rn_state r = Some Running" for r
    proof (rule one_text, rule tx_push)
      show "tx \<tau> (put [C_fin (rn_task r)] S)" by (rule tx_new [OF t]) simp_all
      show "frame_tx \<tau> S (Recovered (C_get r y))" using found_open [OF r t] f C_open by simp
      show "\<forall>x \<in> set (writer (Recovered (C_get r y))). idle x (put [C_fin (rn_task r)] S)"
        using found_open [OF r t] i C_open by (simp add: idle_def)
    qed simp
    with C_open s show ?thesis by (cases ans) (auto split: option.split)
  next
    case (C_get r y)
    have e: "\<tau> (rn_id r) = None" "over (rn_id r) S" "idle (rn_id r) (put rest S)" using f i C_get by simp_all
    have "one_text (put (Recovered (C_drop (rn_id r)) # rest) S)"
      by (rule one_text, rule tx_plain [OF c]) simp_all
    moreover have "one_text (put (Failing (F_read u nowMs (rn_started r) (Some (Ledger (rn_id r) R_failed False))) # rest) S)" for u
      by (rule one_text, rule tx_plain [OF c]) (simp_all add: closes_def)
    moreover have "one_text (put (Recovered (C_save u r room y' nowMs) # rest) S)" for u room y'
      by (rule one_text, rule tx_push [OF c]) (use e in simp_all)
    moreover have "one_text (put (Recovered (C_room u r y' nowMs) # rest) S)" for u y'
      by (rule one_text, rule tx_push [OF c]) (use e in simp_all)
    ultimately show ?thesis using C_get th by (cases ans) (auto simp: Let_def split: option.split)
  next
    case (C_drop rid)
    with close [of dropped_changes] th show ?thesis by (cases ans) simp_all
  next
    case (C_room u r y now)
    have e: "\<tau> (rn_id r) = None" "over (rn_id r) S" "idle (rn_id r) (put rest S)" using f i C_room by simp_all
    have "tx \<tau> (put (Recovered (C_save u r (room_of u ans) y now) # rest) S)"
      by (rule tx_push [OF c]) (use e in simp_all)
    with C_room one_text show ?thesis by simp
  next
    case (C_save u r room y now)
    have e: "idle (rn_id r) (put rest S)" "\<tau> (rn_id r) = None" using f i C_save by simp_all
    have "one_text (put (Recovered (C_fresh u (delivering_run (rn_id r) (tk_id u) (rn_started r) room y) now) # rest)
        (S\<lparr>sc_db := updateRun (rn_id r) (stored_changes room y) db\<rparr>))" if "save_task u (sc_db S) = Some db" for db
      by (rule one_text, rule recovered_save_tx [OF c e that]) (simp_all add: delivering_run_def)
    with C_save th show ?thesis by (cases ans) (auto split: option.split)
  next
    case (C_fresh u r now)
    let ?u = "case db_get (tk_id u) (sc_db S) of None \<Rightarrow> u | Some x \<Rightarrow> x"
    have r: "carries \<tau> r" using f C_fresh by simp
    have "tx \<tau> (put rest (activate (rn_id r) (tk_id ?u) S))" unfolding put_ops by (rule tx_activate [OF c])
    then have "tx \<tau> (put (X_send (rn_id r) # rest) (activate (rn_id r) (tk_id ?u) S))"
      by (rule tx_plain) (use r in \<open>simp_all add: carries_def\<close>)
    then have "tx \<tau> (deliverOrDefer E ?u (r\<lparr>rn_task := tk_id ?u\<rparr>) now (X_send (rn_id r) # rest) (activate (rn_id r) (tk_id ?u) S))"
      by (rule deliver_tx) (use r in \<open>simp add: carries_def result_text_def\<close>)
    with C_fresh th show ?thesis by (cases ans) (simp_all add: one_text Let_def)
  next
    case (G_open rid)
    have "one_text (put [Recovered (G_get r), C_fin (rn_task r)] S)" for r
      by (rule one_text, rule tx_plain, rule tx_new [OF t]) simp_all
    with G_open s show ?thesis by (cases ans) (auto split: option.split)
  next
    case (G_get r)
    have "one_text (put (Recovered (G_close (rn_id r)) # rest) S)"
      by (rule one_text, rule tx_plain [OF c]) simp_all
    moreover have "one_text (put (Failing (F_read u nowMs (rn_started r) (Some (Ledger (rn_id r) Interrupted False))) # rest) S)" for u
      by (rule one_text, rule tx_plain [OF c]) (simp_all add: closes_def)
    ultimately show ?thesis using G_get th by (cases ans) (auto split: option.split)
  next
    case (G_close rid)
    with close [of "dropped_changes\<lparr>pt_state := Some Interrupted\<rparr>"] th show ?thesis by (cases ans) simp_all
  next
    case (A_wake busy)
    have "one_text (ask_alarm at S)" for at by (rule one_text, rule tx_calm [OF t]) simp
    with A_wake s show ?thesis by (cases ans) (simp_all split: option.split)
  qed
qed

subsection \<open>The surface and the moves\<close>

lemma surface_tx:
  assumes "tx \<tau> (put (Calling d # rest) S)"
  shows "tx \<tau> (resume_surface E nowMs ans d S)"
proof -
  have t: "tx \<tau> S" using tx_pop(1) [OF assms] by (rule tx_below)
  have p: "tx \<tau> (put [Calling d'] T)" if "tx \<tau> T" for T d' by (rule tx_new [OF that]) simp_all
  have al: "tx \<tau> (ask_alarm at T)" if "tx \<tau> T" for at T by (rule tx_calm [OF that]) simp
  have sv: "tx \<tau> (surface_save res S)" for res
    using t p by (auto simp: surface_save_def split: sum.split option.split)
  have db: "tx \<tau> (S\<lparr>sc_db := db'\<rparr>)" if "db_runs db' = db_runs (sc_db S)" for db' by (rule tx_tasks [OF t that])
  show ?thesis
  proof (cases d)
    case (P_load op i)
    with t sv p show ?thesis by (cases op) (auto split: option.split)
  next
    case (P_save u at)
    with t show ?thesis by (auto split: option.split intro!: al db dest: save_same)
  next
    case (P_decide u approve nt at)
    have ap: "tx \<tau> (S\<lparr>sc_db := d', sc_grants := g\<rparr>)" if "save_task u (sc_db S) = Some db'" "approve_task i at' m db' = (took, d')"
      for db' d' took i at' m g
      by (rule tx_calm [OF t]) (use save_same [OF that(1)] approve_same [OF that(2)] in \<open>simp add: calm_step_def\<close>)
    have ad: "tx \<tau> (S\<lparr>sc_db := d'\<rparr>)" if "save_task u (sc_db S) = Some db'" "approve_task i at' m db' = (took, d')"
      for db' d' took i at' m
      by (rule db) (use save_same [OF that(1)] approve_same [OF that(2)] in simp)
    have "tx \<tau> (new_audit i at None None (S\<lparr>sc_db := db'\<rparr>))" if "save_task u (sc_db S) = Some db'" for i db'
      by (rule tx_audit [OF db [OF save_same [OF that]]]) simp_all
    with P_decide t show ?thesis by (auto simp: Let_def split: option.split prod.split intro!: al ap intro: ad)
  next
    case (N_count i tid problems)
    with t show ?thesis by (auto simp: Let_def create_room_def intro!: p split: option.split)
  next
    case (N_room u n)
    with t show ?thesis by (cases ans) (auto intro!: p split: option.split)
  next
    case (N_summary u n room)
    have "tx \<tau> (log_msg (room, No_txn, Body_summary) S)" by (rule tx_sent [OF t]) simp
    with N_summary t show ?thesis by (auto intro!: p)
  next
    case (N_insert u n)
    with t show ?thesis by (auto split: option.split intro!: al db dest: insert_same)
  qed
qed

lemma frame_one:
  assumes "tx \<tau> (put (f # rest) S)"
  shows "one_text (resume_frame E nowMs ans f rest S)"
proof (cases f)
  case (Executing x)
  with exec_tx_good [of \<tau> x rest S] assms show ?thesis by (simp add: resume_frame_def one_text_def)
next
  case (Recovered d)
  with recovered_tx_good assms show ?thesis by (simp add: resume_frame_def)
next
  case (Requesting d)
  with assms have "tx \<tau> (put (Requesting d # rest) S)" by simp
  from one_text [OF request_tx [OF this]] Requesting show ?thesis by (simp add: resume_frame_def)
next
  case (Sending d)
  with assms have "tx \<tau> (put (Sending d # rest) S)" by simp
  from one_text [OF delivery_tx [OF this]] Sending show ?thesis by (simp add: resume_frame_def)
next
  case (Failing d)
  with assms have "tx \<tau> (put (Failing d # rest) S)" by simp
  from one_text [OF failure_tx [OF this]] Failing show ?thesis by (simp add: resume_frame_def)
next
  case (Ticking d)
  with assms have "tx \<tau> (put (Ticking d # rest) S)" by simp
  from one_text [OF tick_tx_good [OF this]] Ticking show ?thesis by (simp add: resume_frame_def)
next
  case (Calling d)
  with assms have "tx \<tau> (put (Calling d # rest) S)" by simp
  from one_text [OF surface_tx [OF this]] Calling show ?thesis by (simp add: resume_frame_def)
qed (use ret_tx [OF assms] one_text in \<open>simp_all add: resume_frame_def\<close>)

lemma writers_append: "writers (a @ b) = writers a @ writers b"
  by (simp add: writers_def)

lemma tx_take_out:
  assumes t: "tx \<tau> S" and ps: "sc_procs S = a @ p # b"
  shows "tx \<tau> (put p (S\<lparr>sc_procs := a @ b\<rparr>))" (is "tx \<tau> ?S")
proof -
  have f: "frame_tx \<tau> ?S g = frame_tx \<tau> S g" for g by (rule frame_tx_cong) simp_all
  have "distinct (writers (sc_procs ?S)) = distinct (writers (sc_procs S))"
    and "set (writers (sc_procs ?S)) = set (writers (sc_procs S))"
    by (auto simp: ps writers_append)
  moreover have "(\<forall>q \<in> set (sc_procs ?S). \<forall>g \<in> set q. frame_tx \<tau> ?S g) = (\<forall>q \<in> set (sc_procs S). \<forall>g \<in> set q. frame_tx \<tau> S g)"
    unfolding f by (auto simp: ps)
  ultimately show ?thesis using t by (simp add: tx_def)
qed

lemma resume_one:
  assumes t: "tx \<tau> S"
  shows "one_text (resume_proc E i ans nowMs S)"
proof (cases "i < length (sc_procs S)")
  case True
  let ?S = "S\<lparr>sc_procs := take i (sc_procs S) @ drop (Suc i) (sc_procs S)\<rparr>"
  have p: "tx \<tau> (put (sc_procs S ! i) ?S)"
    by (rule tx_take_out [OF t]) (rule id_take_nth_drop [OF True])
  show ?thesis
  proof (cases "sc_procs S ! i")
    case Nil
    with one_text [OF tx_below [OF p]] True show ?thesis by (simp add: resume_proc_def Let_def)
  next
    case (Cons f rest)
    with p True show ?thesis by (simp add: resume_proc_def Let_def frame_one)
  qed
qed (use one_text [OF t] in \<open>simp add: resume_proc_def\<close>)

text \<open>A turn whose run left the live ones and is reported: nothing else may still store its result.\<close>

lemma turn_over_tx:
  assumes "tx \<tau> S" and "rid \<in> set (sc_live S)"
  shows "tx \<tau> (S\<lparr>sc_live := removeAll rid (sc_live S), sc_closing := rid # sc_closing S\<rparr>)" (is "tx \<tau> ?S")
proof -
  have o: "over x ?S = over x S" for x using assms(2) by (auto simp: over_def)
  have a: "isRunActive x ?S = isRunActive x S" for x by (simp add: isRunActive_def)
  have "frame_tx \<tau> ?S f = frame_tx \<tau> S f" for f
  proof (cases f)
    case (Executing x)
    then show ?thesis by (cases x) (simp_all add: o a)
  next
    case (Recovered d)
    then show ?thesis by (cases d) (simp_all add: o)
  qed simp_all
  with assms show ?thesis by (auto simp: tx_def)
qed

lemma reported_tx:
  assumes t: "tx \<tau> S"
  shows "tx \<tau> (S\<lparr>sc_closing := removeAll rid (sc_closing S)\<rparr>)" (is "tx \<tau> ?S")
proof -
  have o: "over x S \<Longrightarrow> over x ?S" for x by (auto simp: over_def)
  have a: "isRunActive x ?S = isRunActive x S" for x by (simp add: isRunActive_def)
  have "frame_tx \<tau> S f \<Longrightarrow> frame_tx \<tau> ?S f" for f
  proof (cases f)
    case (Executing x)
    moreover assume "frame_tx \<tau> S f"
    ultimately show ?thesis by (cases x) (simp_all add: o a)
  next
    case (Recovered d)
    moreover assume "frame_tx \<tau> S f"
    ultimately show ?thesis by (cases d) (simp_all add: o)
  qed simp_all
  with t show ?thesis by (auto simp: tx_def)
qed

lemma writer_alive:
  "frame_tx \<tau> S f \<Longrightarrow> rid \<in> set (writer f) \<Longrightarrow> isRunActive rid S \<or> over rid S"
  by (cases "(\<tau>, S, f)" rule: frame_tx.cases) (auto elim!: exec_tx.elims recovered_tx.elims)

lemma reported_idle:
  assumes t: "tx \<tau> S" and "rid \<in> set (sc_closing S)" and "\<not> isRunActive rid S"
  shows "idle rid S"
proof -
  have "rid \<notin> set (writers (sc_procs S))"
  proof
    assume "rid \<in> set (writers (sc_procs S))"
    then obtain p f where "p \<in> set (sc_procs S)" "f \<in> set p" "rid \<in> set (writer f)" by (auto simp: writers_def)
    moreover from this t have "frame_tx \<tau> S f" by (simp add: tx_def)
    ultimately show False using writer_alive assms(2,3) by (fastforce simp: over_def)
  qed
  then show ?thesis using t assms(2) by (simp add: idle_def tx_def)
qed

lemma report_one:
  assumes t: "tx \<tau> S" and c: "rid \<in> set (sc_closing S)"
  shows "one_text (apply_move E (Run_reported rid out) S)"
proof -
  let ?S = "S\<lparr>sc_closing := removeAll rid (sc_closing S)\<rparr>"
  have k: "tx \<tau> ?S" by (rule reported_tx [OF t])
  have a: "isRunActive rid ?S = isRunActive rid S" by (simp add: isRunActive_def)
  have live: "rid \<notin> set (sc_live S)" using t c by (auto simp: tx_def)
  have "tx \<tau> (put [Recovered (C_open rid y)] ?S)" if "\<not> isRunActive rid S" for y
  proof (rule tx_push)
    show "tx \<tau> (put [] ?S)" using k by (simp add: tx_put)
    show "\<forall>x \<in> set (writer (Recovered (C_open rid y))). idle x (put [] ?S)"
      using reported_idle [OF t c that] by (simp add: idle_def)
  qed (use live in \<open>simp_all add: over_def\<close>)
  moreover have "tx \<tau> (put [Recovered (G_open rid)] ?S)" by (rule tx_new [OF k]) simp_all
  ultimately show ?thesis using k c a by (auto simp: apply_move_def Let_def split: option.split intro: one_text)
qed

lemma reset_tx:
  assumes "tx \<tau> S"
  shows "tx \<tau> (apply_move E (Reset keep) S)"
  using assms by (auto simp: apply_move_def tx_def writers_def)

lemma topic_tx: "tx \<tau> S \<Longrightarrow> tx \<tau> (apply_move E (Topic_start op req tid title intent now) S)"
proof -
  assume t: "tx \<tau> S"
  obtain res d where s: "startTopic E op req tid title intent now (sc_db S) = (res, d)" by fastforce
  then have "db_runs d = db_runs (sc_db S)"
    by (auto simp: startTopic_def Let_def dest: insert_same split: option.splits if_splits)
  then have d: "tx \<tau> (S\<lparr>sc_db := d\<rparr>)" by (rule tx_tasks [OF t])
  then have "tx \<tau> (ask_alarm n (S\<lparr>sc_db := d\<rparr>))" for n by (rule tx_calm) simp
  with s d show ?thesis by (auto simp: apply_move_def split: option.split sum.split)
qed

lemma topic_cancel_tx: "tx \<tau> S \<Longrightarrow> tx \<tau> (apply_move E (Topic_cancel op req tid title intent now) S)"
proof -
  assume t: "tx \<tau> S"
  obtain res d where s: "cancelTopic E op req tid title intent now (sc_db S) = (res, d)" by fastforce
  then have "db_runs d = db_runs (sc_db S)"
    by (auto simp: cancelTopic_def Let_def dest: insert_same save_same split: option.splits if_splits sum.splits)
  then have "tx \<tau> (S\<lparr>sc_db := d\<rparr>)" by (rule tx_tasks [OF t])
  with s show ?thesis by (simp add: apply_move_def)
qed

lemma move_one:
  assumes "one_text S"
  shows "one_text (apply_move E m S)"
proof -
  obtain \<tau> where t: "tx \<tau> S" using assms by (auto simp: one_text_def)
  show ?thesis
  proof (cases m)
    case (Tick now)
    have "tx \<tau> (S\<lparr>sc_fresh := Suc (sc_fresh S)\<rparr>)" by (rule tx_calm [OF t]) (simp add: calm_step_def)
    with Tick show ?thesis by (auto simp: apply_move_def onAlarm_def intro!: one_text tx_new)
  next
    case (Resume i ans nowMs)
    then show ?thesis by (simp add: apply_move_def resume_one [OF t])
  next
    case (Run_reported rid out)
    with assms report_one [OF t] show ?thesis by (cases "rid \<in> set (sc_closing S)") (simp_all add: apply_move_def)
  next
    case (Turn_over rid)
    with assms one_text [OF turn_over_tx [OF t]] show ?thesis by (simp add: apply_move_def)
  next
    case (Reset keep)
    with one_text [OF reset_tx [OF t]] show ?thesis by simp
  next
    case (Topic_start op req tid title intent now)
    with one_text [OF topic_tx [OF t]] show ?thesis by simp
  next
    case (Topic_cancel op req tid title intent now)
    with one_text [OF topic_cancel_tx [OF t]] show ?thesis by simp
  next
    case (Surface op i)
    with t show ?thesis by (auto simp: apply_move_def intro!: one_text tx_new)
  next
    case (Create i tid nowMs)
    have "one_text (put [Calling d] S)" for d by (rule one_text, rule tx_new [OF t]) simp_all
    with Create assms show ?thesis by (simp add: apply_move_def)
  qed
qed

lemma start_one: "one_text fresh_start"
  by (rule one_text [of "\<lambda>_. None"]) (simp add: tx_def fresh_start_def task_boot_def runs_tx_def writers_def)

theorem moves_one_text: "one_text (run_moves E ms)"
  by (rule run_moves_induct) (simp_all add: start_one move_one)

text \<open>
  C34. All copies of the result of a run that get out carry the same text, whatever is retried, parked,
  recovered after a reset or sent by two ticks at once; and while the run is parked in the ledger, what a
  later round would send is that text too.
\<close>

theorem one_result_per_run:
  assumes "(room, Run_txn rid, Body_result title x) \<in> set (sc_sent (run_moves E ms))"
    and "(room', Run_txn rid, Body_result title' y) \<in> set (sc_sent (run_moves E ms))"
  shows "x = y \<and> (\<forall>r \<in> set (db_runs (sc_db (run_moves E ms))).
    rn_id r = rid \<and> rn_state r = Some Delivering \<longrightarrow> rn_text r = Some x \<or> (rn_text r = None \<and> x = []))"
proof -
  obtain \<tau> where t: "tx \<tau> (run_moves E ms)" using moves_one_text [of E ms] by (auto simp: one_text_def)
  have m: "msg_tx \<tau> m" if "m \<in> set (sc_sent (run_moves E ms))" for m using t that by (simp add: tx_def)
  have x: "\<tau> rid = Some x" using m [OF assms(1)] by simp
  moreover have "\<tau> rid = Some y" using m [OF assms(2)] by simp
  moreover have "run_tx \<tau> (sc_fresh (run_moves E ms)) r" if "r \<in> set (db_runs (sc_db (run_moves E ms)))" for r
    using t that by (simp add: tx_def runs_tx_def)
  ultimately show ?thesis by (auto simp: run_tx_def carries_def result_text_def split: option.splits)
qed

text \<open>A send whose answer is lost is repeated: the message is out twice, and the round fails in the end.\<close>

definition sent_twice :: "task_move list" where
  "sent_twice = first_turn @ [Resume 0 (Turn_text ''ok'') 3600001, Resume 0 Done 3600002, Resume 0 Done 3600003,
     Resume 0 (Send_fails True True) 3600004, Resume 0 (Send_fails True False) 3600005, Resume 0 Done 3600006]"

theorem one_result_per_run_witness:
  "length (sc_sent (run_moves demo_config sent_twice)) = 2
   \<and> rn_text (hd (db_runs (sc_db (run_moves demo_config sent_twice)))) = Some ''ok''"
proof
  let ?S = "run_moves demo_config sent_twice" and ?m = "(''r'', Run_txn 1, Body_result ''T'' ''ok'')"
  have sent: "sc_sent ?S = [?m, ?m]" by code_simp
  then show "length (sc_sent ?S) = 2" by simp
  let ?r = "hd (db_runs (sc_db ?S))"
  have r: "?r \<in> set (db_runs (sc_db ?S))" "rn_id ?r = 1" "rn_state ?r = Some Delivering" by code_simp+
  have "?m \<in> set (sc_sent ?S)" unfolding sent by simp
  from one_result_per_run [OF this this] r show "rn_text ?r = Some ''ok''" by blast
qed

end
