(* ===== verification/Spec2Isabelle.thy ===== *)
theory Spec2Isabelle imports Capability Resource_Issuer Proof_Walks Ucan_Authorize Run_Store Run_Findings Vfs_Findings Task_Cron Task_Findings Task_Result begin

text \<open>
  Verification library of the QiForge runtime.

  QiForge runs one agent per user. In the workers runtime (\<open>packages/oracle-runtime-workers\<close>) a user has
  an object with a database of its own: turns come in over HTTP, channels and Matrix, each is executed as
  a durable run whose output readers may join again, scheduled tasks re-enter the same agent on the
  object's alarm, and everything the user owns lies in one SQLite file that the object keeps in its
  storage and, for what is cold, in a bucket. Who may ask for what is decided by UCAN delegations
  (\<open>packages/ucan\<close>). The library models four parts of this.

  \<^bold>\<open>Authorisation\<close> (\<open>packages/ucan/src\<close>).
  \<^item> \<open>Capability\<close>: \<open>capabilities/capability.ts\<close>; along a chain of accepted links the claim stays within the root's grant.
  \<^item> \<open>Resource_Issuer\<close>: \<open>resourceNamesIssuer\<close> of \<open>validator/validator.ts\<close>, against the owner of a resource by the rule
    its comment states; it accepts more than the owner in one case.
  \<^item> \<open>Proof_Chain\<close>, \<open>Proof_Walks\<close>: the tree of proofs of a token, the bounds on its shape, and the walks over it
    (universal resource, validity window, CIDs for revocation, reported chain).
  \<^item> \<open>Invocation_Store\<close>, \<open>Replay\<close>: \<open>store/memory.ts\<close> and \<open>reserveInvocation\<close>. The locales \<open>atomic_replay\<close> and
    \<open>plain_replay\<close> state what the validator relies on, for the two kinds of store; the in-memory store interprets both.
  \<^item> \<open>Ucan_Messages\<close>, \<open>Ucan_Validator\<close>, \<open>Ucan_Authorize\<close>: the rest of \<open>createUCANValidator\<close>: messages, resolution of
    DIDs with its memo, the signature walk, revocation, the decision of \<open>validate\<close> and \<open>validateDelegation\<close>.

  \<^bold>\<open>Durable runs\<close> (\<open>packages/oracle-runtime-workers/src/do\<close>).
  \<^item> \<open>Run_Buffer\<close>: \<open>run-buffer.ts\<close>. The locale \<open>segment_store\<close> is what it asks of a store of segments.
  \<^item> \<open>Run_Store\<close>: \<open>run-store.ts\<close>, every statement on lists of rows; it interprets \<open>segment_store\<close>. The claim of a write
    is three statements, which interleave with those of other claims.
  \<^item> \<open>Run_Coordinator\<close>: \<open>run-coordinator.ts\<close>, every method cut at its awaits, with the continuations in the state.
  \<^item> \<open>Run_Sessions\<close>, \<open>Run_Safety\<close>: the invariant over every interleaving; \<open>Run_Properties\<close>: what it gives
    (one attempt per session, no run forgotten, a final frame for every reader, what an abort leaves);
    \<open>Run_Findings\<close>: a history that ends in a state the comments rule out.

  \<^bold>\<open>The database file\<close> (\<open>packages/oracle-runtime-workers/src/sqlite\<close>).
  \<^item> \<open>Do_Vfs\<close>: the state and operations of \<open>do-vfs.ts\<close>, \<open>page-tier.ts\<close> and \<open>chunk-layout.ts\<close> for one file.
  \<^item> \<open>Vfs_Content\<close>: what a state means as bytes, and its invariant; \<open>Vfs_Refinement\<close>: the file as SQLite thinks of it, a
    size and bytes, current and saved; \<open>Vfs_Writes\<close>, \<open>Vfs_Flush\<close>, \<open>Vfs_Calls\<close>, \<open>Vfs_Background\<close>, \<open>Vfs_Evict\<close>, \<open>Vfs_Pass\<close>:
    each operation refines one of the plain file or leaves it alone; \<open>Vfs_Steps\<close>: every history does.
  \<^item> \<open>Vfs_Cold\<close>: \<open>retryingColdMisses\<close> of \<open>database.ts\<close>; \<open>Vfs_Import\<close>: whole files in and out.
  \<^item> \<open>Vfs_Atomic\<close>: the locale \<open>saved_copy\<close> (a working copy and a saved one) and its interpretation by the file: crash consistency.
  \<^item> \<open>Vfs_Properties\<close>, \<open>Vfs_Findings\<close>: the promises, and three places where they need their guards.

  \<^bold>\<open>Scheduled tasks\<close> (\<open>packages/oracle-runtime-workers/src/tasks\<close>).
  \<^item> \<open>Task_Schedule\<close>: \<open>schedule.ts\<close> and \<open>schedule-input.ts\<close>; \<open>Task_Cron\<close>: the frequency check of cron patterns against
    the fires themselves.
  \<^item> \<open>Task_Store\<close>: \<open>store.ts\<close>, the statements on the tables \<open>tasks\<close> and \<open>task_runs\<close>.
  \<^item> \<open>Task_State\<close>, \<open>Task_Scheduler\<close>, \<open>Task_Surface\<close>: \<open>scheduler.ts\<close>. A call that awaits is a stack of frames in the
    state (\<open>sc_procs\<close>); resuming one runs the code up to the next await. The moves are ticks of the alarm, resumed
    calls with any answer (a rejected statement, a lost message), calls of the plugin surface and of the Topic
    interface, turns that end, and resets of the object.
  \<^item> \<open>Task_Safety\<close>: the store's operations as steps of the tables, and the locale \<open>approval_marker\<close>, which the store
    interprets; \<open>Task_Good\<close>, \<open>Task_Invariant\<close>: the invariant and its preservation by every move; \<open>Task_Properties\<close>: what it
    gives; \<open>Task_Findings\<close>: reachable histories that go wrong.
  \<^item> \<open>Task_Texts\<close>, \<open>Task_Single\<close>, \<open>Task_Result\<close>: a second invariant over the same moves, with the text of each run's
    result as a ghost: all copies of a result that get out are the same.

  \<^bold>\<open>How the parts meet.\<close> A task run is a turn of the coordinator: \<open>sc_live\<close> of the scheduler is \<open>turnRunLive\<close>, the
  coordinator's live map, and the moves \<open>Turn_over\<close> and \<open>Run_reported\<close> are \<open>finalize\<close> and \<open>onRunEnded\<close>. The statements
  of the stores run on the database whose file the VFS keeps. The parts are verified separately, each against
  what it relies on; there is no theorem over all of them at once.

  \<^bold>\<open>Conventions.\<close> A string is a list of characters, of 16-bit units where length matters to the code. Times are integers in
  milliseconds, and an operation that reads the clock takes the time as an argument. Errors are values
  (\<open>option\<close>, sums, datatypes of refusals). Every await is a point where anything else may happen, unless the
  code holds a transaction; a statement on the database is atomic, as it holds the connection. Taken as one
  step although the code awaits in them are: \<open>materialize\<close> (which commits segment by segment), the reading
  of a file by \<open>exportFile\<close> and of its stream by \<open>importFromStream\<close>, and \<open>assertTurnProfile\<close> with its three reads.
  \<open>validate\<close> is a function of one call; \<open>Replay\<close> has its reservation and release as separate steps. Outside libraries are arguments: signature checks, resolvers and revocation, the
  calendar and the cron library, the contents of messages, the answers of the gateway and of the agent.

  \<^bold>\<open>Bounds and fuel.\<close> Loops are recursive on what they consume. \<open>retryingColdMisses\<close> is bounded by
  \<open>MAX_STATEMENT_MISS_RETRIES\<close>, 64, as in the code, and returns when no more segments than that are cold. The
  search for an offset change halves an interval, the scan for changes covers the 366 days of the code, the fires of
  a window the 3000 of the code. The block sizes of the VFS and the limits of the validator are those of the source.

  \<^bold>\<open>Assumptions that show in statements.\<close> \<open>write_guard\<close> and \<open>truncate_guard\<close> (\<open>Vfs_Calls\<close>): SQLite writes whole pages to a
  file with a tier and does not let a cut file grow before the flush; \<open>sound_fate\<close> (\<open>Vfs_Flush\<close>): a flush with a pending
  truncation of a tiered file is not rolled back; \<open>attach_guard\<close> (\<open>Vfs_Background\<close>): an object that is instantiated again in
  its isolate has no generation queued for deletion that was never stored. \<open>room_for\<close> (\<open>Invocation_Store\<close>): the
  replay store has room, so that no live mark is evicted. \<open>window_step\<close> (\<open>Run_Buffer\<close>): a pack that is written
  behind the read of a re-join does not settle before the re-join goes on. \<open>held_by\<close> (\<open>Run_Store\<close>): no call in
  progress is about to take over a claim that was warned when it read it. The boot rows of the coordinator hold at
  most one running or recovering run of a session. The findings show what happens without \<open>write_guard\<close>,
  \<open>sound_fate\<close>, \<open>attach_guard\<close> and \<open>held_by\<close>.

  \<^bold>\<open>Not modelled.\<close> The object class itself (\<open>user-oracle-do.ts\<close>) apart from the hand-over of ended runs; the directory
  operations and memory files of the VFS, the connection mutex; creation and migration of tables; log lines and
  the wording of most messages. Channels, the Matrix gateway, realtime sockets, the agent core, providers,
  plugins, the Node runtime, the client packages and the generated chain client are network protocols, calls
  of libraries or tables; none of their code is used by the parts above except through the parameters named.
\<close>

end
